(* ===== verification/Prelude.thy ===== *)
theory Prelude
  imports Main "HOL-Library.Word"
begin

text \<open>
  The vocabulary every other theory shares: machine words, bytes, pointers, the result type of a
  computation that may run into undefined behaviour, and typed object stores.

  A C function is modelled as a HOL function into \<open>'a res\<close>.  \<open>Inr x\<close> is an execution that
  returned \<open>x\<close>; \<open>Inl f\<close> is an execution that ran into undefined behaviour of the kind \<open>f\<close>
  (a null or indeterminate pointer dereferenced, freed memory used, a block overrun).  The status
  codes with which the program itself reports errors are ordinary values, see theory \<open>Status\<close>.
  \<open>malloc\<close>, \<open>calloc\<close> and \<open>realloc\<close> are taken to succeed: the program never looks at
  their result.
\<close>

section \<open>Machine integers, bytes\<close>

type_synonym u8 = "8 word"
type_synonym u16 = "16 word"
type_synonym u64 = "64 word"
type_synonym i32 = "32 word"
type_synonym i64 = "64 word"

text \<open>A byte of memory is a \<^typ>\<open>char\<close>, so that the wire literals of the source stay readable.\<close>

type_synonym byte = char
type_synonym bytes = "char list"

abbreviation NUL :: byte where
  "NUL \<equiv> CHR 0x00"

section \<open>Executions that may go wrong\<close>

datatype fault =
    NullDeref
  | WildPointer
  | UseAfterFree
  | DoubleFree
  | OutOfBounds
  | Uninitialised
  | Diverges

type_synonym 'a res = "fault + 'a"

definition andthen :: "'a res \<Rightarrow> ('a \<Rightarrow> 'b res) \<Rightarrow> 'b res" where
  "andthen m k = (case m of Inl f \<Rightarrow> Inl f | Inr x \<Rightarrow> k x)"

lemma andthen_Inr [simp]: "andthen (Inr x) k = k x"
  by (simp add: andthen_def)

lemma andthen_Inl [simp]: "andthen (Inl f) k = Inl f"
  by (simp add: andthen_def)

lemma andthen_eq_Inr: "andthen m k = Inr y \<longleftrightarrow> (\<exists>x. m = Inr x \<and> k x = Inr y)"
  by (cases m) auto

lemma andthen_eq_Inl:
  "andthen m k = Inl f \<longleftrightarrow> m = Inl f \<or> (\<exists>x. m = Inr x \<and> k x = Inl f)"
  by (cases m) auto

lemma andthen_InrE [elim!]:
  assumes "andthen m k = Inr y"
  obtains x where "m = Inr x" and "k x = Inr y"
  using assms by (auto simp: andthen_eq_Inr)

lemma andthen_assoc: "andthen (andthen m k) h = andthen m (\<lambda>x. andthen (k x) h)"
  by (cases m) auto

lemma andthen_cong [fundef_cong]:
  "m = m' \<Longrightarrow> (\<And>x. m' = Inr x \<Longrightarrow> k x = k' x) \<Longrightarrow> andthen m k = andthen m' k'"
  by (cases m') auto

text \<open>Running a body over a list, left to right, stopping at the first fault.\<close>

fun fold_res :: "('a \<Rightarrow> 's \<Rightarrow> 's res) \<Rightarrow> 'a list \<Rightarrow> 's \<Rightarrow> 's res" where
  "fold_res f [] s = Inr s"
| "fold_res f (x # xs) s = andthen (f x s) (fold_res f xs)"

lemma fold_res_append:
  "fold_res f (xs @ ys) s = andthen (fold_res f xs s) (fold_res f ys)"
  by (induction xs arbitrary: s) (auto simp: andthen_assoc intro: andthen_cong)

lemma fold_res_invariant:
  assumes "\<And>x s. x \<in> set xs \<Longrightarrow> P s \<Longrightarrow> \<exists>s'. f x s = Inr s' \<and> P s'" and "P s"
  shows "\<exists>s'. fold_res f xs s = Inr s' \<and> P s'"
  using assms
proof (induction xs arbitrary: s)
  case Nil
  then show ?case by simp
next
  case (Cons x xs)
  obtain t where t: "f x s = Inr t" "P t"
    using Cons.prems(1)[of x s] Cons.prems(2) by auto
  have "\<exists>s'. fold_res f xs t = Inr s' \<and> P s'"
    by (rule Cons.IH) (use Cons.prems(1) t(2) in auto)
  with t show ?case by simp
qed

section \<open>Statements on every execution\<close>

text \<open>\<open>yields\<close>: on whatever is returned.\<close>

definition yields :: "'a res \<Rightarrow> ('a \<Rightarrow> bool) \<Rightarrow> bool" where
  "yields m P \<longleftrightarrow> (\<forall>x. m = Inr x \<longrightarrow> P x)"

lemma yieldsD: "yields m P \<Longrightarrow> m = Inr x \<Longrightarrow> P x"
  by (simp add: yields_def)

lemma yields_intros:
  "yields (Inl e) P"
  "P x \<Longrightarrow> yields (Inr x) P"
  "(\<And>a. first = Inr a \<Longrightarrow> yields (k a) P) \<Longrightarrow> yields (andthen first k) P"
  "(b \<Longrightarrow> yields m P) \<Longrightarrow> (\<not> b \<Longrightarrow> yields m' P) \<Longrightarrow> yields (if b then m else m') P"
  "(\<And>y z. p = (y, z) \<Longrightarrow> yields (f y z) P) \<Longrightarrow> yields (case p of (y, z) \<Rightarrow> f y z) P"
  "(opt = None \<Longrightarrow> yields m P) \<Longrightarrow> (\<And>a. opt = Some a \<Longrightarrow> yields (h a) P) \<Longrightarrow>
    yields (case opt of None \<Rightarrow> m | Some v \<Rightarrow> h v) P"
  "(as = [] \<Longrightarrow> yields m P) \<Longrightarrow> (\<And>b bs. as = b # bs \<Longrightarrow> yields (g b bs) P) \<Longrightarrow>
    yields (case as of [] \<Rightarrow> m | b # bs \<Rightarrow> g b bs) P"
  by (auto simp: yields_def andthen_eq_Inr split: prod.splits option.splits list.splits)

text \<open>
  \<open>tame\<close>: also, no freed memory is used or freed again and no wild pointer is followed.
\<close>

definition tame :: "'a res \<Rightarrow> ('a \<Rightarrow> bool) \<Rightarrow> bool" where
  "tame m P \<longleftrightarrow> (case m of Inl e \<Rightarrow> e \<notin> {UseAfterFree, DoubleFree, WildPointer} | Inr x \<Rightarrow> P x)"

lemma tame_yields: "tame m P \<Longrightarrow> yields m P"
  by (auto simp: tame_def yields_def split: sum.splits)

lemma tame_mono: "tame m P \<Longrightarrow> (\<And>x. m = Inr x \<Longrightarrow> P x \<Longrightarrow> Q x) \<Longrightarrow> tame m Q"
  by (auto simp: tame_def split: sum.splits)

lemma tame_Inl: "e \<notin> {UseAfterFree, DoubleFree, WildPointer} \<Longrightarrow> tame (Inl e) P"
  by (simp add: tame_def)

lemma tame_andthen: "tame m Q \<Longrightarrow> (\<And>x. m = Inr x \<Longrightarrow> Q x \<Longrightarrow> tame (k x) P) \<Longrightarrow> tame (andthen m k) P"
  by (auto simp: tame_def split: sum.splits)

lemma tame_intros:
  "P x \<Longrightarrow> tame (Inr x) P"
  "(b \<Longrightarrow> tame m P) \<Longrightarrow> (\<not> b \<Longrightarrow> tame m' P) \<Longrightarrow> tame (if b then m else m') P"
  "(\<And>y z. p = (y, z) \<Longrightarrow> tame (f y z) P) \<Longrightarrow> tame (case p of (y, z) \<Rightarrow> f y z) P"
  "(opt = None \<Longrightarrow> tame m P) \<Longrightarrow> (\<And>v. opt = Some v \<Longrightarrow> tame (h v) P) \<Longrightarrow>
    tame (case opt of None \<Rightarrow> m | Some v \<Rightarrow> h v) P"
  "(as = [] \<Longrightarrow> tame m P) \<Longrightarrow> (\<And>b bs. as = b # bs \<Longrightarrow> tame (g b bs) P) \<Longrightarrow>
    tame (case as of [] \<Rightarrow> m | b # bs \<Rightarrow> g b bs) P"
  by (auto simp: tame_def split: prod.splits option.splits list.splits)

section \<open>Pointers and typed object stores\<close>

type_synonym addr = nat

text \<open>
  \<open>Wild\<close> is the value of a pointer variable that was never assigned.  Using it in any way is
  undefined behaviour, also where the source compares it with \<open>nullptr\<close> first.
\<close>

datatype ptr = Null | Wild | Ptr addr

text \<open>
  All objects of one C type live in one store.  \<open>cells\<close> holds the live objects, \<open>brk\<close> is the
  next address \<open>malloc\<close> hands out; addresses are not reused, so a stale pointer stays stale.
\<close>

record 'a store =
  cells :: "addr \<Rightarrow> 'a option"
  brk :: addr

definition empty_store :: "'a store" where
  "empty_store = \<lparr>cells = (\<lambda>_. None), brk = 0\<rparr>"

definition new_obj :: "'a \<Rightarrow> 'a store \<Rightarrow> ptr \<times> 'a store" where
  "new_obj x h = (Ptr (brk h), h\<lparr>cells := (cells h)(brk h := Some x), brk := Suc (brk h)\<rparr>)"

fun deref :: "'a store \<Rightarrow> ptr \<Rightarrow> 'a res" where
  "deref h Null = Inl NullDeref"
| "deref h Wild = Inl WildPointer"
| "deref h (Ptr a) = (case cells h a of None \<Rightarrow> Inl UseAfterFree | Some x \<Rightarrow> Inr x)"

fun assign :: "ptr \<Rightarrow> 'a \<Rightarrow> 'a store \<Rightarrow> 'a store res" where
  "assign Null x h = Inl NullDeref"
| "assign Wild x h = Inl WildPointer"
| "assign (Ptr a) x h =
     (case cells h a of None \<Rightarrow> Inl UseAfterFree
      | Some _ \<Rightarrow> Inr (h\<lparr>cells := (cells h)(a := Some x)\<rparr>))"

fun free_obj :: "ptr \<Rightarrow> 'a store \<Rightarrow> 'a store res" where
  "free_obj Null h = Inr h"
| "free_obj Wild h = Inl WildPointer"
| "free_obj (Ptr a) h =
     (case cells h a of None \<Rightarrow> Inl DoubleFree
      | Some _ \<Rightarrow> Inr (h\<lparr>cells := (cells h)(a := None)\<rparr>))"

definition live :: "'a store \<Rightarrow> ptr \<Rightarrow> bool" where
  "live h p \<longleftrightarrow> (\<exists>a x. p = Ptr a \<and> cells h a = Some x)"

definition store_ok :: "'a store \<Rightarrow> bool" where
  "store_ok h \<longleftrightarrow> (\<forall>a. brk h \<le> a \<longrightarrow> cells h a = None)"

named_theorems store_simps

lemma live_simps [simp]:
  "\<not> live h Null" "\<not> live h Wild" "live h (Ptr a) \<longleftrightarrow> (\<exists>x. cells h a = Some x)"
  by (auto simp: live_def)

lemma liveE:
  assumes "live h p"
  obtains a x where "p = Ptr a" and "cells h a = Some x"
  using assms by (auto simp: live_def)

lemma deref_eq_Inr: "deref h p = Inr x \<longleftrightarrow> (\<exists>a. p = Ptr a \<and> cells h a = Some x)"
  by (cases p) (auto split: option.splits)

lemma live_deref: "live h p \<longleftrightarrow> (\<exists>x. deref h p = Inr x)"
  by (auto simp: live_def deref_eq_Inr)

lemma assign_live [store_simps]:
  "cells h a = Some y \<Longrightarrow> assign (Ptr a) x h = Inr (h\<lparr>cells := (cells h)(a := Some x)\<rparr>)"
  by simp

lemma store_ok_empty [simp]: "store_ok empty_store"
  by (simp add: store_ok_def empty_store_def)

lemma store_ok_new: "store_ok h \<Longrightarrow> store_ok (snd (new_obj x h))"
  by (simp add: store_ok_def new_obj_def)

lemma store_ok_assign: "store_ok h \<Longrightarrow> assign p x h = Inr h' \<Longrightarrow> store_ok h'"
  by (cases p) (auto simp: store_ok_def split: option.splits)

lemma store_ok_free: "store_ok h \<Longrightarrow> free_obj p h = Inr h' \<Longrightarrow> store_ok h'"
  by (cases p) (auto simp: store_ok_def split: option.splits)

lemma store_ok_less: "store_ok h \<Longrightarrow> cells h a = Some x \<Longrightarrow> a < brk h"
  by (auto simp: store_ok_def not_less[symmetric])

lemma store_ok_fresh [simp]: "store_ok h \<Longrightarrow> cells h (brk h) = None"
  by (simp add: store_ok_def)

section \<open>Shared facts on lists and words\<close>

lemma takeWhile_neq_id: "x \<notin> set xs \<Longrightarrow> takeWhile (\<lambda>c. c \<noteq> x) xs = xs"
  by (auto simp: takeWhile_eq_all_conv)

lemma takeWhile_neq_append:
  "x \<notin> set xs \<Longrightarrow> takeWhile (\<lambda>c. c \<noteq> x) (xs @ x # ys) = xs"
  by (induction xs) auto

lemma notin_takeWhile_neq [simp]: "x \<notin> set (takeWhile (\<lambda>c. c \<noteq> x) xs)"
  by (auto dest: set_takeWhileD)

lemma unat_of_nat_less: "n < 2 ^ LENGTH('a::len) \<Longrightarrow> unat (of_nat n :: 'a word) = n"
  by (simp add: unat_of_nat take_bit_nat_eq_self)

lemma unat_of_nat64 [simp]: "n < 18446744073709551616 \<Longrightarrow> unat (of_nat n :: u64) = n"
  by (rule unat_of_nat_less) simp

lemma of_nat_unat64 [simp]: "of_nat (unat (w :: u64)) = w"
  by simp

lemma unat_less_64 [simp]: "unat (w :: u64) < 18446744073709551616"
  using unsigned_less[of w, where ?'a = nat] by simp

end
