(* ===== verification/Bytes.thy ===== *)
theory Bytes
  imports Prelude
begin

text \<open>
  Raw memory as the source reads and writes it.  A pointer into a buffer is modelled by the bytes
  from the pointer to the end of its block, so \<open>ptr += n\<close> is \<open>drop n\<close> and a read past the end
  of the block is the fault \<open>OutOfBounds\<close>.  The C library functions the source calls on such
  memory (\<open>strlen\<close>, \<open>strncmp\<close>, \<open>strncpy\<close>, \<open>strstr\<close>, \<open>strcspn\<close>) and the
  little-endian loads and stores it does through cast pointers are defined here, together with the
  locale of self-delimiting codecs that the file format and the wire format both instantiate.
\<close>

section \<open>Little-endian integers\<close>

fun le_bytes :: "nat \<Rightarrow> nat \<Rightarrow> bytes" where
  "le_bytes 0 n = []"
| "le_bytes (Suc k) n = char_of n # le_bytes k (n div 256)"

fun of_le :: "bytes \<Rightarrow> nat" where
  "of_le [] = 0"
| "of_le (c # cs) = of_char c + 256 * of_le cs"

lemma length_le_bytes [simp]: "length (le_bytes k n) = k"
  by (induction k arbitrary: n) auto

lemma of_le_le_bytes: "of_le (le_bytes k n) = n mod 256 ^ k"
proof (induction k arbitrary: n)
  case 0
  then show ?case by simp
next
  case (Suc k)
  have "n mod (256 * 256 ^ k) = n mod 256 + 256 * (n div 256 mod 256 ^ k)"
    by (simp add: mod_mult2_eq)
  with Suc show ?case by simp
qed

lemma of_le_less: "of_le bs < 256 ^ length bs"
proof (induction bs)
  case Nil
  then show ?case by simp
next
  case (Cons c cs)
  have "of_char c < (256 :: nat)" by (rule nat_of_char_less_256)
  moreover have "a + 256 * x < 256 * y" if "a < 256" "x < y" for a x y :: nat
    using that by linarith
  ultimately have "of_char c + 256 * of_le cs < 256 * 256 ^ length cs" using Cons by blast
  then show ?case by simp
qed

lemma le_bytes_of_le: "le_bytes (length bs) (of_le bs) = bs"
proof (induction bs)
  case Nil
  then show ?case by simp
next
  case (Cons c cs)
  have less: "of_char c < (256 :: nat)" by (rule nat_of_char_less_256)
  have "char_of (of_char c + 256 * of_le cs) = c"
    using less by (simp add: char_of_eq_iff take_bit_eq_mod)
  moreover have "(of_char c + 256 * of_le cs) div 256 = of_le cs" using less by simp
  ultimately show ?case using Cons by simp
qed

text \<open>\<open>*(uint64_t *)p = w\<close> and \<open>fwrite(&w, 8, 1, f)\<close> store these eight bytes.\<close>

definition le64 :: "u64 \<Rightarrow> bytes" where
  "le64 w = le_bytes 8 (unat w)"

definition le32 :: "i32 \<Rightarrow> bytes" where
  "le32 w = le_bytes 4 (unat w)"

definition un_le64 :: "bytes \<Rightarrow> u64" where
  "un_le64 bs = of_nat (of_le bs)"

definition un_le32 :: "bytes \<Rightarrow> i32" where
  "un_le32 bs = of_nat (of_le bs)"

lemma length_le64 [simp]: "length (le64 w) = 8"
  by (simp add: le64_def)

lemma length_le32 [simp]: "length (le32 w) = 4"
  by (simp add: le32_def)

lemma un_le64_le64 [simp]: "un_le64 (le64 w) = w"
proof -
  have "unat w mod 256 ^ 8 = unat w"
    using unsigned_less[of w, where ?'a = nat] by simp
  then show ?thesis
    by (simp add: un_le64_def le64_def of_le_le_bytes)
qed

lemma un_le32_le32 [simp]: "un_le32 (le32 w) = w"
proof -
  have "unat w mod 256 ^ 4 = unat w"
    using unsigned_less[of w, where ?'a = nat] by simp
  then show ?thesis
    by (simp add: un_le32_def le32_def of_le_le_bytes)
qed

section \<open>Loads and stores through a pointer\<close>

definition rd64 :: "bytes \<Rightarrow> u64 res" where
  "rd64 p = (if length p < 8 then Inl OutOfBounds else Inr (un_le64 (take 8 p)))"

definition rd32 :: "bytes \<Rightarrow> i32 res" where
  "rd32 p = (if length p < 4 then Inl OutOfBounds else Inr (un_le32 (take 4 p)))"

lemma rd64_le64 [simp]: "rd64 (le64 w @ p) = Inr w"
  by (simp add: rd64_def)

lemma rd32_le32 [simp]: "rd32 (le32 w @ p) = Inr w"
  by (simp add: rd32_def)

lemma rd64_total: "8 \<le> length p \<Longrightarrow> rd64 p = Inr (un_le64 (take 8 p))"
  by (simp add: rd64_def)

section \<open>C strings\<close>

text \<open>
  A C string that the program owns is modelled by its characters, without the terminator.
  \<open>strlen\<close> of such a string is \<open>length\<close>.  \<open>cstr p\<close> is the string a raw pointer points at:
  a block without a terminator is overrun.
\<close>

definition cstr :: "bytes \<Rightarrow> bytes res" where
  "cstr p = (if NUL \<in> set p then Inr (takeWhile (\<lambda>c. c \<noteq> NUL) p) else Inl OutOfBounds)"

text \<open>
  \<open>strncmp(p, q, n) == 0\<close>: compares up to \<open>n\<close> bytes, stops at the first difference or at a
  common terminator.
\<close>

fun strncmp_eq :: "bytes \<Rightarrow> bytes \<Rightarrow> nat \<Rightarrow> bool res" where
  "strncmp_eq p q 0 = Inr True"
| "strncmp_eq [] q (Suc n) = Inl OutOfBounds"
| "strncmp_eq (x # p) [] (Suc n) = Inl OutOfBounds"
| "strncmp_eq (x # p) (y # q) (Suc n) =
     (if x \<noteq> y then Inr False else if x = NUL then Inr True else strncmp_eq p q n)"

text \<open>
  \<open>strncmp(p, "LIT", strlen("LIT")) == 0\<close>, the form in which the source recognises a keyword.
\<close>

definition at_lit :: "bytes \<Rightarrow> bytes \<Rightarrow> bool res" where
  "at_lit p lit = strncmp_eq p (lit @ [NUL]) (length lit)"

text \<open>
  \<open>strncpy(dst, src, n)\<close> with \<open>src\<close> a raw pointer: the bytes it stores are the characters
  of \<open>src\<close> up to its terminator, padded with zeros to \<open>n\<close>.  \<open>strncpy_str\<close> is the string
  that \<open>dst\<close> then holds once \<open>dst[n]\<close> is cleared.
\<close>

definition strncpy_str :: "bytes \<Rightarrow> nat \<Rightarrow> bytes res" where
  "strncpy_str src n =
     (let s = takeWhile (\<lambda>c. c \<noteq> NUL) (take n src)
      in if length s < n \<and> length src \<le> length s then Inl OutOfBounds else Inr s)"

definition strncpy_out :: "bytes \<Rightarrow> nat \<Rightarrow> bytes res" where
  "strncpy_out src n =
     andthen (strncpy_str src n) (\<lambda>s. Inr (s @ replicate (n - length s) NUL))"

text \<open>\<open>strstr(s, t) != NULL\<close>.\<close>

fun strstr :: "bytes \<Rightarrow> bytes \<Rightarrow> bool" where
  "strstr [] t = (t = [])"
| "strstr (c # s) t = (take (length t) (c # s) = t \<or> strstr s t)"

text \<open>
  \<open>if (strncmp(data_ptr, "LIT", strlen("LIT")) != 0)\<close> guards a branch; otherwise the pointer moves on.
\<close>

definition keyword :: "bytes \<Rightarrow> bytes \<Rightarrow> 'a res \<Rightarrow> (bytes \<Rightarrow> 'a res) \<Rightarrow> 'a res" where
  "keyword lit p fail k =
     andthen (at_lit p lit) (\<lambda>eq. if eq then k (drop (length lit) p) else fail)"

text \<open>\<open>data_ptr\<close> read as a 64-bit integer and moved past it.\<close>

definition number :: "bytes \<Rightarrow> (u64 \<Rightarrow> bytes \<Rightarrow> 'a res) \<Rightarrow> 'a res" where
  "number p k = andthen (rd64 p) (\<lambda>w. k w (drop 8 p))"

subsection \<open>Facts\<close>

lemma strncmp_eq_prefix:
  assumes "NUL \<notin> set lit" and "n = length lit"
  shows "strncmp_eq (lit @ p) (lit @ q) n = Inr True"
  using assms by (induction lit arbitrary: n) auto

lemma at_lit_append [simp]: "NUL \<notin> set lit \<Longrightarrow> at_lit (lit @ p) lit = Inr True"
  unfolding at_lit_def by (rule strncmp_eq_prefix) auto

lemma strncmp_eq_True:
  assumes "strncmp_eq p (lit @ q) (length lit) = Inr True" and "NUL \<notin> set lit"
  shows "\<exists>r. p = lit @ r"
  using assms
proof (induction lit arbitrary: p)
  case Nil
  then show ?case by simp
next
  case (Cons c lit)
  then show ?case by (cases p) (auto split: if_splits)
qed

lemma at_lit_True:
  assumes "at_lit p lit = Inr True" and "NUL \<notin> set lit"
  obtains r where "p = lit @ r"
  using strncmp_eq_True assms unfolding at_lit_def by blast

text \<open>A block with a terminator in it is never overrun by a keyword comparison.\<close>

lemma strncmp_eq_no_fault:
  assumes "NUL \<in> set p" and "NUL \<notin> set lit"
  shows "\<exists>b. strncmp_eq p (lit @ q) (length lit) = Inr b"
  using assms
proof (induction lit arbitrary: p)
  case Nil
  then show ?case by (simp add: ex_bool_eq)
next
  case (Cons c lit)
  then show ?case by (cases p) (auto simp: ex_bool_eq)
qed

lemma strncmp_eq_long_no_fault:
  assumes "length lit \<le> length p"
  shows "\<exists>b. strncmp_eq p (lit @ q) (length lit) = Inr b"
  using assms
proof (induction lit arbitrary: p)
  case Nil
  then show ?case by (simp add: ex_bool_eq)
next
  case (Cons c lit)
  then show ?case by (cases p) (auto simp: ex_bool_eq)
qed

lemma at_lit_no_fault:
  assumes "NUL \<in> set p \<or> length lit \<le> length p" and "NUL \<notin> set lit"
  obtains b where "at_lit p lit = Inr b"
  using assms strncmp_eq_no_fault strncmp_eq_long_no_fault unfolding at_lit_def by metis

lemma keyword_append [simp]: "NUL \<notin> set lit \<Longrightarrow> keyword lit (lit @ p) fail k = k p"
  by (simp add: keyword_def)

lemma number_append [simp]: "number (le64 w @ p) k = k w p"
  by (simp add: number_def)

lemma strncpy_str_exact:
  assumes "NUL \<notin> set s" and "n = length s"
  shows "strncpy_str (s @ p) n = Inr s"
  using assms by (simp add: strncpy_str_def takeWhile_neq_id)

lemma strncpy_str_terminated:
  assumes "NUL \<notin> set s" and "length s \<le> n"
  shows "strncpy_str (s @ NUL # p) n = Inr s"
proof (cases "length s = n")
  case True
  with assms show ?thesis by (simp add: strncpy_str_exact)
next
  case False
  with assms have "take n (s @ NUL # p) = s @ NUL # take (n - length s - 1) p"
    by (cases "n - length s") auto
  with assms show ?thesis
    by (simp add: strncpy_str_def takeWhile_neq_append)
qed

lemma strncpy_str_no_NUL: "strncpy_str p n = Inr s \<Longrightarrow> NUL \<notin> set s \<and> length s \<le> n"
  using length_takeWhile_le[of "\<lambda>c. c \<noteq> NUL" "take n p"]
  by (auto simp: strncpy_str_def Let_def dest: set_takeWhileD split: if_splits)

lemma strncpy_str_no_fault: "n \<le> length p \<Longrightarrow> \<exists>s. strncpy_str p n = Inr s"
  by (auto simp: strncpy_str_def Let_def)

lemma strncpy_out_exact:
  "NUL \<notin> set s \<Longrightarrow> n = length s \<Longrightarrow> strncpy_out (s @ p) n = Inr s"
  by (simp add: strncpy_out_def strncpy_str_exact)

lemma length_strncpy_out: "strncpy_out p n = Inr bs \<Longrightarrow> length bs = n"
  using strncpy_str_no_NUL by (fastforce simp: strncpy_out_def)

lemma cstr_append [simp]: "NUL \<notin> set s \<Longrightarrow> cstr (s @ NUL # p) = Inr s"
  by (simp add: cstr_def takeWhile_neq_append)

lemma cstr_no_NUL: "cstr p = Inr s \<Longrightarrow> NUL \<notin> set s"
  by (auto simp: cstr_def dest: set_takeWhileD split: if_splits)

lemma strstr_iff: "strstr s t \<longleftrightarrow> (\<exists>u v. s = u @ t @ v)"
proof (induction s)
  case Nil
  then show ?case by auto
next
  case (Cons c s)
  show ?case
  proof
    assume "strstr (c # s) t"
    then consider "take (length t) (c # s) = t" | "strstr s t" by auto
    then show "\<exists>u v. c # s = u @ t @ v"
    proof cases
      case 1
      then have "c # s = [] @ t @ drop (length t) (c # s)"
        by (metis append_Nil append_take_drop_id)
      then show ?thesis by blast
    next
      case 2
      with Cons obtain u v where "s = u @ t @ v" by auto
      then have "c # s = (c # u) @ t @ v" by simp
      then show ?thesis by blast
    qed
  next
    assume "\<exists>u v. c # s = u @ t @ v"
    then obtain u v where uv: "c # s = u @ t @ v" by auto
    show "strstr (c # s) t"
    proof (cases u)
      case Nil
      with uv have "take (length t) (c # s) = t" by simp
      then show ?thesis by (simp only: strstr.simps simp_thms)
    next
      case (Cons d u')
      with uv have "s = u' @ t @ v" by simp
      with Cons.IH show ?thesis by auto
    qed
  qed
qed

section \<open>Self-delimiting codecs\<close>

text \<open>\<open>n\<close> items read one after the other, each by a reader that returns what it left.\<close>

fun decode_n :: "(bytes \<Rightarrow> ('a \<times> bytes) res) \<Rightarrow> nat \<Rightarrow> bytes \<Rightarrow> ('a list \<times> bytes) res" where
  "decode_n dec 0 p = Inr ([], p)"
| "decode_n dec (Suc n) p =
     andthen (dec p) (\<lambda>(a, p). andthen (decode_n dec n p) (\<lambda>(as, p). Inr (a # as, p)))"

text \<open>
  What a reader relies on: the writer's output, whatever follows it, is read back.  The records of
  the message file and the entries of the responses on the wire are such codecs.
\<close>

locale codec =
  fixes enc :: "'a \<Rightarrow> bytes"
    and dec :: "bytes \<Rightarrow> ('a \<times> bytes) res"
    and ok :: "'a \<Rightarrow> bool"
  assumes roundtrip: "ok a \<Longrightarrow> dec (enc a @ r) = Inr (a, r)"
begin

lemma decode_many:
  "list_all ok as \<Longrightarrow> decode_n dec (length as) (concat (map enc as) @ r) = Inr (as, r)"
  by (induction as) (simp_all add: roundtrip)

text \<open>No encoding is a proper prefix of another, so a stream of items is cut in one way only.\<close>

lemma enc_prefix_free: "ok a \<Longrightarrow> ok b \<Longrightarrow> enc a @ r = enc b @ q \<Longrightarrow> a = b \<and> r = q"
  by (metis prod.inject roundtrip sum.inject(2))

lemma encs_inj:
  assumes "list_all ok as" and "list_all ok bs" and "length as = length bs"
    and "concat (map enc as) @ r = concat (map enc bs) @ q"
  shows "as = bs \<and> r = q"
  using decode_many[OF assms(1)] decode_many[OF assms(2)] assms(3,4)
  by (metis prod.inject sum.inject(2))

end

end
