(* ===== verification/Status.thy ===== *)
theory Status
  imports Bytes
begin

text \<open>
  \<open>lib/status.h\<close>, \<open>lib/status.c\<close>: the status codes with which the program reports errors.
  A function returns \<open>LESTATUS_OK\<close> or the negated code, so \<open>status_t\<close> is an integer.
\<close>

datatype lestatus =
    LESTATUS_OK
  | LESTATUS_CLIB
  | LESTATUS_NSFD
  | LESTATUS_EXST
  | LESTATUS_NFND
  | LESTATUS_ISYN
  | LESTATUS_IDAT
  | LESTATUS_NPTR

type_synonym status_t = int

fun lestatus_code :: "lestatus \<Rightarrow> status_t" where
  "lestatus_code LESTATUS_OK = 0"
| "lestatus_code LESTATUS_CLIB = 1"
| "lestatus_code LESTATUS_NSFD = 2"
| "lestatus_code LESTATUS_EXST = 3"
| "lestatus_code LESTATUS_NFND = 4"
| "lestatus_code LESTATUS_ISYN = 5"
| "lestatus_code LESTATUS_IDAT = 6"
| "lestatus_code LESTATUS_NPTR = 7"

abbreviation ok_status :: status_t where
  "ok_status \<equiv> lestatus_code LESTATUS_OK"

abbreviation err :: "lestatus \<Rightarrow> status_t" where
  "err st \<equiv> - lestatus_code st"

definition SREPR_LESTATUS :: "bytes list" where
  "SREPR_LESTATUS =
     [''OK'', ''CLIB'', ''NSFD'', ''EXST'', ''NFND'', ''ISYN'', ''IDAT'', ''NPTR'']"

definition get_lestatus_string_repr :: "status_t \<Rightarrow> bytes res" where
  "get_lestatus_string_repr status =
     (let i = nat \<bar>status\<bar>
      in if i < length SREPR_LESTATUS then Inr (SREPR_LESTATUS ! i) else Inl OutOfBounds)"

lemma get_lestatus_string_repr_simps [simp]:
  "get_lestatus_string_repr 0 = Inr ''OK''"
  "get_lestatus_string_repr (-1) = Inr ''CLIB''"
  "get_lestatus_string_repr (-2) = Inr ''NSFD''"
  "get_lestatus_string_repr (-3) = Inr ''EXST''"
  "get_lestatus_string_repr (-4) = Inr ''NFND''"
  "get_lestatus_string_repr (-5) = Inr ''ISYN''"
  "get_lestatus_string_repr (-6) = Inr ''IDAT''"
  "get_lestatus_string_repr (-7) = Inr ''NPTR''"
  by (simp_all add: get_lestatus_string_repr_def SREPR_LESTATUS_def)

lemma err_neq_ok [simp]: "st \<noteq> LESTATUS_OK \<Longrightarrow> err st \<noteq> 0"
  by (cases st) auto

text \<open>The representation tells the codes apart, whatever their sign.\<close>

lemma get_lestatus_string_repr_inj:
  assumes "get_lestatus_string_repr s = Inr r" and "get_lestatus_string_repr t = Inr r"
  shows "\<bar>s\<bar> = \<bar>t\<bar>"
proof -
  have "distinct SREPR_LESTATUS" by (simp add: SREPR_LESTATUS_def)
  with assms have "nat \<bar>s\<bar> = nat \<bar>t\<bar>"
    by (auto simp: get_lestatus_string_repr_def Let_def nth_eq_iff_index_eq split: if_splits)
  then show ?thesis by simp
qed

end
