(* ===== verification/Util.thy ===== *)
theory Util
  imports Status
begin

text \<open>
  \<open>lib/util.h\<close>, \<open>lib/util.c\<close>: line input and string concatenation.  A \<open>FILE *\<close> that is
  read is the list of the bytes still to come; a destination buffer is a block of bytes, and
  writing past its end is the fault \<open>OutOfBounds\<close>.
\<close>

section \<open>The macros of \<open>util.h\<close>\<close>

definition cyclic_inc :: "int \<Rightarrow> int \<Rightarrow> int \<Rightarrow> int" where
  "cyclic_inc x mn mx = (if x + 1 \<le> mx then x + 1 else mn)"

definition cyclic_dec :: "int \<Rightarrow> int \<Rightarrow> int \<Rightarrow> int" where
  "cyclic_dec x mn mx = (if x - 1 \<ge> mn then x - 1 else mx)"

text \<open>The two are inverse to each other on the range they cycle through.\<close>

lemma cyclic_dec_inc:
  "mn \<le> x \<Longrightarrow> x \<le> mx \<Longrightarrow> cyclic_dec (cyclic_inc x mn mx) mn mx = x"
  by (simp add: cyclic_dec_def cyclic_inc_def)

lemma cyclic_inc_dec:
  "mn \<le> x \<Longrightarrow> x \<le> mx \<Longrightarrow> cyclic_inc (cyclic_dec x mn mx) mn mx = x"
  by (simp add: cyclic_dec_def cyclic_inc_def)

section \<open>Line input\<close>

abbreviation newline :: byte where
  "newline \<equiv> CHR 0x0A"

text \<open>At most \<open>k\<close> bytes, up to and including the first newline.\<close>

fun read_line :: "nat \<Rightarrow> bytes \<Rightarrow> bytes \<times> bytes" where
  "read_line 0 inp = ([], inp)"
| "read_line (Suc k) [] = ([], [])"
| "read_line (Suc k) (c # cs) =
     (if c = newline then ([c], cs) else let (l, r) = read_line k cs in (c # l, r))"

text \<open>
  \<open>fgets(s, n, fd)\<close>: \<open>None\<close> is the null result (end of input with nothing read, or a size
  below one); otherwise what was stored before the terminator, and the input left.
\<close>

definition fgets :: "int \<Rightarrow> bytes \<Rightarrow> (bytes \<times> bytes) option" where
  "fgets n inp =
     (if n \<le> 0 then None
      else if n = 1 then Some ([], inp)
      else if inp = [] then None
      else Some (read_line (nat n - 1) inp))"

text \<open>
  \<open>s_fgets\<close>: the size returned, the string that \<open>s\<close> now holds (\<open>None\<close> where the call left
  \<open>s\<close> alone), and the input left.  The \<open>size_t\<close> it is given becomes an \<open>int\<close>.
\<close>

definition s_fgets :: "nat \<Rightarrow> bytes \<Rightarrow> u64 \<times> bytes option \<times> bytes" where
  "s_fgets n inp =
     (case fgets (sint (of_nat n :: i32)) inp of
        None \<Rightarrow> (of_int (err LESTATUS_CLIB), None, inp)
      | Some (raw, rest) \<Rightarrow>
          let s = takeWhile (\<lambda>c. c \<noteq> NUL \<and> c \<noteq> newline) raw
          in (of_nat (length s), Some s, rest))"

text \<open>
  \<open>s_fgets_range\<close>: reads lines, each appended to what was read before, until at least
  \<open>mn\<close> bytes are there.  \<open>acc\<close> is what \<open>s\<close> holds, so \<open>size\<close> is its length.  An iteration
  that changes neither \<open>size\<close> nor the input repeats forever.
\<close>

function s_fgets_range_loop ::
  "bytes \<Rightarrow> nat \<Rightarrow> nat \<Rightarrow> bytes \<Rightarrow> (u64 \<times> bytes \<times> bytes) res" where
  "s_fgets_range_loop acc mn mx inp =
     (if length acc < mn then
        case s_fgets (mx + 1 - length acc) inp of
          (_, None, rest) \<Rightarrow> Inr (of_int (err LESTATUS_IDAT), acc, rest)
        | (_, Some s, rest) \<Rightarrow>
            if length rest < length inp then s_fgets_range_loop (acc @ s) mn mx rest
            else Inl Diverges
      else Inr (of_nat (length acc), acc, inp))"
  by pat_completeness auto
termination
  by (relation "measure (\<lambda>(acc, mn, mx, inp). length inp)") auto

declare s_fgets_range_loop.simps [simp del]

definition s_fgets_range :: "nat \<Rightarrow> nat \<Rightarrow> bytes \<Rightarrow> (u64 \<times> bytes \<times> bytes) res" where
  "s_fgets_range mn mx inp = s_fgets_range_loop [] mn mx inp"

subsection \<open>Facts\<close>

lemma read_line_append: "read_line k inp = (l, r) \<Longrightarrow> inp = l @ r"
  by (induction k inp arbitrary: l r rule: read_line.induct)
    (auto split: if_splits prod.splits)

lemma read_line_length: "read_line k inp = (l, r) \<Longrightarrow> length l \<le> k"
  by (induction k inp arbitrary: l r rule: read_line.induct)
    (auto split: if_splits prod.splits)

lemma read_line_progress: "read_line (Suc k) (c # cs) = (l, r) \<Longrightarrow> length r < length (c # cs)"
  using read_line_append by (fastforce split: if_splits prod.splits)

lemma read_line_exact:
  assumes "newline \<notin> set s" and "length s < k"
  shows "read_line k (s @ newline # rest) = (s @ [newline], rest)"
  using assms
proof (induction s arbitrary: k)
  case Nil
  then show ?case by (cases k) auto
next
  case (Cons c s)
  then show ?case by (cases k) auto
qed

lemma fgets_progress:
  assumes "fgets n inp = Some (raw, rest)" and "2 \<le> n"
  shows "length rest < length inp"
proof (cases inp)
  case Nil
  with assms show ?thesis by (auto simp: fgets_def split: if_splits)
next
  case (Cons c cs)
  from assms(2) have "nat n - 1 = Suc (nat n - 2)" by simp
  with assms Cons have "read_line (Suc (nat n - 2)) (c # cs) = (raw, rest)"
    by (auto simp: fgets_def split: if_splits)
  from read_line_progress[OF this] Cons show ?thesis by simp
qed

lemma fgets_rest: "fgets n inp = Some (raw, rest) \<Longrightarrow> inp = raw @ rest"
  by (auto simp: fgets_def split: if_splits dest: read_line_append)

lemma length_takeWhile_less: "length xs < n \<Longrightarrow> length (takeWhile P xs) < n"
  using length_takeWhile_le[of P xs] by linarith

lemma sint_of_nat32: "n < 2147483648 \<Longrightarrow> sint (of_nat n :: i32) = int n"
  by (simp add: signed_of_nat signed_take_bit_int_eq_self)

lemma sint_of_nat32_le: "sint (of_nat n :: i32) \<le> int n"
proof (cases "n < 2147483648")
  case True
  then show ?thesis by (simp add: sint_of_nat32)
next
  case False
  then show ?thesis using sint_lt[of "of_nat n :: i32"] by simp
qed

lemma s_fgets_bound:
  assumes "s_fgets n inp = (sz, Some s, rest)"
  shows "length s < n \<and> sz = of_nat (length s) \<and> NUL \<notin> set s \<and> newline \<notin> set s"
proof -
  let ?n = "sint (of_nat n :: i32)"
  obtain raw where raw: "fgets ?n inp = Some (raw, rest)"
    and s: "s = takeWhile (\<lambda>c. c \<noteq> NUL \<and> c \<noteq> newline) raw"
    using assms by (auto simp: s_fgets_def Let_def split: option.splits)
  have "length raw < nat ?n"
    using raw read_line_length[of "nat ?n - 1" inp raw rest] by (auto simp: fgets_def split: if_splits)
  moreover have "nat ?n \<le> n" using sint_of_nat32_le[of n] by simp
  ultimately have "length raw < n" by simp
  with s assms show ?thesis
    by (auto simp: s_fgets_def Let_def length_takeWhile_less dest: set_takeWhileD
        split: option.splits)
qed

lemma s_fgets_rest: "s_fgets n inp = (sz, str, rest) \<Longrightarrow> length rest \<le> length inp"
  by (auto simp: s_fgets_def Let_def split: option.splits dest: fgets_rest)

lemma s_fgets_progress:
  assumes "s_fgets n inp = (sz, Some str, rest)" and "2 \<le> n" and "n < 2147483648"
  shows "length rest < length inp"
proof -
  obtain raw where "fgets (int n) inp = Some (raw, rest)"
    using assms by (auto simp: s_fgets_def sint_of_nat32 Let_def split: option.splits)
  then show ?thesis by (rule fgets_progress) (use assms(2) in linarith)
qed

text \<open>A whole line, typed and ended, is what comes back.\<close>

lemma s_fgets_line:
  assumes "newline \<notin> set s" and "NUL \<notin> set s" and "length s + 1 < n" and "n < 2147483648"
  shows "s_fgets n (s @ newline # rest) = (of_nat (length s), Some s, rest)"
proof -
  have "takeWhile (\<lambda>c. c \<noteq> NUL \<and> c \<noteq> newline) (s @ [newline]) = s"
    using assms(1,2) by (induction s) auto
  with assms show ?thesis
    by (simp add: s_fgets_def sint_of_nat32 fgets_def read_line_exact)
qed

text \<open>
  Under \<open>mn \<le> mx\<close>, both small enough for an \<open>int\<close>, the loop always returns; what it returns is either the error, or a string
  of a length between \<open>mn\<close> and \<open>mx\<close> that holds no newline.
\<close>

lemma s_fgets_range_loop_returns:
  assumes "mn \<le> mx" and "mx < 2147483647" and "length acc \<le> mx" and "NUL \<notin> set acc" and "newline \<notin> set acc"
  shows "\<exists>sz s rest. s_fgets_range_loop acc mn mx inp = Inr (sz, s, rest) \<and>
    (sz = of_int (err LESTATUS_IDAT) \<or>
     sz = of_nat (length s) \<and> mn \<le> length s \<and> length s \<le> mx \<and>
     NUL \<notin> set s \<and> newline \<notin> set s)"
  using assms
proof (induction acc mn mx inp rule: s_fgets_range_loop.induct)
  case (1 acc mn mx inp)
  show ?case
  proof (cases "length acc < mn")
    case False
    with "1.prems" show ?thesis by (subst s_fgets_range_loop.simps) auto
  next
    case True
    obtain sz os rest where call: "s_fgets (mx + 1 - length acc) inp = (sz, os, rest)"
      by (metis prod_cases3)
    show ?thesis
    proof (cases os)
      case None
      with True call show ?thesis by (subst s_fgets_range_loop.simps) auto
    next
      case (Some s)
      have two: "2 \<le> int (mx + 1 - length acc)" using True "1.prems" by simp
      have "mx + 1 - length acc < 2147483648" using "1.prems" by simp
      then obtain raw where raw: "fgets (int (mx + 1 - length acc)) inp = Some (raw, rest)"
        using call Some by (auto simp: s_fgets_def sint_of_nat32 Let_def split: option.splits)
      have less: "length rest < length inp" by (rule fgets_progress[OF raw two])
      have bnd: "length s < mx + 1 - length acc" "NUL \<notin> set s" "newline \<notin> set s"
        using s_fgets_bound call Some by blast+
      have "\<exists>sz t r. s_fgets_range_loop (acc @ s) mn mx rest = Inr (sz, t, r) \<and>
        (sz = of_int (err LESTATUS_IDAT) \<or>
         sz = of_nat (length t) \<and> mn \<le> length t \<and> length t \<le> mx \<and>
         NUL \<notin> set t \<and> newline \<notin> set t)"
        using "1.prems" bnd less
        by (intro "1.IH"[OF True call[symmetric]])
          (auto simp: Some)
      with True call Some less show ?thesis
        by (subst s_fgets_range_loop.simps) simp
    qed
  qed
qed

section \<open>String concatenation\<close>

text \<open>
  \<open>le_strcat\<close>: \<open>dest\<close> is the block from the pointer on, \<open>src\<close> a raw pointer.  The result is
  the block after the call and the offset of the returned pointer in it.
\<close>

fun strcat_copy :: "bytes \<Rightarrow> bytes \<Rightarrow> (bytes \<times> nat) res" where
  "strcat_copy [] src = Inl OutOfBounds"
| "strcat_copy (d # dest) [] = Inl OutOfBounds"
| "strcat_copy (d # dest) (c # src) =
     (if c \<noteq> NUL
      then andthen (strcat_copy dest src) (\<lambda>(b, e). Inr (c # b, Suc e))
      else Inr (c # dest, 0))"

fun le_strcat :: "bytes \<Rightarrow> bytes \<Rightarrow> (bytes \<times> nat) res" where
  "le_strcat [] src = Inl OutOfBounds"
| "le_strcat (d # dest) src =
     (if d \<noteq> NUL
      then andthen (le_strcat dest src) (\<lambda>(b, e). Inr (d # b, Suc e))
      else strcat_copy (d # dest) src)"

fun strncat_copy :: "bytes \<Rightarrow> bytes \<Rightarrow> nat \<Rightarrow> (bytes \<times> nat) res" where
  "strncat_copy [] src n = Inl OutOfBounds"
| "strncat_copy (d # dest) src 0 = Inr (NUL # dest, 0)"
| "strncat_copy (d # dest) [] (Suc n) = Inl OutOfBounds"
| "strncat_copy (d # dest) (c # src) (Suc n) =
     (if c \<noteq> NUL
      then andthen (strncat_copy dest src n) (\<lambda>(b, e). Inr (c # b, Suc e))
      else Inr (NUL # dest, 0))"

fun le_strncat :: "bytes \<Rightarrow> bytes \<Rightarrow> nat \<Rightarrow> (bytes \<times> nat) res" where
  "le_strncat [] src n = Inl OutOfBounds"
| "le_strncat (d # dest) src n =
     (if d \<noteq> NUL
      then andthen (le_strncat dest src n) (\<lambda>(b, e). Inr (d # b, Suc e))
      else strncat_copy (d # dest) src n)"

lemma strcat_copy_eq:
  assumes "NUL \<notin> set t" and "length t < length d"
  shows "strcat_copy d (t @ NUL # p) = Inr (t @ NUL # drop (Suc (length t)) d, length t)"
  using assms
proof (induction t arbitrary: d)
  case Nil
  then show ?case by (cases d) auto
next
  case (Cons c t)
  then show ?case by (cases d) auto
qed

lemma strncat_copy_eq:
  assumes "NUL \<notin> set t" and "min n (length t) < length d"
  shows "strncat_copy d (t @ NUL # p) n =
    Inr (take n t @ NUL # drop (Suc (min n (length t))) d, min n (length t))"
  using assms
proof (induction t arbitrary: d n)
  case Nil
  then show ?case by (cases d; cases n) auto
next
  case (Cons c t)
  then show ?case by (cases d; cases n) auto
qed

lemma le_strcat_eq:
  assumes "NUL \<notin> set s" and "NUL \<notin> set t" and "length t \<le> length d"
  shows "le_strcat (s @ NUL # d) (t @ NUL # p) =
    Inr (s @ t @ NUL # drop (length t) d, length s + length t)"
  using assms
proof (induction s)
  case Nil
  then show ?case by (simp add: strcat_copy_eq)
next
  case (Cons c s)
  then show ?case by auto
qed

lemma le_strncat_eq:
  assumes "NUL \<notin> set s" and "NUL \<notin> set t" and "min n (length t) \<le> length d"
  shows "le_strncat (s @ NUL # d) (t @ NUL # p) n =
    Inr (s @ take n t @ NUL # drop (min n (length t)) d, length s + min n (length t))"
  using assms
proof (induction s)
  case Nil
  then show ?case by (simp add: strncat_copy_eq)
next
  case (Cons c s)
  then show ?case by auto
qed

section \<open>Properties\<close>

text \<open>
  With room for it, \<open>le_strcat\<close> puts the source string and its terminator behind the
  destination string, returns the address of the new terminator, and touches no other byte.
\<close>

lemma le_strcat_appends:
  assumes "NUL \<notin> set s" and "NUL \<notin> set t" and "length t \<le> length d"
  shows "le_strcat (s @ NUL # d) (t @ NUL # p) =
    Inr (s @ t @ NUL # drop (length t) d, length s + length t)"
  by (rule le_strcat_eq[OF assms])

lemma le_strcat_appends_witness:
  "le_strcat (''dir/'' @ NUL # ''???????'') (''file'' @ NUL # ''x'') = Inr (''dir/'' @ ''file'' @ NUL # ''???'', 8)"
  using le_strcat_appends[of "''dir/''" "''file''" "''???????''" "''x''"] by simp

text \<open>
  C40.  Given \<open>mn \<le> mx\<close> within an \<open>int\<close>, \<open>s_fgets_range\<close> returns on every input, however it is cut into lines: it
  reports invalid data (the input ended first), or the length of a string of \<open>mn\<close> to \<open>mx\<close>
  characters, none of them a newline, that it left in the buffer of \<open>mx + 1\<close> bytes.
\<close>

theorem s_fgets_range_bounds:
  assumes "mn \<le> mx" and "mx < 2147483647"
  shows "\<exists>sz s rest. s_fgets_range mn mx inp = Inr (sz, s, rest) \<and>
    (sz = of_int (err LESTATUS_IDAT) \<or>
     sz = of_nat (length s) \<and> mn \<le> length s \<and> length s \<le> mx \<and> NUL \<notin> set s \<and> newline \<notin> set s)"
  unfolding s_fgets_range_def by (rule s_fgets_range_loop_returns) (use assms in auto)

lemma s_fgets_range_bounds_witness:
  "\<exists>sz s rest. s_fgets_range 3 64 (''hi'' @ [newline] @ ''there'' @ [newline]) = Inr (sz, s, rest) \<and>
    (sz = of_int (err LESTATUS_IDAT) \<or> 3 \<le> length s \<and> length s \<le> 64)"
  using s_fgets_range_bounds[of 3 64 "''hi'' @ [newline] @ ''there'' @ [newline]"] by auto

end
