(* ===== verification/Communication.thy ===== *)
theory Communication
  imports Bytes Status
begin

text \<open>
  \<open>lib/communication.c\<close>: the loops \<open>s_send\<close> and \<open>s_recv\<close> that turn the partial transfers of
  \<open>send\<close> and \<open>recv\<close> into whole ones.  A socket is what its calls will meet: the events of the
  receiving side (data as the network splits it, the peer's close, a failed or timed-out call), those
  of the sending side, and the bytes sent so far.  Running out of events is a call that never
  returns.  What \<open>vsnprintf\<close> makes of the format of \<open>sendf\<close> is an argument.
\<close>

section \<open>Sockets\<close>

datatype rx_event = Rx bytes | Rx_closed | Rx_failed

datatype tx_event = Tx nat | Tx_failed

record socket =
  sk_rx :: "rx_event list"
  sk_tx :: "tx_event list"
  sk_out :: bytes

definition MAX_PACKET_SIZE :: nat where
  "MAX_PACKET_SIZE = 1024 * 1024"

text \<open>
  \<open>recv(fd, buf, n, 0)\<close>: at least one byte and at most \<open>n\<close> of what has arrived; 0 once the peer
  has closed, which then stays so; -1 on an error.
\<close>

fun recv_events :: "nat \<Rightarrow> rx_event list \<Rightarrow> (int \<times> bytes \<times> rx_event list) res" where
  "recv_events n [] = Inl Diverges"
| "recv_events n (Rx [] # es) = recv_events n es"
| "recv_events n (Rx (b # bs) # es) =
     (let got = take n (b # bs); left = drop n (b # bs)
      in Inr (int (length got), got, if left = [] then es else Rx left # es))"
| "recv_events n (Rx_closed # es) = Inr (0, [], Rx_closed # es)"
| "recv_events n (Rx_failed # es) = Inr (-1, [], es)"

definition recv :: "nat \<Rightarrow> socket \<Rightarrow> (int \<times> bytes \<times> socket) res" where
  "recv n sk =
     andthen (recv_events n (sk_rx sk)) (\<lambda>(r, bs, es). Inr (r, bs, sk\<lparr>sk_rx := es\<rparr>))"

text \<open>\<open>send(fd, buf, n, 0)\<close>: takes some of the bytes, or fails.\<close>

definition send :: "bytes \<Rightarrow> socket \<Rightarrow> (int \<times> socket) res" where
  "send bs sk =
     (case sk_tx sk of
        [] \<Rightarrow> Inl Diverges
      | Tx k # es \<Rightarrow>
          let n = min k (length bs)
          in Inr (int n, sk\<lparr>sk_tx := es, sk_out := sk_out sk @ take n bs\<rparr>)
      | Tx_failed # es \<Rightarrow> Inr (-1, sk\<lparr>sk_tx := es\<rparr>))"

lemma recv_events_length:
  "recv_events n es = Inr (r, bs, es') \<Longrightarrow> 0 < r \<Longrightarrow> r = int (length bs) \<and> length bs \<le> n"
  by (induction n es rule: recv_events.induct) (auto simp: Let_def)

lemma recv_length: "recv n sk = Inr (r, bs, sk') \<Longrightarrow> 0 < r \<Longrightarrow> r = int (length bs) \<and> length bs \<le> n"
  by (auto simp: recv_def dest: recv_events_length)

section \<open>The loops\<close>

text \<open>\<open>s_recv\<close>: the bytes placed in the buffer; their number is the value returned.\<close>

lemma shrink: "bs \<noteq> [] \<Longrightarrow> a < b \<Longrightarrow> b - (a + length bs) < b - a"
  by (cases bs) auto

function s_recv_loop :: "nat \<Rightarrow> bytes \<Rightarrow> socket \<Rightarrow> (bytes \<times> socket) res" where
  "s_recv_loop sz received sk =
     (if length received < sz then
        andthen (recv (sz - length received) sk) (\<lambda>(tmp, bs, sk).
        if tmp = 0 \<or> tmp < 0 then Inr (received, sk)
        else s_recv_loop sz (received @ bs) sk)
      else Inr (received, sk))"
  by pat_completeness auto
termination
  by (relation "measure (\<lambda>(sz, received, sk). sz - length received)")
    (auto dest!: recv_length intro: shrink)

declare s_recv_loop.simps [simp del]

definition s_recv :: "nat \<Rightarrow> socket \<Rightarrow> (bytes \<times> socket) res" where
  "s_recv sz sk = s_recv_loop sz [] sk"

text \<open>\<open>s_send\<close>: the number of bytes sent.\<close>

lemma send_length:
  "send bs sk = Inr (r, sk') \<Longrightarrow> 0 < r \<Longrightarrow> nat r \<le> length bs"
  by (auto simp: send_def Let_def split: list.splits tx_event.splits)

function s_send_loop :: "bytes \<Rightarrow> nat \<Rightarrow> nat \<Rightarrow> socket \<Rightarrow> (nat \<times> socket) res" where
  "s_send_loop buf sz sent sk =
     (if sent < sz then
        andthen (send (take (sz - sent) (drop sent buf)) sk) (\<lambda>(tmp, sk).
        if tmp = 0 \<or> tmp < 0 then Inr (sent, sk)
        else s_send_loop buf sz (sent + nat tmp) sk)
      else Inr (sent, sk))"
  by pat_completeness auto
termination
  by (relation "measure (\<lambda>(buf, sz, sent, sk). sz - sent)") auto

declare s_send_loop.simps [simp del]

definition s_send :: "bytes \<Rightarrow> nat \<Rightarrow> socket \<Rightarrow> (nat \<times> socket) res" where
  "s_send buf sz sk = s_send_loop buf sz 0 sk"

text \<open>
  \<open>sendf\<close>: \<open>formatted\<close> gives the text of the format and its arguments, of which \<open>vsnprintf\<close> keeps
  what fits before the terminator; a single \<open>send\<close> follows.
\<close>

definition sendf :: "(bytes \<Rightarrow> bytes) \<Rightarrow> bytes option \<Rightarrow> socket \<Rightarrow> (int \<times> socket) res" where
  "sendf formatted str sk =
     (case str of
        None \<Rightarrow> Inr (err LESTATUS_NPTR, sk)
      | Some str \<Rightarrow>
          let buffer = take (4095 - 1) (formatted str) @ [NUL]
          in andthen (cstr buffer) (\<lambda>text. send text sk))"

section \<open>Whole transfers\<close>

text \<open>The bytes that arrive before the peer closes or a call fails.\<close>

fun rx_stream :: "rx_event list \<Rightarrow> bytes" where
  "rx_stream (Rx bs # es) = bs @ rx_stream es"
| "rx_stream _ = []"

text \<open>What stands behind those bytes.\<close>

fun rx_after :: "rx_event list \<Rightarrow> rx_event list" where
  "rx_after (Rx bs # es) = rx_after es"
| "rx_after es = es"

abbreviation incoming :: "socket \<Rightarrow> bytes" where
  "incoming sk \<equiv> rx_stream (sk_rx sk)"

lemma recv_events_some:
  assumes "rx_stream es \<noteq> []" and "0 < n"
  obtains k es' where "recv_events n es = Inr (int k, take k (rx_stream es), es')" and "0 < k" and "k \<le> n"
    and "k \<le> length (rx_stream es)" and "rx_stream es' = drop k (rx_stream es)"
    and "rx_after es' = rx_after es"
  using assms
proof (induction n es arbitrary: thesis rule: recv_events.induct)
  case (3 n b bs es)
  let ?k = "min n (length (b # bs))"
  show ?case
    by (rule 3(1)[of ?k "if drop n (b # bs) = [] then es else Rx (drop n (b # bs)) # es"])
      (use 3(3) in \<open>auto simp: Let_def min_def drop_Cons' take_Cons'\<close>)
qed auto

lemma recv_some:
  assumes "incoming sk \<noteq> []" and "0 < n"
  obtains k sk' where "recv n sk = Inr (int k, take k (incoming sk), sk')" and "0 < k" and "k \<le> n"
    and "k \<le> length (incoming sk)" and "incoming sk' = drop k (incoming sk)"
    and "rx_after (sk_rx sk') = rx_after (sk_rx sk)" and "sk_tx sk' = sk_tx sk" and "sk_out sk' = sk_out sk"
proof -
  from recv_events_some[OF assms] obtain k es' where k:
    "recv_events n (sk_rx sk) = Inr (int k, take k (incoming sk), es')" "0 < k" "k \<le> n"
    "k \<le> length (incoming sk)" "rx_stream es' = drop k (incoming sk)" "rx_after es' = rx_after (sk_rx sk)"
    by blast
  show ?thesis
    by (rule that[of k "sk\<lparr>sk_rx := es'\<rparr>"]) (use k in \<open>simp_all add: recv_def\<close>)
qed

lemma s_recv_loop_whole:
  assumes "sz \<le> length received + length (incoming sk)" and "length received \<le> sz"
  shows "\<exists>sk'. s_recv_loop sz received sk = Inr (received @ take (sz - length received) (incoming sk), sk')
    \<and> incoming sk' = drop (sz - length received) (incoming sk) \<and>
    rx_after (sk_rx sk') = rx_after (sk_rx sk) \<and> sk_tx sk' = sk_tx sk \<and> sk_out sk' = sk_out sk"
  using assms
proof (induction "sz - length received" arbitrary: received sk rule: less_induct)
  case less
  show ?case
  proof (cases "length received < sz")
    case False
    with less.prems show ?thesis by (simp add: s_recv_loop.simps)
  next
    case True
    then have "incoming sk \<noteq> []" "0 < sz - length received" using less.prems by auto
    then obtain k sk1 where k: "recv (sz - length received) sk = Inr (int k, take k (incoming sk), sk1)"
      "0 < k" "k \<le> sz - length received" "k \<le> length (incoming sk)"
      "incoming sk1 = drop k (incoming sk)" "rx_after (sk_rx sk1) = rx_after (sk_rx sk)"
      "sk_tx sk1 = sk_tx sk" "sk_out sk1 = sk_out sk"
      by (rule recv_some)
    let ?r = "received @ take k (incoming sk)"
    have len: "length ?r = length received + k" using k(4) by simp
    have dec: "sz - length ?r < sz - length received" using len k(2) True by simp
    have "sz \<le> length ?r + length (incoming sk1)" "length ?r \<le> sz"
      using less.prems k len True by auto
    from less.hyps[OF dec this] obtain sk' where IH: "s_recv_loop sz ?r sk1 =
        Inr (?r @ take (sz - length ?r) (incoming sk1), sk')"
      "incoming sk' = drop (sz - length ?r) (incoming sk1)"
      "rx_after (sk_rx sk') = rx_after (sk_rx sk1)" "sk_tx sk' = sk_tx sk1" "sk_out sk' = sk_out sk1"
      by blast
    have split: "sz - length received = k + (sz - length ?r)" using len k(3) True by simp
    have "s_recv_loop sz received sk = s_recv_loop sz ?r sk1"
      using True k(1,2) by (simp add: s_recv_loop.simps[of sz received])
    with IH k show ?thesis
      unfolding split take_add by (intro exI[of _ sk']) (simp add: add.commute)
  qed
qed

text \<open>The peer closes, or a call fails, before enough has come: what came so far.\<close>

lemma recv_events_none:
  "rx_stream es = [] \<Longrightarrow> rx_after es \<noteq> [] \<Longrightarrow> \<exists>r es'. recv_events n es = Inr (r, [], es') \<and> r \<le> 0"
  by (induction n es rule: recv_events.induct) (auto simp: Let_def)

lemma recv_none:
  "incoming sk = [] \<Longrightarrow> rx_after (sk_rx sk) \<noteq> [] \<Longrightarrow> \<exists>r sk'. recv n sk = Inr (r, [], sk') \<and> r \<le> 0"
  using recv_events_none[of "sk_rx sk" n] by (auto simp: recv_def)

lemma s_recv_loop_short:
  assumes "length received + length (incoming sk) < sz" and "rx_after (sk_rx sk) \<noteq> []"
  shows "\<exists>sk'. s_recv_loop sz received sk = Inr (received @ incoming sk, sk')"
  using assms
proof (induction "length (incoming sk)" arbitrary: received sk rule: less_induct)
  case less
  show ?case
  proof (cases "incoming sk = []")
    case True
    from recv_none[OF this less.prems(2), of "sz - length received"] obtain r sk' where
      r: "recv (sz - length received) sk = Inr (r, [], sk')" "r \<le> 0" by blast
    with less.prems(1) True show ?thesis by (auto simp: s_recv_loop.simps[of sz received])
  next
    case False
    moreover have "0 < sz - length received" using less.prems by simp
    ultimately obtain k sk1 where k: "recv (sz - length received) sk = Inr (int k, take k (incoming sk), sk1)"
      "0 < k" "k \<le> length (incoming sk)" "incoming sk1 = drop k (incoming sk)"
      "rx_after (sk_rx sk1) = rx_after (sk_rx sk)"
      by (rule recv_some)
    let ?r = "received @ take k (incoming sk)"
    have "length (incoming sk1) < length (incoming sk)" using k False by simp
    moreover have "length ?r + length (incoming sk1) < sz" using k less.prems by simp
    ultimately obtain sk' where "s_recv_loop sz ?r sk1 = Inr (?r @ incoming sk1, sk')"
      using less.hyps[of sk1 ?r] less.prems(2) k(5) by auto
    with k less.prems(1) show ?thesis by (auto simp: s_recv_loop.simps[of sz received])
  qed
qed

text \<open>Sending: the events that come before a failure, each of which takes something.\<close>

fun tx_room :: "tx_event list \<Rightarrow> nat" where
  "tx_room (Tx (Suc k) # es) = Suc k + tx_room es"
| "tx_room _ = 0"

lemma s_send_loop_whole:
  assumes "sz \<le> length buf" and "sent \<le> sz" and "sz - sent \<le> tx_room (sk_tx sk)"
  shows "\<exists>sk'. s_send_loop buf sz sent sk = Inr (sz, sk') \<and>
    sk_out sk' = sk_out sk @ take (sz - sent) (drop sent buf) \<and> sk_rx sk' = sk_rx sk \<and>
    (\<exists>j \<le> sz - sent. sk_tx sk' = drop j (sk_tx sk))"
  using assms
proof (induction "sz - sent" arbitrary: sent sk rule: less_induct)
  case less
  show ?case
  proof (cases "sent < sz")
    case False
    with less.prems show ?thesis by (auto simp: s_send_loop.simps)
  next
    case True
    then obtain k es where es: "sk_tx sk = Tx (Suc k) # es"
      using less.prems(3) by (cases "sk_tx sk" rule: tx_room.cases) auto
    define n where "n = min (Suc k) (sz - sent)"
    define sk1 where "sk1 = sk\<lparr>sk_tx := es, sk_out := sk_out sk @ take n (drop sent buf)\<rparr>"
    have n: "0 < n" "n \<le> sz - sent" using True by (auto simp: n_def)
    have "take n (take (sz - sent) (drop sent buf)) = take n (drop sent buf)"
      using n(2) by (simp add: min_def)
    moreover have "min (Suc k) (length (take (sz - sent) (drop sent buf))) = n"
      using less.prems(1) by (auto simp: n_def)
    ultimately have "send (take (sz - sent) (drop sent buf)) sk = Inr (int n, sk1)"
      by (simp add: send_def es sk1_def Let_def del: length_take take_take)
    then have step: "s_send_loop buf sz sent sk = s_send_loop buf sz (sent + n) sk1"
      using True n(1) by (simp add: s_send_loop.simps[of buf sz sent])
    have "sz - (sent + n) \<le> tx_room (sk_tx sk1)"
      using less.prems(3) es by (auto simp: sk1_def n_def min_def)
    moreover have "sz - (sent + n) < sz - sent" "sent + n \<le> sz" using n True by auto
    ultimately obtain sk' where "s_send_loop buf sz (sent + n) sk1 = Inr (sz, sk')"
      "sk_out sk' = sk_out sk1 @ take (sz - (sent + n)) (drop (sent + n) buf)" "sk_rx sk' = sk_rx sk1"
      "\<exists>j \<le> sz - (sent + n). sk_tx sk' = drop j (sk_tx sk1)"
      using less.hyps[of "sent + n" sk1] less.prems(1) by blast
    moreover have "take (sz - sent) (drop sent buf) =
        take n (drop sent buf) @ take (sz - (sent + n)) (drop (sent + n) buf)"
    proof -
      have "sz - sent = n + (sz - (sent + n))" using n(2) True by simp
      then show ?thesis
        using take_add[of n "sz - (sent + n)" "drop sent buf"] by (simp add: add.commute)
    qed
    moreover have "\<exists>j \<le> sz - sent. sk_tx sk' = drop j (sk_tx sk)"
    proof -
      obtain j where "j \<le> sz - (sent + n)" "sk_tx sk' = drop (Suc j) (sk_tx sk)"
        using calculation(4) by (auto simp: sk1_def es)
      with n show ?thesis by (intro exI[of _ "Suc j"]) auto
    qed
    ultimately show ?thesis using step by (intro exI[of _ sk']) (simp add: sk1_def)
  qed
qed

text \<open>\<open>sendf\<close> delivers at most the first 4094 bytes of its text, however willing the socket is.\<close>

lemma sendf_delivers:
  assumes "sk_tx sk = Tx k # es" and "NUL \<notin> set (formatted str)"
  shows "sendf formatted (Some str) sk = Inr (int (min k (min 4094 (length (formatted str)))),
    sk\<lparr>sk_tx := es, sk_out := sk_out sk @ take (min k 4094) (formatted str)\<rparr>)"
proof -
  have "NUL \<notin> set (take 4094 (formatted str))" using assms(2) by (auto dest: in_set_takeD)
  moreover have "take (min k (min (length t) 4094)) t = take (min k 4094) t" for t :: bytes
    by (simp add: min_def)
  ultimately show ?thesis using assms(1) by (simp add: sendf_def send_def Let_def min.commute min.left_commute)
qed

section \<open>Properties\<close>

text \<open>
  C25.  However the network splits the incoming data, \<open>s_recv\<close> returns exactly the next \<open>sz\<close>
  bytes of the stream when the peer sends that many before closing, and leaves the rest unread.
\<close>

theorem s_recv_whole:
  assumes "sz \<le> length (incoming sk)"
  shows "\<exists>sk'. s_recv sz sk = Inr (take sz (incoming sk), sk') \<and> incoming sk' = drop sz (incoming sk) \<and>
    rx_after (sk_rx sk') = rx_after (sk_rx sk) \<and> sk_out sk' = sk_out sk"
  using s_recv_loop_whole[of sz "[]" sk] assms by (auto simp: s_recv_def)

lemma s_recv_whole_witness:
  "\<exists>sk'. s_recv 3 \<lparr>sk_rx = [Rx ''G'', Rx [], Rx ''THR!'', Rx_closed], sk_tx = [], sk_out = []\<rparr> =
     Inr (''GTH'', sk') \<and> incoming sk' = ''R!''"
  using s_recv_whole[of 3 "\<lparr>sk_rx = [Rx ''G'', Rx [], Rx ''THR!'', Rx_closed], sk_tx = [], sk_out = []\<rparr>"]
  by (auto simp: numeral_3_eq_3)

text \<open>
  When the peer closes or a call fails first, \<open>s_recv\<close> returns, with what had come: it never
  loops on a dead connection, and the caller sees a size below the one it asked for.
\<close>

lemma s_recv_short:
  assumes "length (incoming sk) < sz" and "rx_after (sk_rx sk) \<noteq> []"
  shows "\<exists>sk'. s_recv sz sk = Inr (incoming sk, sk')"
  using s_recv_loop_short[of "[]" sk sz] assms by (simp add: s_recv_def)

lemma s_recv_short_witness:
  "\<exists>sk'. s_recv 9 \<lparr>sk_rx = [Rx ''G'', Rx ''TH'', Rx_failed], sk_tx = [], sk_out = []\<rparr> = Inr (''GTH'', sk')"
  using s_recv_short[of "\<lparr>sk_rx = [Rx ''G'', Rx ''TH'', Rx_failed], sk_tx = [], sk_out = []\<rparr>" 9] by simp

text \<open>
  C26.  As long as every \<open>send\<close> takes at least one byte, \<open>s_send\<close> puts the whole buffer on the
  wire, in order and without repeating or skipping a byte, and reports its size.
\<close>

theorem s_send_whole:
  assumes "sz \<le> length buf" and "sz \<le> tx_room (sk_tx sk)"
  shows "\<exists>sk'. s_send buf sz sk = Inr (sz, sk') \<and> sk_out sk' = sk_out sk @ take sz buf \<and> sk_rx sk' = sk_rx sk"
  using s_send_loop_whole[of sz buf 0 sk] assms by (auto simp: s_send_def)

lemma s_send_whole_witness:
  "\<exists>sk'. s_send ''abcde'' 5 \<lparr>sk_rx = [], sk_tx = [Tx 2, Tx 1, Tx 9], sk_out = ''x''\<rparr> = Inr (5, sk') \<and>
     sk_out sk' = ''xabcde''"
  using s_send_whole[of 5 "''abcde''" "\<lparr>sk_rx = [], sk_tx = [Tx 2, Tx 1, Tx 9], sk_out = ''x''\<rparr>"]
  by (auto simp: numeral_eq_Suc)

end
