(* ===== verification/Queue.thy ===== *)
theory Queue
  imports Status
begin

text \<open>
  \<open>lib/queue.h\<close>, \<open>lib/queue.c\<close>: the singly linked queue every other component keeps its
  objects in.  Queues and nodes are heap objects linked by pointers, as in the source; the state
  record \<open>mem_queue\<close> holds their stores and is extended by the components that own queues, so
  that the operations below run unchanged on the server's and on the client's state.

  \<open>queue_items\<close> follows the pointers from \<open>first\<close>: it is what a loop
  \<open>node = queue->first; while (node != NULL) { ...; node = node->next; }\<close> sees.  The locale
  \<open>fifo\<close> states what the clients of a queue rely on, in terms of these items; the linked
  queue satisfies it (\<open>interpretation lq\<close>).
\<close>

section \<open>State\<close>

text \<open>The destructor callbacks that the source passes to \<open>queue_create\<close>, as code addresses.\<close>

datatype destructor = Lemessage_delete | Lethread_delete | Sharedptr_delete | Libc_free

record queue_node =
  qn_data :: ptr
  qn_next :: ptr

text \<open>\<open>size\<close> counts live heap nodes, so it cannot reach \<open>2^64\<close>; it is a \<^typ>\<open>nat\<close>.\<close>

record queue =
  q_size :: nat
  q_first :: ptr
  q_last :: ptr
  q_destruct :: destructor

record mem_queue =
  q_nodes :: "queue_node store"
  q_queues :: "queue store"

section \<open>Operations\<close>

text \<open>\<open>NULLPTR_PREVENT\<close> of \<open>security.h\<close>: return the given value if the pointer is null.\<close>

definition NULLPTR_PREVENT :: "ptr \<Rightarrow> 'a \<Rightarrow> 'a res \<Rightarrow> 'a res" where
  "NULLPTR_PREVENT p r k =
     (case p of Null \<Rightarrow> Inr r | Wild \<Rightarrow> Inl WildPointer | Ptr a \<Rightarrow> k)"

lemma NULLPTR_PREVENT_simps [simp]:
  "NULLPTR_PREVENT Null r k = Inr r"
  "NULLPTR_PREVENT Wild r k = Inl WildPointer"
  "NULLPTR_PREVENT (Ptr a) r k = k"
  by (simp_all add: NULLPTR_PREVENT_def)

definition queue_create ::
  "destructor \<Rightarrow> 'm mem_queue_scheme \<Rightarrow> status_t \<times> ptr \<times> 'm mem_queue_scheme" where
  "queue_create destruct s =
     (let (q, qs) = new_obj \<lparr>q_size = 0, q_first = Null, q_last = Null, q_destruct = destruct\<rparr>
                      (q_queues s)
      in (ok_status, q, s\<lparr>q_queues := qs\<rparr>))"

text \<open>\<open>queue_is_empty\<close>: \<open>TRUE\<close> is 1, \<open>FALSE\<close> is 0, a null queue gives the status.\<close>

definition queue_is_empty :: "ptr \<Rightarrow> 'm mem_queue_scheme \<Rightarrow> int res" where
  "queue_is_empty q s =
     NULLPTR_PREVENT q (err LESTATUS_NPTR)
       (andthen (deref (q_queues s) q) (\<lambda>qu. Inr (if q_size qu = 0 then 1 else 0)))"

text \<open>The two branches of \<open>queue_push\<close> that link the new node in.\<close>

definition queue_link ::
  "ptr \<Rightarrow> queue \<Rightarrow> queue_node store \<Rightarrow> (queue_node store \<times> queue) res" where
  "queue_link new_node qu nodes =
     (if q_first qu = Null then Inr (nodes, qu\<lparr>q_first := new_node, q_last := new_node\<rparr>)
      else
        andthen (deref nodes (q_last qu)) (\<lambda>l.
        andthen (assign (q_last qu) (l\<lparr>qn_next := new_node\<rparr>) nodes) (\<lambda>nodes.
        Inr (nodes, qu\<lparr>q_last := new_node\<rparr>))))"

definition queue_push ::
  "ptr \<Rightarrow> ptr \<Rightarrow> 'm mem_queue_scheme \<Rightarrow> (status_t \<times> 'm mem_queue_scheme) res" where
  "queue_push q data s =
     NULLPTR_PREVENT q (err LESTATUS_NPTR, s) (
     NULLPTR_PREVENT data (err LESTATUS_NPTR, s) (
     let (new_node, nodes) = new_obj \<lparr>qn_data = data, qn_next = Null\<rparr> (q_nodes s) in
     andthen (deref (q_queues s) q) (\<lambda>qu.
     andthen (queue_link new_node qu nodes) (\<lambda>(nodes, qu).
     andthen (assign q (qu\<lparr>q_size := Suc (q_size qu)\<rparr>) (q_queues s)) (\<lambda>qs.
     Inr (ok_status, s\<lparr>q_nodes := nodes, q_queues := qs\<rparr>))))))"

text \<open>
  \<open>queue_pop\<close>.  The second emptiness test reads \<open>size\<close> before it is decremented, as the
  source does.  The status returned for a null queue is no valid pointer.
\<close>

definition queue_pop ::
  "ptr \<Rightarrow> 'm mem_queue_scheme \<Rightarrow> (ptr \<times> 'm mem_queue_scheme) res" where
  "queue_pop q s =
     NULLPTR_PREVENT q (Wild, s) (
     andthen (deref (q_queues s) q) (\<lambda>qu.
     let first = q_first qu in
     andthen (queue_is_empty q s) (\<lambda>e.
     if e = 1 then Inr (Null, s)
     else
       andthen (deref (q_nodes s) first) (\<lambda>n.
       let data = qn_data n; qu = qu\<lparr>q_first := qn_next n\<rparr> in
       andthen (assign q qu (q_queues s)) (\<lambda>qs.
       andthen (free_obj first (q_nodes s)) (\<lambda>nodes.
       let s = s\<lparr>q_nodes := nodes, q_queues := qs\<rparr> in
       andthen (queue_is_empty q s) (\<lambda>e.
       let qu = (if e = 1 then qu\<lparr>q_last := Null\<rparr> else qu) in
       andthen (assign q (qu\<lparr>q_size := q_size qu - 1\<rparr>) (q_queues s)) (\<lambda>qs.
       Inr (data, s\<lparr>q_queues := qs\<rparr>)))))))))"

text \<open>
  The traversal.  A chain of live nodes visits an address at most once, so one more step than
  there are addresses is enough; a cyclic list would run out of steps.
\<close>

fun walk :: "nat \<Rightarrow> queue_node store \<Rightarrow> ptr \<Rightarrow> ptr list res" where
  "walk fuel h Null = Inr []"
| "walk 0 h p = Inl Diverges"
| "walk (Suc fuel) h p =
     andthen (deref h p) (\<lambda>n. andthen (walk fuel h (qn_next n)) (\<lambda>ds. Inr (qn_data n # ds)))"

definition queue_items :: "ptr \<Rightarrow> 'm mem_queue_scheme \<Rightarrow> ptr list res" where
  "queue_items q s =
     andthen (deref (q_queues s) q) (\<lambda>qu. walk (Suc (brk (q_nodes s))) (q_nodes s) (q_first qu))"

text \<open>
  \<open>queue_delete\<close>.  \<open>call\<close> runs a destructor on the state; the steps of the loop are bounded
  as those of \<open>walk\<close> are.
\<close>

fun queue_delete_loop ::
  "nat \<Rightarrow> (destructor \<Rightarrow> ptr \<Rightarrow> 'm mem_queue_scheme \<Rightarrow> 'm mem_queue_scheme res)
   \<Rightarrow> ptr \<Rightarrow> ptr \<Rightarrow> 'm mem_queue_scheme \<Rightarrow> 'm mem_queue_scheme res" where
  "queue_delete_loop fuel call q Null s = Inr s"
| "queue_delete_loop 0 call q node s = Inl Diverges"
| "queue_delete_loop (Suc fuel) call q node s =
     andthen (deref (q_nodes s) node) (\<lambda>n.
     let next = qn_next n in
     andthen
       (if qn_data n \<noteq> Null then
          andthen (deref (q_queues s) q) (\<lambda>qu.
          andthen (call (q_destruct qu) (qn_data n) s) (\<lambda>s.
          andthen (assign node (n\<lparr>qn_data := Null\<rparr>) (q_nodes s)) (\<lambda>nodes.
          Inr (s\<lparr>q_nodes := nodes\<rparr>))))
        else Inr s) (\<lambda>s.
     andthen (free_obj node (q_nodes s)) (\<lambda>nodes.
     andthen (deref (q_queues s) q) (\<lambda>qu.
     andthen (assign q (qu\<lparr>q_size := q_size qu - 1\<rparr>) (q_queues s)) (\<lambda>qs.
     queue_delete_loop fuel call q next (s\<lparr>q_nodes := nodes, q_queues := qs\<rparr>))))))"

definition queue_delete ::
  "(destructor \<Rightarrow> ptr \<Rightarrow> 'm mem_queue_scheme \<Rightarrow> 'm mem_queue_scheme res)
   \<Rightarrow> ptr \<Rightarrow> 'm mem_queue_scheme \<Rightarrow> (status_t \<times> 'm mem_queue_scheme) res" where
  "queue_delete call q s =
     NULLPTR_PREVENT q (err LESTATUS_NPTR, s) (
     andthen (deref (q_queues s) q) (\<lambda>qu.
     andthen (queue_delete_loop (Suc (brk (q_nodes s))) call q (q_first qu) s) (\<lambda>s.
     andthen (free_obj q (q_queues s)) (\<lambda>qs.
     Inr (ok_status, s\<lparr>q_queues := qs\<rparr>)))))"

section \<open>Chains of nodes\<close>

fun chain :: "queue_node store \<Rightarrow> ptr \<Rightarrow> addr list \<Rightarrow> ptr list \<Rightarrow> bool" where
  "chain h p [] ds = (p = Null \<and> ds = [])"
| "chain h p (a # as) [] = False"
| "chain h p (a # as) (d # ds) =
     (p = Ptr a \<and> (\<exists>nx. cells h a = Some \<lparr>qn_data = d, qn_next = nx\<rparr> \<and> chain h nx as ds))"

lemma chain_Null [simp]: "chain h Null as ds \<longleftrightarrow> as = [] \<and> ds = []"
  by (cases as; cases ds) auto

lemma chain_cong:
  "(\<And>a. a \<in> set as \<Longrightarrow> cells h a = cells h' a) \<Longrightarrow> chain h p as ds = chain h' p as ds"
  by (induction h p as ds rule: chain.induct) auto

lemma chain_length: "chain h p as ds \<Longrightarrow> length ds = length as"
  by (induction h p as ds rule: chain.induct) auto

lemma chain_live: "chain h p as ds \<Longrightarrow> a \<in> set as \<Longrightarrow> \<exists>n. cells h a = Some n"
  by (induction h p as ds rule: chain.induct) auto

lemma chain_unique:
  "chain h p as ds \<Longrightarrow> chain h p bs es \<Longrightarrow> as = bs \<and> ds = es"
proof (induction h p as ds arbitrary: bs es rule: chain.induct)
  case (3 h p a as d ds)
  then show ?case by (cases bs; cases es) auto
qed auto

lemma chain_suffix:
  "chain h p (as @ a # bs) ds \<Longrightarrow> \<exists>es. chain h (Ptr a) (a # bs) es"
proof (induction as arbitrary: p ds)
  case Nil
  then have "chain h (Ptr a) (a # bs) ds" by (cases ds) auto
  then show ?case ..
next
  case (Cons x as)
  then show ?case by (cases ds) auto
qed

text \<open>A chain ends, so it never comes back to an address it has passed.\<close>

lemma chain_distinct: "chain h p as ds \<Longrightarrow> distinct as"
proof (induction h p as ds rule: chain.induct)
  case (3 h p a as d ds)
  have "a \<notin> set as"
  proof
    assume "a \<in> set as"
    then obtain us vs where as: "as = us @ a # vs" by (meson split_list)
    with 3 obtain nx where "chain h nx (us @ a # vs) ds" by auto
    from chain_suffix[OF this] obtain es where "chain h (Ptr a) (a # vs) es" ..
    moreover from 3(2) have "chain h (Ptr a) (a # as) (d # ds)" by simp
    ultimately have "a # vs = a # as" using chain_unique by blast
    with as show False by simp
  qed
  with 3 show ?case by auto
qed auto

lemma walk_chain: "chain h p as ds \<Longrightarrow> length as \<le> fuel \<Longrightarrow> walk fuel h p = Inr ds"
proof (induction h p as ds arbitrary: fuel rule: chain.induct)
  case (3 h p a as d ds)
  then show ?case by (cases fuel) auto
qed auto

lemma chain_bound:
  assumes "chain h p as ds" and "store_ok h"
  shows "length as \<le> brk h"
proof -
  have "set as \<subseteq> {..< brk h}"
    using chain_live[OF assms(1)] store_ok_less[OF assms(2)] by blast
  then have "card (set as) \<le> card {..< brk h}" by (intro card_mono) auto
  with chain_distinct[OF assms(1)] show ?thesis by (simp add: distinct_card)
qed

lemma chain_last:
  "chain h p (as @ [l]) (es @ [e]) \<Longrightarrow> cells h l = Some \<lparr>qn_data = e, qn_next = Null\<rparr>"
proof (induction as arbitrary: p es)
  case Nil
  then show ?case by (cases es) (auto dest: chain_length)
next
  case (Cons a as)
  then show ?case by (cases es) (auto dest: chain_length)
qed

text \<open>Linking a fresh node behind the last one extends the chain.\<close>

lemma chain_snoc:
  assumes "chain h p (as @ [l]) (ds @ [d])" and "b \<notin> set (as @ [l])"
    and "\<And>a. a \<in> set as \<Longrightarrow> cells h' a = cells h a"
    and "cells h' l = Some \<lparr>qn_data = d, qn_next = Ptr b\<rparr>"
    and "cells h' b = Some \<lparr>qn_data = e, qn_next = Null\<rparr>"
  shows "chain h' p (as @ [l, b]) (ds @ [d, e])"
  using assms
proof (induction as arbitrary: p ds)
  case Nil
  then show ?case by (cases ds) (auto dest: chain_length)
next
  case (Cons a as)
  show ?case
  proof (cases ds)
    case Nil
    with Cons.prems show ?thesis by (auto dest: chain_length)
  next
    case (Cons x xs)
    with Cons.prems Cons.IH show ?thesis by fastforce
  qed
qed

section \<open>Well-formed queues and their items\<close>

definition queue_at :: "queue_node store \<Rightarrow> queue \<Rightarrow> addr list \<Rightarrow> ptr list \<Rightarrow> bool" where
  "queue_at h qu ns ds \<longleftrightarrow>
     chain h (q_first qu) ns ds \<and> q_size qu = length ns \<and>
     (ns \<noteq> [] \<longrightarrow> q_last qu = Ptr (last ns)) \<and> (\<forall>d\<in>set ds. \<exists>a. d = Ptr a)"

text \<open>
  All queues of a heap: \<open>N\<close> gives the nodes and \<open>D\<close> the data of each.  No node is in two
  queues, and no live node is in none.
\<close>

definition qrep ::
  "queue_node store \<Rightarrow> queue store \<Rightarrow> (addr \<Rightarrow> addr list) \<Rightarrow> (addr \<Rightarrow> ptr list) \<Rightarrow> bool" where
  "qrep h qs N D \<longleftrightarrow>
     (\<forall>q qu. cells qs q = Some qu \<longrightarrow> queue_at h qu (N q) (D q)) \<and>
     (\<forall>q q'. cells qs q \<noteq> None \<longrightarrow> cells qs q' \<noteq> None \<longrightarrow> q \<noteq> q' \<longrightarrow> set (N q) \<inter> set (N q') = {}) \<and>
     (\<forall>a. cells h a \<noteq> None \<longrightarrow> (\<exists>q. cells qs q \<noteq> None \<and> a \<in> set (N q)))"

definition qok :: "queue_node store \<Rightarrow> queue store \<Rightarrow> bool" where
  "qok h qs \<longleftrightarrow> store_ok h \<and> store_ok qs \<and> (\<exists>N D. qrep h qs N D)"

abbreviation queue_ok :: "'m mem_queue_scheme \<Rightarrow> bool" where
  "queue_ok s \<equiv> qok (q_nodes s) (q_queues s)"

text \<open>The items of every queue, as a partial map from queue pointers.\<close>

definition qitems :: "queue_node store \<Rightarrow> queue store \<Rightarrow> ptr \<Rightarrow> ptr list option" where
  "qitems h qs q =
     (case queue_items q \<lparr>q_nodes = h, q_queues = qs\<rparr> of Inl _ \<Rightarrow> None | Inr ds \<Rightarrow> Some ds)"

abbreviation items :: "'m mem_queue_scheme \<Rightarrow> ptr \<Rightarrow> ptr list option" where
  "items s \<equiv> qitems (q_nodes s) (q_queues s)"

lemma qitems_dead [simp]: "qitems h qs Null = None" "qitems h qs Wild = None"
  by (simp_all add: qitems_def queue_items_def)

lemma queue_items_iff: "queue_items q s = Inr ds \<longleftrightarrow> items s q = Some ds"
  by (auto simp: qitems_def queue_items_def split: sum.splits)

lemma queue_at_walk:
  "queue_at h qu ns ds \<Longrightarrow> store_ok h \<Longrightarrow> walk (Suc (brk h)) h (q_first qu) = Inr ds"
  unfolding queue_at_def
  by (intro walk_chain[of _ _ ns] le_SucI chain_bound[of _ _ _ ds]) auto

lemma qrep_qitems:
  assumes "qrep h qs N D" and "store_ok h"
  shows "qitems h qs (Ptr q) = (if cells qs q = None then None else Some (D q))"
  using assms queue_at_walk
  by (fastforce simp: qitems_def queue_items_def qrep_def split: option.splits)

lemma qitems_eqI:
  assumes "qrep h' qs' N' D'" and "store_ok h'"
    and "\<And>a. f (Ptr a) = (if cells qs' a = None then None else Some (D' a))"
    and "f Null = None" and "f Wild = None"
  shows "qitems h' qs' = f"
proof
  fix q
  show "qitems h' qs' q = f q"
    by (cases q) (simp_all add: assms qrep_qitems[OF assms(1,2)])
qed

lemma qitems_live:
  assumes "qitems h qs q = Some ds"
  obtains a qu where "q = Ptr a" and "cells qs a = Some qu"
  using assms by (cases q) (auto simp: qitems_def queue_items_def split: option.splits sum.splits)

section \<open>What each operation does to the items\<close>

lemma queue_at_cong:
  "queue_at h qu ns ds \<Longrightarrow> (\<And>a. a \<in> set ns \<Longrightarrow> cells h' a = cells h a) \<Longrightarrow> queue_at h' qu ns ds"
  using chain_cong[of ns h h'] by (auto simp: queue_at_def)

lemma qrep_disjoint:
  "qrep h qs N D \<Longrightarrow> cells qs p \<noteq> None \<Longrightarrow> cells qs p' \<noteq> None \<Longrightarrow> p \<noteq> p' \<Longrightarrow> a \<in> set (N p) \<Longrightarrow> a \<notin> set (N p')"
  unfolding qrep_def by blast

lemma qrep_cover:
  "qrep h qs N D \<Longrightarrow> cells h a \<noteq> None \<Longrightarrow> \<exists>p. cells qs p \<noteq> None \<and> a \<in> set (N p)"
  unfolding qrep_def by blast

lemma qrep_queue_at:
  "qrep h qs N D \<Longrightarrow> cells qs q = Some qu \<Longrightarrow> queue_at h qu (N q) (D q)"
  unfolding qrep_def by blast

lemma qrep_nodes_live:
  "qrep h qs N D \<Longrightarrow> cells qs q \<noteq> None \<Longrightarrow> a \<in> set (N q) \<Longrightarrow> cells h a \<noteq> None"
  using chain_live by (fastforce simp: qrep_def queue_at_def)

text \<open>Changing one queue, \<open>q\<close>, while every other one keeps its nodes.\<close>

lemma qrep_upd:
  assumes rep: "qrep h qs N D"
    and others: "\<And>q'. q' \<noteq> q \<Longrightarrow> cells qs' q' = cells qs q'"
    and new: "cells qs' q = Some qu'" "queue_at h' qu' ns' ds'"
    and frame: "\<And>q' a. q' \<noteq> q \<Longrightarrow> cells qs q' \<noteq> None \<Longrightarrow> a \<in> set (N q') \<Longrightarrow> cells h' a = cells h a"
    and apart: "\<And>q'. q' \<noteq> q \<Longrightarrow> cells qs q' \<noteq> None \<Longrightarrow> set ns' \<inter> set (N q') = {}"
    and cover: "\<And>a. cells h' a \<noteq> None \<Longrightarrow>
      a \<in> set ns' \<or> (\<exists>q'. q' \<noteq> q \<and> cells qs q' \<noteq> None \<and> a \<in> set (N q'))"
  shows "qrep h' qs' (N(q := ns')) (D(q := ds'))"
  unfolding qrep_def
proof (intro conjI allI impI)
  fix p qu
  assume p: "cells qs' p = Some qu"
  show "queue_at h' qu ((N(q := ns')) p) ((D(q := ds')) p)"
  proof (cases "p = q")
    case True
    with p new show ?thesis by simp
  next
    case False
    with p others have live: "cells qs p = Some qu" by simp
    have "queue_at h' qu (N p) (D p)"
      by (rule queue_at_cong[OF qrep_queue_at[OF rep live]]) (use frame False live in simp)
    with False show ?thesis by simp
  qed
next
  fix p p'
  assume live: "cells qs' p \<noteq> None" "cells qs' p' \<noteq> None" and "p \<noteq> p'"
  show "set ((N(q := ns')) p) \<inter> set ((N(q := ns')) p') = {}"
  proof (cases "p = q \<or> p' = q")
    case True
    then show ?thesis
    proof
      assume "p = q"
      with \<open>p \<noteq> p'\<close> live(2) others apart[of p'] show ?thesis by simp
    next
      assume "p' = q"
      with \<open>p \<noteq> p'\<close> live(1) others[of p] apart[of p] show ?thesis by (simp add: Int_commute)
    qed
  next
    case False
    then have "cells qs p \<noteq> None" "cells qs p' \<noteq> None"
      using live others by simp_all
    then have "set (N p) \<inter> set (N p') = {}" using qrep_disjoint[OF rep _ _ \<open>p \<noteq> p'\<close>] by blast
    with False show ?thesis by simp
  qed
next
  fix a
  assume "cells h' a \<noteq> None"
  from cover[OF this] show "\<exists>p. cells qs' p \<noteq> None \<and> a \<in> set ((N(q := ns')) p)"
  proof
    assume "a \<in> set ns'"
    with new show ?thesis by (intro exI[of _ q]) simp
  next
    assume "\<exists>q'. q' \<noteq> q \<and> cells qs q' \<noteq> None \<and> a \<in> set (N q')"
    then obtain q' where "q' \<noteq> q" "cells qs q' \<noteq> None" "a \<in> set (N q')" by blast
    with others show ?thesis by (intro exI[of _ q']) simp
  qed
qed

lemma qok_create:
  fixes h :: "queue_node store" and qs :: "queue store" and f :: destructor
  assumes "qok h qs"
  defines "a \<equiv> brk qs"
  defines "qs' \<equiv> qs\<lparr>cells := (cells qs)(a := Some \<lparr>q_size = 0, q_first = Null, q_last = Null,
             q_destruct = f\<rparr>), brk := Suc a\<rparr>"
  shows "qok h qs'" and "qitems h qs' = (qitems h qs)(Ptr a \<mapsto> [])" and "qitems h qs (Ptr a) = None"
proof -
  obtain N D where N: "qrep h qs N D" and ok: "store_ok h" "store_ok qs"
    using assms by (auto simp: qok_def)
  have fresh: "cells qs a = None" using ok(2) by (simp add: a_def)
  have rep: "qrep h qs' (N(a := [])) (D(a := []))"
  proof (rule qrep_upd[OF N])
    show "x \<in> set [] \<or> (\<exists>p. p \<noteq> a \<and> cells qs p \<noteq> None \<and> x \<in> set (N p))" if "cells h x \<noteq> None" for x
      using qrep_cover[OF N that] fresh by metis
  qed (auto simp: qs'_def queue_at_def)
  have ok': "store_ok qs'" using ok(2) by (auto simp: store_ok_def qs'_def a_def)
  show "qok h qs'" using rep ok ok' by (auto simp: qok_def)
  show "qitems h qs (Ptr a) = None" using qrep_qitems[OF N ok(1)] fresh by simp
  show "qitems h qs' = (qitems h qs)(Ptr a \<mapsto> [])"
    by (rule qitems_eqI[OF rep ok(1)]) (auto simp: qrep_qitems[OF N ok(1)] qs'_def)
qed

lemma queue_create_law:
  assumes "queue_ok s"
  obtains q qs where "queue_create f s = (ok_status, q, s\<lparr>q_queues := qs\<rparr>)"
    and "qok (q_nodes s) qs" and "qitems (q_nodes s) qs = (items s)(q \<mapsto> [])"
    and "items s q = None" and "\<exists>a. q = Ptr a"
  using qok_create[OF assms] by (auto simp: queue_create_def new_obj_def Let_def)

text \<open>Pushing on the empty and on the nonempty queue: the node store after the call.\<close>

lemma queue_at_push:
  assumes at: "queue_at h qu ns ds" and ok: "store_ok h" and d: "d = Ptr x"
  obtains h' qu' where
    "queue_link (Ptr (brk h)) qu (snd (new_obj \<lparr>qn_data = d, qn_next = Null\<rparr> h)) = Inr (h', qu')"
    and "queue_at h' (qu'\<lparr>q_size := Suc (q_size qu')\<rparr>) (ns @ [brk h]) (ds @ [d])"
    and "store_ok h'" and "\<And>a. a \<notin> set ns \<Longrightarrow> a \<noteq> brk h \<Longrightarrow> cells h' a = cells h a"
    and "\<And>a. cells h' a \<noteq> None \<Longrightarrow> cells h a \<noteq> None \<or> a = brk h"
proof (cases ns rule: rev_cases)
  case Nil
  then have q: "q_first qu = Null" "ds = []" "q_size qu = 0" using at by (auto simp: queue_at_def)
  show ?thesis
    by (rule that[of "snd (new_obj \<lparr>qn_data = d, qn_next = Null\<rparr> h)"
          "qu\<lparr>q_first := Ptr (brk h), q_last := Ptr (brk h)\<rparr>"])
      (use q Nil d ok in \<open>auto simp: queue_link_def new_obj_def queue_at_def store_ok_def split: if_splits\<close>)
next
  case (snoc as l)
  have ch: "chain h (q_first qu) (as @ [l]) ds" using at snoc by (simp add: queue_at_def)
  obtain es e where ds: "ds = es @ [e]"
    using chain_length[OF ch] by (cases ds rule: rev_cases) auto
  have last: "q_last qu = Ptr l" using at snoc by (simp add: queue_at_def)
  obtain n where n: "cells h l = Some n" using chain_live[OF ch, of l] by auto
  have ne: "brk h \<notin> set (as @ [l])"
    using chain_live[OF ch] ok by (metis option.distinct(1) store_ok_fresh)
  have first: "q_first qu \<noteq> Null" using ch by auto
  have l: "l \<notin> set as" using chain_distinct[OF ch] by simp
  have e: "qn_data n = e" using chain_last[OF ch[unfolded ds]] n by simp
  define h' where "h' = h\<lparr>cells := (cells h)(brk h := Some \<lparr>qn_data = d, qn_next = Null\<rparr>,
      l := Some (n\<lparr>qn_next := Ptr (brk h)\<rparr>)), brk := Suc (brk h)\<rparr>"
  have "chain h' (q_first qu) (as @ [l, brk h]) (es @ [e, d])"
    using ch ne e l unfolding ds by (intro chain_snoc[of h]) (auto simp: h'_def)
  then have at': "queue_at h' (qu\<lparr>q_last := Ptr (brk h), q_size := Suc (q_size qu)\<rparr>)
      (ns @ [brk h]) (ds @ [d])"
    using at snoc ds d by (auto simp: queue_at_def)
  have ok': "store_ok h'" using ok n by (auto simp: store_ok_def h'_def)
  show ?thesis
    by (rule that[of h' "qu\<lparr>q_last := Ptr (brk h)\<rparr>"])
      (use first last ne n at' ok' snoc in
        \<open>auto simp: queue_link_def new_obj_def h'_def split: if_splits\<close>)
qed

lemma queue_push_law:
  assumes "queue_ok s" and "items s q = Some ds" and "d = Ptr x"
  obtains h qs where "queue_push q d s = Inr (ok_status, s\<lparr>q_nodes := h, q_queues := qs\<rparr>)"
    and "qok h qs" and "qitems h qs = (items s)(q \<mapsto> ds @ [d])"
proof -
  obtain a qu where q: "q = Ptr a" "cells (q_queues s) a = Some qu"
    using assms(2) by (rule qitems_live)
  obtain N D where rep: "qrep (q_nodes s) (q_queues s) N D"
    and ok: "store_ok (q_nodes s)" "store_ok (q_queues s)"
    using assms(1) by (auto simp: qok_def)
  have D: "D a = ds" using qrep_qitems[OF rep ok(1), of a] assms(2) q by simp
  let ?b = "brk (q_nodes s)"
  obtain h' qu' where link: "queue_link (Ptr ?b) qu
        (snd (new_obj \<lparr>qn_data = d, qn_next = Null\<rparr> (q_nodes s))) = Inr (h', qu')"
    and at: "queue_at h' (qu'\<lparr>q_size := Suc (q_size qu')\<rparr>) (N a @ [?b]) (D a @ [d])"
    and ok': "store_ok h'"
    and same: "\<And>x. x \<notin> set (N a) \<Longrightarrow> x \<noteq> ?b \<Longrightarrow> cells h' x = cells (q_nodes s) x"
    and old: "\<And>x. cells h' x \<noteq> None \<Longrightarrow> cells (q_nodes s) x \<noteq> None \<or> x = ?b"
    by (rule queue_at_push[OF qrep_queue_at[OF rep q(2)] ok(1) assms(3)]) blast
  define qs' where "qs' = (q_queues s)\<lparr>cells := (cells (q_queues s))
      (a := Some (qu'\<lparr>q_size := Suc (q_size qu')\<rparr>))\<rparr>"
  have fresh: "?b \<notin> set (N p)" if "cells (q_queues s) p \<noteq> None" for p
    using qrep_nodes_live[OF rep that, of ?b] ok(1) by auto
  have rep': "qrep h' qs' (N(a := N a @ [?b])) (D(a := D a @ [d]))"
  proof (rule qrep_upd[OF rep])
    show "cells h' x = cells (q_nodes s) x"
      if "p \<noteq> a" "cells (q_queues s) p \<noteq> None" "x \<in> set (N p)" for p x
      by (rule same) (use qrep_disjoint[OF rep that(2) _ that(1,3)] fresh[OF that(2)] q that in auto)
    show "set (N a @ [?b]) \<inter> set (N p) = {}" if "p \<noteq> a" "cells (q_queues s) p \<noteq> None" for p
      using qrep_disjoint[OF rep that(2), of a] fresh[OF that(2)] q that(1) by auto
    show "x \<in> set (N a @ [?b]) \<or>
        (\<exists>p. p \<noteq> a \<and> cells (q_queues s) p \<noteq> None \<and> x \<in> set (N p))" if "cells h' x \<noteq> None" for x
    proof (cases "x \<in> set (N a @ [?b])")
      case False
      with old[OF that] have "cells (q_nodes s) x \<noteq> None" and "x \<notin> set (N a)" by auto
      with qrep_cover[OF rep, of x] show ?thesis by metis
    qed simp
  qed (use at in \<open>auto simp: qs'_def\<close>)
  have okq: "store_ok qs'" using ok(2) q(2) by (auto simp: store_ok_def qs'_def)
  show ?thesis
  proof (rule that[where h = h' and qs = qs'])
    show "queue_push q d s = Inr (ok_status, s\<lparr>q_nodes := h', q_queues := qs'\<rparr>)"
      using link q assms(3) by (simp add: queue_push_def new_obj_def qs'_def Let_def)
    show "qok h' qs'" using rep' ok' okq by (auto simp: qok_def)
    show "qitems h' qs' = (items s)(q \<mapsto> ds @ [d])"
      by (rule qitems_eqI[OF rep' ok']) (auto simp: qrep_qitems[OF rep ok(1)] q D qs'_def)
  qed
qed

lemma queue_is_empty_law:
  assumes "queue_ok s" and "items s q = Some ds"
  shows "queue_is_empty q s = Inr (if ds = [] then 1 else 0)"
proof -
  obtain a qu where q: "q = Ptr a" "cells (q_queues s) a = Some qu"
    using assms(2) by (rule qitems_live)
  obtain N D where rep: "qrep (q_nodes s) (q_queues s) N D" and ok: "store_ok (q_nodes s)"
    using assms(1) by (auto simp: qok_def)
  have "D a = ds" using qrep_qitems[OF rep ok, of a] assms(2) q by simp
  with qrep_queue_at[OF rep q(2)] have "q_size qu = length ds"
    using chain_length by (auto simp: queue_at_def)
  with q show ?thesis by (simp add: queue_is_empty_def)
qed

lemma q_first_Null_iff:
  assumes "queue_ok s" and "items s (Ptr a) = Some ds" and "cells (q_queues s) a = Some qu"
  shows "q_first qu = Null \<longleftrightarrow> ds = []" and "q_size qu = length ds"
proof -
  obtain N D where rep: "qrep (q_nodes s) (q_queues s) N D" and ok: "store_ok (q_nodes s)"
    using assms(1) by (auto simp: qok_def)
  have "D a = ds" using qrep_qitems[OF rep ok(1), of a] assms(2,3) by simp
  with qrep_queue_at[OF rep assms(3)] have at: "queue_at (q_nodes s) qu (N a) ds" by simp
  then show "q_first qu = Null \<longleftrightarrow> ds = []"
    by (cases "N a"; cases ds) (auto simp: queue_at_def dest: chain_length)
  show "q_size qu = length ds" using at chain_length by (auto simp: queue_at_def)
qed

lemma queue_pop_empty_law:
  assumes "queue_ok s" and "items s q = Some []"
  shows "queue_pop q s = Inr (Null, s)"
proof -
  obtain a qu where q: "q = Ptr a" "cells (q_queues s) a = Some qu"
    using assms(2) by (rule qitems_live)
  then show ?thesis
    using queue_is_empty_law[OF assms] by (simp add: queue_pop_def Let_def)
qed

lemma queue_pop_law:
  assumes "queue_ok s" and "items s q = Some (d # ds)"
  obtains h qs where "queue_pop q s = Inr (d, s\<lparr>q_nodes := h, q_queues := qs\<rparr>)"
    and "qok h qs" and "qitems h qs = (items s)(q \<mapsto> ds)"
proof -
  obtain a qu where q: "q = Ptr a" "cells (q_queues s) a = Some qu"
    using assms(2) by (rule qitems_live)
  obtain N D where rep: "qrep (q_nodes s) (q_queues s) N D"
    and ok: "store_ok (q_nodes s)" "store_ok (q_queues s)"
    using assms(1) by (auto simp: qok_def)
  have D: "D a = d # ds" using qrep_qitems[OF rep ok(1), of a] assms(2) q by simp
  have at: "queue_at (q_nodes s) qu (N a) (d # ds)" using qrep_queue_at[OF rep q(2)] D by simp
  obtain b bs where N: "N a = b # bs" using at by (cases "N a") (auto simp: queue_at_def)
  obtain nx where b: "q_first qu = Ptr b" "cells (q_nodes s) b = Some \<lparr>qn_data = d, qn_next = nx\<rparr>"
    and tl: "chain (q_nodes s) nx bs ds"
    using at N by (auto simp: queue_at_def)
  have "distinct (N a)" using at chain_distinct unfolding queue_at_def by blast
  then have dist: "b \<notin> set bs" using N by simp
  have size: "q_size qu = Suc (length bs)" using at N by (simp add: queue_at_def)
  define h' where "h' = (q_nodes s)\<lparr>cells := (cells (q_nodes s))(b := None)\<rparr>"
  define qu' where "qu' = qu\<lparr>q_first := nx, q_size := length bs\<rparr>"
  define qs' where "qs' = (q_queues s)\<lparr>cells := (cells (q_queues s))(a := Some qu')\<rparr>"
  have "chain h' nx bs ds = chain (q_nodes s) nx bs ds"
    by (rule chain_cong) (use dist in \<open>auto simp: h'_def\<close>)
  then have at': "queue_at h' qu' bs ds" using at N tl by (auto simp: queue_at_def qu'_def)
  have rep': "qrep h' qs' (N(a := bs)) (D(a := ds))"
  proof (rule qrep_upd[OF rep])
    show "cells h' x = cells (q_nodes s) x"
      if "p \<noteq> a" "cells (q_queues s) p \<noteq> None" "x \<in> set (N p)" for p x
      using qrep_disjoint[OF rep that(2) _ that(1,3)] q N by (auto simp: h'_def)
    show "set bs \<inter> set (N p) = {}" if "p \<noteq> a" "cells (q_queues s) p \<noteq> None" for p
      using qrep_disjoint[OF rep that(2), of a] q that(1) N by auto
    show "x \<in> set bs \<or> (\<exists>p. p \<noteq> a \<and> cells (q_queues s) p \<noteq> None \<and> x \<in> set (N p))"
      if "cells h' x \<noteq> None" for x
    proof (cases "x \<in> set bs")
      case False
      with that N have "cells (q_nodes s) x \<noteq> None" and "x \<notin> set (N a)"
        by (auto simp: h'_def split: if_splits)
      with qrep_cover[OF rep, of x] show ?thesis by metis
    qed simp
  qed (use at' in \<open>auto simp: qs'_def\<close>)
  have ok': "store_ok h'" "store_ok qs'"
    using ok q(2) by (auto simp: store_ok_def h'_def qs'_def)
  show ?thesis
  proof (rule that[where h = h' and qs = qs'])
    show "queue_pop q s = Inr (d, s\<lparr>q_nodes := h', q_queues := qs'\<rparr>)"
      using q b size by (simp add: queue_pop_def queue_is_empty_def h'_def qs'_def qu'_def Let_def)
    show "qok h' qs'" using rep' ok' by (auto simp: qok_def)
    show "qitems h' qs' = (items s)(q \<mapsto> ds)"
      by (rule qitems_eqI[OF rep' ok'(1)]) (auto simp: qrep_qitems[OF rep ok(1)] q qs'_def)
  qed
qed

text \<open>The destructor of each queue: no operation changes it.\<close>

definition qkind :: "queue store \<Rightarrow> ptr \<Rightarrow> destructor option" where
  "qkind qs q = (case q of Ptr a \<Rightarrow> map_option q_destruct (cells qs a) | _ \<Rightarrow> None)"

lemma qkind_create:
  "queue_create f s = (st, q, t) \<Longrightarrow> qkind (q_queues t) = (qkind (q_queues s))(q \<mapsto> f)"
  by (auto simp: queue_create_def new_obj_def qkind_def fun_eq_iff Let_def split: ptr.split)

lemma qkind_assign:
  "assign p x qs = Inr qs' \<Longrightarrow> deref qs p = Inr y \<Longrightarrow> q_destruct x = q_destruct y \<Longrightarrow> qkind qs' = qkind qs"
  by (cases p) (auto simp: qkind_def fun_eq_iff split: ptr.split option.splits)

lemma queue_link_kind: "queue_link n qu h = Inr (h', qu') \<Longrightarrow> q_destruct qu' = q_destruct qu"
  by (auto simp: queue_link_def split: if_splits)

lemma qkind_push:
  "queue_push q d s = Inr (st, t) \<Longrightarrow> qkind (q_queues t) = qkind (q_queues s)"
  unfolding queue_push_def NULLPTR_PREVENT_def
  by (auto simp: new_obj_def Let_def qkind_def fun_eq_iff split: ptr.splits option.splits
      dest!: queue_link_kind)

section \<open>Deleting a queue\<close>

text \<open>
  A destructor that neither reads nor writes queue memory: it commutes with any change of it.
\<close>

definition off_queues :: "(ptr \<Rightarrow> 'm mem_queue_scheme \<Rightarrow> 'm mem_queue_scheme res) \<Rightarrow> bool" where
  "off_queues f \<longleftrightarrow>
     (\<forall>d s h qs. f d (s\<lparr>q_nodes := h, q_queues := qs\<rparr>) =
        andthen (f d s) (\<lambda>t. Inr (t\<lparr>q_nodes := h, q_queues := qs\<rparr>)))"

lemma off_queues_upd:
  "off_queues f \<Longrightarrow> f d (s\<lparr>q_nodes := h, q_queues := qs\<rparr>) =
     andthen (f d s) (\<lambda>t. Inr (t\<lparr>q_nodes := h, q_queues := qs\<rparr>))"
  by (simp add: off_queues_def)

lemma off_queues_same:
  assumes "off_queues f" and "f d s = Inr t"
  shows "q_nodes t = q_nodes s" and "q_queues t = q_queues s"
proof -
  have "s\<lparr>q_nodes := q_nodes s, q_queues := q_queues s\<rparr> = s" by simp
  with off_queues_upd[OF assms(1), where d = d and s = s and h = "q_nodes s" and qs = "q_queues s"]
    assms(2)
  have t: "t = t\<lparr>q_nodes := q_nodes s, q_queues := q_queues s\<rparr>" by simp
  show "q_nodes t = q_nodes s" by (subst t) simp
  show "q_queues t = q_queues s" by (subst t) simp
qed

lemma off_queues_fold:
  assumes "off_queues f"
  shows "fold_res f ds (s\<lparr>q_nodes := h, q_queues := qs\<rparr>) =
    andthen (fold_res f ds s) (\<lambda>t. Inr (t\<lparr>q_nodes := h, q_queues := qs\<rparr>))"
proof (induction ds arbitrary: s)
  case Nil
  then show ?case by simp
next
  case (Cons d ds)
  then show ?case
    by (cases "f d s") (simp_all add: off_queues_upd[OF assms])
qed

definition drop_nodes :: "addr set \<Rightarrow> queue_node store \<Rightarrow> queue_node store" where
  "drop_nodes A h = h\<lparr>cells := (\<lambda>a. if a \<in> A then None else cells h a)\<rparr>"

lemma drop_nodes_empty [simp]: "drop_nodes {} h = h"
  by (simp add: drop_nodes_def)

lemma drop_nodes_insert:
  "drop_nodes (set ns) (h\<lparr>cells := (cells h)(a := None)\<rparr>) = drop_nodes (set (a # ns)) h"
  by (rule store.equality) (auto simp: drop_nodes_def)

lemma queue_delete_loop_eq:
  assumes off: "\<And>f. off_queues (call f)"
    and "chain (q_nodes s) p ns ds" and "length ns \<le> fuel" and "\<forall>d\<in>set ds. d \<noteq> Null"
    and "cells (q_queues s) q = Some qu"
  shows "queue_delete_loop fuel call (Ptr q) p s =
    andthen (fold_res (call (q_destruct qu)) ds s) (\<lambda>t.
    Inr (t\<lparr>q_nodes := drop_nodes (set ns) (q_nodes s),
           q_queues := (q_queues s)\<lparr>cells := (cells (q_queues s))
             (q \<mapsto> qu\<lparr>q_size := q_size qu - length ns\<rparr>)\<rparr>\<rparr>))"
  using assms(2-)
proof (induction ns arbitrary: fuel p ds s qu)
  case Nil
  then have "(q_queues s)\<lparr>cells := (cells (q_queues s))(q \<mapsto> qu)\<rparr> = q_queues s"
    by (intro store.equality) auto
  then have "s\<lparr>q_nodes := drop_nodes (set []) (q_nodes s),
      q_queues := (q_queues s)\<lparr>cells := (cells (q_queues s))(q \<mapsto> qu\<lparr>q_size := q_size qu - 0\<rparr>)\<rparr>\<rparr> = s"
    by (intro mem_queue.equality) simp_all
  with Nil show ?case by (cases fuel) (simp_all del: fun_upd_apply)
next
  case (Cons a ns)
  obtain d es where ds: "ds = d # es" using Cons.prems(1) by (cases ds) auto
  obtain fuel' where fuel: "fuel = Suc fuel'" using Cons.prems(2) by (cases fuel) auto
  obtain nx where p: "p = Ptr a" "cells (q_nodes s) a = Some \<lparr>qn_data = d, qn_next = nx\<rparr>"
    and ch: "chain (q_nodes s) nx ns es"
    using Cons.prems(1) by (auto simp: ds)
  have a: "a \<notin> set ns" using chain_distinct[OF Cons.prems(1)] by simp
  show ?case
  proof (cases "call (q_destruct qu) d s")
    case (Inl f)
    with Cons.prems(3,4) show ?thesis by (simp add: ds fuel p Let_def)
  next
    case (Inr t)
    note same = off_queues_same[OF off Inr]
    define h where "h = (q_nodes s)\<lparr>cells := (cells (q_nodes s))(a := None)\<rparr>"
    define qu' where "qu' = qu\<lparr>q_size := q_size qu - 1\<rparr>"
    define qs where "qs = (q_queues s)\<lparr>cells := (cells (q_queues s))(q \<mapsto> qu')\<rparr>"
    have "chain h nx ns es = chain (q_nodes s) nx ns es"
      by (rule chain_cong) (use a in \<open>auto simp: h_def\<close>)
    with ch have ch': "chain h nx ns es" by simp
    have step: "queue_delete_loop fuel call (Ptr q) p s =
        queue_delete_loop fuel' call (Ptr q) nx (t\<lparr>q_nodes := h, q_queues := qs\<rparr>)"
      using Cons.prems(3,4) Inr
      by (simp add: ds fuel p Let_def same h_def qs_def qu'_def fun_upd_def cong: if_cong)
    also have "\<dots> = andthen (fold_res (call (q_destruct qu)) es t) (\<lambda>u.
        Inr (u\<lparr>q_nodes := drop_nodes (set (a # ns)) (q_nodes s),
               q_queues := (q_queues s)\<lparr>cells := (cells (q_queues s))
                 (q \<mapsto> qu\<lparr>q_size := q_size qu - length (a # ns)\<rparr>)\<rparr>\<rparr>))"
      using Cons.IH[of "t\<lparr>q_nodes := h, q_queues := qs\<rparr>" nx es fuel' qu'] ch' Cons.prems(2,3)
      by (simp add: ds fuel qs_def qu'_def off_queues_fold[OF off] andthen_assoc
            h_def drop_nodes_insert fun_upd_same del: fun_upd_apply)
    finally show ?thesis using Inr by (simp add: ds del: fun_upd_apply)
  qed
qed

lemma qrep_delete:
  assumes rep: "qrep h qs N D" and q: "cells qs q = Some qu"
  shows "qrep (drop_nodes (set (N q)) h) (qs\<lparr>cells := (cells qs)(q := None)\<rparr>) N D"
proof -
  have "queue_at (drop_nodes (set (N q)) h) qu' (N p) (D p)"
    if "cells qs p = Some qu'" "p \<noteq> q" for p qu'
    by (rule queue_at_cong[OF qrep_queue_at[OF rep that(1)]])
      (use qrep_disjoint[OF rep, of p q] that q in \<open>auto simp: drop_nodes_def\<close>)
  moreover have "\<exists>p. p \<noteq> q \<and> cells qs p \<noteq> None \<and> a \<in> set (N p)"
    if "cells h a \<noteq> None" "a \<notin> set (N q)" for a
    using qrep_cover[OF rep that(1)] that(2) by metis
  ultimately show ?thesis
    using qrep_disjoint[OF rep] by (auto simp: qrep_def drop_nodes_def split: if_splits) metis+
qed

lemma queue_delete_law:
  assumes off: "\<And>f. off_queues (call f)" and "queue_ok s" and "items s q = Some ds"
  obtains a qu h qs where "q = Ptr a" and "cells (q_queues s) a = Some qu"
    and "queue_delete call q s =
      andthen (fold_res (call (q_destruct qu)) ds s)
        (\<lambda>t. Inr (ok_status, t\<lparr>q_nodes := h, q_queues := qs\<rparr>))"
    and "qok h qs" and "qitems h qs = (items s)(q := None)"
proof -
  obtain a qu where q: "q = Ptr a" "cells (q_queues s) a = Some qu"
    using assms(3) by (rule qitems_live)
  obtain N D where rep: "qrep (q_nodes s) (q_queues s) N D"
    and ok: "store_ok (q_nodes s)" "store_ok (q_queues s)"
    using assms(2) by (auto simp: qok_def)
  have D: "D a = ds" using qrep_qitems[OF rep ok(1), of a] assms(3) q by simp
  have ch: "chain (q_nodes s) (q_first qu) (N a) ds" and nn: "\<forall>d\<in>set ds. d \<noteq> Null"
    using qrep_queue_at[OF rep q(2)] D by (auto simp: queue_at_def)
  define h where "h = drop_nodes (set (N a)) (q_nodes s)"
  define qs where "qs = (q_queues s)\<lparr>cells := (cells (q_queues s))(a := None)\<rparr>"
  have rep': "qrep h qs N D" unfolding h_def qs_def by (rule qrep_delete[OF rep q(2)])
  have ok': "store_ok h" "store_ok qs"
    using ok by (auto simp: store_ok_def h_def qs_def drop_nodes_def)
  have "queue_delete call q s =
      andthen (fold_res (call (q_destruct qu)) ds s)
        (\<lambda>t. Inr (ok_status, t\<lparr>q_nodes := h, q_queues := qs\<rparr>))"
    using q queue_delete_loop_eq[OF off ch le_SucI[OF chain_bound[OF ch ok(1)]] nn q(2)]
    by (simp add: queue_delete_def andthen_assoc h_def qs_def)
  moreover have "qok h qs" using rep' ok' by (auto simp: qok_def)
  moreover have "qitems h qs = (items s)(q := None)"
    by (rule qitems_eqI[OF rep' ok'(1)]) (auto simp: qrep_qitems[OF rep ok(1)] q qs_def)
  ultimately show ?thesis using q that by blast
qed

text \<open>
  A rule for destructors that do touch other memory, and whose effect depends on what they find
  there: \<open>P ds\<close> holds while \<open>ds\<close> is still to be destroyed.
\<close>

lemma queue_delete_loop_rule:
  assumes step: "\<And>d ds s. P (d # ds) s \<Longrightarrow> \<exists>t. call f d s = Inr t \<and> q_nodes t = q_nodes s \<and>
      q_queues t = q_queues s \<and> P ds t"
    and frame: "\<And>ds s h qs. P ds s \<Longrightarrow> P ds (s\<lparr>q_nodes := h, q_queues := qs\<rparr>)"
    and "chain (q_nodes s) p ns ds" and "length ns \<le> fuel" and "\<forall>d\<in>set ds. d \<noteq> Null"
    and "cells (q_queues s) q = Some qu" and "q_destruct qu = f" and "P ds s"
  shows "\<exists>t. queue_delete_loop fuel call (Ptr q) p s = Inr t \<and> P [] t \<and>
    q_nodes t = drop_nodes (set ns) (q_nodes s) \<and>
    q_queues t = (q_queues s)\<lparr>cells := (cells (q_queues s))(q \<mapsto> qu\<lparr>q_size := q_size qu - length ns\<rparr>)\<rparr>"
  using assms(3-)
proof (induction ns arbitrary: fuel p ds s qu)
  case Nil
  then have "(q_queues s)\<lparr>cells := (cells (q_queues s))(q \<mapsto> qu)\<rparr> = q_queues s"
    by (intro store.equality) auto
  with Nil show ?case by (cases fuel) (simp_all del: fun_upd_apply)
next
  case (Cons a ns)
  obtain d es where ds: "ds = d # es" using Cons.prems(1) by (cases ds) auto
  obtain fuel' where fuel: "fuel = Suc fuel'" using Cons.prems(2) by (cases fuel) auto
  obtain nx where p: "p = Ptr a" "cells (q_nodes s) a = Some \<lparr>qn_data = d, qn_next = nx\<rparr>"
    and ch: "chain (q_nodes s) nx ns es"
    using Cons.prems(1) by (auto simp: ds)
  have a: "a \<notin> set ns" using chain_distinct[OF Cons.prems(1)] by simp
  obtain t where t: "call f d s = Inr t" "q_nodes t = q_nodes s" "q_queues t = q_queues s" "P es t"
    using step Cons.prems(6) ds by blast
  define h where "h = (q_nodes s)\<lparr>cells := (cells (q_nodes s))(a := None)\<rparr>"
  define qu' where "qu' = qu\<lparr>q_size := q_size qu - 1\<rparr>"
  define qs where "qs = (q_queues s)\<lparr>cells := (cells (q_queues s))(q \<mapsto> qu')\<rparr>"
  define u where "u = t\<lparr>q_nodes := h, q_queues := qs\<rparr>"
  have "chain h nx ns es = chain (q_nodes s) nx ns es"
    by (rule chain_cong) (use a in \<open>auto simp: h_def\<close>)
  with ch have ch': "chain (q_nodes u) nx ns es" by (simp add: u_def)
  have "queue_delete_loop fuel call (Ptr q) p s = queue_delete_loop fuel' call (Ptr q) nx u"
    using Cons.prems(3-5) t
    by (simp add: ds fuel p Let_def u_def h_def qs_def qu'_def fun_upd_def cong: if_cong)
  moreover have "P es u" unfolding u_def by (rule frame[OF t(4)])
  moreover have "cells (q_queues u) q = Some qu'" "q_destruct qu' = f"
    using Cons.prems(5) by (simp_all add: u_def qs_def qu'_def)
  ultimately show ?case
    using Cons.IH[OF ch', of fuel' qu'] Cons.prems(2,3)
    by (simp add: ds fuel u_def h_def qs_def qu'_def drop_nodes_insert fun_upd_same del: fun_upd_apply)
qed

lemma queue_delete_rule:
  assumes step: "\<And>d ds s. P (d # ds) s \<Longrightarrow> \<exists>t. call f d s = Inr t \<and> q_nodes t = q_nodes s \<and>
      q_queues t = q_queues s \<and> P ds t"
    and frame: "\<And>ds s h qs. P ds s \<Longrightarrow> P ds (s\<lparr>q_nodes := h, q_queues := qs\<rparr>)"
    and ok: "queue_ok s" and it: "items s q = Some ds" and kind: "qkind (q_queues s) q = Some f" and P: "P ds s"
  obtains t where "queue_delete call q s = Inr (ok_status, t)" and "queue_ok t"
    and "items t = (items s)(q := None)" and "P [] t" and "qkind (q_queues t) = (qkind (q_queues s))(q := None)"
proof -
  obtain a qu where q: "q = Ptr a" "cells (q_queues s) a = Some qu"
    using it by (rule qitems_live)
  have f: "q_destruct qu = f" using kind q by (simp add: qkind_def)
  obtain N D where rep: "qrep (q_nodes s) (q_queues s) N D"
    and st: "store_ok (q_nodes s)" "store_ok (q_queues s)"
    using ok by (auto simp: qok_def)
  have D: "D a = ds" using qrep_qitems[OF rep st(1), of a] it q by simp
  have ch: "chain (q_nodes s) (q_first qu) (N a) ds" and nn: "\<forall>d\<in>set ds. d \<noteq> Null"
    using qrep_queue_at[OF rep q(2)] D by (auto simp: queue_at_def)
  define h where "h = drop_nodes (set (N a)) (q_nodes s)"
  define qs where "qs = (q_queues s)\<lparr>cells := (cells (q_queues s))(a := None)\<rparr>"
  have rep': "qrep h qs N D" unfolding h_def qs_def by (rule qrep_delete[OF rep q(2)])
  have ok': "store_ok h" "store_ok qs"
    using st by (auto simp: store_ok_def h_def qs_def drop_nodes_def)
  from queue_delete_loop_rule[where P = P and call = call and f = f, OF step frame ch le_SucI[OF chain_bound[OF ch st(1)]] nn q(2) f P]
  obtain t where t: "queue_delete_loop (Suc (brk (q_nodes s))) call (Ptr a) (q_first qu) s = Inr t" "P [] t"
    "q_nodes t = h" "q_queues t = (q_queues s)\<lparr>cells := (cells (q_queues s))
       (a \<mapsto> qu\<lparr>q_size := q_size qu - length (N a)\<rparr>)\<rparr>"
    unfolding h_def by blast
  define u where "u = t\<lparr>q_queues := qs\<rparr>"
  have qu: "q_nodes u = h" "q_queues u = qs" using t(3) by (simp_all add: u_def)
  have "queue_delete call q s = Inr (ok_status, u)"
    using q t by (simp add: queue_delete_def u_def qs_def)
  moreover have "queue_ok u" using rep' ok' qu by (auto simp: qok_def)
  moreover have "items u = (items s)(q := None)"
    unfolding qu by (rule qitems_eqI[OF rep' ok'(1)]) (auto simp: qrep_qitems[OF rep st(1)] q qs_def)
  moreover have "P [] u"
  proof -
    have "t\<lparr>q_nodes := h\<rparr> = t" unfolding t(3)[symmetric] by simp
    then show ?thesis using frame[OF t(2), where h = h and qs = qs] by (simp add: u_def)
  qed
  moreover have "qkind (q_queues u) = (qkind (q_queues s))(q := None)"
    by (auto simp: qu qs_def qkind_def q fun_eq_iff split: ptr.split)
  ultimately show ?thesis by (rule that)
qed

section \<open>The interface\<close>

text \<open>
  What a client of the queue relies on: \<open>items\<close> maps each live queue to what is in it, in
  order; each operation changes the items of its own queue only.
\<close>

locale fifo =
  fixes ok :: "'s \<Rightarrow> bool"
    and contents :: "'s \<Rightarrow> ptr \<Rightarrow> ptr list option"
    and create :: "'s \<Rightarrow> status_t \<times> ptr \<times> 's"
    and push :: "ptr \<Rightarrow> ptr \<Rightarrow> 's \<Rightarrow> (status_t \<times> 's) res"
    and pop :: "ptr \<Rightarrow> 's \<Rightarrow> (ptr \<times> 's) res"
    and is_empty :: "ptr \<Rightarrow> 's \<Rightarrow> int res"
  assumes create_law: "ok s \<Longrightarrow>
      \<exists>q t. create s = (0, q, t) \<and> ok t \<and> contents s q = None \<and> contents t = (contents s)(q \<mapsto> [])"
    and push_law: "ok s \<Longrightarrow> contents s q = Some ds \<Longrightarrow>
      \<exists>t. push q (Ptr x) s = Inr (0, t) \<and> ok t \<and> contents t = (contents s)(q \<mapsto> ds @ [Ptr x])"
    and pop_law: "ok s \<Longrightarrow> contents s q = Some (d # ds) \<Longrightarrow>
      \<exists>t. pop q s = Inr (d, t) \<and> ok t \<and> contents t = (contents s)(q \<mapsto> ds)"
    and pop_empty_law: "ok s \<Longrightarrow> contents s q = Some [] \<Longrightarrow> pop q s = Inr (Null, s)"
    and is_empty_law: "ok s \<Longrightarrow> contents s q = Some ds \<Longrightarrow>
      is_empty q s = Inr (if ds = [] then 1 else 0)"
begin

text \<open>Elements leave in the order in which they came, whatever was queued before them.\<close>

lemma push_many:
  assumes "ok s" and "contents s q = Some ds"
  shows "\<exists>t. fold_res (\<lambda>x s. andthen (push q (Ptr x) s) (\<lambda>(st, s). Inr s)) xs s = Inr t \<and> ok t \<and>
    contents t = (contents s)(q \<mapsto> ds @ map Ptr xs)"
  using assms
proof (induction xs arbitrary: s ds)
  case Nil
  then show ?case by (simp add: fun_upd_idem)
next
  case (Cons x xs)
  obtain u where u: "push q (Ptr x) s = Inr (0, u)" "ok u"
    "contents u = (contents s)(q \<mapsto> ds @ [Ptr x])"
    using push_law[OF Cons.prems] by blast
  with Cons.IH[OF u(2), of "ds @ [Ptr x]"] show ?case by (simp add: fun_upd_same del: fun_upd_apply)
qed

lemma pop_many:
  assumes "ok s" and "contents s q = Some (ds @ es)"
  shows "\<exists>t. fold_res (\<lambda>_ (acc, s). andthen (pop q s) (\<lambda>(d, s). Inr (acc @ [d], s))) ds (acc, s)
      = Inr (acc @ ds, t) \<and> ok t \<and> contents t = (contents s)(q \<mapsto> es)"
  using assms
proof (induction ds arbitrary: s acc)
  case Nil
  then show ?case by (simp add: fun_upd_idem)
next
  case (Cons d ds)
  obtain u where u: "pop q s = Inr (d, u)" "ok u" "contents u = (contents s)(q \<mapsto> ds @ es)"
    using pop_law[OF Cons.prems(1), of q d "ds @ es"] Cons.prems(2) by auto
  have "contents u q = Some (ds @ es)" using u(3) by simp
  from Cons.IH[OF u(2) this, where acc = "acc @ [d]"] obtain t where
    t: "fold_res (\<lambda>_ (acc, s). andthen (pop q s) (\<lambda>(d, s). Inr (acc @ [d], s))) ds (acc @ [d], u)
      = Inr ((acc @ [d]) @ ds, t)" "ok t" "contents t = (contents u)(q \<mapsto> es)" by blast
  show ?case using t u by (intro exI[of _ t]) (simp add: fun_upd_upd del: fun_upd_apply)
qed

lemma push_then_pop:
  assumes "ok s" and "contents s q = Some []"
  shows "\<exists>t. push q (Ptr x) s = Inr (0, t) \<and> (\<exists>u. pop q t = Inr (Ptr x, u) \<and> ok u \<and>
    contents u = contents s)"
proof -
  obtain t where t: "push q (Ptr x) s = Inr (0, t)" "ok t"
    "contents t = (contents s)(q \<mapsto> [Ptr x])"
    using push_law[OF assms] by auto
  obtain u where "pop q t = Inr (Ptr x, u)" "ok u" "contents u = (contents t)(q \<mapsto> [])"
    using pop_law[OF t(2), of q "Ptr x" "[]"] t(3) by auto
  with t assms(2) show ?thesis by (auto simp: fun_upd_idem)
qed

end

interpretation lq: fifo "\<lambda>s :: 'm mem_queue_scheme. queue_ok s" "\<lambda>s. items s"
  "queue_create f" queue_push queue_pop queue_is_empty
proof
  fix s :: "'m mem_queue_scheme" and q :: ptr and ds :: "ptr list" and d :: ptr and x :: addr
  assume ok: "queue_ok s"
  show "\<exists>q t. queue_create f s = (0, q, t) \<and> queue_ok t \<and> items s q = None \<and>
      items t = (items s)(q \<mapsto> [])"
    by (rule queue_create_law[OF ok, of f]) auto
  show "\<exists>t. queue_push q (Ptr x) s = Inr (0, t) \<and> queue_ok t \<and>
      items t = (items s)(q \<mapsto> ds @ [Ptr x])" if "items s q = Some ds"
    by (rule queue_push_law[OF ok that refl]) auto
  show "\<exists>t. queue_pop q s = Inr (d, t) \<and> queue_ok t \<and> items t = (items s)(q \<mapsto> ds)"
    if "items s q = Some (d # ds)"
    by (rule queue_pop_law[OF ok that]) auto
  show "queue_pop q s = Inr (Null, s)" if "items s q = Some []"
    by (rule queue_pop_empty_law[OF ok that])
  show "queue_is_empty q s = Inr (if ds = [] then 1 else 0)" if "items s q = Some ds"
    by (rule queue_is_empty_law[OF ok that])
qed

section \<open>Properties\<close>

lemma queue_ok_empty [simp]: "qok empty_store empty_store"
  by (auto simp: qok_def qrep_def empty_store_def store_ok_def)

text \<open>
  C22.  The linked queue is a FIFO: whatever sequence of objects is pushed on an empty queue, popping
  as many times returns exactly that sequence, and leaves the queue empty, every other queue as it
  was and the heap well formed.
\<close>

theorem queue_fifo_order:
  assumes "queue_ok s" and "items s q = Some []"
  shows "\<exists>t u. fold_res (\<lambda>x s. andthen (queue_push q (Ptr x) s) (\<lambda>(st, s). Inr s)) xs s = Inr t \<and>
    fold_res (\<lambda>_ (acc, s). andthen (queue_pop q s) (\<lambda>(d, s). Inr (acc @ [d], s))) (map Ptr xs) ([], t)
      = Inr (map Ptr xs, u) \<and>
    items t q = Some (map Ptr xs) \<and> queue_ok u \<and> items u = items s"
proof -
  obtain t where t: "fold_res (\<lambda>x s. andthen (queue_push q (Ptr x) s) (\<lambda>(st, s). Inr s)) xs s = Inr t"
    "queue_ok t" "items t = (items s)(q \<mapsto> map Ptr xs)"
    using lq.push_many[OF assms, where xs = xs] by auto
  obtain u where "fold_res (\<lambda>_ (acc, s). andthen (queue_pop q s) (\<lambda>(d, s). Inr (acc @ [d], s)))
      (map Ptr xs) ([], t) = Inr (map Ptr xs, u)" "queue_ok u" "items u = (items t)(q \<mapsto> [])"
    using lq.pop_many[OF t(2), where q = q and ds = "map Ptr xs" and es = "[]" and acc = "[]"] t(3) by auto
  with t assms(2) show ?thesis by (intro exI[of _ t] exI[of _ u]) (auto simp: fun_upd_idem)
qed

definition one_queue :: mem_queue where
  "one_queue = (case queue_create Lemessage_delete \<lparr>q_nodes = empty_store, q_queues = empty_store\<rparr>
                of (st, q, s) \<Rightarrow> s)"

lemma one_queue_ok: "queue_ok one_queue" and one_queue_items: "items one_queue (Ptr 0) = Some []"
  using qok_create(1,2)[OF queue_ok_empty, where f = Lemessage_delete]
  by (simp_all add: one_queue_def queue_create_def new_obj_def empty_store_def Let_def)

lemma queue_fifo_order_witness:
  "\<exists>t u. fold_res (\<lambda>x s. andthen (queue_push (Ptr 0) (Ptr x) s) (\<lambda>(st, s). Inr s)) [7, 3, 7] one_queue
      = Inr t \<and>
    fold_res (\<lambda>_ (acc, s). andthen (queue_pop (Ptr 0) s) (\<lambda>(d, s). Inr (acc @ [d], s)))
      (map Ptr [7, 3, 7]) ([], t) = Inr (map Ptr [7, 3, 7], u) \<and>
    items t (Ptr 0) = Some (map Ptr [7, 3, 7]) \<and> queue_ok u \<and> items u = items one_queue"
  by (rule queue_fifo_order[OF one_queue_ok one_queue_items])

text \<open>
  Deleting a well-formed queue, with a destructor that does not itself touch queue memory, runs
  the destructor exactly once on every element, in queue order, and frees the queue and all its
  nodes: afterwards the other queues hold what they held, and this one is gone.
\<close>

lemma queue_delete_destroys_each_once:
  assumes "\<forall>f. off_queues (call f)" and "queue_ok s" and "items s (Ptr a) = Some ds"
    and "cells (q_queues s) a = Some qu" and "fold_res (call (q_destruct qu)) ds s = Inr t"
  shows "\<exists>u. queue_delete call (Ptr a) s = Inr (0, u) \<and> queue_ok u \<and>
    items u = (items s)(Ptr a := None) \<and>
    u = t\<lparr>q_nodes := q_nodes u, q_queues := q_queues u\<rparr>"
proof -
  have off: "off_queues (call f)" for f using assms(1) by blast
  show ?thesis by (rule queue_delete_law[where call = call, OF off assms(2,3)]) (use assms(4,5) in auto)
qed

text \<open>
  Popping the only element leaves \<open>last\<close> pointing at the node that was just freed: the
  emptiness test that should clear it reads \<open>size\<close> before the decrement.  The queue still counts
  as empty, and since \<open>first\<close> is null the next push does not follow \<open>last\<close>.
\<close>

lemma queue_pop_last_dangles:
  assumes "queue_ok s" and "items s (Ptr a) = Some [d]"
  shows "\<exists>t qu b. queue_pop (Ptr a) s = Inr (d, t) \<and> cells (q_queues t) a = Some qu \<and>
    q_size qu = 0 \<and> q_first qu = Null \<and> q_last qu = Ptr b \<and>
    cells (q_nodes s) b \<noteq> None \<and> cells (q_nodes t) b = None"
proof -
  obtain qu where q: "cells (q_queues s) a = Some qu"
    using assms(2) by (rule qitems_live) auto
  obtain N D where rep: "qrep (q_nodes s) (q_queues s) N D" and ok: "store_ok (q_nodes s)"
    using assms(1) by (auto simp: qok_def)
  have D: "D a = [d]" using qrep_qitems[OF rep ok(1), of a] assms(2) q by simp
  have at: "queue_at (q_nodes s) qu (N a) [d]" using qrep_queue_at[OF rep q] D by simp
  obtain b where N: "N a = [b]"
    using at by (cases "N a") (auto simp: queue_at_def dest: chain_length)
  have b: "q_first qu = Ptr b" "q_last qu = Ptr b" "q_size qu = 1"
    "cells (q_nodes s) b = Some \<lparr>qn_data = d, qn_next = Null\<rparr>"
    using at N by (auto simp: queue_at_def)
  with q show ?thesis by (simp add: queue_pop_def queue_is_empty_def Let_def)
qed

lemma queue_push_one_queue:
  obtains t where "queue_push (Ptr 0) (Ptr 5) one_queue = Inr (0, t)" and "queue_ok t"
    and "items t (Ptr 0) = Some [Ptr 5]"
  using lq.push_law[OF one_queue_ok one_queue_items, of 5] by auto

text \<open>A destructor that logs its argument behind the queue memory.\<close>

definition logging :: "destructor \<Rightarrow> ptr \<Rightarrow> (ptr list) mem_queue_scheme \<Rightarrow> (ptr list) mem_queue_scheme res" where
  "logging f d s = Inr (mem_queue.more_update (\<lambda>l. l @ [d]) s)"

lemma off_queues_logging: "\<forall>f. off_queues (logging f)"
  by (simp add: off_queues_def logging_def)

definition two_logged :: "(ptr list) mem_queue_scheme" where
  "two_logged = mem_queue.extend
     \<lparr>q_nodes = \<lparr>cells = [0 \<mapsto> \<lparr>qn_data = Ptr 5, qn_next = Ptr 1\<rparr>, 1 \<mapsto> \<lparr>qn_data = Ptr 4, qn_next = Null\<rparr>],
                 brk = 2\<rparr>,
      q_queues = \<lparr>cells = [0 \<mapsto> \<lparr>q_size = 2, q_first = Ptr 0, q_last = Ptr 1,
                                  q_destruct = Lemessage_delete\<rparr>], brk = 1\<rparr>\<rparr> []"

lemma two_logged_ok: "queue_ok two_logged" and two_logged_items: "items two_logged (Ptr 0) = Some [Ptr 5, Ptr 4]"
proof -
  have "qrep (q_nodes two_logged) (q_queues two_logged) (\<lambda>_. [0, 1]) (\<lambda>_. [Ptr 5, Ptr 4])"
    by (auto simp: qrep_def two_logged_def mem_queue.defs queue_at_def split: if_splits)
  moreover have "store_ok (q_nodes two_logged)" "store_ok (q_queues two_logged)"
    by (auto simp: store_ok_def two_logged_def mem_queue.defs)
  ultimately show "queue_ok two_logged" "items two_logged (Ptr 0) = Some [Ptr 5, Ptr 4]"
    using qrep_qitems[of "q_nodes two_logged" "q_queues two_logged" "\<lambda>_. [0, 1]" "\<lambda>_. [Ptr 5, Ptr 4]" 0]
    by (auto simp: qok_def two_logged_def mem_queue.defs)
qed

lemma queue_delete_destroys_each_once_witness:
  "\<exists>u. queue_delete logging (Ptr 0) two_logged = Inr (0, u) \<and> mem_queue.more u = [Ptr 5, Ptr 4] \<and>
    items u = (items two_logged)(Ptr 0 := None)"
proof -
  obtain qu where qu: "cells (q_queues two_logged) 0 = Some qu"
    by (simp add: two_logged_def mem_queue.defs)
  obtain t where t: "fold_res (logging (q_destruct qu)) [Ptr 5, Ptr 4] two_logged = Inr t"
    "mem_queue.more t = [Ptr 5, Ptr 4]"
    by (simp add: logging_def two_logged_def mem_queue.defs)
  obtain u where u: "queue_delete logging (Ptr 0) two_logged = Inr (0, u)"
    "items u = (items two_logged)(Ptr 0 := None)" "u = t\<lparr>q_nodes := q_nodes u, q_queues := q_queues u\<rparr>"
    using queue_delete_destroys_each_once[OF off_queues_logging two_logged_ok two_logged_items qu t(1)]
    by blast
  have "mem_queue.more u = mem_queue.more t" by (subst u(3)) simp
  with u t(2) show ?thesis by auto
qed

lemma queue_pop_last_dangles_witness:
  "\<exists>s t qu b. queue_push (Ptr 0) (Ptr 5) one_queue = Inr (0, s) \<and> queue_pop (Ptr 0) s = Inr (Ptr 5, t) \<and>
    cells (q_queues t) 0 = Some qu \<and> q_last qu = Ptr b \<and> cells (q_nodes t) b = None"
proof -
  obtain s where s: "queue_push (Ptr 0) (Ptr 5) one_queue = Inr (0, s)" "queue_ok s"
    "items s (Ptr 0) = Some [Ptr 5]" by (rule queue_push_one_queue)
  from queue_pop_last_dangles[OF s(2,3)] s(1) show ?thesis by blast
qed

end
