(* ===== verification/Shared_Ptr.thy ===== *)
theory Shared_Ptr
  imports Queue
begin

text \<open>
  \<open>lib/shared_ptr.h\<close>, \<open>lib/shared_ptr.c\<close>: reference-counted handles.  A handle is an object
  of its own; all handles of one origin share a counter cell, the data pointer and the destructor.
  The state \<open>mem_sptr\<close> adds the stores of handles and counters to the queue memory.

  \<open>sp_ok\<close> is the invariant that makes the counters meaningful: each live counter equals the
  number of live handles that point at it.  The locale \<open>refcount\<close> states what the users of the
  handles rely on; the counters satisfy it (\<open>interpretation rc\<close>).
\<close>

section \<open>State and operations\<close>

record sharedptr =
  sp_ref :: ptr
  sp_data :: ptr
  sp_destruct :: "destructor option"

text \<open>A counter counts live handles, so the \<open>int64_t\<close> does not overflow; it is an \<^typ>\<open>int\<close>.\<close>

record mem_sptr = mem_queue +
  sp_objs :: "sharedptr store"
  sp_counts :: "int store"

definition sharedptr_create ::
  "ptr \<Rightarrow> destructor \<Rightarrow> 'm mem_sptr_scheme \<Rightarrow> (status_t \<times> ptr \<times> 'm mem_sptr_scheme) res" where
  "sharedptr_create data destruct s =
     NULLPTR_PREVENT data (err LESTATUS_NPTR, Wild, s) (
     let (c, counts) = new_obj 1 (sp_counts s);
         (p, objs) = new_obj \<lparr>sp_ref = c, sp_data = data, sp_destruct = Some destruct\<rparr> (sp_objs s)
     in Inr (ok_status, p, s\<lparr>sp_objs := objs, sp_counts := counts\<rparr>))"

definition sharedptr_add :: "ptr \<Rightarrow> 'm mem_sptr_scheme \<Rightarrow> (ptr \<times> 'm mem_sptr_scheme) res" where
  "sharedptr_add p s =
     NULLPTR_PREVENT p (Null, s) (
     andthen (deref (sp_objs s) p) (\<lambda>o1.
     andthen (deref (sp_counts s) (sp_ref o1)) (\<lambda>c.
     andthen (assign (sp_ref o1) (c + 1) (sp_counts s)) (\<lambda>counts.
     let (q, objs) = new_obj \<lparr>sp_ref = sp_ref o1, sp_data = sp_data o1, sp_destruct = sp_destruct o1\<rparr>
                       (sp_objs s)
     in Inr (q, s\<lparr>sp_objs := objs, sp_counts := counts\<rparr>)))))"

definition sharedptr_delete ::
  "(destructor \<Rightarrow> ptr \<Rightarrow> 'm mem_sptr_scheme \<Rightarrow> 'm mem_sptr_scheme res)
   \<Rightarrow> ptr \<Rightarrow> 'm mem_sptr_scheme \<Rightarrow> (status_t \<times> 'm mem_sptr_scheme) res" where
  "sharedptr_delete call p s =
     NULLPTR_PREVENT p (err LESTATUS_NPTR, s) (
     andthen (deref (sp_objs s) p) (\<lambda>o1.
     andthen (deref (sp_counts s) (sp_ref o1)) (\<lambda>c.
     andthen (assign (sp_ref o1) (c - 1) (sp_counts s)) (\<lambda>counts.
     let s = s\<lparr>sp_counts := counts\<rparr> in
     andthen
       (case sp_destruct o1 of
          None \<Rightarrow> Inr s
        | Some f \<Rightarrow>
            if c - 1 \<le> 0 then
              andthen (call f (sp_data o1) s) (\<lambda>s.
              andthen (assign p (o1\<lparr>sp_data := Null, sp_destruct := None\<rparr>) (sp_objs s)) (\<lambda>objs.
              andthen (free_obj (sp_ref o1) (sp_counts s)) (\<lambda>counts.
              andthen (assign p (o1\<lparr>sp_data := Null, sp_destruct := None, sp_ref := Null\<rparr>) objs) (\<lambda>objs.
              Inr (s\<lparr>sp_objs := objs, sp_counts := counts\<rparr>)))))
            else Inr s) (\<lambda>s.
     andthen (free_obj p (sp_objs s)) (\<lambda>objs.
     Inr (ok_status, s\<lparr>sp_objs := objs\<rparr>)))))))"

section \<open>The invariant\<close>

text \<open>The live handles whose counter is at address \<open>c\<close>.\<close>

definition handles :: "sharedptr store \<Rightarrow> addr \<Rightarrow> addr set" where
  "handles objs c = {p. \<exists>x. cells objs p = Some x \<and> sp_ref x = Ptr c}"

definition sp_ok :: "sharedptr store \<Rightarrow> int store \<Rightarrow> bool" where
  "sp_ok objs counts \<longleftrightarrow> store_ok objs \<and> store_ok counts \<and>
     (\<forall>p x. cells objs p = Some x \<longrightarrow>
        (\<exists>c n f. sp_ref x = Ptr c \<and> cells counts c = Some n \<and> sp_destruct x = Some f)) \<and>
     (\<forall>c n. cells counts c = Some n \<longrightarrow> n = int (card (handles objs c)) \<and> 0 < n) \<and>
     (\<forall>p x p' x'. cells objs p = Some x \<longrightarrow> cells objs p' = Some x' \<longrightarrow> sp_ref x = sp_ref x' \<longrightarrow>
        x = x')"

text \<open>What a handle owns: its counter, the data and the destructor; and how many share it.\<close>

definition owned :: "sharedptr store \<Rightarrow> ptr \<Rightarrow> (ptr \<times> ptr \<times> destructor) option" where
  "owned objs p =
     (case p of Ptr a \<Rightarrow>
        (case cells objs a of None \<Rightarrow> None
         | Some x \<Rightarrow> (case sp_destruct x of None \<Rightarrow> None | Some f \<Rightarrow> Some (sp_ref x, sp_data x, f)))
      | _ \<Rightarrow> None)"

abbreviation handle_of :: "'m mem_sptr_scheme \<Rightarrow> ptr \<Rightarrow> (ptr \<times> ptr \<times> destructor) option" where
  "handle_of s \<equiv> owned (sp_objs s)"

lemma finite_handles: "store_ok objs \<Longrightarrow> finite (handles objs c)"
  by (rule finite_subset[of _ "{..< brk objs}"]) (auto simp: handles_def dest: store_ok_less)

lemma owned_dead [simp]: "owned objs Null = None" "owned objs Wild = None"
  by (simp_all add: owned_def)

lemma owned_liveE:
  assumes "owned objs p = Some (r, d, f)"
  obtains a where "p = Ptr a" and "cells objs a = Some \<lparr>sp_ref = r, sp_data = d, sp_destruct = Some f\<rparr>"
proof (cases p)
  case (Ptr a)
  with assms obtain x where "cells objs a = Some x" "sp_ref x = r" "sp_data x = d" "sp_destruct x = Some f"
    by (auto simp: owned_def split: option.splits)
  then have "cells objs a = Some \<lparr>sp_ref = r, sp_data = d, sp_destruct = Some f\<rparr>"
    by (cases x) auto
  with Ptr show ?thesis by (rule that)
qed (use assms in auto)

lemma sp_ok_count:
  assumes "sp_ok objs counts" and "owned objs (Ptr a) = Some (r, d, f)"
  obtains c where "r = Ptr c" and "cells counts c = Some (int (card (handles objs c)))"
    and "a \<in> handles objs c"
proof -
  obtain x where x: "cells objs a = Some x" "sp_ref x = r"
    using assms(2) by (auto elim: owned_liveE)
  with assms(1) obtain c n where "r = Ptr c" "cells counts c = Some n"
    unfolding sp_ok_def by blast
  moreover from this assms(1) have "n = int (card (handles objs c))"
    unfolding sp_ok_def by blast
  ultimately show ?thesis using x by (intro that) (auto simp: handles_def)
qed

lemma sp_okI:
  assumes "store_ok objs" and "store_ok counts"
    and "\<And>p x. cells objs p = Some x \<Longrightarrow>
      \<exists>c n f. sp_ref x = Ptr c \<and> cells counts c = Some n \<and> sp_destruct x = Some f"
    and "\<And>c n. cells counts c = Some n \<Longrightarrow> n = int (card (handles objs c)) \<and> 0 < n"
    and "\<And>p x p' x'. cells objs p = Some x \<Longrightarrow> cells objs p' = Some x' \<Longrightarrow> sp_ref x = sp_ref x' \<Longrightarrow>
      x = x'"
  shows "sp_ok objs counts"
  using assms unfolding sp_ok_def by blast

lemma sp_okD:
  assumes "sp_ok objs counts"
  shows "store_ok objs" and "store_ok counts"
    and "cells objs p = Some x \<Longrightarrow>
      \<exists>c n f. sp_ref x = Ptr c \<and> cells counts c = Some n \<and> sp_destruct x = Some f"
    and "cells counts c = Some n \<Longrightarrow> n = int (card (handles objs c)) \<and> 0 < n"
    and "cells objs p = Some x \<Longrightarrow> cells objs p' = Some x' \<Longrightarrow> sp_ref x = sp_ref x' \<Longrightarrow> x = x'"
  using assms unfolding sp_ok_def by blast+

lemma sp_ok_empty [simp]: "sp_ok empty_store empty_store"
  by (rule sp_okI) (auto simp: empty_store_def store_ok_def)

text \<open>Adding and removing one handle, on the handle sets.\<close>

lemma handles_insert:
  "cells objs a = None \<Longrightarrow>
   handles (objs\<lparr>cells := (cells objs)(a \<mapsto> x), brk := b\<rparr>) c =
     (if sp_ref x = Ptr c then insert a (handles objs c) else handles objs c)"
  by (auto simp: handles_def)

lemma handles_remove:
  "handles (objs\<lparr>cells := (cells objs)(a := None)\<rparr>) c = handles objs c - {a}"
  by (auto simp: handles_def)

lemma owned_insert:
  "owned (objs\<lparr>cells := (cells objs)(a \<mapsto> \<lparr>sp_ref = r, sp_data = d, sp_destruct = Some f\<rparr>), brk := b\<rparr>)
     = (owned objs)(Ptr a \<mapsto> (r, d, f))"
  by (auto simp: owned_def fun_eq_iff split: ptr.split)

lemma owned_remove:
  "owned (objs\<lparr>cells := (cells objs)(a := None)\<rparr>) = (owned objs)(Ptr a := None)"
  by (auto simp: owned_def fun_eq_iff split: ptr.split)

section \<open>What each operation does to the handles\<close>

lemma sharedptr_create_law:
  assumes ok: "sp_ok (sp_objs s) (sp_counts s)"
  obtains a c objs counts where
    "sharedptr_create (Ptr x) f s = Inr (ok_status, Ptr a, s\<lparr>sp_objs := objs, sp_counts := counts\<rparr>)"
    and "sp_ok objs counts" and "owned objs = (handle_of s)(Ptr a \<mapsto> (Ptr c, Ptr x, f))"
    and "handle_of s (Ptr a) = None" and "\<And>p d g. handle_of s p \<noteq> Some (Ptr c, d, g)"
proof -
  define a where "a = brk (sp_objs s)"
  define c where "c = brk (sp_counts s)"
  define new where "new = \<lparr>sp_ref = Ptr c, sp_data = Ptr x, sp_destruct = Some f\<rparr>"
  define objs where "objs = (sp_objs s)\<lparr>cells := (cells (sp_objs s))(a \<mapsto> new), brk := Suc a\<rparr>"
  define counts where "counts = (sp_counts s)\<lparr>cells := (cells (sp_counts s))(c \<mapsto> 1), brk := Suc c\<rparr>"
  note okD = sp_okD[OF ok]
  have a: "cells (sp_objs s) a = None" using okD(1) by (simp add: a_def)
  have c: "cells (sp_counts s) c = None" using okD(2) by (simp add: c_def)
  have no: "sp_ref y \<noteq> Ptr c" if "cells (sp_objs s) p = Some y" for p y
    using okD(3)[OF that] c by auto
  have none: "handles (sp_objs s) c = {}" using no by (auto simp: handles_def)
  have h: "handles objs c' = (if c' = c then {a} else handles (sp_objs s) c')" for c'
    unfolding objs_def handles_insert[OF a] by (auto simp: new_def none)
  have "sp_ok objs counts"
  proof (rule sp_okI)
    show "store_ok objs" "store_ok counts"
      using okD(1,2) by (auto simp: store_ok_def objs_def counts_def a_def c_def)
    show "\<exists>c n f. sp_ref y = Ptr c \<and> cells counts c = Some n \<and> sp_destruct y = Some f"
      if "cells objs p = Some y" for p y
    proof (cases "p = a")
      case True
      with that have "y = new" by (simp add: objs_def)
      then show ?thesis by (simp add: new_def counts_def)
    next
      case False
      with that have y: "cells (sp_objs s) p = Some y" by (simp add: objs_def)
      from okD(3)[OF y] no[OF y] show ?thesis by (auto simp: counts_def)
    qed
    show "n = int (card (handles objs c')) \<and> 0 < n" if "cells counts c' = Some n" for c' n
      using that okD(4)[of c' n] by (auto simp: h counts_def split: if_splits)
    show "y = y'" if "cells objs p = Some y" "cells objs p' = Some y'" "sp_ref y = sp_ref y'" for p y p' y'
    proof (cases "p = a \<or> p' = a")
      case True
      with that no[of p y] no[of p' y'] show ?thesis
        by (cases "p = a"; cases "p' = a") (auto simp: objs_def new_def)
    next
      case False
      with that okD(5)[of p y p' y'] show ?thesis by (simp add: objs_def)
    qed
  qed
  moreover have "owned objs = (handle_of s)(Ptr a \<mapsto> (Ptr c, Ptr x, f))"
    unfolding objs_def new_def by (rule owned_insert)
  moreover have "handle_of s (Ptr a) = None" by (simp add: owned_def a)
  moreover have "handle_of s p \<noteq> Some (Ptr c, d, g)" for p d g
    using no by (metis owned_liveE sharedptr.select_convs(1))
  moreover have "sharedptr_create (Ptr x) f s =
      Inr (ok_status, Ptr a, s\<lparr>sp_objs := objs, sp_counts := counts\<rparr>)"
    by (simp add: sharedptr_create_def new_obj_def objs_def counts_def new_def a_def c_def Let_def)
  ultimately show ?thesis using that by blast
qed

lemma sharedptr_add_law:
  assumes ok: "sp_ok (sp_objs s) (sp_counts s)" and p: "handle_of s p = Some t"
  obtains a objs counts where
    "sharedptr_add p s = Inr (Ptr a, s\<lparr>sp_objs := objs, sp_counts := counts\<rparr>)"
    and "sp_ok objs counts" and "owned objs = (handle_of s)(Ptr a \<mapsto> t)"
    and "handle_of s (Ptr a) = None"
proof -
  obtain r d f where t: "t = (r, d, f)" by (cases t) auto
  obtain b where b: "p = Ptr b"
      "cells (sp_objs s) b = Some \<lparr>sp_ref = r, sp_data = d, sp_destruct = Some f\<rparr>"
    using p unfolding t by (rule owned_liveE)
  obtain c where c: "r = Ptr c" "cells (sp_counts s) c = Some (int (card (handles (sp_objs s) c)))"
    using sp_ok_count[OF ok, of b r d f] p b t by auto
  define a where "a = brk (sp_objs s)"
  define new where "new = \<lparr>sp_ref = r, sp_data = d, sp_destruct = Some f\<rparr>"
  define objs where "objs = (sp_objs s)\<lparr>cells := (cells (sp_objs s))(a \<mapsto> new), brk := Suc a\<rparr>"
  define counts where "counts = (sp_counts s)\<lparr>cells := (cells (sp_counts s))
      (c \<mapsto> int (card (handles (sp_objs s) c)) + 1)\<rparr>"
  note okD = sp_okD[OF ok]
  have a: "cells (sp_objs s) a = None" using okD(1) by (simp add: a_def)
  have h: "handles objs c' = (if c' = c then insert a (handles (sp_objs s) c) else handles (sp_objs s) c')"
    for c' unfolding objs_def handles_insert[OF a] by (auto simp: new_def c)
  have a': "a \<notin> handles (sp_objs s) c'" for c' by (simp add: handles_def a)
  have "sp_ok objs counts"
  proof (rule sp_okI)
    show "store_ok objs" "store_ok counts"
      using okD(1,2) c(2) by (auto simp: store_ok_def objs_def counts_def a_def)
    show "\<exists>c n f. sp_ref y = Ptr c \<and> cells counts c = Some n \<and> sp_destruct y = Some f"
      if "cells objs p = Some y" for p y
      using that okD(3)[of p y] c by (auto simp: objs_def new_def counts_def split: if_splits)
    show "n = int (card (handles objs c')) \<and> 0 < n" if "cells counts c' = Some n" for c' n
      using that okD(4)[of c' n] finite_handles[OF okD(1), of c] a'
      by (auto simp: h counts_def split: if_splits)
    show "y = y'" if "cells objs p = Some y" "cells objs p' = Some y'" "sp_ref y = sp_ref y'" for p y p' y'
      using that okD(5)[of p y p' y'] okD(5)[OF b(2), of p'] okD(5)[OF b(2), of p]
      by (auto simp: objs_def new_def split: if_splits)
  qed
  moreover have "owned objs = (handle_of s)(Ptr a \<mapsto> t)"
    unfolding objs_def new_def t by (rule owned_insert)
  moreover have "handle_of s (Ptr a) = None" by (simp add: owned_def a)
  moreover have "sharedptr_add p s = Inr (Ptr a, s\<lparr>sp_objs := objs, sp_counts := counts\<rparr>)"
    using b c by (simp add: sharedptr_add_def new_obj_def objs_def counts_def new_def a_def Let_def)
  ultimately show ?thesis using that by blast
qed

text \<open>A destructor of the data that leaves handles and counters alone.\<close>

definition off_handles :: "(ptr \<Rightarrow> 'm mem_sptr_scheme \<Rightarrow> 'm mem_sptr_scheme res) \<Rightarrow> bool" where
  "off_handles f \<longleftrightarrow>
     (\<forall>d s h c. f d (s\<lparr>sp_objs := h, sp_counts := c\<rparr>) =
        andthen (f d s) (\<lambda>t. Inr (t\<lparr>sp_objs := h, sp_counts := c\<rparr>)))"

lemma sp_upd_swap:
  fixes s :: "'m mem_sptr_scheme"
  shows "s\<lparr>sp_counts := c, sp_objs := h\<rparr> = s\<lparr>sp_objs := h, sp_counts := c\<rparr>"
  by simp

lemma off_handles_counts:
  assumes "off_handles f"
  shows "f d (s\<lparr>sp_counts := c\<rparr>) =
     andthen (f d s) (\<lambda>t. Inr (t\<lparr>sp_objs := sp_objs s, sp_counts := c\<rparr>))"
proof -
  have "s\<lparr>sp_counts := c\<rparr> = s\<lparr>sp_objs := sp_objs s, sp_counts := c\<rparr>" by simp
  then show ?thesis using assms by (metis off_handles_def)
qed

text \<open>Deleting a handle that is not the last of its origin: the data is not touched.\<close>

lemma sp_ok_remove:
  assumes ok: "sp_ok objs counts" and b: "cells objs b = Some \<lparr>sp_ref = Ptr c, sp_data = d, sp_destruct = Some f\<rparr>"
    and many: "p' \<in> handles objs c" "p' \<noteq> b"
  shows "sp_ok (objs\<lparr>cells := (cells objs)(b := None)\<rparr>)
     (counts\<lparr>cells := (cells counts)(c \<mapsto> int (card (handles objs c)) - 1)\<rparr>)"
    and "1 < card (handles objs c)"
proof -
  note okD = sp_okD[OF ok]
  have fin: "finite (handles objs c)" by (rule finite_handles[OF okD(1)])
  have bin: "b \<in> handles objs c" using b by (simp add: handles_def)
  have "card {b, p'} \<le> card (handles objs c)"
    by (rule card_mono[OF fin]) (use bin many in auto)
  then show more: "1 < card (handles objs c)" using many by simp
  have cell: "cells counts c \<noteq> None" using okD(3)[OF b] by auto
  show "sp_ok (objs\<lparr>cells := (cells objs)(b := None)\<rparr>)
     (counts\<lparr>cells := (cells counts)(c \<mapsto> int (card (handles objs c)) - 1)\<rparr>)" (is "sp_ok ?o ?c")
  proof (rule sp_okI)
    show "store_ok ?o" "store_ok ?c"
      using okD(1,2) cell by (auto simp: store_ok_def)
    show "\<exists>c n f. sp_ref y = Ptr c \<and> cells ?c c = Some n \<and> sp_destruct y = Some f"
      if "cells ?o p = Some y" for p y
      using that okD(3)[of p y] by (fastforce split: if_splits)
    show "n = int (card (handles ?o c')) \<and> 0 < n" if "cells ?c c' = Some n" for c' n
    proof (cases "c' = c")
      case True
      with that more fin bin show ?thesis
        by (simp add: handles_remove card_Diff_singleton of_nat_diff)
    next
      case False
      then have "b \<notin> handles objs c'" using b by (simp add: handles_def)
      with that okD(4)[of c' n] False show ?thesis by (simp add: handles_remove)
    qed
    show "y = y'" if "cells ?o p = Some y" "cells ?o p' = Some y'" "sp_ref y = sp_ref y'" for p y p' y'
      using that okD(5)[of p y p' y'] by (auto split: if_splits)
  qed
qed

lemma sp_ok_remove_last:
  assumes ok: "sp_ok objs counts" and b: "cells objs b = Some \<lparr>sp_ref = Ptr c, sp_data = d, sp_destruct = Some f\<rparr>"
    and last: "handles objs c = {b}"
  shows "sp_ok (objs\<lparr>cells := (cells objs)(b := None)\<rparr>) (counts\<lparr>cells := (cells counts)(c := None)\<rparr>)"
    (is "sp_ok ?o ?c")
proof -
  note okD = sp_okD[OF ok]
  have other: "sp_ref y \<noteq> Ptr c" if "cells objs p = Some y" "p \<noteq> b" for p y
    using last that by (auto simp: handles_def)
  show ?thesis
  proof (rule sp_okI)
    show "store_ok ?o" "store_ok ?c"
      using okD(1,2) by (auto simp: store_ok_def)
    show "\<exists>c n f. sp_ref y = Ptr c \<and> cells ?c c = Some n \<and> sp_destruct y = Some f"
      if "cells ?o p = Some y" for p y
      using that okD(3)[of p y] other[of p y] by (fastforce split: if_splits)
    show "n = int (card (handles ?o c')) \<and> 0 < n" if "cells ?c c' = Some n" for c' n
    proof -
      have c': "c' \<noteq> c" "cells counts c' = Some n" using that by (auto split: if_splits)
      then have "b \<notin> handles objs c'" using b by (simp add: handles_def)
      with okD(4)[OF c'(2)] show ?thesis by (simp add: handles_remove)
    qed
    show "y = y'" if "cells ?o p = Some y" "cells ?o p' = Some y'" "sp_ref y = sp_ref y'" for p y p' y'
      using that okD(5)[of p y p' y'] by (auto split: if_splits)
  qed
qed

lemma owned_mem_handles: "owned objs (Ptr a) = Some (Ptr c, d, f) \<Longrightarrow> a \<in> handles objs c"
  by (erule owned_liveE) (auto simp: handles_def)

lemma handles_owned:
  assumes "sp_ok objs counts" and "a \<in> handles objs c" and "owned objs p = Some (Ptr c, d, f)"
  shows "owned objs (Ptr a) = Some (Ptr c, d, f)"
proof -
  obtain x where x: "cells objs a = Some x" "sp_ref x = Ptr c" using assms(2) by (auto simp: handles_def)
  obtain b where "p = Ptr b" "cells objs b = Some \<lparr>sp_ref = Ptr c, sp_data = d, sp_destruct = Some f\<rparr>"
    using assms(3) by (rule owned_liveE)
  with sp_okD(5)[OF assms(1) x(1)] x show ?thesis by (fastforce simp: owned_def)
qed

lemma sharedptr_delete_law:
  assumes ok: "sp_ok (sp_objs s) (sp_counts s)" and p: "handle_of s p = Some (r, d, f)"
    and more: "handle_of s p' = Some (r, d', f')" "p' \<noteq> p"
  obtains objs counts where
    "sharedptr_delete call p s = Inr (ok_status, s\<lparr>sp_objs := objs, sp_counts := counts\<rparr>)"
    and "sp_ok objs counts" and "owned objs = (handle_of s)(p := None)"
proof -
  obtain b where b: "p = Ptr b"
      "cells (sp_objs s) b = Some \<lparr>sp_ref = r, sp_data = d, sp_destruct = Some f\<rparr>"
    using p by (rule owned_liveE)
  obtain c where c: "r = Ptr c" "cells (sp_counts s) c = Some (int (card (handles (sp_objs s) c)))"
    using sp_ok_count[OF ok, of b r d f] p b by auto
  obtain a where a: "p' = Ptr a" using more(1) by (rule owned_liveE)
  have "a \<in> handles (sp_objs s) c" "a \<noteq> b"
    using more a b c by (auto intro: owned_mem_handles)
  note rem = sp_ok_remove[OF ok b(2)[unfolded c(1)] this]
  define objs where "objs = (sp_objs s)\<lparr>cells := (cells (sp_objs s))(b := None)\<rparr>"
  define counts where "counts = (sp_counts s)\<lparr>cells := (cells (sp_counts s))
      (c \<mapsto> int (card (handles (sp_objs s) c)) - 1)\<rparr>"
  have "sharedptr_delete call p s = Inr (ok_status, s\<lparr>sp_objs := objs, sp_counts := counts\<rparr>)"
    using b c rem(2) by (simp add: sharedptr_delete_def objs_def counts_def Let_def)
  moreover have "sp_ok objs counts" using rem(1) by (simp add: objs_def counts_def)
  moreover have "owned objs = (handle_of s)(p := None)"
    unfolding objs_def b(1) by (rule owned_remove)
  ultimately show ?thesis by (rule that)
qed

lemma sharedptr_delete_last_law:
  assumes ok: "sp_ok (sp_objs s) (sp_counts s)" and p: "handle_of s p = Some (r, d, f)"
    and last: "\<And>p' d' f'. handle_of s p' = Some (r, d', f') \<Longrightarrow> p' = p"
    and off: "off_handles (call f)"
  obtains objs counts where
    "sharedptr_delete call p s =
       andthen (call f d s) (\<lambda>t. Inr (ok_status, t\<lparr>sp_objs := objs, sp_counts := counts\<rparr>))"
    and "sp_ok objs counts" and "owned objs = (handle_of s)(p := None)"
proof -
  obtain b where b: "p = Ptr b"
      "cells (sp_objs s) b = Some \<lparr>sp_ref = r, sp_data = d, sp_destruct = Some f\<rparr>"
    using p by (rule owned_liveE)
  obtain c where c: "r = Ptr c" "cells (sp_counts s) c = Some (int (card (handles (sp_objs s) c)))"
    using sp_ok_count[OF ok, of b r d f] p b by auto
  have "a = b" if "a \<in> handles (sp_objs s) c" for a
    using last[unfolded c(1), OF handles_owned[OF ok that p[unfolded c(1)]]] b(1) by simp
  moreover have "b \<in> handles (sp_objs s) c" using p b c by (auto intro: owned_mem_handles)
  ultimately have one: "handles (sp_objs s) c = {b}" by blast
  define objs where "objs = (sp_objs s)\<lparr>cells := (cells (sp_objs s))(b := None)\<rparr>"
  define counts where "counts = (sp_counts s)\<lparr>cells := (cells (sp_counts s))(c := None)\<rparr>"
  have "sharedptr_delete call p s =
      andthen (call f d s) (\<lambda>t. Inr (ok_status, t\<lparr>sp_objs := objs, sp_counts := counts\<rparr>))"
    using b c one
    by (simp add: sharedptr_delete_def objs_def counts_def Let_def off_handles_counts[OF off]
        andthen_assoc sp_upd_swap)
  moreover have "sp_ok objs counts"
    unfolding objs_def counts_def using ok b(2) one c(1) by (intro sp_ok_remove_last) auto
  moreover have "owned objs = (handle_of s)(p := None)"
    unfolding objs_def b(1) by (rule owned_remove)
  ultimately show ?thesis by (rule that)
qed

section \<open>The interface\<close>

text \<open>
  What a user of the handles relies on.  \<open>owns s p\<close> is the origin of handle \<open>p\<close> and what it
  refers to; \<open>rest s\<close> is everything but the bookkeeping.  Only deleting the last handle of an
  origin has an effect on the rest of the state: it destroys what the handles referred to.
\<close>

locale refcount =
  fixes ok :: "'s \<Rightarrow> bool"
    and owns :: "'s \<Rightarrow> ptr \<Rightarrow> (ptr \<times> 'd) option"
    and rest :: "'s \<Rightarrow> 'r"
    and add :: "ptr \<Rightarrow> 's \<Rightarrow> (ptr \<times> 's) res"
    and del :: "ptr \<Rightarrow> 's \<Rightarrow> (status_t \<times> 's) res"
    and destroy :: "'d \<Rightarrow> 's \<Rightarrow> 's res"
    and safe :: "'d \<Rightarrow> bool"
  assumes add_law: "ok s \<Longrightarrow> owns s p = Some y \<Longrightarrow>
      \<exists>q u. add p s = Inr (q, u) \<and> ok u \<and> owns s q = None \<and> owns u = (owns s)(q \<mapsto> y) \<and> rest u = rest s"
    and del_law: "ok s \<Longrightarrow> owns s p = Some (r, x) \<Longrightarrow> owns s p' = Some (r, x') \<Longrightarrow> p' \<noteq> p \<Longrightarrow>
      \<exists>u. del p s = Inr (0, u) \<and> ok u \<and> owns u = (owns s)(p := None) \<and> rest u = rest s"
    and last_law: "ok s \<Longrightarrow> owns s p = Some (r, x) \<Longrightarrow> \<forall>p' x'. owns s p' = Some (r, x') \<longrightarrow> p' = p \<Longrightarrow>
      safe x \<Longrightarrow> destroy x s = Inr t \<Longrightarrow>
      \<exists>u. del p s = Inr (0, u) \<and> ok u \<and> owns u = (owns s)(p := None) \<and> rest u = rest t"
    and same_law: "ok s \<Longrightarrow> owns s p = Some (r, x) \<Longrightarrow> owns s p' = Some (r, x') \<Longrightarrow> x' = x"
    and destroy_law: "safe x \<Longrightarrow> rest s = rest s' \<Longrightarrow> destroy x s = Inr t \<Longrightarrow>
      \<exists>t'. destroy x s' = Inr t' \<and> rest t' = rest t"
begin

text \<open>A handle taken and given back leaves no trace: this is how the command handlers use them.\<close>

lemma borrow:
  assumes "ok s" and "owns s p = Some t"
  shows "\<exists>q u. add p s = Inr (q, u) \<and> ok u \<and> owns u q = Some t \<and> rest u = rest s \<and>
    (\<exists>v. del q u = Inr (0, v) \<and> ok v \<and> owns v = owns s \<and> rest v = rest s)"
proof -
  obtain r x where t: "t = (r, x)" by (cases t) auto
  obtain q u where u: "add p s = Inr (q, u)" "ok u" "owns s q = None" "owns u = (owns s)(q \<mapsto> t)"
    "rest u = rest s" using add_law[OF assms] by blast
  have "p \<noteq> q" using u(3) assms(2) by auto
  then have "owns u p = Some (r, x)" "owns u q = Some (r, x)" using u(4) assms(2) t by auto
  from del_law[OF u(2) this(2,1) \<open>p \<noteq> q\<close>] obtain v where v: "del q u = Inr (0, v)" "ok v"
    "owns v = (owns u)(q := None)" "rest v = rest u" by blast
  have "owns v = owns s" using v(3) u(3,4) by (simp add: fun_upd_idem)
  with u v show ?thesis by (intro exI[of _ q] exI[of _ u]) auto
qed

text \<open>Deleting all handles of an origin, in any order, destroys its data exactly once, at the end.\<close>

lemma delete_all:
  assumes "ok s" and "distinct ps" and "ps \<noteq> []" and "safe x" and "destroy x s = Inr t"
    and "\<And>p. (\<exists>y. owns s p = Some (r, y)) \<longleftrightarrow> p \<in> set ps" and "owns s (hd ps) = Some (r, x)"
  shows "\<exists>u. fold_res (\<lambda>p s. andthen (del p s) (\<lambda>(st, s). Inr s)) ps s = Inr u \<and> ok u \<and>
    rest u = rest t \<and> owns u = (\<lambda>p. if p \<in> set ps then None else owns s p)"
  using assms
proof (induction ps arbitrary: s t)
  case Nil
  then show ?case by simp
next
  case (Cons p ps)
  have p: "owns s p = Some (r, x)" using Cons.prems(7) by simp
  show ?case
  proof (cases ps)
    case Nil
    have "\<forall>p' x'. owns s p' = Some (r, x') \<longrightarrow> p' = p" using Cons.prems(6) Nil by fastforce
    from last_law[OF Cons.prems(1) p this Cons.prems(4,5)] obtain u where
      "del p s = Inr (0, u)" "ok u" "owns u = (owns s)(p := None)" "rest u = rest t" by blast
    then show ?thesis by (simp add: Nil fun_upd_def)
  next
    case (Cons q qs)
    then obtain y where "owns s q = Some (r, y)" using Cons.prems(6)[of q] by auto
    moreover have "q \<noteq> p" using Cons.prems(2) Cons by auto
    ultimately obtain v where v: "del p s = Inr (0, v)" "ok v" "owns v = (owns s)(p := None)"
      "rest v = rest s" using del_law[OF Cons.prems(1) p] by blast
    obtain t' where t': "destroy x v = Inr t'" "rest t' = rest t"
      using destroy_law[OF Cons.prems(4) v(4)[symmetric] Cons.prems(5)] by blast
    have "y = x" by (rule same_law[OF Cons.prems(1) p \<open>owns s q = Some (r, y)\<close>])
    have all: "(\<exists>y. owns v p' = Some (r, y)) \<longleftrightarrow> p' \<in> set ps" for p'
      using Cons.prems(6)[of p'] Cons.prems(2) v(3) by auto
    have hd: "owns v (hd ps) = Some (r, x)"
      using Cons v(3) \<open>q \<noteq> p\<close> \<open>owns s q = Some (r, y)\<close> \<open>y = x\<close> by simp
    obtain u where "fold_res (\<lambda>p s. andthen (del p s) (\<lambda>(st, s). Inr s)) ps v = Inr u" "ok u"
      "rest u = rest t'" "owns u = (\<lambda>p. if p \<in> set ps then None else owns v p)"
      using Cons.IH[OF v(2) _ _ Cons.prems(4) t'(1) all hd] Cons.prems(2) Cons by auto
    with v t' show ?thesis by (intro exI[of _ u]) (auto simp: fun_eq_iff)
  qed
qed

end

text \<open>Everything but handles and counters.\<close>

definition sp_rest :: "'m mem_sptr_scheme \<Rightarrow> 'm mem_sptr_scheme" where
  "sp_rest s = s\<lparr>sp_objs := empty_store, sp_counts := empty_store\<rparr>"

lemma sp_rest_upd [simp]: "sp_rest (s\<lparr>sp_objs := h, sp_counts := c\<rparr>) = sp_rest s"
  by (simp add: sp_rest_def)

lemma sp_rest_eqD:
  assumes "sp_rest s = sp_rest s'"
  shows "s' = s\<lparr>sp_objs := sp_objs s', sp_counts := sp_counts s'\<rparr>"
proof -
  have "s' = (sp_rest s')\<lparr>sp_objs := sp_objs s', sp_counts := sp_counts s'\<rparr>"
    by (simp add: sp_rest_def)
  also have "\<dots> = (sp_rest s)\<lparr>sp_objs := sp_objs s', sp_counts := sp_counts s'\<rparr>" using assms by simp
  also have "\<dots> = s\<lparr>sp_objs := sp_objs s', sp_counts := sp_counts s'\<rparr>" by (simp add: sp_rest_def)
  finally show ?thesis .
qed

abbreviation shared_ok :: "'m mem_sptr_scheme \<Rightarrow> bool" where
  "shared_ok s \<equiv> sp_ok (sp_objs s) (sp_counts s)"

lemma owned_same:
  assumes "sp_ok objs counts" and "owned objs p = Some (r, x)" and "owned objs p' = Some (r, x')"
  shows "x' = x"
proof -
  obtain d f where x: "x = (d, f)" by (cases x) auto
  obtain d' f' where x': "x' = (d', f')" by (cases x') auto
  from assms(2,3) obtain a b where
    "cells objs a = Some \<lparr>sp_ref = r, sp_data = d, sp_destruct = Some f\<rparr>"
    "cells objs b = Some \<lparr>sp_ref = r, sp_data = d', sp_destruct = Some f'\<rparr>"
    unfolding x x' by (auto elim!: owned_liveE)
  with sp_okD(5)[OF assms(1)] x x' show ?thesis by fastforce
qed

interpretation rc: refcount shared_ok handle_of sp_rest sharedptr_add
  "sharedptr_delete (call :: destructor \<Rightarrow> ptr \<Rightarrow> 'm mem_sptr_scheme \<Rightarrow> 'm mem_sptr_scheme res)"
  "\<lambda>(d, f) s. call f d s" "\<lambda>(d, f). off_handles (call f)"
proof
  fix s s' t :: "'m mem_sptr_scheme" and p p' r :: ptr and x x' :: "ptr \<times> destructor"
    and y :: "ptr \<times> ptr \<times> destructor"
  show "\<exists>q u. sharedptr_add p s = Inr (q, u) \<and> shared_ok u \<and> handle_of s q = None \<and>
      handle_of u = (handle_of s)(q \<mapsto> y) \<and> sp_rest u = sp_rest s"
    if "shared_ok s" "handle_of s p = Some y"
    by (rule sharedptr_add_law[OF that]) auto
  show "x' = x" if "shared_ok s" "handle_of s p = Some (r, x)" "handle_of s p' = Some (r, x')"
    using that by (rule owned_same)
  show "\<exists>u. sharedptr_delete call p s = Inr (0, u) \<and> shared_ok u \<and>
      handle_of u = (handle_of s)(p := None) \<and> sp_rest u = sp_rest s"
    if "shared_ok s" "handle_of s p = Some (r, x)" "handle_of s p' = Some (r, x')" "p' \<noteq> p"
  proof -
    obtain d f where x: "x = (d, f)" by (cases x) auto
    obtain d' f' where x': "x' = (d', f')" by (cases x') auto
    show ?thesis
      by (rule sharedptr_delete_law[OF that(1) that(2)[unfolded x] that(3)[unfolded x'] that(4), of call]) auto
  qed
  show "\<exists>u. sharedptr_delete call p s = Inr (0, u) \<and> shared_ok u \<and>
      handle_of u = (handle_of s)(p := None) \<and> sp_rest u = sp_rest t"
    if "shared_ok s" "handle_of s p = Some (r, x)"
      "\<forall>p' x'. handle_of s p' = Some (r, x') \<longrightarrow> p' = p"
      "case x of (d, f) \<Rightarrow> off_handles (call f)" "(case x of (d, f) \<Rightarrow> call f d) s = Inr t"
  proof -
    obtain d f where x: "x = (d, f)" by (cases x) auto
    have only: "p' = p" if "handle_of s p' = Some (r, d', f')" for p' d' f'
      using \<open>\<forall>p' x'. handle_of s p' = Some (r, x') \<longrightarrow> p' = p\<close> that by blast
    have off: "off_handles (call f)" and run: "call f d s = Inr t" using that(4,5) x by simp_all
    show ?thesis
      by (rule sharedptr_delete_last_law[where call = call and f = f, OF that(1) that(2)[unfolded x] only off]) (use run in simp_all)
  qed
  show "\<exists>t'. (case x of (d, f) \<Rightarrow> call f d) s' = Inr t' \<and> sp_rest t' = sp_rest t"
    if "case x of (d, f) \<Rightarrow> off_handles (call f)" "sp_rest s = sp_rest s'"
      "(case x of (d, f) \<Rightarrow> call f d) s = Inr t"
  proof -
    obtain d f where x: "x = (d, f)" by (cases x) auto
    have "call f d (s\<lparr>sp_objs := sp_objs s', sp_counts := sp_counts s'\<rparr>) =
        andthen (call f d s) (\<lambda>t. Inr (t\<lparr>sp_objs := sp_objs s', sp_counts := sp_counts s'\<rparr>))"
      using that(1) x unfolding off_handles_def by blast
    then show ?thesis using that(3) x by (subst sp_rest_eqD[OF that(2)]) simp
  qed
qed

section \<open>Properties\<close>

text \<open>
  C23.  Whatever the order in which all handles of an object are deleted, the object's destructor
  runs exactly once, with the last of them, and in no other deletion; the counter and the handles
  are freed, and the handles of other objects keep their counts.
\<close>

theorem sharedptr_destroys_once:
  assumes "shared_ok s" and "distinct ps" and "ps \<noteq> []"
    and "set ps = {p. \<exists>y. handle_of s p = Some (r, y)}" and "handle_of s (hd ps) = Some (r, d, f)"
    and "off_handles (call f)" and "call f d s = Inr t"
  shows "\<exists>u. fold_res (\<lambda>p s. andthen (sharedptr_delete call p s) (\<lambda>(st, s). Inr s)) ps s = Inr u \<and>
    shared_ok u \<and> sp_rest u = sp_rest t \<and>
    handle_of u = (\<lambda>p. if p \<in> set ps then None else handle_of s p)"
  by (rule rc.delete_all[where x = "(d, f)" and r = r]) (use assms in auto)

text \<open>A destructor that logs its argument behind the handles.\<close>

definition sp_logging ::
  "destructor \<Rightarrow> ptr \<Rightarrow> (ptr list) mem_sptr_scheme \<Rightarrow> (ptr list) mem_sptr_scheme res" where
  "sp_logging f d s = Inr (mem_sptr.more_update (\<lambda>l. l @ [d]) s)"

definition two_handles :: "(ptr list) mem_sptr_scheme" where
  "two_handles = mem_sptr.extend
     \<lparr>q_nodes = empty_store, q_queues = empty_store,
      sp_objs = \<lparr>cells = [0 \<mapsto> \<lparr>sp_ref = Ptr 0, sp_data = Ptr 9, sp_destruct = Some Lethread_delete\<rparr>,
                         1 \<mapsto> \<lparr>sp_ref = Ptr 0, sp_data = Ptr 9, sp_destruct = Some Lethread_delete\<rparr>],
                 brk = 2\<rparr>,
      sp_counts = \<lparr>cells = [0 \<mapsto> 2], brk = 1\<rparr>\<rparr> []"

lemma two_cells:
  "cells (sp_objs two_handles) a = (if a < 2 then Some \<lparr>sp_ref = Ptr 0, sp_data = Ptr 9,
     sp_destruct = Some Lethread_delete\<rparr> else None)"
  "cells (sp_counts two_handles) a = (if a = 0 then Some 2 else None)"
  "brk (sp_objs two_handles) = 2" "brk (sp_counts two_handles) = 1"
  by (auto simp: two_handles_def mem_sptr.defs)

lemma handles_two: "handles (sp_objs two_handles) c = (if c = 0 then {0, 1} else {})"
  by (auto simp: handles_def two_cells)

lemma two_handles_ok: "shared_ok two_handles"
proof (rule sp_okI)
  show "x = x'" if "cells (sp_objs two_handles) p = Some x" "cells (sp_objs two_handles) p' = Some x'"
    for p x p' x' using that by (simp add: two_cells split: if_splits)
qed (auto simp: handles_two two_cells store_ok_def split: if_splits)

lemma two_handles_owned:
  "handle_of two_handles p =
     (if p = Ptr 0 \<or> p = Ptr 1 then Some (Ptr 0, Ptr 9, Lethread_delete) else None)"
  by (cases p) (auto simp: owned_def two_cells)

lemma sharedptr_destroys_once_witness:
  "\<exists>u. fold_res (\<lambda>p s. andthen (sharedptr_delete sp_logging p s) (\<lambda>(st, s). Inr s)) [Ptr 1, Ptr 0]
      two_handles = Inr u \<and> mem_sptr.more u = [Ptr 9] \<and> handle_of u (Ptr 0) = None"
proof -
  have all: "set [Ptr 1, Ptr 0] = {p. \<exists>y. handle_of two_handles p = Some (Ptr 0, y)}"
    by (auto simp: two_handles_owned)
  have hd: "handle_of two_handles (hd [Ptr 1, Ptr 0]) = Some (Ptr 0, Ptr 9, Lethread_delete)"
    by (simp add: two_handles_owned)
  have off: "off_handles (sp_logging Lethread_delete)"
    by (simp add: off_handles_def sp_logging_def)
  obtain t where t: "sp_logging Lethread_delete (Ptr 9) two_handles = Inr t" "mem_sptr.more t = [Ptr 9]"
    by (simp add: sp_logging_def two_handles_def mem_sptr.defs)
  have "distinct [Ptr 1, Ptr 0]" "[Ptr 1, Ptr 0] \<noteq> []" by simp_all
  from sharedptr_destroys_once[where call = sp_logging, OF two_handles_ok this all hd off t(1)] obtain u where
    u: "fold_res (\<lambda>p s. andthen (sharedptr_delete sp_logging p s) (\<lambda>(st, s). Inr s)) [Ptr 1, Ptr 0]
      two_handles = Inr u" "sp_rest u = sp_rest t"
      "handle_of u = (\<lambda>p. if p \<in> set [Ptr 1, Ptr 0] then None else handle_of two_handles p)" by blast
  have "mem_sptr.more u = mem_sptr.more t" using arg_cong[OF u(2), of mem_sptr.more] by (simp add: sp_rest_def)
  with u t show ?thesis by simp
qed

text \<open>
  A handle that is copied and then deleted leaves no trace: all handles, and the rest of the
  state, are as before, and the destructor does not run.  The command handlers use the handles they
  get from \<open>lethread_get_by_id\<close> in this way.
\<close>

theorem sharedptr_borrow:
  assumes "shared_ok s" and "handle_of s p = Some (r, d, f)"
  shows "\<exists>q u v. sharedptr_add p s = Inr (q, u) \<and> handle_of u q = Some (r, d, f) \<and>
    sp_rest u = sp_rest s \<and> sharedptr_delete call q u = Inr (0, v) \<and> shared_ok v \<and>
    handle_of v = handle_of s \<and> sp_rest v = sp_rest s"
  using rc.borrow[OF assms, where call = call] by blast

lemma sharedptr_borrow_witness:
  "\<exists>q u v. sharedptr_add (Ptr 1) two_handles = Inr (q, u) \<and> sharedptr_delete sp_logging q u = Inr (0, v) \<and>
    mem_sptr.more v = []"
proof -
  have h: "handle_of two_handles (Ptr 1) = Some (Ptr 0, Ptr 9, Lethread_delete)"
    by (simp add: two_handles_owned)
  obtain q u v where quv: "sharedptr_add (Ptr 1) two_handles = Inr (q, u)"
    "sharedptr_delete sp_logging q u = Inr (0, v)" "sp_rest v = sp_rest two_handles"
    using sharedptr_borrow[OF two_handles_ok h, where call = sp_logging] by blast
  have "mem_sptr.more v = mem_sptr.more two_handles"
    using arg_cong[OF quv(3), of mem_sptr.more] by (simp add: sp_rest_def)
  with quv show ?thesis by (auto simp: two_handles_def mem_sptr.defs)
qed

end
