(* ===== verification/Security.thy ===== *)
theory Security
  imports Status
begin

text \<open>
  \<open>lib/security.c\<close>: random strings and numbers.  The bytes that \<open>/dev/urandom\<close> will deliver
  are a list given to each call, which returns what it left.  A read loop that runs off that list
  has not returned yet; it is modelled by \<open>Diverges\<close>.
\<close>

definition ALLOWED_SYMBOLS :: nat where
  "ALLOWED_SYMBOLS = 0x7e - 0x20"

definition MIN_SYMBOL :: nat where
  "MIN_SYMBOL = 0x21"

text \<open>One character: bytes below \<open>MIN_SYMBOL\<close> are thrown away.\<close>

fun rand_symbol :: "bytes \<Rightarrow> (byte \<times> bytes) res" where
  "rand_symbol [] = Inl Diverges"
| "rand_symbol (b # dev) =
     (let tmp = of_char b
      in if tmp < MIN_SYMBOL then rand_symbol dev
         else Inr (char_of (tmp mod ALLOWED_SYMBOLS + MIN_SYMBOL), dev))"

fun rand_string :: "nat \<Rightarrow> bytes \<Rightarrow> (bytes \<times> bytes) res" where
  "rand_string 0 dev = Inr ([], dev)"
| "rand_string (Suc n) dev =
     andthen (rand_symbol dev) (\<lambda>(c, dev).
     andthen (rand_string n dev) (\<lambda>(s, dev).
     Inr (c # s, dev)))"

definition rand_uint64_t :: "bytes \<Rightarrow> (u64 \<times> bytes) res" where
  "rand_uint64_t dev =
     (if length dev < 8 then Inl Diverges else Inr (un_le64 (take 8 dev), drop 8 dev))"

text \<open>The characters of a token: printable, no space, no terminator, no newline.\<close>

definition symbol_ok :: "byte \<Rightarrow> bool" where
  "symbol_ok c \<longleftrightarrow> of_char c \<in> {0x21 .. 0x7e :: nat}"

abbreviation usable :: "byte \<Rightarrow> bool" where
  "usable b \<equiv> MIN_SYMBOL \<le> of_char b"

lemma symbol_ok_NUL [simp]: "\<not> symbol_ok NUL"
  by (simp add: symbol_ok_def)

lemma rand_symbol_ok:
  assumes "rand_symbol dev = Inr (c, dev')"
  shows "symbol_ok c"
  using assms
proof (induction dev)
  case Nil
  then show ?case by simp
next
  case (Cons b dev)
  have "(of_char b :: nat) mod 94 < 94" by simp
  then have "of_char b mod 94 + 33 \<in> {0x21 .. 0x7e :: nat}" by simp
  then have "symbol_ok (char_of (of_char b mod 94 + 33 :: nat))"
    by (simp add: symbol_ok_def)
  with Cons show ?case
    by (auto simp: MIN_SYMBOL_def ALLOWED_SYMBOLS_def Let_def split: if_splits)
qed

lemma rand_string_ok:
  assumes "rand_string n dev = Inr (s, dev')"
  shows "length s = n \<and> (\<forall>c\<in>set s. symbol_ok c)"
  using assms
  by (induction n arbitrary: dev s) (fastforce dest: rand_symbol_ok)+

lemma rand_symbol_returns:
  assumes "Suc n \<le> length (filter usable dev)"
  shows "\<exists>c dev'. rand_symbol dev = Inr (c, dev') \<and> n \<le> length (filter usable dev')"
  using assms by (induction dev) (auto simp: Let_def)

lemma rand_string_returns:
  assumes "n \<le> length (filter usable dev)"
  shows "\<exists>s dev'. rand_string n dev = Inr (s, dev')"
  using assms
proof (induction n arbitrary: dev)
  case 0
  then show ?case by simp
next
  case (Suc n)
  obtain c dev' where "rand_symbol dev = Inr (c, dev')" "n \<le> length (filter usable dev')"
    using rand_symbol_returns[OF Suc.prems] by blast
  with Suc.IH[of dev'] show ?case by auto
qed

lemma rand_string_no_NUL: "rand_string n dev = Inr (s, dev') \<Longrightarrow> NUL \<notin> set s"
  using rand_string_ok by fastforce

section \<open>Properties\<close>

text \<open>
  As soon as the device delivers enough usable bytes, \<open>rand_string\<close> returns, with exactly
  \<open>n\<close> characters, each of them printable and none a space, so none of them a terminator.
\<close>

lemma rand_string_printable:
  assumes "n \<le> length (filter usable dev)"
  shows "\<exists>s dev'. rand_string n dev = Inr (s, dev') \<and> length s = n \<and> list_all symbol_ok s \<and> NUL \<notin> set s"
  using rand_string_returns[OF assms] rand_string_ok rand_string_no_NUL by (auto simp: list_all_iff)

lemma rand_string_printable_witness:
  "\<exists>s dev'. rand_string 2 [CHR ''a'', CHR 0x05, CHR 0xFF] = Inr (s, dev') \<and> length s = 2 \<and> list_all symbol_ok s"
  using rand_string_printable[of 2 "[CHR ''a'', CHR 0x05, CHR 0xFF]"] by (auto simp: MIN_SYMBOL_def)

end
