(* ===== verification/Forum.thy ===== *)
theory Forum
  imports Shared_Ptr Bytes Security
begin

text \<open>
  \<open>lib/forum.h\<close>, \<open>lib/forum.c\<close>: threads, their messages and their authors.  The state
  \<open>mem_forum\<close> adds one store per type, and the bytes \<open>/dev/urandom\<close> will deliver.

  The abstract forum is given by \<open>view\<close>: what a thread object and everything it points at mean.
  \<open>fok\<close> says that the objects of different threads are disjoint and that each thread has a
  meaning.  The laws at the end say what every operation does to the views.
\<close>

section \<open>State\<close>

definition MIN_MESSAGE_SIZE :: nat where "MIN_MESSAGE_SIZE = 3"
definition MAX_MESSAGE_SIZE :: nat where "MAX_MESSAGE_SIZE = 512"
definition MIN_TOPIC_SIZE :: nat where "MIN_TOPIC_SIZE = 3"
definition MAX_TOPIC_SIZE :: nat where "MAX_TOPIC_SIZE = 64"
definition TOKEN_SIZE :: nat where "TOKEN_SIZE = 24"

lemmas size_limits = MIN_MESSAGE_SIZE_def MAX_MESSAGE_SIZE_def MIN_TOPIC_SIZE_def MAX_TOPIC_SIZE_def
  TOKEN_SIZE_def

text \<open>
  \<open>lm_text\<close> and \<open>lt_topic\<close> are null or a C string, without its terminator; \<open>la_token\<close> is null
  or the whole block, which is compared and written as raw bytes: \<open>TOKEN_SIZE\<close> characters without
  a terminator when it was generated, one more byte when it is to be loaded from a file.
\<close>

record lemessage =
  lm_id :: u64
  lm_text :: "bytes option"
  lm_by_lethread_author :: i32
  lm_lethread :: ptr

record leauthor =
  la_id :: u64
  la_token :: "bytes option"

record lethread =
  lt_id :: u64
  lt_first_message_id :: u64
  lt_next_message_id :: u64
  lt_topic :: "bytes option"
  lt_messages :: ptr
  lt_author :: ptr

record mem_forum = mem_sptr +
  urandom :: bytes
  f_threads :: "lethread store"
  f_messages :: "lemessage store"
  f_authors :: "leauthor store"

section \<open>Operations\<close>

definition lethread_create ::
  "bytes option \<Rightarrow> u64 \<Rightarrow> 'm mem_forum_scheme \<Rightarrow> (status_t \<times> ptr \<times> 'm mem_forum_scheme) res" where
  "lethread_create topic lethread_id s =
     (case topic of
        None \<Rightarrow> Inr (err LESTATUS_NPTR, Wild, s)
      | Some src \<Rightarrow>
          andthen (cstr src) (\<lambda>name.
          andthen (rand_uint64_t (urandom s)) (\<lambda>(r, dev).
          let first = r mod 0xffffffff;
              (st, q, s) = queue_create Lemessage_delete (s\<lparr>urandom := dev\<rparr>);
              (p, threads) = new_obj \<lparr>lt_id = lethread_id, lt_first_message_id = first,
                 lt_next_message_id = first, lt_topic = Some name, lt_messages = q, lt_author = Null\<rparr>
                 (f_threads s)
          in Inr (ok_status, p, s\<lparr>f_threads := threads\<rparr>))))"

definition lemessage_delete ::
  "ptr \<Rightarrow> 'm mem_forum_scheme \<Rightarrow> (status_t \<times> 'm mem_forum_scheme) res" where
  "lemessage_delete p s =
     NULLPTR_PREVENT p (err LESTATUS_NPTR, s) (
     andthen (deref (f_messages s) p) (\<lambda>m.
     andthen (free_obj p (f_messages s)) (\<lambda>messages.
     Inr (ok_status, s\<lparr>f_messages := messages\<rparr>))))"

definition leauthor_delete ::
  "ptr \<Rightarrow> 'm mem_forum_scheme \<Rightarrow> (status_t \<times> 'm mem_forum_scheme) res" where
  "leauthor_delete p s =
     NULLPTR_PREVENT p (err LESTATUS_NPTR, s) (
     andthen (deref (f_authors s) p) (\<lambda>a.
     andthen (free_obj p (f_authors s)) (\<lambda>authors.
     Inr (ok_status, s\<lparr>f_authors := authors\<rparr>))))"

definition lethread_delete ::
  "(destructor \<Rightarrow> ptr \<Rightarrow> 'm mem_forum_scheme \<Rightarrow> 'm mem_forum_scheme res)
   \<Rightarrow> ptr \<Rightarrow> 'm mem_forum_scheme \<Rightarrow> (status_t \<times> 'm mem_forum_scheme) res" where
  "lethread_delete call p s =
     NULLPTR_PREVENT p (err LESTATUS_NPTR, s) (
     andthen (deref (f_threads s) p) (\<lambda>t.
     andthen
       (if lt_messages t \<noteq> Null then
          andthen (queue_delete call (lt_messages t) s) (\<lambda>(st, s).
          andthen (assign p (t\<lparr>lt_messages := Null\<rparr>) (f_threads s)) (\<lambda>threads.
          Inr (s\<lparr>f_threads := threads\<rparr>)))
        else Inr s) (\<lambda>s.
     andthen
       (if lt_author t \<noteq> Null then
          andthen (leauthor_delete (lt_author t) s) (\<lambda>(st, s).
          andthen (assign p (t\<lparr>lt_messages := Null, lt_author := Null\<rparr>) (f_threads s)) (\<lambda>threads.
          Inr (s\<lparr>f_threads := threads\<rparr>)))
        else Inr s) (\<lambda>s.
     andthen (free_obj p (f_threads s)) (\<lambda>threads.
     Inr (ok_status, s\<lparr>f_threads := threads\<rparr>))))))"

text \<open>
  The destructor callbacks.  A handle destroys a thread, a thread its queue of messages: the calls
  nest three deep, the first argument bounds the nesting.  \<open>free\<close> is only passed for blocks that
  none of these stores holds.
\<close>

fun destruct :: "nat \<Rightarrow> destructor \<Rightarrow> ptr \<Rightarrow> 'm mem_forum_scheme \<Rightarrow> 'm mem_forum_scheme res" where
  "destruct 0 f p s = Inl Diverges"
| "destruct (Suc n) Lemessage_delete p s = andthen (lemessage_delete p s) (\<lambda>(st, s). Inr s)"
| "destruct (Suc n) Lethread_delete p s = andthen (lethread_delete (destruct n) p s) (\<lambda>(st, s). Inr s)"
| "destruct (Suc n) Sharedptr_delete p s = andthen (sharedptr_delete (destruct n) p s) (\<lambda>(st, s). Inr s)"
| "destruct (Suc n) Libc_free p s = Inr s"

definition call_destructor :: "destructor \<Rightarrow> ptr \<Rightarrow> 'm mem_forum_scheme \<Rightarrow> 'm mem_forum_scheme res" where
  "call_destructor = destruct 3"

definition lethread_message_count :: "ptr \<Rightarrow> 'm mem_forum_scheme \<Rightarrow> u64 res" where
  "lethread_message_count p s =
     NULLPTR_PREVENT p (of_int (err LESTATUS_NPTR)) (
     andthen (deref (f_threads s) p) (\<lambda>t.
     Inr (lt_next_message_id t - lt_first_message_id t)))"

definition lemessage_create ::
  "ptr \<Rightarrow> bytes option \<Rightarrow> i32 \<Rightarrow> 'm mem_forum_scheme \<Rightarrow> (status_t \<times> ptr \<times> 'm mem_forum_scheme) res" where
  "lemessage_create p txt by_lethread_author s =
     NULLPTR_PREVENT p (err LESTATUS_NPTR, Wild, s) (
     andthen (deref (f_threads s) p) (\<lambda>t.
     NULLPTR_PREVENT (lt_messages t) (err LESTATUS_NPTR, Wild, s) (
     case txt of
       None \<Rightarrow> Inr (err LESTATUS_NPTR, Wild, s)
     | Some text \<Rightarrow>
         if length text < MIN_MESSAGE_SIZE \<or> length text > MAX_MESSAGE_SIZE
         then Inr (err LESTATUS_IDAT, Wild, s)
         else
           let (m, messages) = new_obj \<lparr>lm_id = lt_next_message_id t, lm_text = Some text,
                 lm_by_lethread_author = by_lethread_author, lm_lethread = p\<rparr> (f_messages s)
           in
             andthen (assign p (t\<lparr>lt_next_message_id := lt_next_message_id t + 1\<rparr>) (f_threads s)) (\<lambda>threads.
             andthen (queue_push (lt_messages t) m (s\<lparr>f_threads := threads, f_messages := messages\<rparr>)) (\<lambda>(st, s).
             Inr (ok_status, m, s))))))"

definition leauthor_create ::
  "ptr \<Rightarrow> bool \<Rightarrow> 'm mem_forum_scheme \<Rightarrow> (status_t \<times> ptr \<times> 'm mem_forum_scheme) res" where
  "leauthor_create p create_token s =
     NULLPTR_PREVENT p (err LESTATUS_NPTR, Wild, s) (
     andthen (rand_uint64_t (urandom s)) (\<lambda>(r, dev).
     andthen
       (if create_token
        then rand_string TOKEN_SIZE dev
        else Inr (replicate (TOKEN_SIZE + 1) NUL, dev)) (\<lambda>(token, dev).
     andthen (deref (f_threads s) p) (\<lambda>t.
     let (a, authors) = new_obj \<lparr>la_id = r mod 0xffffffff, la_token = Some token\<rparr> (f_authors s) in
     andthen (assign p (t\<lparr>lt_author := a\<rparr>) (f_threads s)) (\<lambda>threads.
     Inr (ok_status, a, s\<lparr>urandom := dev, f_threads := threads, f_authors := authors\<rparr>))))))"

text \<open>
  \<open>is_token_valid\<close>: 1 or 0, but the negative status when there is no author or token.  The result
  is a \<open>bool_t\<close>, so callers take that status for true.
\<close>

definition is_token_valid :: "ptr \<Rightarrow> bytes option \<Rightarrow> 'm mem_forum_scheme \<Rightarrow> i32 res" where
  "is_token_valid p token s =
     (let nptr = of_int (err LESTATUS_NPTR) in
      NULLPTR_PREVENT p nptr (
      andthen (deref (f_threads s) p) (\<lambda>t.
      NULLPTR_PREVENT (lt_author t) nptr (
      andthen (deref (f_authors s) (lt_author t)) (\<lambda>a.
      case (la_token a, token) of
        (Some own, Some given) \<Rightarrow>
          andthen (strncmp_eq own given TOKEN_SIZE) (\<lambda>eq. Inr (if eq then 1 else 0))
      | _ \<Rightarrow> Inr nptr)))))"

section \<open>The abstract forum\<close>

record amessage =
  am_id :: u64
  am_text :: bytes
  am_by :: i32

record athread =
  at_id :: u64
  at_first :: u64
  at_next :: u64
  at_topic :: bytes
  at_messages :: "amessage list"
  at_author :: "(u64 \<times> bytes) option"

definition msg_view :: "lemessage store \<Rightarrow> ptr \<Rightarrow> amessage option" where
  "msg_view M p =
     (case deref M p of Inl _ \<Rightarrow> None
      | Inr m \<Rightarrow> map_option (\<lambda>t. \<lparr>am_id = lm_id m, am_text = t, am_by = lm_by_lethread_author m\<rparr>) (lm_text m))"

definition author_view :: "leauthor store \<Rightarrow> ptr \<Rightarrow> (u64 \<times> bytes) option option" where
  "author_view A p =
     (if p = Null then Some None
      else case deref A p of Inl _ \<Rightarrow> None
           | Inr a \<Rightarrow> map_option (\<lambda>t. Some (la_id a, t)) (la_token a))"

definition thread_view ::
  "(ptr \<Rightarrow> ptr list option) \<Rightarrow> lemessage store \<Rightarrow> leauthor store \<Rightarrow> lethread \<Rightarrow> athread option" where
  "thread_view I M A t =
     (case (lt_topic t, I (lt_messages t), author_view A (lt_author t)) of
        (Some topic, Some ds, Some au) \<Rightarrow>
          map_option (\<lambda>ms. \<lparr>at_id = lt_id t, at_first = lt_first_message_id t,
             at_next = lt_next_message_id t, at_topic = topic, at_messages = ms, at_author = au\<rparr>)
            (those (map (msg_view M) ds))
      | _ \<Rightarrow> None)"

definition view ::
  "(ptr \<Rightarrow> ptr list option) \<Rightarrow> lethread store \<Rightarrow> lemessage store \<Rightarrow> leauthor store \<Rightarrow> ptr \<Rightarrow> athread option"
where
  "view I T M A p = (case deref T p of Inl _ \<Rightarrow> None | Inr t \<Rightarrow> thread_view I M A t)"

abbreviation thread_at :: "'m mem_forum_scheme \<Rightarrow> ptr \<Rightarrow> athread option" where
  "thread_at s \<equiv> view (items s) (f_threads s) (f_messages s) (f_authors s)"

text \<open>Threads have a meaning, and no two of them share a queue, a message or an author.\<close>

definition fok ::
  "(ptr \<Rightarrow> ptr list option) \<Rightarrow> lethread store \<Rightarrow> lemessage store \<Rightarrow> leauthor store \<Rightarrow> bool" where
  "fok I T M A \<longleftrightarrow> store_ok T \<and> store_ok M \<and> store_ok A \<and>
     (\<forall>a t. cells T a = Some t \<longrightarrow> thread_view I M A t \<noteq> None) \<and>
     (\<forall>a t ds. cells T a = Some t \<longrightarrow> I (lt_messages t) = Some ds \<longrightarrow> distinct ds) \<and>
     (\<forall>a b t u. cells T a = Some t \<longrightarrow> cells T b = Some u \<longrightarrow> a \<noteq> b \<longrightarrow>
        lt_messages t \<noteq> lt_messages u \<and> (lt_author t = lt_author u \<longrightarrow> lt_author t = Null)) \<and>
     (\<forall>a b t u ds es. cells T a = Some t \<longrightarrow> cells T b = Some u \<longrightarrow> a \<noteq> b \<longrightarrow>
        I (lt_messages t) = Some ds \<longrightarrow> I (lt_messages u) = Some es \<longrightarrow> set ds \<inter> set es = {})"

abbreviation forum_ok :: "'m mem_forum_scheme \<Rightarrow> bool" where
  "forum_ok s \<equiv> queue_ok s \<and> shared_ok s \<and> fok (items s) (f_threads s) (f_messages s) (f_authors s)"

section \<open>Views and their frame\<close>

lemma those_map_Some: "those (map f ds) = Some ms \<longleftrightarrow> list_all2 (\<lambda>d m. f d = Some m) ds ms"
proof (induction ds arbitrary: ms)
  case Nil
  then show ?case by auto
next
  case (Cons d ds)
  then show ?case by (cases ms) (auto split: option.splits)
qed

lemma those_append_Some:
  "those xs = Some ms \<Longrightarrow> those ys = Some ns \<Longrightarrow> those (xs @ ys) = Some (ms @ ns)"
  by (induction xs arbitrary: ms) (auto split: option.splits)

lemma msg_viewE:
  assumes "msg_view M p = Some v"
  obtains a m t where "p = Ptr a" and "cells M a = Some m" and "lm_text m = Some t"
    and "v = \<lparr>am_id = lm_id m, am_text = t, am_by = lm_by_lethread_author m\<rparr>"
  using assms by (cases p) (auto simp: msg_view_def split: sum.splits option.splits)

lemma msg_view_Ptr [simp]:
  "cells M a = Some m \<Longrightarrow> lm_text m = Some t \<Longrightarrow>
   msg_view M (Ptr a) = Some \<lparr>am_id = lm_id m, am_text = t, am_by = lm_by_lethread_author m\<rparr>"
  by (simp add: msg_view_def)

lemma author_view_Null [simp]: "author_view A Null = Some None"
  by (simp add: author_view_def)

lemma author_viewE:
  assumes "author_view A p = Some (Some (i, tk))"
  obtains a x where "p = Ptr a" and "cells A a = Some x" and "la_id x = i" and "la_token x = Some tk"
  using assms by (cases p) (auto simp: author_view_def split: sum.splits option.splits)

lemma thread_view_eq_Some:
  "thread_view I M A t = Some v \<longleftrightarrow> (\<exists>topic ds au ms. lt_topic t = Some topic \<and>
     I (lt_messages t) = Some ds \<and> author_view A (lt_author t) = Some au \<and>
     those (map (msg_view M) ds) = Some ms \<and>
     v = \<lparr>at_id = lt_id t, at_first = lt_first_message_id t, at_next = lt_next_message_id t,
          at_topic = topic, at_messages = ms, at_author = au\<rparr>)"
  by (auto simp: thread_view_def split: option.splits)

lemma thread_viewE:
  assumes "thread_view I M A t = Some v"
  obtains ds where "lt_topic t = Some (at_topic v)" and "I (lt_messages t) = Some ds"
    and "author_view A (lt_author t) = Some (at_author v)"
    and "those (map (msg_view M) ds) = Some (at_messages v)"
    and "lt_id t = at_id v" and "lt_first_message_id t = at_first v" and "lt_next_message_id t = at_next v"
  using assms unfolding thread_view_eq_Some by auto

lemma viewE:
  assumes "view I T M A p = Some v"
  obtains a t where "p = Ptr a" and "cells T a = Some t" and "thread_view I M A t = Some v"
  using assms by (cases p) (auto simp: view_def split: option.splits)

lemma view_Ptr: "view I T M A (Ptr a) =
    (case cells T a of None \<Rightarrow> None | Some t \<Rightarrow> thread_view I M A t)"
  by (simp add: view_def split: option.splits)

lemma view_dead [simp]: "view I T M A Null = None" "view I T M A Wild = None"
  by (simp_all add: view_def)

text \<open>Objects that are added do not change a view, nor do objects outside it.\<close>

lemma map_leD: "m \<subseteq>\<^sub>m m' \<Longrightarrow> m a = Some x \<Longrightarrow> m' a = Some x"
  by (metis domI map_le_def)

lemma msg_view_mono: "msg_view M p = Some v \<Longrightarrow> cells M \<subseteq>\<^sub>m cells M' \<Longrightarrow> msg_view M' p = Some v"
  by (erule msg_viewE) (auto dest: map_leD)

lemma author_view_mono:
  "author_view A p = Some v \<Longrightarrow> cells A \<subseteq>\<^sub>m cells A' \<Longrightarrow> author_view A' p = Some v"
proof (cases v)
  case None
  assume "author_view A p = Some v"
  with None have "p = Null" by (auto simp: author_view_def split: sum.splits option.splits if_splits)
  with None show "author_view A' p = Some v" by simp
next
  case (Some y)
  assume *: "author_view A p = Some v" "cells A \<subseteq>\<^sub>m cells A'"
  obtain i tk where y: "y = (i, tk)" by (cases y) auto
  from *(1) obtain a x where "p = Ptr a" "cells A a = Some x" "la_id x = i" "la_token x = Some tk"
    unfolding Some y by (rule author_viewE)
  with *(2) have "cells A' a = Some x" by (auto dest: map_leD)
  with \<open>p = Ptr a\<close> \<open>la_id x = i\<close> \<open>la_token x = Some tk\<close> show "author_view A' p = Some v"
    by (simp add: author_view_def Some y)
qed

lemma those_map_mono:
  assumes "those (map f ds) = Some ms" and "\<And>d m. d \<in> set ds \<Longrightarrow> f d = Some m \<Longrightarrow> g d = Some m"
  shows "those (map g ds) = Some ms"
  using assms unfolding those_map_Some by (auto elim!: list.rel_mono_strong)

lemma thread_view_mono:
  assumes "thread_view I M A t = Some v" and "I' (lt_messages t) = I (lt_messages t)"
    and "cells M \<subseteq>\<^sub>m cells M'" and "cells A \<subseteq>\<^sub>m cells A'"
  shows "thread_view I' M' A' t = Some v"
proof -
  from assms(1) obtain topic ds au ms where v: "lt_topic t = Some topic" "I (lt_messages t) = Some ds"
    "author_view A (lt_author t) = Some au" "those (map (msg_view M) ds) = Some ms"
    "v = \<lparr>at_id = lt_id t, at_first = lt_first_message_id t, at_next = lt_next_message_id t,
          at_topic = topic, at_messages = ms, at_author = au\<rparr>"
    unfolding thread_view_eq_Some by blast
  have "those (map (msg_view M') ds) = Some ms"
    by (rule those_map_mono[OF v(4)]) (rule msg_view_mono[OF _ assms(3)])
  moreover have "author_view A' (lt_author t) = Some au" by (rule author_view_mono[OF v(3) assms(4)])
  ultimately show ?thesis using v assms(2) by (simp add: thread_view_eq_Some)
qed

text \<open>One thread changes, the others are framed: the invariant and the views afterwards.\<close>

lemma fokD:
  assumes "fok I T M A"
  shows "store_ok T" and "store_ok M" and "store_ok A"
    and "cells T a = Some t \<Longrightarrow> \<exists>v. thread_view I M A t = Some v"
    and "cells T a = Some t \<Longrightarrow> I (lt_messages t) = Some ds \<Longrightarrow> distinct ds"
    and "cells T a = Some t \<Longrightarrow> cells T b = Some u \<Longrightarrow> a \<noteq> b \<Longrightarrow> lt_messages t \<noteq> lt_messages u"
    and "cells T a = Some t \<Longrightarrow> cells T b = Some u \<Longrightarrow> a \<noteq> b \<Longrightarrow> lt_author t = lt_author u \<Longrightarrow>
      lt_author t = Null"
    and "cells T a = Some t \<Longrightarrow> cells T b = Some u \<Longrightarrow> a \<noteq> b \<Longrightarrow> I (lt_messages t) = Some ds \<Longrightarrow>
      I (lt_messages u) = Some es \<Longrightarrow> set ds \<inter> set es = {}"
  using assms unfolding fok_def by blast+

lemma fok_update:
  assumes ok: "fok I T M A" and stores: "store_ok T'" "store_ok M'" "store_ok A'"
    and rest: "\<And>b. b \<noteq> a \<Longrightarrow> cells T' b = cells T b"
    and frame: "\<And>b u. b \<noteq> a \<Longrightarrow> cells T b = Some u \<Longrightarrow>
      thread_view I' M' A' u = thread_view I M A u \<and> I' (lt_messages u) = I (lt_messages u)"
    and new: "\<And>t'. cells T' a = Some t' \<Longrightarrow> thread_view I' M' A' t' \<noteq> None \<and>
      (\<forall>ds. I' (lt_messages t') = Some ds \<longrightarrow> distinct ds)"
    and sep: "\<And>t' b u. cells T' a = Some t' \<Longrightarrow> b \<noteq> a \<Longrightarrow> cells T b = Some u \<Longrightarrow>
      lt_messages t' \<noteq> lt_messages u \<and> (lt_author t' = lt_author u \<longrightarrow> lt_author t' = Null) \<and>
      (\<forall>ds es. I' (lt_messages t') = Some ds \<longrightarrow> I (lt_messages u) = Some es \<longrightarrow> set ds \<inter> set es = {})"
  shows "fok I' T' M' A'"
    and "view I' T' M' A' = (view I T M A)(Ptr a := (case cells T' a of None \<Rightarrow> None | Some t \<Rightarrow> thread_view I' M' A' t))"
proof -
  note D = fokD[OF ok]
  have pair: P if "cells T' b = Some t" "cells T' c = Some u" "b \<noteq> c"
      "b \<noteq> a \<Longrightarrow> c \<noteq> a \<Longrightarrow> cells T b = Some t \<Longrightarrow> cells T c = Some u \<Longrightarrow> P"
      "cells T' a = Some t \<Longrightarrow> c \<noteq> a \<Longrightarrow> cells T c = Some u \<Longrightarrow> P"
      "cells T' a = Some u \<Longrightarrow> b \<noteq> a \<Longrightarrow> cells T b = Some t \<Longrightarrow> P" for b c t u P
    using that rest[of b] rest[of c] by (cases "b = a"; cases "c = a") auto
  show "fok I' T' M' A'"
    unfolding fok_def
  proof (intro conjI allI impI)
    fix b c t u ds es
    show "thread_view I' M' A' t \<noteq> None" if "cells T' b = Some t"
      using that new[of t] rest[of b] frame[of b t] D(4)[of b t] by (cases "b = a") auto
    show "distinct ds" if "cells T' b = Some t" "I' (lt_messages t) = Some ds"
      using that new[of t] rest[of b] frame[of b t] D(5)[of b t ds] by (cases "b = a") auto
    show "lt_messages t \<noteq> lt_messages u" if "cells T' b = Some t" "cells T' c = Some u" "b \<noteq> c"
    proof (rule pair[of b t c u])
      show "lt_messages t \<noteq> lt_messages u" if "cells T b = Some t" "cells T c = Some u"
        using D(6)[OF that \<open>b \<noteq> c\<close>] .
    qed (use that sep in \<open>fastforce+\<close>)
    show "lt_author t = Null" if "cells T' b = Some t" "cells T' c = Some u" "b \<noteq> c" "lt_author t = lt_author u"
    proof (rule pair[of b t c u])
      show "lt_author t = Null" if "cells T b = Some t" "cells T c = Some u"
        using D(7)[OF that \<open>b \<noteq> c\<close> \<open>lt_author t = lt_author u\<close>] .
    qed (use that sep in \<open>fastforce+\<close>)
    show "set ds \<inter> set es = {}" if "cells T' b = Some t" "cells T' c = Some u" "b \<noteq> c"
      "I' (lt_messages t) = Some ds" "I' (lt_messages u) = Some es"
    proof (rule pair[of b t c u])
      show "set ds \<inter> set es = {}" if "b \<noteq> a" "c \<noteq> a" "cells T b = Some t" "cells T c = Some u"
        using D(8)[OF that(3,4) \<open>b \<noteq> c\<close>] frame[OF that(1,3)] frame[OF that(2,4)]
          \<open>I' (lt_messages t) = Some ds\<close> \<open>I' (lt_messages u) = Some es\<close> by simp
      show "set ds \<inter> set es = {}" if "cells T' a = Some t" "c \<noteq> a" "cells T c = Some u"
        using sep[OF that] frame[OF that(2,3)] \<open>I' (lt_messages t) = Some ds\<close>
          \<open>I' (lt_messages u) = Some es\<close> by simp
      show "set ds \<inter> set es = {}" if "cells T' a = Some u" "b \<noteq> a" "cells T b = Some t"
        using sep[OF that] frame[OF that(2,3)] \<open>I' (lt_messages t) = Some ds\<close>
          \<open>I' (lt_messages u) = Some es\<close> by (auto simp: Int_commute)
    qed (use that in auto)
  qed (use stores in auto)
  show "view I' T' M' A' = (view I T M A)(Ptr a := (case cells T' a of None \<Rightarrow> None | Some t \<Rightarrow> thread_view I' M' A' t))"
  proof
    fix p
    show "view I' T' M' A' p = ((view I T M A)(Ptr a := (case cells T' a of None \<Rightarrow> None | Some t \<Rightarrow> thread_view I' M' A' t))) p"
    proof (cases p)
      case (Ptr b)
      then show ?thesis
        using rest[of b] frame[of b] by (cases "b = a") (auto simp: view_Ptr split: option.splits)
    qed simp_all
  qed
qed

section \<open>What each operation does to the views\<close>

lemma map_le_new: "store_ok h \<Longrightarrow> cells h \<subseteq>\<^sub>m cells (snd (new_obj x h))"
  by (auto simp: new_obj_def map_le_def)

lemma fok_items_frame:
  assumes "fok I T M A" and "\<And>a t. cells T a = Some t \<Longrightarrow> I' (lt_messages t) = I (lt_messages t)"
  shows "fok I' T M A" and "view I' T M A = view I T M A"
proof -
  note D = fokD[OF assms(1)]
  have frame: "thread_view I' M A u = thread_view I M A u \<and> I' (lt_messages u) = I (lt_messages u)"
    if u: "cells T b = Some u" for b u
  proof -
    obtain v where "thread_view I M A u = Some v" using D(4)[OF u] by blast
    with thread_view_mono[OF this, where I' = I' and M' = M and A' = A] assms(2)[OF u]
    show ?thesis by simp
  qed
  have none: "cells T (brk T) = None" using D(1) by simp
  note upd = fok_update[OF assms(1) D(1-3), where a = "brk T" and I' = I']
  show "fok I' T M A" by (rule upd) (use frame none in auto)
  have "view I' T M A = (view I T M A)(Ptr (brk T) :=
      (case cells T (brk T) of None \<Rightarrow> None | Some t \<Rightarrow> thread_view I' M A t))"
    by (rule upd) (use frame none in auto)
  then show "view I' T M A = view I T M A" using none by (simp add: fun_upd_idem view_Ptr)
qed

text \<open>A fresh thread object with a fresh, empty queue.\<close>

lemma fok_new_thread:
  assumes ok: "forum_ok s" and none: "items s p = None" and I: "I' = (items s)(p \<mapsto> [])"
    and t: "lt_messages t = p" "lt_author t = Null" "lt_topic t = Some name"
    and T: "threads = (f_threads s)\<lparr>cells := (cells (f_threads s))(a \<mapsto> t), brk := Suc a\<rparr>" "a = brk (f_threads s)"
  shows "fok I' threads (f_messages s) (f_authors s)"
    and "view I' threads (f_messages s) (f_authors s) = (thread_at s)(Ptr a \<mapsto> \<lparr>at_id = lt_id t,
      at_first = lt_first_message_id t, at_next = lt_next_message_id t, at_topic = name, at_messages = [],
      at_author = None\<rparr>)"
    and "thread_at s (Ptr a) = None"
proof -
  have f: "fok (items s) (f_threads s) (f_messages s) (f_authors s)" using ok by simp
  note D = fokD[OF f]
  have dead: "cells (f_threads s) a = None" using D(1) T(2) by simp
  have live: "lt_messages u \<noteq> p" "\<exists>v. thread_view (items s) (f_messages s) (f_authors s) u = Some v"
    if "cells (f_threads s) b = Some u" for b u
  proof -
    show v: "\<exists>v. thread_view (items s) (f_messages s) (f_authors s) u = Some v" using D(4)[OF that] .
    then show "lt_messages u \<noteq> p" using none by (auto simp: thread_view_eq_Some)
  qed
  have tv: "thread_view I' (f_messages s) (f_authors s) t = Some \<lparr>at_id = lt_id t,
      at_first = lt_first_message_id t, at_next = lt_next_message_id t, at_topic = name, at_messages = [],
      at_author = None\<rparr>"
    using t I by (simp add: thread_view_eq_Some)
  have store: "store_ok threads" using D(1) T by (auto simp: store_ok_def)
  have frame: "thread_view I' (f_messages s) (f_authors s) u = thread_view (items s) (f_messages s) (f_authors s) u
      \<and> I' (lt_messages u) = items s (lt_messages u)" if u: "cells (f_threads s) b = Some u" for b u
  proof -
    obtain v where v: "thread_view (items s) (f_messages s) (f_authors s) u = Some v" using live(2)[OF u] ..
    have same: "I' (lt_messages u) = items s (lt_messages u)" using I live(1)[OF u] by simp
    have "thread_view I' (f_messages s) (f_authors s) u = Some v"
      by (rule thread_view_mono[where I' = I', OF v]) (use same in simp_all)
    with v same show ?thesis by simp
  qed
  have sep: "lt_messages t \<noteq> lt_messages u" if "cells (f_threads s) b = Some u" for b u
    using live(1)[OF that] t(1) by simp
  have empty: "I' (lt_messages t) = Some []" using I t(1) by simp
  note upd = fok_update[OF f store D(2,3), where a = a and I' = I']
  show "fok I' threads (f_messages s) (f_authors s)"
    by (rule upd) (use frame tv t(2) empty sep T(1) in auto)
  have "view I' threads (f_messages s) (f_authors s) = (thread_at s)(Ptr a :=
      (case cells threads a of None \<Rightarrow> None | Some t \<Rightarrow> thread_view I' (f_messages s) (f_authors s) t))"
    by (rule upd) (use frame tv t(2) empty sep T(1) in auto)
  moreover have "cells threads a = Some t" using T(1) by simp
  ultimately show "view I' threads (f_messages s) (f_authors s) = (thread_at s)(Ptr a \<mapsto> \<lparr>at_id = lt_id t,
      at_first = lt_first_message_id t, at_next = lt_next_message_id t, at_topic = name, at_messages = [],
      at_author = None\<rparr>)" using tv by simp
  show "thread_at s (Ptr a) = None" by (simp add: view_Ptr dead)
qed

lemma lethread_create_law:
  assumes ok: "forum_ok s" and src: "cstr src = Inr name" and rnd: "rand_uint64_t (urandom s) = Inr (r, dev)"
  obtains a q qs threads where
    "lethread_create (Some src) i s =
       Inr (ok_status, Ptr a, s\<lparr>urandom := dev, q_queues := qs, f_threads := threads\<rparr>)"
    and "qok (q_nodes s) qs" and "items s q = None" and "qitems (q_nodes s) qs = (items s)(q \<mapsto> [])"
    and "fok (qitems (q_nodes s) qs) threads (f_messages s) (f_authors s)"
    and "thread_at s (Ptr a) = None"
    and "view (qitems (q_nodes s) qs) threads (f_messages s) (f_authors s) =
      (thread_at s)(Ptr a \<mapsto> \<lparr>at_id = i, at_first = r mod 0xffffffff, at_next = r mod 0xffffffff,
         at_topic = name, at_messages = [], at_author = None\<rparr>)"
    and "\<exists>t. threads = (f_threads s)\<lparr>cells := (cells (f_threads s))(a \<mapsto> t), brk := Suc a\<rparr> \<and> lt_messages t = q"
    and "qkind qs = (qkind (q_queues s))(q \<mapsto> Lemessage_delete)"
proof -
  let ?s = "s\<lparr>urandom := dev\<rparr>"
  have "queue_ok ?s" using ok by simp
  then obtain p qs where create: "queue_create Lemessage_delete ?s = (ok_status, p, ?s\<lparr>q_queues := qs\<rparr>)"
    and qs: "qok (q_nodes ?s) qs" "qitems (q_nodes ?s) qs = (items ?s)(p \<mapsto> [])" "items ?s p = None"
    by (rule queue_create_law)
  define t where "t = \<lparr>lt_id = i, lt_first_message_id = r mod 0xffffffff,
    lt_next_message_id = r mod 0xffffffff, lt_topic = Some name, lt_messages = p, lt_author = Null\<rparr>"
  define a where "a = brk (f_threads s)"
  define threads where "threads = (f_threads s)\<lparr>cells := (cells (f_threads s))(a \<mapsto> t), brk := Suc a\<rparr>"
  have t: "lt_messages t = p" "lt_author t = Null" "lt_topic t = Some name" by (simp_all add: t_def)
  have none: "items s p = None" "qitems (q_nodes s) qs = (items s)(p \<mapsto> [])" using qs by simp_all
  note N = fok_new_thread[OF ok none t threads_def a_def]
  have "\<exists>t. threads = (f_threads s)\<lparr>cells := (cells (f_threads s))(a \<mapsto> t), brk := Suc a\<rparr> \<and> lt_messages t = p"
    by (intro exI[of _ t]) (simp add: threads_def t)
  moreover have "qkind qs = (qkind (q_queues s))(p \<mapsto> Lemessage_delete)"
    using qkind_create[OF create] by simp
  moreover have "lethread_create (Some src) i s =
      Inr (ok_status, Ptr a, s\<lparr>urandom := dev, q_queues := qs, f_threads := threads\<rparr>)"
    using create by (simp add: lethread_create_def src rnd new_obj_def threads_def a_def t_def Let_def)
  ultimately show ?thesis using qs N that by (simp add: t_def)
qed

lemma leauthor_create_law:
  assumes ok: "forum_ok s" and p: "thread_at s p = Some v"
    and rnd: "rand_uint64_t (urandom s) = Inr (r, dev)"
    and tok: "if b then rand_string TOKEN_SIZE dev = Inr (token, dev')
              else token = replicate (TOKEN_SIZE + 1) NUL \<and> dev' = dev"
  obtains a threads authors where
    "leauthor_create p b s =
       Inr (ok_status, Ptr a, s\<lparr>urandom := dev', f_threads := threads, f_authors := authors\<rparr>)"
    and "fok (items s) threads (f_messages s) authors"
    and "view (items s) threads (f_messages s) authors =
      (thread_at s)(p \<mapsto> v\<lparr>at_author := Some (r mod 0xffffffff, token)\<rparr>)"
    and "cells authors a = Some \<lparr>la_id = r mod 0xffffffff, la_token = Some token\<rparr>"
    and "\<And>c u. cells threads c = Some u \<Longrightarrow> \<exists>u'. cells (f_threads s) c = Some u' \<and> lt_messages u = lt_messages u'"
    and "\<exists>c u. p = Ptr c \<and> cells threads c = Some u \<and> lt_author u = Ptr a"
proof -
  have f: "fok (items s) (f_threads s) (f_messages s) (f_authors s)" using ok by simp
  note D = fokD[OF f]
  obtain c t where c: "p = Ptr c" "cells (f_threads s) c = Some t"
    and tv: "thread_view (items s) (f_messages s) (f_authors s) t = Some v"
    using p by (rule viewE)
  define a where "a = brk (f_authors s)"
  define au where "au = \<lparr>la_id = r mod 0xffffffff, la_token = Some token\<rparr>"
  define authors where "authors = (f_authors s)\<lparr>cells := (cells (f_authors s))(a \<mapsto> au), brk := Suc a\<rparr>"
  define threads where "threads = (f_threads s)\<lparr>cells := (cells (f_threads s))(c \<mapsto> t\<lparr>lt_author := Ptr a\<rparr>)\<rparr>"
  have none: "cells (f_authors s) a = None" using D(3) by (simp add: a_def)
  have le: "cells (f_authors s) \<subseteq>\<^sub>m cells authors" using none by (auto simp: map_le_def authors_def)
  have stores: "store_ok threads" "store_ok authors"
    using D(1,3) c(2) by (auto simp: store_ok_def threads_def authors_def a_def)
  obtain ds where t: "lt_topic t = Some (at_topic v)" "items s (lt_messages t) = Some ds"
    "those (map (msg_view (f_messages s)) ds) = Some (at_messages v)" "lt_id t = at_id v"
    "lt_first_message_id t = at_first v" "lt_next_message_id t = at_next v"
    using tv by (rule thread_viewE)
  have tv': "thread_view (items s) (f_messages s) authors (t\<lparr>lt_author := Ptr a\<rparr>) =
      Some (v\<lparr>at_author := Some (r mod 0xffffffff, token)\<rparr>)"
    using t by (simp add: thread_view_def author_view_def authors_def au_def)
  have frame: "thread_view (items s) (f_messages s) authors u = thread_view (items s) (f_messages s) (f_authors s) u"
    and ne: "lt_author u \<noteq> Ptr a" if u: "cells (f_threads s) x = Some u" for x u
  proof -
    obtain w where w: "thread_view (items s) (f_messages s) (f_authors s) u = Some w"
      using D(4)[OF u] by blast
    then show "thread_view (items s) (f_messages s) authors u = thread_view (items s) (f_messages s) (f_authors s) u"
      using thread_view_mono[OF w _ _ le, where I' = "items s" and M' = "f_messages s"] by simp
    show "lt_author u \<noteq> Ptr a"
      using w none by (auto simp: thread_view_eq_Some author_view_def)
  qed
  note upd = fok_update[OF f stores(1) D(2) stores(2), where a = c and I' = "items s"]
  have c': "cells threads c = Some (t\<lparr>lt_author := Ptr a\<rparr>)" by (simp add: threads_def)
  have sep: "lt_messages t \<noteq> lt_messages u \<and> Ptr a \<noteq> lt_author u \<and>
      (\<forall>ds es. items s (lt_messages t) = Some ds \<longrightarrow> items s (lt_messages u) = Some es \<longrightarrow> set ds \<inter> set es = {})"
    if "x \<noteq> c" "cells (f_threads s) x = Some u" for x u
    using D(6,8)[OF c(2) that(2)] ne[OF that(2)] that(1) by (metis (no_types, lifting))
  have new: "thread_view (items s) (f_messages s) authors t' \<noteq> None \<and>
      (\<forall>ds. items s (lt_messages t') = Some ds \<longrightarrow> distinct ds)" if "cells threads c = Some t'" for t'
    using that c' tv' D(5)[OF c(2)] by auto
  have sep': "lt_messages t' \<noteq> lt_messages u \<and> (lt_author t' = lt_author u \<longrightarrow> lt_author t' = Null) \<and>
      (\<forall>ds es. items s (lt_messages t') = Some ds \<longrightarrow> items s (lt_messages u) = Some es \<longrightarrow> set ds \<inter> set es = {})"
    if "cells threads c = Some t'" "x \<noteq> c" "cells (f_threads s) x = Some u" for t' x u
    using sep[OF that(2,3)] that(1) c' by auto
  have "fok (items s) threads (f_messages s) authors"
    by (rule upd(1)) (use frame new sep' in \<open>auto simp: threads_def\<close>)
  moreover have "view (items s) threads (f_messages s) authors = (thread_at s)(Ptr c :=
      (case cells threads c of None \<Rightarrow> None | Some t \<Rightarrow> thread_view (items s) (f_messages s) authors t))"
    by (rule upd(2)) (use frame new sep' in \<open>auto simp: threads_def\<close>)
  moreover have "leauthor_create p b s =
      Inr (ok_status, Ptr a, s\<lparr>urandom := dev', f_threads := threads, f_authors := authors\<rparr>)"
    using tok c(2) unfolding leauthor_create_def c(1)
    by (cases b) (simp_all add: rnd new_obj_def threads_def authors_def au_def a_def Let_def)
  moreover have "\<exists>u'. cells (f_threads s) x = Some u' \<and> lt_messages u = lt_messages u'"
    if "cells threads x = Some u" for x u
    using that c(2) by (auto simp: threads_def split: if_splits)
  moreover have "cells authors a = Some au" by (simp add: authors_def)
  ultimately show ?thesis using that[where a = a and threads = threads and authors = authors] tv' c(1) c' by (simp add: au_def)
qed

text \<open>
  A message object that joins the queue of its thread, while the thread's next message id becomes
  \<open>nx\<close>: posting a message and loading one from a file both do this.
\<close>

lemma append_message_law:
  fixes nx :: u64 and s :: "'m mem_forum_scheme"
  assumes ok: "forum_ok s" and c: "cells (f_threads s) c = Some t"
    and tv: "thread_view (items s) (f_messages s) (f_authors s) t = Some v" and m: "lm_text m = Some text"
  defines "b \<equiv> brk (f_messages s)"
  defines "messages \<equiv> (f_messages s)\<lparr>cells := (cells (f_messages s))(b \<mapsto> m), brk := Suc b\<rparr>"
  defines "threads \<equiv> (f_threads s)\<lparr>cells := (cells (f_threads s))(c \<mapsto> t\<lparr>lt_next_message_id := nx\<rparr>)\<rparr>"
  obtains ds nodes qs where
    "queue_push (lt_messages t) (Ptr b) (s\<lparr>f_threads := threads, f_messages := messages\<rparr>) =
       Inr (ok_status, s\<lparr>f_threads := threads, f_messages := messages, q_nodes := nodes, q_queues := qs\<rparr>)"
    and "qok nodes qs" and "items s (lt_messages t) = Some ds"
    and "qitems nodes qs = (items s)(lt_messages t \<mapsto> ds @ [Ptr b])"
    and "fok (qitems nodes qs) threads messages (f_authors s)"
    and "view (qitems nodes qs) threads messages (f_authors s) = (thread_at s)(Ptr c \<mapsto>
       v\<lparr>at_messages := at_messages v @ [\<lparr>am_id = lm_id m, am_text = text, am_by = lm_by_lethread_author m\<rparr>],
         at_next := nx\<rparr>)"
    and "qkind qs = qkind (q_queues s)"
proof -
  have qok: "queue_ok s" and f: "fok (items s) (f_threads s) (f_messages s) (f_authors s)"
    using ok by simp_all
  note D = fokD[OF f]
  obtain ds where t: "lt_topic t = Some (at_topic v)" "items s (lt_messages t) = Some ds"
    "author_view (f_authors s) (lt_author t) = Some (at_author v)"
    "those (map (msg_view (f_messages s)) ds) = Some (at_messages v)" "lt_id t = at_id v"
    "lt_first_message_id t = at_first v" "lt_next_message_id t = at_next v"
    using tv by (rule thread_viewE)
  define t' where "t' = t\<lparr>lt_next_message_id := nx\<rparr>"
  let ?s = "s\<lparr>f_threads := threads, f_messages := messages\<rparr>"
  have "queue_ok ?s" "items ?s (lt_messages t) = Some ds" using qok t(2) by simp_all
  then obtain nodes qs where push: "queue_push (lt_messages t) (Ptr b) ?s =
        Inr (ok_status, ?s\<lparr>q_nodes := nodes, q_queues := qs\<rparr>)"
      "qok nodes qs" "qitems nodes qs = (items ?s)(lt_messages t \<mapsto> ds @ [Ptr b])"
    by (rule queue_push_law[OF _ _ refl])
  let ?I = "qitems nodes qs"
  have I: "?I = (items s)(lt_messages t \<mapsto> ds @ [Ptr b])" using push(3) by simp
  have none: "cells (f_messages s) b = None" using D(2) by (simp add: b_def)
  have le: "cells (f_messages s) \<subseteq>\<^sub>m cells messages" using none by (auto simp: map_le_def messages_def)
  have stores: "store_ok threads" "store_ok messages"
    using D(1,2) c by (auto simp: store_ok_def threads_def messages_def b_def)
  let ?new = "\<lparr>am_id = lm_id m, am_text = text, am_by = lm_by_lethread_author m\<rparr>"
  have notin: "Ptr b \<notin> set es" if "those (map (msg_view (f_messages s)) es) = Some ms" for es ms
  proof
    assume "Ptr b \<in> set es"
    with that obtain x where "msg_view (f_messages s) (Ptr b) = Some x"
      unfolding those_map_Some by (auto simp: in_set_conv_nth list_all2_conv_all_nth)
    with none show False by (auto elim!: msg_viewE)
  qed
  have msgs: "those (map (msg_view messages) (ds @ [Ptr b])) = Some (at_messages v @ [?new])"
  proof -
    have "those (map (msg_view messages) ds) = Some (at_messages v)"
      by (rule those_map_mono[OF t(4)]) (rule msg_view_mono[OF _ le])
    moreover have "msg_view messages (Ptr b) = Some ?new"
      by (simp add: messages_def m msg_view_def)
    ultimately show ?thesis by (simp add: those_append_Some)
  qed
  have tv': "thread_view ?I messages (f_authors s) t' =
      Some (v\<lparr>at_messages := at_messages v @ [?new], at_next := nx\<rparr>)"
    unfolding thread_view_eq_Some using t msgs by (simp add: I t'_def)
  have other: "lt_messages t \<noteq> lt_messages u" "thread_view ?I messages (f_authors s) u =
      thread_view (items s) (f_messages s) (f_authors s) u" "?I (lt_messages u) = items s (lt_messages u)"
    "\<And>es. items s (lt_messages u) = Some es \<Longrightarrow> Ptr b \<notin> set es"
    if xc: "x \<noteq> c" and u: "cells (f_threads s) x = Some u" for x u
  proof -
    obtain w where w: "thread_view (items s) (f_messages s) (f_authors s) u = Some w"
      using D(4)[OF u] by blast
    show ne: "lt_messages t \<noteq> lt_messages u" using D(6)[OF c u] xc by blast
    then show same: "?I (lt_messages u) = items s (lt_messages u)" by (simp add: I)
    show "thread_view ?I messages (f_authors s) u = thread_view (items s) (f_messages s) (f_authors s) u"
      using thread_view_mono[where I' = ?I and A' = "f_authors s", OF w same le] w by simp
    show "Ptr b \<notin> set es" if "items s (lt_messages u) = Some es" for es
      using w that notin[of es] by (auto simp: thread_view_eq_Some)
  qed
  have c': "cells threads c = Some t'" by (simp add: threads_def t'_def)
  have new: "thread_view ?I messages (f_authors s) u \<noteq> None \<and>
      (\<forall>ds. ?I (lt_messages u) = Some ds \<longrightarrow> distinct ds)" if "cells threads c = Some u" for u
    using that c' tv' D(5)[OF c t(2)] notin[OF t(4)] by (auto simp: I t'_def)
  have sep: "lt_messages u \<noteq> lt_messages w \<and> (lt_author u = lt_author w \<longrightarrow> lt_author u = Null) \<and>
      (\<forall>ds es. ?I (lt_messages u) = Some ds \<longrightarrow> items s (lt_messages w) = Some es \<longrightarrow> set ds \<inter> set es = {})"
    if u: "cells threads c = Some u" and x: "x \<noteq> c" "cells (f_threads s) x = Some w" for u x w
  proof -
    have u': "lt_messages u = lt_messages t" "lt_author u = lt_author t" using u c' by (auto simp: t'_def)
    show ?thesis unfolding u'
      using other(1,4)[OF x] D(7,8)[OF c x(2)] x(1) t(2) by (auto simp: I)
  qed
  note upd = fok_update[OF f stores D(3), where a = c and I' = ?I]
  have "fok ?I threads messages (f_authors s)"
    by (rule upd(1)) (use other new sep in \<open>auto simp: threads_def\<close>)
  moreover have "view ?I threads messages (f_authors s) = (thread_at s)(Ptr c :=
      (case cells threads c of None \<Rightarrow> None | Some t \<Rightarrow> thread_view ?I messages (f_authors s) t))"
    by (rule upd(2)) (use other new sep in \<open>auto simp: threads_def\<close>)
  moreover have "qkind qs = qkind (q_queues s)" using qkind_push[OF push(1)] by simp
  ultimately show ?thesis
    using that[where ds = ds and nodes = nodes and qs = qs] push(1,2) t(2) I tv' c' by simp
qed

lemma lemessage_create_law:
  assumes ok: "forum_ok s" and p: "thread_at s p = Some v"
    and len: "MIN_MESSAGE_SIZE \<le> length text" "length text \<le> MAX_MESSAGE_SIZE"
  obtains b q ds nodes qs threads messages where
    "lemessage_create p (Some text) by s = Inr (ok_status, Ptr b,
       s\<lparr>f_threads := threads, f_messages := messages, q_nodes := nodes, q_queues := qs\<rparr>)"
    and "qok nodes qs" and "items s q = Some ds" and "qitems nodes qs = (items s)(q \<mapsto> ds @ [Ptr b])"
    and "fok (qitems nodes qs) threads messages (f_authors s)"
    and "view (qitems nodes qs) threads messages (f_authors s) = (thread_at s)(p \<mapsto>
       v\<lparr>at_messages := at_messages v @ [\<lparr>am_id = at_next v, am_text = text, am_by = by\<rparr>],
         at_next := at_next v + 1\<rparr>)"
    and "cells (f_messages s) b = None"
    and "messages = (f_messages s)\<lparr>cells := (cells (f_messages s))(b \<mapsto> \<lparr>lm_id = at_next v, lm_text = Some text,
       lm_by_lethread_author = by, lm_lethread = p\<rparr>), brk := Suc b\<rparr>"
    and "\<exists>c t. p = Ptr c \<and> cells (f_threads s) c = Some t \<and> lt_messages t = q \<and>
       threads = (f_threads s)\<lparr>cells := (cells (f_threads s))(c \<mapsto> t\<lparr>lt_next_message_id := at_next v + 1\<rparr>)\<rparr>"
    and "qkind qs = qkind (q_queues s)"
proof -
  obtain c t where c: "p = Ptr c" "cells (f_threads s) c = Some t"
    and tv: "thread_view (items s) (f_messages s) (f_authors s) t = Some v"
    using p by (rule viewE)
  define b where "b = brk (f_messages s)"
  define m where "m = \<lparr>lm_id = at_next v, lm_text = Some text, lm_by_lethread_author = by, lm_lethread = p\<rparr>"
  define messages where "messages = (f_messages s)\<lparr>cells := (cells (f_messages s))(b \<mapsto> m), brk := Suc b\<rparr>"
  define threads where "threads = (f_threads s)\<lparr>cells := (cells (f_threads s))
    (c \<mapsto> t\<lparr>lt_next_message_id := at_next v + 1\<rparr>)\<rparr>"
  have nxt: "lt_next_message_id t = at_next v" and q: "\<exists>ds. items s (lt_messages t) = Some ds"
    using tv by (auto simp: thread_view_eq_Some)
  obtain qa where qa: "lt_messages t = Ptr qa" using q by (auto elim: qitems_live)
  have m_text: "lm_text m = Some text" by (simp add: m_def)
  have none: "cells (f_messages s) b = None" using ok by (simp add: b_def fok_def)
  obtain ds nodes qs where push: "queue_push (lt_messages t) (Ptr b) (s\<lparr>f_threads := threads, f_messages := messages\<rparr>) =
       Inr (ok_status, s\<lparr>f_threads := threads, f_messages := messages, q_nodes := nodes, q_queues := qs\<rparr>)"
    and laws: "qok nodes qs" "items s (lt_messages t) = Some ds"
    "qitems nodes qs = (items s)(lt_messages t \<mapsto> ds @ [Ptr b])"
    "fok (qitems nodes qs) threads messages (f_authors s)"
    "view (qitems nodes qs) threads messages (f_authors s) = (thread_at s)(Ptr c \<mapsto>
       v\<lparr>at_messages := at_messages v @ [\<lparr>am_id = lm_id m, am_text = text, am_by = lm_by_lethread_author m\<rparr>],
         at_next := at_next v + 1\<rparr>)" "qkind qs = qkind (q_queues s)"
    unfolding b_def messages_def threads_def
    by (rule append_message_law[OF ok c(2) tv m_text, where nx = "at_next v + 1"])
  have "lemessage_create p (Some text) by s = Inr (ok_status, Ptr b,
       s\<lparr>f_threads := threads, f_messages := messages, q_nodes := nodes, q_queues := qs\<rparr>)"
    using c qa len push nxt
    by (simp add: lemessage_create_def new_obj_def b_def threads_def messages_def m_def not_less Let_def)
  then show ?thesis
    using that[where b = b and q = "lt_messages t" and ds = ds and nodes = nodes and qs = qs
        and threads = threads and messages = messages] laws none c
    by (auto simp: messages_def m_def threads_def)
qed

text \<open>A message whose text is too short or too long is refused without any effect.\<close>

lemma lemessage_create_refused:
  assumes "thread_at s p = Some v"
    and "length text < MIN_MESSAGE_SIZE \<or> MAX_MESSAGE_SIZE < length text"
  shows "lemessage_create p (Some text) by s = Inr (err LESTATUS_IDAT, Wild, s)"
proof -
  obtain c t where c: "p = Ptr c" "cells (f_threads s) c = Some t"
    and tv: "thread_view (items s) (f_messages s) (f_authors s) t = Some v"
    using assms(1) by (rule viewE)
  obtain ds where "items s (lt_messages t) = Some ds" using tv by (rule thread_viewE)
  then obtain q where "lt_messages t = Ptr q" by (auto elim: qitems_live)
  with c assms(2) show ?thesis by (simp add: lemessage_create_def)
qed

section \<open>Deleting a thread\<close>

text \<open>Every thread's queue was made with \<open>lemessage_delete\<close> as its destructor.\<close>

definition kinds_ok :: "lethread store \<Rightarrow> queue store \<Rightarrow> bool" where
  "kinds_ok T qs \<longleftrightarrow> (\<forall>a t. cells T a = Some t \<longrightarrow> qkind qs (lt_messages t) = Some Lemessage_delete)"

definition drop_messages :: "ptr set \<Rightarrow> lemessage store \<Rightarrow> lemessage store" where
  "drop_messages X M = M\<lparr>cells := (\<lambda>a. if Ptr a \<in> X then None else cells M a)\<rparr>"

lemma drop_messages_empty [simp]: "drop_messages {} M = M"
  by (simp add: drop_messages_def)

lemma drop_messages_insert:
  "(drop_messages X M)\<lparr>cells := (cells (drop_messages X M))(a := None)\<rparr> = drop_messages (insert (Ptr a) X) M"
  by (rule store.equality) (auto simp: drop_messages_def)

lemma msg_view_drop: "d \<notin> X \<Longrightarrow> msg_view (drop_messages X M) d = msg_view M d"
  by (cases d) (simp_all add: msg_view_def drop_messages_def)

lemma those_map_cong: "(\<And>d. d \<in> set ds \<Longrightarrow> f d = g d) \<Longrightarrow> those (map f ds) = those (map g ds)"
  by (simp cong: map_cong)

text \<open>The messages of a queue are freed one by one.\<close>

lemma delete_thread_queue:
  assumes qok: "queue_ok s" and it: "items s q = Some ds" and kind: "qkind (q_queues s) q = Some Lemessage_delete"
    and dist: "distinct ds" and live: "\<And>d. d \<in> set ds \<Longrightarrow> live (f_messages s) d"
  obtains nodes qs where "queue_delete (destruct (Suc n)) q s = Inr (ok_status,
      s\<lparr>f_messages := drop_messages (set ds) (f_messages s), q_nodes := nodes, q_queues := qs\<rparr>)"
    and "qok nodes qs" and "qitems nodes qs = (items s)(q := None)"
    and "qkind qs = (qkind (q_queues s))(q := None)"
proof -
  define P where "P es u \<longleftrightarrow> (\<exists>don h k. ds = don @ es \<and>
      u = s\<lparr>f_messages := drop_messages (set don) (f_messages s), q_nodes := h, q_queues := k\<rparr>)" for es u
  have step: "\<exists>t. destruct (Suc n) Lemessage_delete d u = Inr t \<and> q_nodes t = q_nodes u \<and>
      q_queues t = q_queues u \<and> P es t" if Pd: "P (d # es) u" for d es u
  proof -
    obtain don h k where don: "ds = don @ d # es"
      and u: "u = s\<lparr>f_messages := drop_messages (set don) (f_messages s), q_nodes := h, q_queues := k\<rparr>"
      using Pd unfolding P_def by blast
    obtain a m where d: "d = Ptr a" "cells (f_messages s) a = Some m"
      using live[of d] don by (auto simp: live_def)
    have cell: "cells (drop_messages (set don) (f_messages s)) a = Some m"
      using d dist don by (auto simp: drop_messages_def)
    let ?t = "s\<lparr>f_messages := drop_messages (set (don @ [d])) (f_messages s), q_nodes := h, q_queues := k\<rparr>"
    have "destruct (Suc n) Lemessage_delete d u = Inr ?t"
      using cell by (simp add: u lemessage_delete_def d drop_messages_insert)
    moreover have "P es ?t" unfolding P_def by (intro exI[of _ "don @ [d]"] exI) (simp add: don)
    ultimately show ?thesis by (intro exI[of _ ?t]) (simp add: u)
  qed
  have frame: "P es (u\<lparr>q_nodes := h, q_queues := k\<rparr>)" if Pu: "P es u" for es u h k
  proof -
    obtain don h' k' where "ds = don @ es"
      "u = s\<lparr>f_messages := drop_messages (set don) (f_messages s), q_nodes := h', q_queues := k'\<rparr>"
      using Pu unfolding P_def by blast
    then show ?thesis unfolding P_def by (intro exI[of _ don] exI[of _ h] exI[of _ k]) simp
  qed
  have init: "P ds s"
    unfolding P_def by (intro exI[of _ "[]"] exI[of _ "q_nodes s"] exI[of _ "q_queues s"]) simp
  obtain t where t: "queue_delete (destruct (Suc n)) q s = Inr (ok_status, t)" "queue_ok t"
    "items t = (items s)(q := None)" "P [] t" "qkind (q_queues t) = (qkind (q_queues s))(q := None)"
    by (rule queue_delete_rule[where P = P and call = "destruct (Suc n)" and f = Lemessage_delete and s = s
          and q = q and ds = ds, OF step frame qok it kind init])
  from t(4) obtain h k where
    "t = s\<lparr>f_messages := drop_messages (set ds) (f_messages s), q_nodes := h, q_queues := k\<rparr>"
    by (auto simp: P_def)
  with t show ?thesis by (intro that[where nodes = h and qs = k]) simp_all
qed

lemma thread_view_frame:
  assumes "I' (lt_messages t) = I (lt_messages t)"
    and "\<And>ds d. I (lt_messages t) = Some ds \<Longrightarrow> d \<in> set ds \<Longrightarrow> msg_view M' d = msg_view M d"
    and "author_view A' (lt_author t) = author_view A (lt_author t)"
  shows "thread_view I' M' A' t = thread_view I M A t"
proof (cases "I (lt_messages t)")
  case None
  with assms(1) show ?thesis by (simp add: thread_view_def split: option.splits)
next
  case (Some ds)
  have "those (map (msg_view M') ds) = those (map (msg_view M) ds)"
    by (rule those_map_cong) (rule assms(2)[OF Some])
  with Some assms(1,3) show ?thesis by (auto simp: thread_view_def split: option.split)
qed

lemma those_map_SomeD: "those (map f ds) = Some ms \<Longrightarrow> d \<in> set ds \<Longrightarrow> \<exists>m. f d = Some m"
  unfolding those_map_Some by (auto simp: in_set_conv_nth list_all2_conv_all_nth)

lemma lethread_delete_law:
  assumes ok: "forum_ok s" and kinds: "kinds_ok (f_threads s) (q_queues s)" and p: "thread_at s p = Some v"
  obtains t c u ds where "lethread_delete (destruct (Suc n)) p s = Inr (ok_status, t)"
    and "forum_ok t" and "kinds_ok (f_threads t) (q_queues t)" and "thread_at t = (thread_at s)(p := None)"
    and "p = Ptr c" and "cells (f_threads s) c = Some u" and "items s (lt_messages u) = Some ds"
    and "items t = (items s)(lt_messages u := None)" and "f_messages t = drop_messages (set ds) (f_messages s)"
    and "cells (f_threads t) c = None" and "author_view (f_authors t) (lt_author u) = author_view (f_authors s) (lt_author u)
      \<Longrightarrow> lt_author u = Null"
    and "cells (f_threads t) = (cells (f_threads s))(c := None)" and "handle_of t = handle_of s"
    and "qkind (q_queues t) = (qkind (q_queues s))(lt_messages u := None)"
    and "t = s\<lparr>q_nodes := q_nodes t, q_queues := q_queues t, f_threads := f_threads t, f_messages := f_messages t,
      f_authors := f_authors t\<rparr>"
proof -
  have qok: "queue_ok s" and sh: "shared_ok s" and f: "fok (items s) (f_threads s) (f_messages s) (f_authors s)"
    using ok by simp_all
  note D = fokD[OF f]
  obtain c u where c: "p = Ptr c" "cells (f_threads s) c = Some u"
    and tv: "thread_view (items s) (f_messages s) (f_authors s) u = Some v"
    using p by (rule viewE)
  obtain ds where u: "items s (lt_messages u) = Some ds"
    "author_view (f_authors s) (lt_author u) = Some (at_author v)"
    "those (map (msg_view (f_messages s)) ds) = Some (at_messages v)"
    using tv by (rule thread_viewE)
  obtain qa where q: "lt_messages u = Ptr qa" using u(1) by (auto elim: qitems_live)
  have live: "live (f_messages s) d" if "d \<in> set ds" for d
    using those_map_SomeD[OF u(3) that] by (auto elim!: msg_viewE)
  obtain nodes qs where del: "queue_delete (destruct (Suc n)) (lt_messages u) s = Inr (ok_status,
      s\<lparr>f_messages := drop_messages (set ds) (f_messages s), q_nodes := nodes, q_queues := qs\<rparr>)"
      "qok nodes qs" "qitems nodes qs = (items s)(lt_messages u := None)"
      "qkind qs = (qkind (q_queues s))(lt_messages u := None)"
    by (rule delete_thread_queue[OF qok u(1) _ D(5)[OF c(2) u(1)] live])
      (use kinds c(2) in \<open>auto simp: kinds_ok_def\<close>)
  define M where "M = drop_messages (set ds) (f_messages s)"
  define A where "A = (case lt_author u of Ptr b \<Rightarrow> (f_authors s)\<lparr>cells := (cells (f_authors s))(b := None)\<rparr>
    | _ \<Rightarrow> f_authors s)"
  define T where "T = (f_threads s)\<lparr>cells := (cells (f_threads s))(c := None)\<rparr>"
  define t where "t = s\<lparr>f_messages := M, q_nodes := nodes, q_queues := qs, f_authors := A, f_threads := T\<rparr>"
  have au: "lt_author u = Null \<or> (\<exists>b x. lt_author u = Ptr b \<and> cells (f_authors s) b = Some x)"
    using u(2) by (cases "lt_author u") (auto simp: author_view_def split: option.splits)
  have run: "lethread_delete (destruct (Suc n)) p s = Inr (ok_status, t)"
    using au
  proof
    assume "lt_author u = Null"
    then show ?thesis
      using c q del(1)[unfolded q]
      by (simp add: lethread_delete_def t_def T_def A_def M_def fun_upd_def cong: if_cong)
  next
    assume "\<exists>b x. lt_author u = Ptr b \<and> cells (f_authors s) b = Some x"
    then obtain b x where "lt_author u = Ptr b" "cells (f_authors s) b = Some x" by blast
    then show ?thesis
      using c q del(1)[unfolded q]
      by (simp add: lethread_delete_def leauthor_delete_def t_def T_def A_def M_def fun_upd_def cong: if_cong)
  qed
  have stores: "store_ok T" "store_ok M" "store_ok A"
    using D(1-3) by (auto simp: store_ok_def T_def M_def A_def drop_messages_def split: ptr.splits)
  let ?I = "qitems nodes qs"
  have frame: "thread_view ?I M A w = thread_view (items s) (f_messages s) (f_authors s) w \<and>
      ?I (lt_messages w) = items s (lt_messages w)" if x: "x \<noteq> c" "cells (f_threads s) x = Some w" for x w
  proof -
    have ne: "lt_messages w \<noteq> lt_messages u" using D(6)[OF x(2) c(2)] x(1) by blast
    have I: "?I (lt_messages w) = items s (lt_messages w)" using ne by (simp add: del(3))
    have "author_view A (lt_author w) = author_view (f_authors s) (lt_author w)"
    proof (cases "lt_author w = lt_author u")
      case True
      then have "lt_author w = Null" using D(7)[OF x(2) c(2)] x(1) by blast
      then show ?thesis by simp
    next
      case False
      then show ?thesis
        by (cases "lt_author w"; cases "lt_author u") (auto simp: A_def author_view_def)
    qed
    moreover have "msg_view M d = msg_view (f_messages s) d"
      if "items s (lt_messages w) = Some es" "d \<in> set es" for es d
      unfolding M_def by (rule msg_view_drop) (use D(8)[OF x(2) c(2) x(1) that(1) u(1)] that(2) in blast)
    ultimately have "thread_view ?I M A w = thread_view (items s) (f_messages s) (f_authors s) w"
      using I by (intro thread_view_frame) auto
    with I show ?thesis by blast
  qed
  have gone: "cells T c = None" by (simp add: T_def)
  have rest: "cells T b = cells (f_threads s) b" if "b \<noteq> c" for b using that by (simp add: T_def)
  note upd = fok_update[where a = c and I' = ?I, OF f stores rest frame]
  have "fok ?I T M A" by (rule upd(1)) (use gone in auto)
  moreover have "view ?I T M A = (thread_at s)(Ptr c := None)"
    using upd(2) gone by simp
  moreover have "kinds_ok T qs"
    unfolding kinds_ok_def
  proof (intro allI impI)
    fix a w
    assume "cells T a = Some w"
    then have w: "a \<noteq> c" "cells (f_threads s) a = Some w" by (auto simp: T_def split: if_splits)
    with D(6)[OF w(2) c(2)] kinds show "qkind qs (lt_messages w) = Some Lemessage_delete"
      by (simp add: del(4) kinds_ok_def)
  qed
  moreover have "lt_author u = Null" if "author_view A (lt_author u) = author_view (f_authors s) (lt_author u)"
    using that au u(2) by (auto simp: A_def author_view_def)
  ultimately show ?thesis
    using run del c u(1) sh gone by (intro that[of t c u ds]) (simp_all add: t_def M_def T_def)
qed

section \<open>A small forum\<close>

text \<open>A forum with one thread, made by the operations above; the device delivers \<open>'A'\<close> for ever.\<close>

definition empty_forum :: "nat \<Rightarrow> mem_forum" where
  "empty_forum n = \<lparr>q_nodes = empty_store, q_queues = empty_store, sp_objs = empty_store,
     sp_counts = empty_store, urandom = replicate n (CHR ''A''), f_threads = empty_store,
     f_messages = empty_store, f_authors = empty_store\<rparr>"

definition small_forum :: mem_forum where
  "small_forum = (case lethread_create (Some (''topic'' @ [NUL])) 7 (empty_forum 48) of
     Inr (st, p, s) \<Rightarrow> s | Inl f \<Rightarrow> empty_forum 48)"

definition small_thread :: athread where
  "small_thread = \<lparr>at_id = 7, at_first = un_le64 (replicate 8 (CHR ''A'')) mod 0xffffffff,
     at_next = un_le64 (replicate 8 (CHR ''A'')) mod 0xffffffff, at_topic = ''topic'',
     at_messages = [], at_author = None\<rparr>"

lemma forum_ok_empty: "forum_ok (empty_forum n)"
  by (simp add: empty_forum_def fok_def) (simp add: empty_store_def)

lemma small_forum_run:
  "lethread_create (Some (''topic'' @ [NUL])) 7 (empty_forum 48) = Inr (0, Ptr 0, small_forum)"
  by (simp add: small_forum_def lethread_create_def cstr_def empty_forum_def rand_uint64_t_def queue_create_def
      new_obj_def empty_store_def Let_def)

lemma small_forum_ok: "forum_ok small_forum" and small_thread_at: "thread_at small_forum (Ptr 0) = Some small_thread"
  and small_urandom: "urandom small_forum = replicate 40 (CHR ''A'')"
  and small_kinds: "kinds_ok (f_threads small_forum) (q_queues small_forum)"
proof -
  have rnd: "rand_uint64_t (urandom (empty_forum 48)) =
      Inr (un_le64 (replicate 8 (CHR ''A'')), replicate 40 (CHR ''A''))"
    by (simp add: rand_uint64_t_def empty_forum_def)
  have src: "cstr (''topic'' @ [NUL]) = Inr ''topic''" by (rule cstr_append) simp
  obtain a q qs threads where run: "lethread_create (Some (''topic'' @ [NUL])) 7 (empty_forum 48) =
      Inr (ok_status, Ptr a, (empty_forum 48)\<lparr>urandom := replicate 40 (CHR ''A''), q_queues := qs, f_threads := threads\<rparr>)"
    "qok (q_nodes (empty_forum 48)) qs"
    "fok (qitems (q_nodes (empty_forum 48)) qs) threads (f_messages (empty_forum 48)) (f_authors (empty_forum 48))"
    "view (qitems (q_nodes (empty_forum 48)) qs) threads (f_messages (empty_forum 48)) (f_authors (empty_forum 48)) =
      (thread_at (empty_forum 48))(Ptr a \<mapsto> \<lparr>at_id = 7, at_first = un_le64 (replicate 8 (CHR ''A'')) mod 0xffffffff,
         at_next = un_le64 (replicate 8 (CHR ''A'')) mod 0xffffffff, at_topic = ''topic'', at_messages = [],
         at_author = None\<rparr>)"
    by (rule lethread_create_law[OF forum_ok_empty src rnd, where i = 7]) blast
  from run(1) small_forum_run have a: "a = 0" and s: "small_forum =
      (empty_forum 48)\<lparr>urandom := replicate 40 (CHR ''A''), q_queues := qs, f_threads := threads\<rparr>" by simp_all
  show "forum_ok small_forum" using run(2,3) forum_ok_empty[of 48] by (simp add: s)
  show "thread_at small_forum (Ptr 0) = Some small_thread" using run(4) by (simp add: s a small_thread_def)
  show "urandom small_forum = replicate 40 (CHR ''A'')" by (simp add: s)
  show "kinds_ok (f_threads small_forum) (q_queues small_forum)"
    by (simp add: kinds_ok_def small_forum_def lethread_create_def cstr_def empty_forum_def rand_uint64_t_def queue_create_def
      new_obj_def empty_store_def Let_def qkind_def)
qed

lemma is_token_valid_view:
  assumes "thread_at s p = Some v" and "at_author v = Some (i, block)"
  shows "is_token_valid p (Some given) s =
    andthen (strncmp_eq block given TOKEN_SIZE) (\<lambda>eq. Inr (if eq then 1 else 0))"
proof -
  obtain c t where c: "p = Ptr c" "cells (f_threads s) c = Some t"
    and tv: "thread_view (items s) (f_messages s) (f_authors s) t = Some v"
    using assms(1) by (rule viewE)
  have "author_view (f_authors s) (lt_author t) = Some (Some (i, block))"
    using tv assms(2) by (auto simp: thread_view_eq_Some)
  then obtain a x where a: "lt_author t = Ptr a" "cells (f_authors s) a = Some x" "la_token x = Some block"
    by (rule author_viewE)
  with c show ?thesis by (auto simp: is_token_valid_def)
qed

section \<open>Properties\<close>

text \<open>
  \<open>lethread_create\<close> makes a thread with the given id and topic, no message and no author, whose
  first message id is the random number modulo \<open>0xffffffff\<close>; no other thread changes and the heap
  stays well formed.
\<close>

theorem lethread_create_adds_thread:
  assumes "forum_ok s" and "cstr src = Inr name" and "rand_uint64_t (urandom s) = Inr (r, dev)"
  shows "\<exists>p t. lethread_create (Some src) i s = Inr (0, p, t) \<and> forum_ok t \<and> thread_at s p = None \<and>
    thread_at t = (thread_at s)(p \<mapsto> \<lparr>at_id = i, at_first = r mod 0xffffffff,
      at_next = r mod 0xffffffff, at_topic = name, at_messages = [], at_author = None\<rparr>) \<and>
    urandom t = dev \<and> handle_of t = handle_of s"
  by (rule lethread_create_law[OF assms, of i]) (use assms(1) in auto)

lemma lethread_create_adds_thread_witness:
  "\<exists>p t. lethread_create (Some (''topic'' @ [NUL])) 9 (empty_forum 8) = Inr (0, p, t) \<and> forum_ok t \<and>
     (\<exists>v. thread_at t p = Some v \<and> at_topic v = ''topic'' \<and> at_id v = 9)"
proof -
  have "rand_uint64_t (urandom (empty_forum 8)) = Inr (un_le64 (replicate 8 (CHR ''A'')), [])"
    by (simp add: rand_uint64_t_def empty_forum_def)
  from lethread_create_adds_thread[OF forum_ok_empty cstr_append[of "''topic''" "[]"] this, of 9]
  show ?thesis by auto
qed

text \<open>
  C24.  A message of 3 to 512 characters is appended to its thread under the thread's next message
  id, which is then incremented; no other thread changes and the heap stays well formed.
\<close>

theorem lemessage_create_appends:
  assumes "forum_ok s" and "thread_at s p = Some v" and "3 \<le> length text" and "length text \<le> 512"
  shows "\<exists>m t. lemessage_create p (Some text) by s = Inr (0, m, t) \<and> forum_ok t \<and>
    thread_at t = (thread_at s)(p \<mapsto> v\<lparr>at_messages := at_messages v @
      [\<lparr>am_id = at_next v, am_text = text, am_by = by\<rparr>], at_next := at_next v + 1\<rparr>) \<and>
    deref (f_messages s) m = Inl UseAfterFree \<and>
    deref (f_messages t) m = Inr \<lparr>lm_id = at_next v, lm_text = Some text, lm_by_lethread_author = by, lm_lethread = p\<rparr>"
  by (rule lemessage_create_law[OF assms(1,2), of "text" "by"]) (use assms in \<open>auto simp: size_limits\<close>)

lemma lemessage_create_appends_witness:
  "\<exists>m t. lemessage_create (Ptr 0) (Some ''hello'') 1 small_forum = Inr (0, m, t) \<and>
    (\<exists>v. thread_at t (Ptr 0) = Some v \<and> map am_text (at_messages v) = [''hello''])"
  using lemessage_create_appends[OF small_forum_ok small_thread_at, of "''hello''" 1]
  by (auto simp: small_thread_def)

text \<open>
  A text that is shorter or longer than that is refused with \<open>LESTATUS_IDAT\<close>; nothing changes,
  no message id is used up, and the out parameter of the caller keeps its indeterminate value.
\<close>

lemma lemessage_create_refuses:
  assumes "thread_at s p = Some v" and "length text < 3 \<or> 512 < length text"
  shows "lemessage_create p (Some text) by s = Inr (-6, Wild, s)"
  using lemessage_create_refused[OF assms(1), of "text" "by"] assms(2) by (simp add: size_limits)

lemma lemessage_create_refuses_witness:
  "lemessage_create (Ptr 0) (Some ''hi'') 0 small_forum = Inr (-6, Wild, small_forum)"
  by (rule lemessage_create_refuses[OF small_thread_at]) simp

text \<open>Posting one text after the other.\<close>

definition post_all :: "ptr \<Rightarrow> (bytes \<times> i32) list \<Rightarrow> 'm mem_forum_scheme \<Rightarrow> 'm mem_forum_scheme res" where
  "post_all p = fold_res (\<lambda>(text, by) s. andthen (lemessage_create p (Some text) by s) (\<lambda>(st, m, s). Inr s))"

definition numbered :: "u64 \<Rightarrow> (bytes \<times> i32) list \<Rightarrow> amessage list" where
  "numbered first posts = map (\<lambda>(i, text, by). \<lparr>am_id = first + of_nat i, am_text = text, am_by = by\<rparr>)
     (zip [0..<length posts] posts)"

lemma numbered_snoc:
  "numbered first (posts @ [(text, by)]) =
     numbered first posts @ [\<lparr>am_id = first + of_nat (length posts), am_text = text, am_by = by\<rparr>]"
  by (simp add: numbered_def)

lemma post_all_law:
  assumes "forum_ok s" and "thread_at s p = Some v" and "at_messages v = numbered (at_first v) old"
    and "at_next v = at_first v + of_nat (length old)"
    and "\<forall>(text, by)\<in>set posts. 3 \<le> length text \<and> length text \<le> 512"
  shows "\<exists>t. post_all p posts s = Inr t \<and> forum_ok t \<and> thread_at t = (thread_at s)(p \<mapsto>
    v\<lparr>at_messages := numbered (at_first v) (old @ posts),
      at_next := at_first v + of_nat (length (old @ posts))\<rparr>)"
  using assms
proof (induction posts arbitrary: s v old)
  case Nil
  then have "v\<lparr>at_messages := numbered (at_first v) old, at_next := at_first v + of_nat (length old)\<rparr> = v"
    by (intro athread.equality) simp_all
  with Nil show ?case by (simp add: post_all_def fun_upd_idem)
next
  case (Cons x posts)
  obtain b c where x: "x = (b, c)" by (cases x) auto
  define v' where "v' = v\<lparr>at_messages := at_messages v @ [\<lparr>am_id = at_next v, am_text = b, am_by = c\<rparr>],
    at_next := at_next v + 1\<rparr>"
  obtain m u where u: "lemessage_create p (Some b) c s = Inr (ok_status, m, u)" "forum_ok u"
    "thread_at u = (thread_at s)(p \<mapsto> v')"
    by (rule lemessage_create_law[OF Cons.prems(1,2), of b c])
      (use Cons.prems(1,5) x in \<open>auto simp: v'_def size_limits\<close>)
  have v': "at_messages v' = numbered (at_first v') (old @ [x])"
    "at_next v' = at_first v' + of_nat (length (old @ [x]))"
    using Cons.prems(3,4) by (simp_all add: v'_def x numbered_snoc)
  have at: "thread_at u p = Some v'" using u(3) by simp
  have "\<forall>(text, by)\<in>set posts. 3 \<le> length text \<and> length text \<le> 512" using Cons.prems(5) by simp
  from Cons.IH[OF u(2) at v' this] obtain t where
    t: "post_all p posts u = Inr t" "forum_ok t" "thread_at t = (thread_at u)(p \<mapsto>
      v'\<lparr>at_messages := numbered (at_first v') ((old @ [x]) @ posts),
         at_next := at_first v' + of_nat (length ((old @ [x]) @ posts))\<rparr>)" by blast
  have "post_all p (x # posts) s = Inr t" using u(1) t(1) by (simp add: post_all_def x)
  with t u(3) show ?case by (intro exI[of _ t]) (simp add: v'_def del: fun_upd_apply)
qed

text \<open>
  C39.  Posting any sequence of acceptable texts in a fresh thread stores exactly these texts, in
  order, under consecutive ids that start at the thread's first message id (modulo \<open>2^64\<close>), and
  \<open>lethread_message_count\<close> then returns how many there are.
\<close>

theorem posts_numbered_consecutively:
  assumes "forum_ok s" and "thread_at s p = Some v" and "at_messages v = []" and "at_next v = at_first v"
    and "\<forall>(text, by)\<in>set posts. 3 \<le> length text \<and> length text \<le> 512"
  shows "\<exists>t. post_all p posts s = Inr t \<and> forum_ok t \<and>
    thread_at t p = Some (v\<lparr>at_messages := numbered (at_first v) posts, at_next := at_first v + of_nat (length posts)\<rparr>) \<and>
    lethread_message_count p t = Inr (of_nat (length posts))"
proof -
  obtain t where t: "post_all p posts s = Inr t" "forum_ok t" "thread_at t = (thread_at s)(p \<mapsto>
    v\<lparr>at_messages := numbered (at_first v) posts, at_next := at_first v + of_nat (length posts)\<rparr>)"
    using post_all_law[of s p v "[]" posts] assms by (auto simp: numbered_def)
  have at: "thread_at t p = Some (v\<lparr>at_messages := numbered (at_first v) posts,
      at_next := at_first v + of_nat (length posts)\<rparr>)" using t(3) by simp
  then obtain c u where c: "p = Ptr c" "cells (f_threads t) c = Some u" and
    tv: "thread_view (items t) (f_messages t) (f_authors t) u = Some (v\<lparr>at_messages := numbered (at_first v) posts,
      at_next := at_first v + of_nat (length posts)\<rparr>)" by (rule viewE)
  from tv have "lt_first_message_id u = at_first v" "lt_next_message_id u = at_first v + of_nat (length posts)"
    by (rule thread_viewE; simp)+
  with c have "lethread_message_count p t = Inr (of_nat (length posts))"
    by (simp add: lethread_message_count_def)
  with t at show ?thesis by blast
qed

lemma posts_numbered_consecutively_witness:
  "\<exists>t. post_all (Ptr 0) [(''one'', 0), (''three'', 1)] small_forum = Inr t \<and> lethread_message_count (Ptr 0) t = Inr 2"
  using posts_numbered_consecutively[OF small_forum_ok small_thread_at, of "[(''one'', 0), (''three'', 1)]"]
  by (auto simp: small_thread_def)

lemma strncmp_eq_take:
  assumes "NUL \<notin> set (take n p)" and "n \<le> length p" and "n \<le> length q"
  shows "strncmp_eq p q n = Inr (take n p = take n q)"
  using assms
proof (induction p q n rule: strncmp_eq.induct)
  case (4 x p y q n)
  then show ?case by auto
qed auto

text \<open>
  When the thread has an author with a full token, \<open>is_token_valid\<close> is true exactly when the
  24 bytes given are that token, whatever stands behind them.
\<close>

lemma is_token_valid_iff:
  assumes "thread_at s p = Some v" and "at_author v = Some (i, block)" and "24 \<le> length block"
    and "NUL \<notin> set (take 24 block)" and "24 \<le> length given"
  shows "is_token_valid p (Some given) s = Inr (if take 24 given = take 24 block then 1 else 0)"
proof -
  have "strncmp_eq block given 24 = Inr (take 24 block = take 24 given)"
    by (rule strncmp_eq_take) (use assms in auto)
  with is_token_valid_view[OF assms(1,2)] show ?thesis by (auto simp: TOKEN_SIZE_def)
qed

text \<open>
  In a thread without an author \<open>is_token_valid\<close> returns the status -7, for any token.  As a
  \<open>bool_t\<close> that is true: a message posted there with any token counts as the author's.
\<close>

lemma is_token_valid_no_author:
  assumes "thread_at s p = Some v" and "at_author v = None"
  shows "is_token_valid p token s = Inr (-7) \<and> (-7 :: i32) \<noteq> 0"
proof -
  obtain c t where c: "p = Ptr c" "cells (f_threads s) c = Some t"
    and tv: "thread_view (items s) (f_messages s) (f_authors s) t = Some v"
    using assms(1) by (rule viewE)
  have "author_view (f_authors s) (lt_author t) = Some None" using tv assms(2) by (auto simp: thread_view_eq_Some)
  then have "lt_author t = Null" by (auto simp: author_view_def split: if_splits sum.splits option.splits)
  with c show ?thesis by (simp add: is_token_valid_def)
qed

lemma is_token_valid_no_author_witness:
  "is_token_valid (Ptr 0) (Some ''guess'') small_forum = Inr (-7) \<and> (-7 :: i32) \<noteq> 0"
  by (rule is_token_valid_no_author[OF small_thread_at]) (simp add: small_thread_def)

text \<open>
  \<open>leauthor_create\<close> with a token gives the thread an author whose token block is exactly 24
  printable characters without a space, and no terminator; nothing else of any thread changes.
\<close>

lemma leauthor_create_token:
  assumes "forum_ok s" and "thread_at s p = Some v" and "rand_uint64_t (urandom s) = Inr (r, dev)"
    and "rand_string 24 dev = Inr (tk, dev')"
  shows "\<exists>a t. leauthor_create p True s = Inr (0, a, t) \<and> forum_ok t \<and>
    thread_at t = (thread_at s)(p \<mapsto> v\<lparr>at_author := Some (r mod 0xffffffff, tk)\<rparr>) \<and>
    length tk = 24 \<and> list_all symbol_ok tk"
proof -
  have tok: "if True then rand_string TOKEN_SIZE dev = Inr (tk, dev')
              else tk = replicate (TOKEN_SIZE + 1) NUL \<and> dev' = dev"
    using assms(4) by (simp add: TOKEN_SIZE_def)
  show ?thesis
    by (rule leauthor_create_law[OF assms(1-3) tok])
      (use assms(1) rand_string_ok[OF assms(4)] in \<open>auto simp: list_all_iff\<close>)
qed

definition As :: bytes where "As = replicate 24 (char_of (of_char (CHR ''A'') mod 94 + 33 :: nat))"

lemma rand_string_replicate:
  "rand_string n (replicate (n + k) (CHR ''A'')) =
     Inr (replicate n (char_of (of_char (CHR ''A'') mod 94 + 33 :: nat)), replicate k (CHR ''A''))"
  by (induction n) (simp_all add: MIN_SYMBOL_def ALLOWED_SYMBOLS_def)

lemma small_forum_rand:
  "rand_uint64_t (urandom small_forum) = Inr (un_le64 (replicate 8 (CHR ''A'')), replicate 32 (CHR ''A''))"
  "rand_string 24 (replicate 32 (CHR ''A'')) = Inr (As, replicate 8 (CHR ''A''))"
  using rand_string_replicate[of 24 8] by (simp_all add: rand_uint64_t_def small_urandom As_def)

lemma leauthor_create_token_witness:
  "\<exists>a t. leauthor_create (Ptr 0) True small_forum = Inr (0, a, t) \<and> length As = 24 \<and> list_all symbol_ok As"
  using leauthor_create_token[OF small_forum_ok small_thread_at small_forum_rand] by blast

lemma is_token_valid_iff_witness:
  "\<exists>a t. leauthor_create (Ptr 0) True small_forum = Inr (0, a, t) \<and>
    is_token_valid (Ptr 0) (Some (As @ ''xyz'')) t = Inr 1"
proof -
  have tok: "if True then rand_string TOKEN_SIZE (replicate 32 (CHR ''A'')) = Inr (As, replicate 8 (CHR ''A''))
      else As = replicate (TOKEN_SIZE + 1) NUL \<and>
      replicate 8 (CHR ''A'') = replicate 32 (CHR ''A'')"
    using small_forum_rand(2) by (simp add: TOKEN_SIZE_def)
  obtain a t where t: "leauthor_create (Ptr 0) True small_forum = Inr (0, Ptr a, t)"
    "thread_at t (Ptr 0) = Some (small_thread\<lparr>at_author :=
       Some (un_le64 (replicate 8 (CHR ''A'')) mod 0xffffffff, As)\<rparr>)"
    by (rule leauthor_create_law[OF small_forum_ok small_thread_at small_forum_rand(1) tok]) auto
  have As: "length As = 24" "NUL \<notin> set As" using rand_string_ok[OF small_forum_rand(2)] by auto
  have "is_token_valid (Ptr 0) (Some (As @ ''xyz'')) t = Inr (if take 24 (As @ ''xyz'') = take 24 As then 1 else 0)"
    by (rule is_token_valid_iff[OF t(2)]) (use As in auto)
  with t(1) As show ?thesis by auto
qed

text \<open>
  \<open>lethread_delete\<close> frees a thread with its topic, its author, its queue and every message in
  it, each exactly once; all other threads keep their meaning and the heap stays well formed.
\<close>

lemma lethread_delete_frees:
  assumes "forum_ok s" and "kinds_ok (f_threads s) (q_queues s)" and "thread_at s p = Some v"
  shows "\<exists>t u ds. deref (f_threads s) p = Inr u \<and> items s (lt_messages u) = Some ds \<and>
    lethread_delete (destruct (Suc n)) p s = Inr (0, t) \<and> forum_ok t \<and>
    thread_at t = (thread_at s)(p := None) \<and> deref (f_threads t) p = Inl UseAfterFree \<and>
    items t = (items s)(lt_messages u := None) \<and> f_messages t = drop_messages (set ds) (f_messages s)"
  by (rule lethread_delete_law[OF assms, of n]) auto

lemma lethread_delete_frees_witness:
  "\<exists>t. lethread_delete (destruct 1) (Ptr 0) small_forum = Inr (0, t) \<and> thread_at t (Ptr 0) = None"
  using lethread_delete_frees[OF small_forum_ok small_kinds small_thread_at, of 0] by auto

end
