(* ===== verification/Buffer.thy ===== *)
theory Buffer
  imports Bytes
begin

text \<open>
  How both sides build a message: a block from \<open>malloc\<close> or \<open>calloc\<close>, filled from left to right
  through a pointer that moves on, and doubled when the next piece might not fit.  \<open>holds\<close> says
  what has been written so far; the laws let a sequence of stores be read as one concatenation.
\<close>

section \<open>Blocks and offsets\<close>

text \<open>A block from \<open>malloc\<close> and the offset the next byte is written at.\<close>

record outbuf =
  ob_data :: bytes
  ob_pos :: nat

definition malloc_buf :: "nat \<Rightarrow> (nat \<Rightarrow> byte) \<Rightarrow> outbuf" where
  "malloc_buf n junk = \<lparr>ob_data = map junk [0..<n], ob_pos = 0\<rparr>"

definition realloc_buf :: "nat \<Rightarrow> nat \<Rightarrow> (nat \<Rightarrow> byte) \<Rightarrow> outbuf \<Rightarrow> outbuf" where
  "realloc_buf n pos junk b =
     \<lparr>ob_data = take n (ob_data b) @ map junk [length (ob_data b)..<n], ob_pos = pos\<rparr>"

definition calloc_buf :: "nat \<Rightarrow> outbuf" where
  "calloc_buf n = \<lparr>ob_data = replicate n NUL, ob_pos = 0\<rparr>"

text \<open>Storing bytes at the offset and moving it past them; moving it without storing anything.\<close>

definition put :: "bytes \<Rightarrow> outbuf \<Rightarrow> outbuf res" where
  "put bs b =
     (if ob_pos b + length bs \<le> length (ob_data b)
      then Inr \<lparr>ob_data = take (ob_pos b) (ob_data b) @ bs @ drop (ob_pos b + length bs) (ob_data b),
                ob_pos = ob_pos b + length bs\<rparr>
      else Inl OutOfBounds)"

definition skip :: "nat \<Rightarrow> outbuf \<Rightarrow> outbuf res" where
  "skip n b =
     (if ob_pos b + n \<le> length (ob_data b) then Inr (b\<lparr>ob_pos := ob_pos b + n\<rparr>) else Inl OutOfBounds)"

text \<open>
  \<open>while (need >= chunk_size) chunk_size *= 2\<close>.  \<open>need\<close> does not change in the loop; \<open>None\<close> is a
  loop that never ends.
\<close>

partial_function (option) grow_chunk :: "nat \<Rightarrow> nat \<Rightarrow> nat option" where
  "grow_chunk need chunk = (if need \<ge> chunk then grow_chunk need (chunk * 2) else Some chunk)"

declare grow_chunk.simps [code]

definition reserve :: "nat \<Rightarrow> nat \<Rightarrow> nat \<Rightarrow> (nat \<Rightarrow> byte) \<Rightarrow> outbuf \<Rightarrow> (nat \<times> outbuf) res" where
  "reserve response_size len chunk junk b =
     (case grow_chunk (response_size + len) chunk of
        None \<Rightarrow> Inl Diverges
      | Some c \<Rightarrow> Inr (c, if c = chunk then b else realloc_buf c response_size junk b))"

text \<open>The words of the protocol, in the form to which concatenations are simplified.\<close>

lemmas wire_keywords =
  keyword_append[of "''THRID''", unfolded append_Cons append_Nil]
  keyword_append[of "''TPCSZ''", unfolded append_Cons append_Nil]
  keyword_append[of "''TPC''", unfolded append_Cons append_Nil]
  keyword_append[of "''MSGCNT''", unfolded append_Cons append_Nil]
  keyword_append[of "''MSG''", unfolded append_Cons append_Nil]
  keyword_append[of "''MSGEND''", unfolded append_Cons append_Nil]
  keyword_append[of "''TKN''", unfolded append_Cons append_Nil]
  keyword_append[of "''TPCPSZ''", unfolded append_Cons append_Nil]
  keyword_append[of "''TPCP''", unfolded append_Cons append_Nil]
  keyword_append[of "''TXTSZ''", unfolded append_Cons append_Nil]
  keyword_append[of "''TXT''", unfolded append_Cons append_Nil]
  keyword_append[of "''MINTPCSZ''", unfolded append_Cons append_Nil]
  keyword_append[of "''MAXTPCSZ''", unfolded append_Cons append_Nil]
  keyword_append[of "''MINMSGSZ''", unfolded append_Cons append_Nil]
  keyword_append[of "''MAXMSGSZ''", unfolded append_Cons append_Nil]
  keyword_append[of "''THRN''", unfolded append_Cons append_Nil]
  keyword_append[of "''VERSZ''", unfolded append_Cons append_Nil]
  keyword_append[of "''VER''", unfolded append_Cons append_Nil]
  keyword_append[of "''OK''", unfolded append_Cons append_Nil]
  keyword_append[of "''NFND''", unfolded append_Cons append_Nil]

section \<open>Filling a block\<close>

text \<open>The block of \<open>n\<close> bytes into which \<open>bs\<close> has been written so far.\<close>

definition filled :: "(nat \<Rightarrow> byte) \<Rightarrow> nat \<Rightarrow> bytes \<Rightarrow> outbuf" where
  "filled junk n bs = \<lparr>ob_data = bs @ map junk [length bs..<n], ob_pos = length bs\<rparr>"

text \<open>What \<open>k\<close> bytes from offset \<open>i\<close> hold when nothing has been stored there.\<close>

definition junk_bytes :: "(nat \<Rightarrow> byte) \<Rightarrow> nat \<Rightarrow> nat \<Rightarrow> bytes" where
  "junk_bytes junk i k = map junk [i..<i + k]"

lemma length_junk_bytes [simp]: "length (junk_bytes junk i k) = k"
  by (simp add: junk_bytes_def)

named_theorems fill_simps

lemma malloc_filled [fill_simps]: "malloc_buf n junk = filled junk n []"
  by (simp add: malloc_buf_def filled_def)

lemma calloc_filled [fill_simps]: "calloc_buf n = filled (\<lambda>_. NUL) n []"
  by (simp add: calloc_buf_def filled_def map_replicate_const)

lemma put_filled [fill_simps]:
  "length bs + length x \<le> n \<Longrightarrow> put x (filled junk n bs) = Inr (filled junk n (bs @ x))"
  by (simp add: put_def filled_def drop_map)

lemma put_filled_full: "length bs + length x > n \<Longrightarrow> length bs \<le> n \<Longrightarrow> put x (filled junk n bs) = Inl OutOfBounds"
  by (simp add: put_def filled_def)

lemma upt_split: "i + k \<le> n \<Longrightarrow> [i..<n] = [i..<i + k] @ [i + k..<n]"
  using upt_add_eq_append[of i "i + k" "n - (i + k)"] by simp

lemma skip_filled [fill_simps]:
  assumes "length bs + k \<le> n"
  shows "skip k (filled junk n bs) = Inr (filled junk n (bs @ junk_bytes junk (length bs) k))"
  using assms upt_split[OF assms] by (simp add: skip_def filled_def junk_bytes_def)

lemma realloc_filled [fill_simps]:
  assumes "n \<le> n'" and "length bs \<le> n"
  shows "realloc_buf n' (length bs) junk (filled junk n bs) = filled junk n' bs"
  using assms upt_split[of "length bs" "n - length bs" n'] by (simp add: realloc_buf_def filled_def)

lemma ob_pos_filled [simp]: "ob_pos (filled junk n bs) = length bs"
  by (simp add: filled_def)

lemma take_filled [simp]: "k \<le> length bs \<Longrightarrow> take k (ob_data (filled junk n bs)) = take k bs"
  by (simp add: filled_def)

lemma length_filled [simp]: "length bs \<le> n \<Longrightarrow> length (ob_data (filled junk n bs)) = n"
  by (simp add: filled_def)

lemma take_filled_more:
  "length bs + k \<le> n \<Longrightarrow>
    take (length bs + k) (ob_data (filled junk n bs)) = bs @ junk_bytes junk (length bs) k"
  using upt_split[of "length bs" k n] by (simp add: filled_def junk_bytes_def)

subsection \<open>Doubling\<close>

text \<open>From a positive size the doubling ends, with the least doubled size that is large enough.\<close>

lemma grow_chunk_returns:
  assumes "0 < chunk"
  shows "\<exists>c. grow_chunk need chunk = Some c \<and> need < c \<and> chunk \<le> c \<and> (c = chunk \<or> 2 * chunk \<le> c)"
  using assms
proof (induction "need + 1 - chunk" arbitrary: chunk rule: less_induct)
  case less
  show ?case
  proof (cases "need \<ge> chunk")
    case True
    have "need + 1 - chunk * 2 < need + 1 - chunk" "0 < chunk * 2" using True less.prems by auto
    from less.hyps[OF this] obtain c where "grow_chunk need (chunk * 2) = Some c" "need < c" "chunk * 2 \<le> c"
      by blast
    with True show ?thesis by (auto simp: grow_chunk.simps[of need chunk])
  next
    case False
    then show ?thesis by (simp add: grow_chunk.simps)
  qed
qed

lemma reserve_filled:
  assumes "0 < chunk" and "chunk \<le> n" and "n \<le> 2 * chunk" and "length bs \<le> n"
  obtains c n' where "reserve (length bs) len chunk junk (filled junk n bs) = Inr (c, filled junk n' bs)"
    and "length bs + len < c" and "0 < c" and "c \<le> n'" and "n' \<le> 2 * c"
proof -
  obtain c where c: "grow_chunk (length bs + len) chunk = Some c" "length bs + len < c" "chunk \<le> c"
    "c = chunk \<or> 2 * chunk \<le> c"
    using grow_chunk_returns[OF assms(1)] by blast
  show ?thesis
  proof (cases "c = chunk")
    case True
    with c assms show ?thesis by (intro that[of c n]) (simp_all add: reserve_def)
  next
    case False
    with c assms show ?thesis by (intro that[of c c]) (simp_all add: reserve_def realloc_filled)
  qed
qed

end
