(* ===== verification/Client_Query.thy ===== *)
theory Client_Query
  imports Forum Buffer
begin

text \<open>
  \<open>client/query.h\<close>, \<open>client/query.c\<close>: the queries the client sends and the parsers of the
  responses.  A parser does not look at the size of the response; it reads through a pointer into a
  block, modelled by the bytes from the pointer to the end of the block.
\<close>

section \<open>Queries in the client's queue\<close>

datatype parser =
    Parse_response_CTHR
  | Parse_response_GTHR
  | Parse_response_FTHR
  | Parse_response_CMSG
  | Parse_response_META
  | Parse_response_LIVE

text \<open>\<open>raw_request_data\<close> is null or a block the query owns.\<close>

record server_query =
  sq_completed :: bool
  sq_raw_request_data :: "bytes option"
  sq_raw_request_data_size :: u64
  sq_parse_response :: parser
  sq_parsed_data :: ptr

definition query_create ::
  "parser \<Rightarrow> bytes option \<Rightarrow> u64 \<Rightarrow> server_query store \<Rightarrow> ptr \<times> server_query store" where
  "query_create parser request_data sz queries =
     new_obj \<lparr>sq_completed = False, sq_raw_request_data = request_data, sq_raw_request_data_size = sz,
       sq_parse_response = parser, sq_parsed_data = Null\<rparr> queries"

definition query_delete :: "ptr \<Rightarrow> server_query store \<Rightarrow> (status_t \<times> server_query store) res" where
  "query_delete p queries =
     NULLPTR_PREVENT p (err LESTATUS_NPTR, queries) (
     andthen (deref queries p) (\<lambda>q.
     andthen
       (if sq_raw_request_data q \<noteq> None
        then assign p (q\<lparr>sq_raw_request_data := None\<rparr>) queries
        else Inr queries) (\<lambda>queries.
     andthen (free_obj p queries) (\<lambda>queries.
     Inr (ok_status, queries)))))"

section \<open>Requests\<close>

record ledata =
  ld_data :: bytes
  ld_size :: u64

definition ledata_of :: "outbuf \<Rightarrow> nat \<Rightarrow> ledata" where
  "ledata_of b n = \<lparr>ld_data = ob_data b, ld_size = of_nat n\<rparr>"

definition gen_query_CTHR :: "bytes \<Rightarrow> nat \<Rightarrow> ledata res" where
  "gen_query_CTHR topic sz =
     (let data_size = 4 + 5 + 8 + 3 + sz; b = calloc_buf data_size in
      andthen (put ''CTHR'' b) (\<lambda>b.
      andthen (put ''TPCSZ'' b) (\<lambda>b.
      andthen (put (le64 (of_nat sz)) b) (\<lambda>b.
      andthen (put ''TPC'' b) (\<lambda>b.
      andthen (strncpy_out topic sz) (\<lambda>tpc.
      andthen (put tpc b) (\<lambda>b.
      Inr (ledata_of b data_size))))))))"

definition gen_query_GTHR :: "u64 \<Rightarrow> ledata res" where
  "gen_query_GTHR thread_id =
     (let data_size = 4 + 5 + 8; b = calloc_buf data_size in
      andthen (put ''GTHR'' b) (\<lambda>b.
      andthen (put ''THRID'' b) (\<lambda>b.
      andthen (put (le64 thread_id) b) (\<lambda>b.
      Inr (ledata_of b data_size)))))"

definition gen_query_FTHR :: "bytes \<Rightarrow> nat \<Rightarrow> ledata res" where
  "gen_query_FTHR topic_part sz =
     (let data_size = 4 + 6 + 8 + 4 + sz; b = calloc_buf data_size in
      andthen (put ''FTHR'' b) (\<lambda>b.
      andthen (put ''TPCPSZ'' b) (\<lambda>b.
      andthen (put (le64 (of_nat sz)) b) (\<lambda>b.
      andthen (put ''TPCP'' b) (\<lambda>b.
      andthen (strncpy_out topic_part sz) (\<lambda>tpcp.
      andthen (put tpcp b) (\<lambda>b.
      Inr (ledata_of b data_size))))))))"

definition gen_query_CMSG :: "u64 \<Rightarrow> bytes \<Rightarrow> nat \<Rightarrow> bytes option \<Rightarrow> ledata res" where
  "gen_query_CMSG thread_id msg sz token =
     (let data_size = 4 + 5 + 8 + 5 + 8 + 3 + sz;
          data_size = (if token \<noteq> None then data_size + 3 + TOKEN_SIZE else data_size);
          b = calloc_buf data_size in
      andthen (put ''CMSG'' b) (\<lambda>b.
      andthen (put ''THRID'' b) (\<lambda>b.
      andthen (put (le64 thread_id) b) (\<lambda>b.
      andthen (put ''TXTSZ'' b) (\<lambda>b.
      andthen (put (le64 (of_nat sz)) b) (\<lambda>b.
      andthen (put ''TXT'' b) (\<lambda>b.
      andthen (strncpy_out msg sz) (\<lambda>txt.
      andthen (put txt b) (\<lambda>b.
      andthen
        (case token of
           None \<Rightarrow> Inr b
         | Some token \<Rightarrow>
             andthen (put ''TKN'' b) (\<lambda>b.
             andthen (strncpy_out token TOKEN_SIZE) (\<lambda>tkn.
             put tkn b))) (\<lambda>b.
      Inr (ledata_of b data_size)))))))))))"

definition gen_query_META :: "ledata res" where
  "gen_query_META =
     (let data_size = 4; b = calloc_buf data_size in
      andthen (put ''META'' b) (\<lambda>b. Inr (ledata_of b data_size)))"

definition gen_query_LIVE :: "ledata res" where
  "gen_query_LIVE =
     (let data_size = 4; b = calloc_buf data_size in
      andthen (put ''LIVE'' b) (\<lambda>b. Inr (ledata_of b data_size)))"

section \<open>Responses\<close>

text \<open>
  A string of the given size: \<open>malloc(size + 1)\<close>, \<open>strncpy\<close>, and the terminator behind it.  The
  size that overflows gets a block of no bytes.
\<close>

definition copy_string :: "u64 \<Rightarrow> bytes \<Rightarrow> (bytes \<Rightarrow> bytes \<Rightarrow> 'a res) \<Rightarrow> 'a res" where
  "copy_string w p k =
     (if w + 1 = 0 then Inl OutOfBounds
      else andthen (strncpy_str p (unat w)) (\<lambda>str. k str (drop (unat w) p)))"

text \<open>
  \<open>*info = malloc(sizeof( *info))\<close> allocates the size of a pointer, not of the structure.
  \<open>capacity n\<close> is how many bytes may be used in a block of \<open>n\<close>: \<open>n\<close> by the C standard, a little more
  with most allocators.  A member is stored at its offset in the structure.
\<close>

definition pointer_size :: nat where
  "pointer_size = 8"

definition store_member :: "(nat \<Rightarrow> nat) \<Rightarrow> nat \<Rightarrow> 'a res \<Rightarrow> 'a res" where
  "store_member capacity offset k = (if offset + 8 \<le> capacity pointer_size then k else Inl OutOfBounds)"

record created_thread_info =
  ct_thread_id :: u64
  ct_token :: bytes

definition parse_response_CTHR ::
  "(nat \<Rightarrow> nat) \<Rightarrow> bytes \<Rightarrow> (status_t \<times> created_thread_info option) res" where
  "parse_response_CTHR capacity raw_data =
     (let bad = Inr (err LESTATUS_IDAT, None) in
      keyword ''THRID'' raw_data bad (\<lambda>p.
      number p (\<lambda>thread_id p.
      keyword ''TKN'' p bad (\<lambda>p.
      store_member capacity 0 (
      store_member capacity 8 (
      andthen (strncpy_str p TOKEN_SIZE) (\<lambda>token.
      Inr (ok_status, Some \<lparr>ct_thread_id = thread_id, ct_token = token\<rparr>))))))))"

text \<open>The messages; \<open>None\<close> is the error branch.  The id that was sent is not used.\<close>

fun parse_messages_loop ::
  "nat \<Rightarrow> ptr \<Rightarrow> bytes \<Rightarrow> 'm mem_forum_scheme \<Rightarrow> (bool \<times> 'm mem_forum_scheme) res" where
  "parse_messages_loop 0 tmp_thread p s = Inr (True, s)"
| "parse_messages_loop (Suc n) tmp_thread p s =
     keyword ''MSG'' p (Inr (False, s)) (\<lambda>p.
     andthen (rd32 p) (\<lambda>by_author.
     number (drop 4 p) (\<lambda>msg_id p.
     number p (\<lambda>msg_size p.
     copy_string msg_size p (\<lambda>msg_text p.
     andthen (lemessage_create tmp_thread (Some msg_text) by_author s) (\<lambda>(st, m, s).
     keyword ''MSGEND'' p (Inr (False, s)) (\<lambda>p.
     parse_messages_loop n tmp_thread p s)))))))"

definition parse_response_GTHR ::
  "bytes \<Rightarrow> 'm mem_forum_scheme \<Rightarrow> (status_t \<times> ptr option \<times> 'm mem_forum_scheme) res" where
  "parse_response_GTHR raw_data s =
     (let bad = Inr (err LESTATUS_IDAT, None, s);
          discard = (\<lambda>t s. andthen (lethread_delete call_destructor t s) (\<lambda>(st, s).
            Inr (err LESTATUS_IDAT, None, s))) in
      keyword ''THRID'' raw_data bad (\<lambda>p.
      number p (\<lambda>thread_id p.
      keyword ''TPCSZ'' p bad (\<lambda>p.
      number p (\<lambda>topic_size p.
      keyword ''TPC'' p bad (\<lambda>p.
      copy_string topic_size p (\<lambda>thread_topic p.
      andthen (lethread_create (Some (thread_topic @ [NUL])) thread_id s) (\<lambda>(st, tmp_thread, s).
      keyword ''MSGCNT'' p (discard tmp_thread s) (\<lambda>p.
      number p (\<lambda>msg_cntr p.
      andthen (parse_messages_loop (unat msg_cntr) tmp_thread p s) (\<lambda>(ok, s).
      if ok then Inr (ok_status, Some tmp_thread, s) else discard tmp_thread s)))))))))))"

text \<open>The loop over the threads found; \<open>i\<close> is \<open>data_ptr - raw_data\<close>.\<close>

function parse_found_loop ::
  "bytes \<Rightarrow> nat \<Rightarrow> nat \<Rightarrow> ptr \<Rightarrow> 'm mem_forum_scheme \<Rightarrow> (bool \<times> 'm mem_forum_scheme) res" where
  "parse_found_loop raw_data sz i found s =
     (if i < sz then
        let p = drop i raw_data in
        keyword ''THRID'' p (Inr (False, s)) (\<lambda>p.
        number p (\<lambda>thread_id p.
        keyword ''TPCSZ'' p (Inr (False, s)) (\<lambda>p.
        number p (\<lambda>topic_size p.
        keyword ''TPC'' p (Inr (False, s)) (\<lambda>p.
        copy_string topic_size p (\<lambda>topic p.
        andthen (lethread_create (Some (topic @ [NUL])) thread_id s) (\<lambda>(st, thread, s).
        andthen (queue_push found thread s) (\<lambda>(st, s).
        parse_found_loop raw_data sz (i + 5 + 8 + 5 + 8 + 3 + unat topic_size) found s))))))))
      else Inr (True, s))"
  by pat_completeness auto
termination
  by (relation "measure (\<lambda>(raw_data, sz, i, found, s). sz - i)") auto

declare parse_found_loop.simps [simp del]

definition parse_response_FTHR ::
  "bytes \<Rightarrow> nat \<Rightarrow> 'm mem_forum_scheme \<Rightarrow> (status_t \<times> ptr option \<times> 'm mem_forum_scheme) res" where
  "parse_response_FTHR raw_data sz s =
     (let (st, found, s) = queue_create Lethread_delete s in
      andthen (at_lit raw_data ''NFND'') (\<lambda>nfnd.
      if nfnd then Inr (ok_status, Some found, s)
      else
        andthen (parse_found_loop raw_data sz 0 found s) (\<lambda>(ok, s).
        if ok then Inr (ok_status, Some found, s)
        else
          andthen (queue_delete call_destructor found s) (\<lambda>(st, s).
          Inr (err LESTATUS_IDAT, None, s)))))"

definition parse_response_CMSG :: "bytes \<Rightarrow> status_t res" where
  "parse_response_CMSG raw_data = keyword ''OK'' raw_data (Inr (err LESTATUS_IDAT)) (\<lambda>p. Inr ok_status)"

record lemeta =
  mt_min_message_size :: u64
  mt_max_message_size :: u64
  mt_min_topic_size :: u64
  mt_max_topic_size :: u64
  mt_version :: bytes
  mt_version_size :: u64
  mt_thread_count :: u64

definition parse_response_META :: "(nat \<Rightarrow> nat) \<Rightarrow> bytes \<Rightarrow> (status_t \<times> lemeta option) res" where
  "parse_response_META capacity raw_data =
     (let bad = Inr (err LESTATUS_IDAT, None) in
      keyword ''MINTPCSZ'' raw_data bad (\<lambda>p.
      number p (\<lambda>min_topic_size p.
      keyword ''MAXTPCSZ'' p bad (\<lambda>p.
      number p (\<lambda>max_topic_size p.
      keyword ''MINMSGSZ'' p bad (\<lambda>p.
      number p (\<lambda>min_message_size p.
      keyword ''MAXMSGSZ'' p bad (\<lambda>p.
      number p (\<lambda>max_message_size p.
      keyword ''THRN'' p bad (\<lambda>p.
      number p (\<lambda>thread_count p.
      keyword ''VERSZ'' p bad (\<lambda>p.
      number p (\<lambda>version_size p.
      keyword ''VER'' p bad (\<lambda>p.
      copy_string version_size p (\<lambda>version p.
      store_member capacity 24 (
      store_member capacity 16 (
      store_member capacity 8 (
      store_member capacity 0 (
      store_member capacity 40 (
      store_member capacity 32 (
      store_member capacity 48 (
      Inr (ok_status, Some
        \<lparr>mt_min_message_size = min_message_size, mt_max_message_size = max_message_size,
         mt_min_topic_size = min_topic_size, mt_max_topic_size = max_topic_size,
         mt_version = version, mt_version_size = version_size, mt_thread_count = thread_count\<rparr>)
      ))))))))))))))))))))))"

definition parse_response_LIVE :: "bytes \<Rightarrow> status_t res" where
  "parse_response_LIVE raw_data = keyword ''OK'' raw_data (Inr (err LESTATUS_IDAT)) (\<lambda>p. Inr ok_status)"

end
