(* ===== verification/Forum_IO.thy ===== *)
theory Forum_IO
  imports Forum
begin

text \<open>
  \<open>server/forum_io.c\<close>: how threads, messages and authors are kept in files.  The server's
  directory holds one directory per thread, named by the thread's id in decimal, and the meta file;
  a directory maps file names to contents and the directories are listed in the order \<open>readdir\<close>
  delivers.  \<open>fopen\<close>, \<open>mkdir\<close> and \<open>fwrite\<close> succeed as long as the directory they work in exists,
  and a file is not changed by others between two calls.

  A \<open>fread\<close> that gets less than a number leaves that number indeterminate; the loaders go on to use
  it, so such a read is the fault \<open>Uninitialised\<close>.  The lemmas show that what the save operations
  write is what the load operations read.
\<close>

section \<open>Decimal numbers\<close>

definition digit :: "nat \<Rightarrow> byte" where
  "digit n = char_of (48 + n)"

text \<open>\<open>sprintf\<close> with \<open>SCNu64\<close>.\<close>

fun decimal :: "nat \<Rightarrow> bytes" where
  "decimal n = (if n < 10 then [digit n] else decimal (n div 10) @ [digit (n mod 10)])"

declare decimal.simps [simp del]

definition is_digit :: "byte \<Rightarrow> bool" where
  "is_digit c \<longleftrightarrow> (of_char c :: nat) \<in> {48 .. 57}"

definition is_space :: "byte \<Rightarrow> bool" where
  "is_space c \<longleftrightarrow> (of_char c :: nat) = 32 \<or> (of_char c :: nat) \<in> {9 .. 13}"

fun digits_val :: "nat \<Rightarrow> bytes \<Rightarrow> nat" where
  "digits_val acc [] = acc"
| "digits_val acc (c # cs) =
     (if is_digit c then digits_val (acc * 10 + (of_char c - 48)) cs else acc)"

text \<open>\<open>strtoull(s, NULL, 10)\<close>: blanks, a sign, digits; a value too large gives the largest one.\<close>

definition strtoull :: "bytes \<Rightarrow> u64" where
  "strtoull s =
     (let s = dropWhile is_space s;
          neg = (s \<noteq> [] \<and> hd s = CHR ''-'');
          ds = (if s \<noteq> [] \<and> (hd s = CHR ''-'' \<or> hd s = CHR ''+'') then tl s else s);
          v = digits_val 0 ds
      in if 2 ^ 64 \<le> v then -1 else if neg then - of_nat v else of_nat v)"

text \<open>
  \<open>strtol\<close> in base 10: blanks, a sign, digits; \<open>None\<close> without a digit.  Values out of the range
  of a \<open>long\<close> become the nearest end of it.
\<close>

definition strtol :: "bytes \<Rightarrow> int option" where
  "strtol str =
     (let str = dropWhile is_space str;
          neg = (str \<noteq> [] \<and> hd str = CHR ''-'');
          ds = (if str \<noteq> [] \<and> (hd str = CHR ''-'' \<or> hd str = CHR ''+'') then tl str else str);
          v = int (digits_val 0 ds)
      in if ds = [] \<or> \<not> is_digit (hd ds) then None
         else Some (if neg then max (- (2 ^ 63)) (- v) else min (2 ^ 63 - 1) v))"

definition atoi :: "bytes \<Rightarrow> i32" where
  "atoi str = (case strtol str of None \<Rightarrow> 0 | Some v \<Rightarrow> of_int v)"

lemma of_char_digit: "n < 10 \<Longrightarrow> of_char (digit n) = 48 + n"
  by (simp add: digit_def)

lemma is_digit_digit: "n < 10 \<Longrightarrow> is_digit (digit n)"
  by (simp add: is_digit_def of_char_digit)

lemma digits_val_append:
  "list_all is_digit ds \<Longrightarrow> digits_val acc (ds @ [c]) =
     (if is_digit c then digits_val acc ds * 10 + (of_char c - 48) else digits_val acc ds)"
  by (induction ds arbitrary: acc) auto

lemma decimal_digits: "list_all is_digit (decimal n)"
proof (induction n rule: decimal.induct)
  case (1 n)
  then show ?case by (subst decimal.simps) (auto simp: is_digit_digit)
qed

lemma decimal_val: "digits_val 0 (decimal n) = n"
proof (induction n rule: decimal.induct)
  case (1 n)
  show ?case
  proof (cases "n < 10")
    case True
    then show ?thesis by (subst decimal.simps) (simp add: is_digit_digit of_char_digit)
  next
    case False
    with 1 show ?thesis
      by (subst decimal.simps) (simp add: digits_val_append decimal_digits is_digit_digit of_char_digit)
  qed
qed

lemma decimal_not_Nil: "decimal n \<noteq> []"
  by (subst decimal.simps) simp

lemma is_digit_not_space: "is_digit c \<Longrightarrow> \<not> is_space c"
  by (auto simp: is_digit_def is_space_def)

lemma is_digit_not_sign: "is_digit c \<Longrightarrow> c \<noteq> CHR ''-'' \<and> c \<noteq> CHR ''+''"
  by (auto simp: is_digit_def)

lemma strtoull_decimal: "strtoull (decimal (unat w)) = w"
proof -
  have d: "is_digit (hd (decimal (unat w)))"
    using decimal_digits[of "unat w"] decimal_not_Nil[of "unat w"]
    by (cases "decimal (unat w)") auto
  have "dropWhile is_space (decimal (unat w)) = decimal (unat w)"
    using is_digit_not_space[OF d] decimal_not_Nil[of "unat w"] by (cases "decimal (unat w)") auto
  moreover have "\<not> 2 ^ 64 \<le> unat w" by (simp add: not_le)
  ultimately show ?thesis
    using is_digit_not_sign[OF d] by (simp add: strtoull_def decimal_val Let_def)
qed

lemma decimal_inj: "decimal m = decimal n \<longleftrightarrow> m = n"
  by (metis decimal_val)

section \<open>Files\<close>

definition FILE_LETHREAD :: bytes where "FILE_LETHREAD = ''lethreadinfo''"
definition FILE_LEMESSAGES :: bytes where "FILE_LEMESSAGES = ''lemessages''"
definition FILE_LEAUTHOR :: bytes where "FILE_LEAUTHOR = ''leauthor''"

lemmas file_names = FILE_LETHREAD_def FILE_LEMESSAGES_def FILE_LEAUTHOR_def

type_synonym directory = "bytes \<Rightarrow> bytes option"

record filesystem =
  fs_root :: bool
  fs_dirs :: "(bytes \<times> directory) list"
  fs_meta :: "bytes option"

record mem_io = mem_forum +
  fsys :: filesystem

datatype fmode = Rb | Wb | Ab

text \<open>An open file: where its writes go, and what is left to read.\<close>

record lefile =
  lf_dir :: bytes
  lf_name :: bytes
  lf_input :: bytes

definition file_at :: "filesystem \<Rightarrow> bytes \<Rightarrow> bytes \<Rightarrow> bytes option" where
  "file_at fs d f = (case map_of (fs_dirs fs) d of None \<Rightarrow> None | Some files \<Rightarrow> files f)"

definition set_file :: "bytes \<Rightarrow> bytes \<Rightarrow> bytes \<Rightarrow> filesystem \<Rightarrow> filesystem" where
  "set_file d f c fs =
     fs\<lparr>fs_dirs := map (\<lambda>(n, files). if n = d then (n, files(f \<mapsto> c)) else (n, files)) (fs_dirs fs)\<rparr>"

definition fopen :: "fmode \<Rightarrow> bytes \<Rightarrow> bytes \<Rightarrow> filesystem \<Rightarrow> (lefile \<times> filesystem) res" where
  "fopen mode d f fs =
     (case mode of
        Rb \<Rightarrow> (case file_at fs d f of None \<Rightarrow> Inl NullDeref
              | Some c \<Rightarrow> Inr (\<lparr>lf_dir = d, lf_name = f, lf_input = c\<rparr>, fs))
      | Wb \<Rightarrow> Inr (\<lparr>lf_dir = d, lf_name = f, lf_input = []\<rparr>, set_file d f [] fs)
      | Ab \<Rightarrow> Inr (\<lparr>lf_dir = d, lf_name = f, lf_input = []\<rparr>,
               (case file_at fs d f of None \<Rightarrow> set_file d f [] fs | Some c \<Rightarrow> fs)))"

definition fwrite :: "bytes \<Rightarrow> lefile \<Rightarrow> filesystem \<Rightarrow> filesystem" where
  "fwrite bs h fs =
     (case file_at fs (lf_dir h) (lf_name h) of None \<Rightarrow> fs
      | Some c \<Rightarrow> set_file (lf_dir h) (lf_name h) (c @ bs) fs)"

text \<open>
  \<open>get_lefile\<close>: the directory of the thread is made when it is missing and may be.  The path is
  at most 49 bytes long, so it fits its buffer of 256.  Without the server's directory nothing can
  be made, and the null file that \<open>fopen\<close> returns is used by every caller.
\<close>

definition get_lefile ::
  "u64 \<Rightarrow> fmode \<Rightarrow> bytes \<Rightarrow> bool \<Rightarrow> filesystem \<Rightarrow> (status_t \<times> lefile option \<times> filesystem) res" where
  "get_lefile lethread_id mode filename create fs =
     (let d = decimal (unat lethread_id);
          missing = (\<not> fs_root fs \<or> map_of (fs_dirs fs) d = None)
      in if missing \<and> \<not> create then Inr (err LESTATUS_NSFD, None, fs)
         else if \<not> fs_root fs then Inl NullDeref
         else
           let fs = (if missing then fs\<lparr>fs_dirs := fs_dirs fs @ [(d, \<lambda>_. None)]\<rparr> else fs) in
           if file_at fs d filename = None \<and> \<not> create then Inr (err LESTATUS_NSFD, None, fs)
           else andthen (fopen mode d filename fs) (\<lambda>(h, fs). Inr (ok_status, Some h, fs)))"

text \<open>A \<open>FILE *\<close> variable that \<open>get_lefile\<close> did not set.\<close>

definition the_file :: "lefile option \<Rightarrow> lefile res" where
  "the_file h = (case h of None \<Rightarrow> Inl WildPointer | Some h \<Rightarrow> Inr h)"

lemma the_file_simps [simp]: "the_file (Some h) = Inr h" "the_file None = Inl WildPointer"
  by (simp_all add: the_file_def)

definition fread64 :: "bytes \<Rightarrow> (u64 \<times> bytes) res" where
  "fread64 f = (if length f < 8 then Inl Uninitialised else Inr (un_le64 (take 8 f), drop 8 f))"

definition fread32 :: "bytes \<Rightarrow> (i32 \<times> bytes) res" where
  "fread32 f = (if length f < 4 then Inl Uninitialised else Inr (un_le32 (take 4 f), drop 4 f))"

text \<open>
  Text read into a zeroed block, as the C string it then is; a file that is too short leaves the
  rest of the block zero.
\<close>

definition fread_text :: "nat \<Rightarrow> bytes \<Rightarrow> bytes \<times> bytes" where
  "fread_text n f = (takeWhile (\<lambda>c. c \<noteq> NUL) (take n f), drop n f)"

text \<open>Bytes read over the start of a block that holds something already.\<close>

definition overlay :: "bytes \<Rightarrow> bytes \<Rightarrow> bytes" where
  "overlay new old = take (length old) new @ drop (length new) old"

section \<open>Operations\<close>

definition lethread_save :: "ptr \<Rightarrow> 'm mem_io_scheme \<Rightarrow> (status_t \<times> 'm mem_io_scheme) res" where
  "lethread_save p s =
     NULLPTR_PREVENT p (err LESTATUS_NPTR, s) (
     andthen (deref (f_threads s) p) (\<lambda>t.
     NULLPTR_PREVENT (lt_author t) (err LESTATUS_IDAT, s) (
     case lt_topic t of
       None \<Rightarrow> Inr (err LESTATUS_IDAT, s)
     | Some topic \<Rightarrow>
         andthen (get_lefile (lt_id t) Wb FILE_LETHREAD True (fsys s)) (\<lambda>(st, h, fs).
         andthen (the_file h) (\<lambda>h.
         andthen (get_lefile (lt_id t) Ab FILE_LETHREAD True fs) (\<lambda>(st, h, fs).
         andthen (the_file h) (\<lambda>h.
         andthen (deref (f_authors s) (lt_author t)) (\<lambda>a.
         let fs = fwrite (le64 (lt_id t)) h fs;
             fs = fwrite (le64 (la_id a)) h fs;
             fs = fwrite (le64 (lt_first_message_id t)) h fs;
             fs = fwrite (le64 (lt_next_message_id t)) h fs;
             fs = fwrite (le64 (of_nat (length topic))) h fs;
             fs = fwrite topic h fs
         in Inr (ok_status, s\<lparr>fsys := fs\<rparr>)))))))))"

text \<open>\<open>p\<close> is a block that \<open>malloc\<close> returned; every field is set here.\<close>

definition lethread_load :: "ptr \<Rightarrow> u64 \<Rightarrow> 'm mem_io_scheme \<Rightarrow> (status_t \<times> 'm mem_io_scheme) res" where
  "lethread_load p lethread_id s =
     NULLPTR_PREVENT p (err LESTATUS_NPTR, s) (
     andthen (get_lefile lethread_id Rb FILE_LETHREAD False (fsys s)) (\<lambda>(st, h, fs).
     if st = err LESTATUS_NSFD \<or> st = err LESTATUS_NPTR then Inr (st, s\<lparr>fsys := fs\<rparr>)
     else
       let (st, q, s) = queue_create Lemessage_delete (s\<lparr>fsys := fs\<rparr>) in
       andthen (the_file h) (\<lambda>h.
       andthen (fread64 (lf_input h)) (\<lambda>(i, f).
       andthen (fread64 f) (\<lambda>(leauthor_id, f).
       andthen (fread64 f) (\<lambda>(first, f).
       andthen (fread64 f) (\<lambda>(nx, f).
       andthen (fread64 f) (\<lambda>(topic_size, f).
       let topic_size = min (unat topic_size) MAX_TOPIC_SIZE;
           (topic, f) = fread_text topic_size f in
       andthen (deref (f_threads s) p) (\<lambda>_.
       andthen (assign p \<lparr>lt_id = i, lt_first_message_id = first, lt_next_message_id = nx,
                 lt_topic = Some topic, lt_messages = q, lt_author = Null\<rparr> (f_threads s)) (\<lambda>threads.
       Inr (ok_status, s\<lparr>f_threads := threads\<rparr>)))))))))))"

text \<open>The four writes that make up the record of a message.\<close>

definition write_message :: "lemessage \<Rightarrow> bytes \<Rightarrow> lefile \<Rightarrow> filesystem \<Rightarrow> filesystem" where
  "write_message m tx h fs =
     (let fs = fwrite (le64 (lm_id m)) h fs;
          fs = fwrite (le32 (lm_by_lethread_author m)) h fs;
          fs = fwrite (le64 (of_nat (length tx))) h fs
      in fwrite tx h fs)"

text \<open>
  The loop of \<open>lemessages_save\<close> over the nodes of the queue.  Its \<open>continue\<close> does not advance the
  node, so a missing message or text repeats forever.
\<close>

fun lemessages_save_loop ::
  "lemessage store \<Rightarrow> lefile \<Rightarrow> ptr list \<Rightarrow> filesystem \<Rightarrow> filesystem res" where
  "lemessages_save_loop M h [] fs = Inr fs"
| "lemessages_save_loop M h (d # ds) fs =
     (if d = Null then Inl Diverges
      else andthen (deref M d) (\<lambda>m.
        case lm_text m of
          None \<Rightarrow> Inl Diverges
        | Some tx \<Rightarrow> lemessages_save_loop M h ds (write_message m tx h fs)))"

definition lemessages_save :: "ptr \<Rightarrow> 'm mem_io_scheme \<Rightarrow> (status_t \<times> 'm mem_io_scheme) res" where
  "lemessages_save p s =
     NULLPTR_PREVENT p (err LESTATUS_NPTR, s) (
     andthen (deref (f_threads s) p) (\<lambda>t.
     andthen (queue_items (lt_messages t) s) (\<lambda>ds.
     andthen (get_lefile (lt_id t) Wb FILE_LEMESSAGES True (fsys s)) (\<lambda>(st, h, fs).
     andthen (the_file h) (\<lambda>h.
     andthen (get_lefile (lt_id t) Ab FILE_LEMESSAGES True fs) (\<lambda>(st, h, fs).
     andthen (the_file h) (\<lambda>h.
     andthen (lemessages_save_loop (f_messages s) h ds fs) (\<lambda>fs.
     Inr (ok_status, s\<lparr>fsys := fs\<rparr>)))))))))"

definition lemessage_save :: "ptr \<Rightarrow> 'm mem_io_scheme \<Rightarrow> (status_t \<times> 'm mem_io_scheme) res" where
  "lemessage_save p s =
     NULLPTR_PREVENT p (err LESTATUS_NPTR, s) (
     andthen (deref (f_messages s) p) (\<lambda>m.
     case lm_text m of
       None \<Rightarrow> Inr (err LESTATUS_NPTR, s)
     | Some tx \<Rightarrow>
         andthen (deref (f_threads s) (lm_lethread m)) (\<lambda>t.
         andthen (get_lefile (lt_id t) Ab FILE_LEMESSAGES True (fsys s)) (\<lambda>(st, h, fs).
         andthen (the_file h) (\<lambda>h.
         Inr (ok_status, s\<lparr>fsys := write_message m tx h fs\<rparr>))))))"

text \<open>One message read from the file: id, author flag, text.\<close>

definition read_message :: "bytes \<Rightarrow> ((u64 \<times> i32 \<times> bytes) \<times> bytes) res" where
  "read_message f =
     andthen (fread64 f) (\<lambda>(i, f).
     andthen (fread32 f) (\<lambda>(by, f).
     andthen (fread64 f) (\<lambda>(text_size, f).
     let text_size = min (unat text_size) MAX_MESSAGE_SIZE;
         (tx, f) = fread_text text_size f
     in Inr ((i, by, tx), f))))"

text \<open>The loop of \<open>lemessages_load\<close>: \<open>lethread\<close> of a loaded message is never set.\<close>

fun lemessages_load_loop :: "nat \<Rightarrow> ptr \<Rightarrow> bytes \<Rightarrow> 'm mem_io_scheme \<Rightarrow> 'm mem_io_scheme res" where
  "lemessages_load_loop 0 q f s = Inr s"
| "lemessages_load_loop (Suc n) q f s =
     andthen (read_message f) (\<lambda>((i, by, tx), f).
     let (m, messages) = new_obj \<lparr>lm_id = i, lm_text = Some tx, lm_by_lethread_author = by,
                           lm_lethread = Wild\<rparr> (f_messages s) in
     andthen (queue_push q m (s\<lparr>f_messages := messages\<rparr>)) (\<lambda>(st, s).
     lemessages_load_loop n q f s))"

definition lemessages_load :: "ptr \<Rightarrow> 'm mem_io_scheme \<Rightarrow> (status_t \<times> 'm mem_io_scheme) res" where
  "lemessages_load p s =
     NULLPTR_PREVENT p (err LESTATUS_NPTR, s) (
     andthen (deref (f_threads s) p) (\<lambda>t.
     NULLPTR_PREVENT (lt_messages t) (err LESTATUS_NPTR, s) (
     andthen (get_lefile (lt_id t) Rb FILE_LEMESSAGES False (fsys s)) (\<lambda>(st, h, fs).
     if st = err LESTATUS_NSFD \<or> st = err LESTATUS_NPTR then Inr (st, s\<lparr>fsys := fs\<rparr>)
     else
       andthen (the_file h) (\<lambda>h.
       andthen (lethread_message_count p s) (\<lambda>n.
       andthen (lemessages_load_loop (unat n) (lt_messages t) (lf_input h) (s\<lparr>fsys := fs\<rparr>)) (\<lambda>s.
       Inr (ok_status, s))))))))"

definition leauthor_load :: "ptr \<Rightarrow> 'm mem_io_scheme \<Rightarrow> (status_t \<times> 'm mem_io_scheme) res" where
  "leauthor_load p s =
     NULLPTR_PREVENT p (err LESTATUS_NPTR, s) (
     andthen (deref (f_threads s) p) (\<lambda>t.
     andthen (get_lefile (lt_id t) Rb FILE_LEAUTHOR False (fsys s)) (\<lambda>(st, h, fs).
     if st = err LESTATUS_NSFD then Inr (st, s\<lparr>fsys := fs\<rparr>)
     else
       andthen (the_file h) (\<lambda>h.
       andthen (leauthor_create p False (s\<lparr>fsys := fs\<rparr>)) (\<lambda>(st, a, s).
       andthen (deref (f_authors s) a) (\<lambda>au.
       let f = lf_input h;
           i = un_le64 (overlay (take 8 f) (le64 (la_id au)));
           token = map_option (overlay (take TOKEN_SIZE (drop 8 f))) (la_token au)
       in
         andthen (assign a (au\<lparr>la_id := i, la_token := token\<rparr>) (f_authors s)) (\<lambda>authors.
         Inr (ok_status, s\<lparr>f_authors := authors\<rparr>))))))))"

definition leauthor_save :: "ptr \<Rightarrow> 'm mem_io_scheme \<Rightarrow> (status_t \<times> 'm mem_io_scheme) res" where
  "leauthor_save p s =
     NULLPTR_PREVENT p (err LESTATUS_NPTR, s) (
     andthen (deref (f_threads s) p) (\<lambda>t.
     NULLPTR_PREVENT (lt_author t) (err LESTATUS_NPTR, s) (
     andthen (deref (f_authors s) (lt_author t)) (\<lambda>a.
     case la_token a of
       None \<Rightarrow> Inr (err LESTATUS_NPTR, s)
     | Some token \<Rightarrow>
         andthen (get_lefile (lt_id t) Wb FILE_LEAUTHOR True (fsys s)) (\<lambda>(st, h, fs).
         andthen (the_file h) (\<lambda>h.
         andthen (get_lefile (lt_id t) Ab FILE_LEAUTHOR True fs) (\<lambda>(st, h, fs).
         andthen (the_file h) (\<lambda>h.
         if length token < TOKEN_SIZE then Inl OutOfBounds
         else
           let fs = fwrite (le64 (la_id a)) h fs;
               fs = fwrite (take TOKEN_SIZE token) h fs
           in Inr (ok_status, s\<lparr>fsys := fs\<rparr>)))))))))"

section \<open>Facts about files\<close>

lemma map_of_update:
  "map_of (map (\<lambda>(n, x). if n = d then (n, g x) else (n, x)) xs) k =
     (if k = d then map_option g (map_of xs k) else map_of xs k)"
  by (induction xs) auto

lemma file_at_set_file:
  assumes "map_of (fs_dirs fs) d \<noteq> None"
  shows "file_at (set_file d f c fs) d' f' = (if d' = d \<and> f' = f then Some c else file_at fs d' f')"
proof -
  obtain files where "map_of (fs_dirs fs) d = Some files" using assms by blast
  moreover have "map_of (fs_dirs (set_file d f c fs)) k =
      (if k = d then map_option (\<lambda>files. files(f \<mapsto> c)) (map_of (fs_dirs fs) k) else map_of (fs_dirs fs) k)" for k
    by (simp add: set_file_def map_of_update)
  ultimately show ?thesis by (auto simp: file_at_def split: option.splits)
qed

lemma set_file_frame [simp]:
  "fs_root (set_file d f c fs) = fs_root fs" "fs_meta (set_file d f c fs) = fs_meta fs"
  "map fst (fs_dirs (set_file d f c fs)) = map fst (fs_dirs fs)"
  by (simp_all add: set_file_def o_def case_prod_beta if_distrib cong: if_cong)

lemma map_of_dir: "map_of xs d \<noteq> None \<longleftrightarrow> d \<in> set (map fst xs)"
  by (simp add: map_of_eq_None_iff)

abbreviation has_dir :: "bytes \<Rightarrow> filesystem \<Rightarrow> bool" where
  "has_dir d fs \<equiv> d \<in> set (map fst (fs_dirs fs))"

lemma has_dir_map_of: "has_dir d fs \<Longrightarrow> map_of (fs_dirs fs) d \<noteq> None"
  by (subst map_of_dir)

lemma has_dirE:
  assumes "has_dir d fs"
  obtains files where "map_of (fs_dirs fs) d = Some files"
  using has_dir_map_of[OF assms] by (cases "map_of (fs_dirs fs) d") simp_all

lemma no_dir_map_of: "\<not> has_dir d fs \<Longrightarrow> map_of (fs_dirs fs) d = None"
  by (simp add: map_of_eq_None_iff)

lemma file_at_has_dir: "file_at fs d f = Some c \<Longrightarrow> has_dir d fs"
  using map_of_dir[of "fs_dirs fs" d] by (auto simp: file_at_def split: option.splits)

lemma fwrite_file_at:
  assumes "file_at fs (lf_dir h) (lf_name h) = Some c"
  shows "file_at (fwrite bs h fs) d f =
      (if d = lf_dir h \<and> f = lf_name h then Some (c @ bs) else file_at fs d f)"
    and "map fst (fs_dirs (fwrite bs h fs)) = map fst (fs_dirs fs)"
    and "fs_root (fwrite bs h fs) = fs_root fs" and "fs_meta (fwrite bs h fs) = fs_meta fs"
  using assms file_at_set_file[OF has_dir_map_of[OF file_at_has_dir[OF assms]]]
  by (simp_all add: fwrite_def)

lemma fwrite_fwrite: "fwrite cs h (fwrite bs h fs) = fwrite (bs @ cs) h fs"
proof (cases "file_at fs (lf_dir h) (lf_name h)")
  case None
  then show ?thesis by (simp add: fwrite_def)
next
  case (Some c)
  have "set_file d f y (set_file d f x fs) = set_file d f y fs" for d f x y
    by (simp add: set_file_def o_def case_prod_beta if_distrib cong: if_cong)
  with fwrite_file_at(1)[OF Some, of bs] Some show ?thesis by (simp add: fwrite_def)
qed

text \<open>\<open>fs'\<close> is \<open>fs\<close> with the content of one file set, its directory made if necessary.\<close>

definition writes :: "filesystem \<Rightarrow> bytes \<Rightarrow> bytes \<Rightarrow> bytes \<Rightarrow> filesystem \<Rightarrow> bool" where
  "writes fs d f c fs' \<longleftrightarrow> fs_root fs' = fs_root fs \<and> fs_meta fs' = fs_meta fs \<and>
     (\<forall>d' f'. file_at fs' d' f' = (if d' = d \<and> f' = f then Some c else file_at fs d' f')) \<and>
     map fst (fs_dirs fs') = (if has_dir d fs then map fst (fs_dirs fs) else map fst (fs_dirs fs) @ [d])"

lemma writes_has_dir: "writes fs d f c fs' \<Longrightarrow> has_dir d fs'"
  by (auto simp: writes_def split: if_splits)

lemma writes_file: "writes fs d f c fs' \<Longrightarrow> file_at fs' d f = Some c"
  by (simp add: writes_def)

lemma writes_other: "writes fs d f c fs' \<Longrightarrow> d' \<noteq> d \<or> f' \<noteq> f \<Longrightarrow> file_at fs' d' f' = file_at fs d' f'"
  by (auto simp: writes_def)

lemma writes_root: "writes fs d f c fs' \<Longrightarrow> fs_root fs' = fs_root fs"
  by (simp add: writes_def)

lemma writes_trans: "writes fs d f c fs' \<Longrightarrow> writes fs' d f c' fs'' \<Longrightarrow> writes fs d f c' fs''"
  using writes_has_dir[of fs d f c fs'] by (simp add: writes_def)

lemma writes_set_file: "has_dir d fs \<Longrightarrow> writes fs d f c (set_file d f c fs)"
  by (simp add: writes_def file_at_set_file has_dir_map_of)

lemma writes_refl: "file_at fs d f = Some c \<Longrightarrow> writes fs d f c fs"
  using file_at_has_dir[of fs d f c] by (simp add: writes_def)

lemma file_at_no_dir: "\<not> has_dir d fs \<Longrightarrow> file_at fs d f = None"
  using map_of_dir[of "fs_dirs fs" d] by (auto simp: file_at_def split: option.splits)

lemma writes_new_dir:
  assumes "\<not> has_dir d fs"
  shows "writes fs d f c (set_file d f c (fs\<lparr>fs_dirs := fs_dirs fs @ [(d, \<lambda>_. None)]\<rparr>))"
proof -
  let ?fs = "fs\<lparr>fs_dirs := fs_dirs fs @ [(d, \<lambda>_. None)]\<rparr>"
  have none: "map_of (fs_dirs fs) d = None" using assms map_of_dir[of "fs_dirs fs" d] by blast
  have same: "file_at ?fs d' f' = file_at fs d' f'" for d' f'
    using none by (auto simp: file_at_def map_add_def split: option.splits if_splits)
  have "has_dir d ?fs" by simp
  from writes_set_file[OF this, of f c] assms show ?thesis by (simp add: writes_def same)
qed

lemma fwrite_writes:
  assumes "writes fs (lf_dir h) (lf_name h) c fs'"
  shows "writes fs (lf_dir h) (lf_name h) (c @ bs) (fwrite bs h fs')"
  by (rule writes_trans[OF assms])
    (use writes_set_file[OF writes_has_dir[OF assms]] writes_file[OF assms] in \<open>simp add: fwrite_def\<close>)

abbreviation opened :: "bytes \<Rightarrow> bytes \<Rightarrow> lefile" where
  "opened d f \<equiv> \<lparr>lf_dir = d, lf_name = f, lf_input = []\<rparr>"

lemma get_lefile_wb:
  assumes "fs_root fs"
  obtains fs' where "get_lefile i Wb f True fs = Inr (ok_status, Some (opened (decimal (unat i)) f), fs')"
    and "writes fs (decimal (unat i)) f [] fs'"
proof (cases "has_dir (decimal (unat i)) fs")
  case True
  then obtain files where "map_of (fs_dirs fs) (decimal (unat i)) = Some files"
    by (rule has_dirE)
  with True assms show ?thesis
    by (intro that[OF _ writes_set_file]) (simp_all add: get_lefile_def fopen_def Let_def)
next
  case False
  then have "map_of (fs_dirs fs) (decimal (unat i)) = None" by (rule no_dir_map_of)
  with False assms show ?thesis
    by (intro that[OF _ writes_new_dir]) (simp_all add: get_lefile_def fopen_def Let_def)
qed

lemma get_lefile_ab:
  assumes "fs_root fs"
  obtains fs' where "get_lefile i Ab f True fs = Inr (ok_status, Some (opened (decimal (unat i)) f), fs')"
    and "writes fs (decimal (unat i)) f (case file_at fs (decimal (unat i)) f of None \<Rightarrow> [] | Some c \<Rightarrow> c) fs'"
proof (cases "file_at fs (decimal (unat i)) f")
  case (Some c)
  obtain files where "map_of (fs_dirs fs) (decimal (unat i)) = Some files"
    by (rule has_dirE[OF file_at_has_dir[OF Some]])
  with Some assms show ?thesis
    by (intro that[of fs]) (simp_all add: get_lefile_def fopen_def writes_refl Let_def)
next
  case None
  show ?thesis
  proof (cases "has_dir (decimal (unat i)) fs")
    case True
    then obtain files where "map_of (fs_dirs fs) (decimal (unat i)) = Some files"
      by (rule has_dirE)
    with True assms None show ?thesis
      by (intro that[of "set_file (decimal (unat i)) f [] fs"])
        (simp_all add: get_lefile_def fopen_def writes_set_file Let_def)
  next
    case False
    let ?fs = "fs\<lparr>fs_dirs := fs_dirs fs @ [(decimal (unat i), \<lambda>_. None)]\<rparr>"
    have none: "map_of (fs_dirs fs) (decimal (unat i)) = None" by (rule no_dir_map_of[OF False])
    have "file_at ?fs (decimal (unat i)) f = None"
      using none by (simp add: file_at_def map_add_def)
    with none writes_new_dir[OF False, of f "[]"] assms None show ?thesis
      by (intro that[of "set_file (decimal (unat i)) f [] ?fs"])
        (simp_all add: get_lefile_def fopen_def Let_def)
  qed
qed

lemma get_lefile_rb:
  assumes "fs_root fs" and "file_at fs (decimal (unat i)) f = Some c"
  shows "get_lefile i Rb f False fs =
    Inr (ok_status, Some \<lparr>lf_dir = decimal (unat i), lf_name = f, lf_input = c\<rparr>, fs)"
proof -
  obtain files where "map_of (fs_dirs fs) (decimal (unat i)) = Some files"
    by (rule has_dirE[OF file_at_has_dir[OF assms(2)]])
  with assms show ?thesis by (simp add: get_lefile_def fopen_def Let_def)
qed

lemma get_lefile_missing:
  assumes "file_at fs (decimal (unat i)) f = None"
  shows "get_lefile i Rb f False fs = Inr (err LESTATUS_NSFD, None, fs)"
  using assms by (auto simp: get_lefile_def Let_def)

section \<open>The formats\<close>

definition enc_message :: "u64 \<times> i32 \<times> bytes \<Rightarrow> bytes" where
  "enc_message = (\<lambda>(i, by, tx). le64 i @ le32 by @ le64 (of_nat (length tx)) @ tx)"

definition text_ok :: "bytes \<Rightarrow> bool" where
  "text_ok tx \<longleftrightarrow> length tx \<le> MAX_MESSAGE_SIZE \<and> NUL \<notin> set tx"

lemma fread64_le64 [simp]: "fread64 (le64 w @ f) = Inr (w, f)"
  by (simp add: fread64_def)

lemma fread64_le64' [simp]: "fread64 (le64 w) = Inr (w, [])"
  by (simp add: fread64_def)

lemma fread32_le32 [simp]: "fread32 (le32 w @ f) = Inr (w, f)"
  by (simp add: fread32_def)

lemma fread_text_exact: "NUL \<notin> set tx \<Longrightarrow> n = length tx \<Longrightarrow> fread_text n (tx @ f) = (tx, f)"
  by (simp add: fread_text_def takeWhile_neq_id)

lemma read_message_enc:
  assumes "text_ok (snd (snd m))"
  shows "read_message (enc_message m @ f) = Inr (m, f)"
proof -
  obtain i b tx where m: "m = (i, b, tx)" by (cases m) auto
  have len: "length tx \<le> 512" "NUL \<notin> set tx" using assms by (auto simp: m text_ok_def MAX_MESSAGE_SIZE_def)
  then have "min (unat (of_nat (length tx) :: u64)) MAX_MESSAGE_SIZE = length tx"
    by (simp add: MAX_MESSAGE_SIZE_def)
  with len show ?thesis
    by (simp add: m enc_message_def read_message_def fread_text_exact Let_def)
qed

interpretation msg_file: codec enc_message read_message "\<lambda>m. text_ok (snd (snd m))"
  by unfold_locales (rule read_message_enc)

abbreviation msg_record :: "amessage \<Rightarrow> u64 \<times> i32 \<times> bytes" where
  "msg_record m \<equiv> (am_id m, am_by m, am_text m)"

definition enc_messages :: "amessage list \<Rightarrow> bytes" where
  "enc_messages ms = concat (map (enc_message \<circ> msg_record) ms)"

definition enc_thread :: "athread \<Rightarrow> u64 \<Rightarrow> bytes" where
  "enc_thread v author_id = le64 (at_id v) @ le64 author_id @ le64 (at_first v) @ le64 (at_next v) @
     le64 (of_nat (length (at_topic v))) @ at_topic v"

lemma write_message_writes:
  assumes "writes fs (lf_dir h) (lf_name h) c fs'"
  shows "writes fs (lf_dir h) (lf_name h) (c @ enc_message (lm_id m, lm_by_lethread_author m, tx))
    (write_message m tx h fs')"
  using fwrite_writes[OF assms] by (simp add: write_message_def enc_message_def fwrite_fwrite Let_def)

section \<open>What is saved\<close>

lemma thread_viewD:
  assumes "view I T M A p = Some v"
  obtains c t where "p = Ptr c" and "cells T c = Some t" and "thread_view I M A t = Some v"
    and "lt_id t = at_id v" and "lt_first_message_id t = at_first v" and "lt_next_message_id t = at_next v"
    and "lt_topic t = Some (at_topic v)" and "author_view A (lt_author t) = Some (at_author v)"
proof -
  obtain c t where c: "p = Ptr c" "cells T c = Some t" and tv: "thread_view I M A t = Some v"
    using assms by (rule viewE)
  show ?thesis by (rule thread_viewE[OF tv]) (rule that[OF c tv])
qed

text \<open>Opening a file twice, as the save operations do: first to empty it, then to append.\<close>

lemma get_lefile_wb_ab:
  assumes "fs_root fs"
  obtains fs1 fs2 where "get_lefile i Wb f True fs = Inr (ok_status, Some (opened (decimal (unat i)) f), fs1)"
    and "get_lefile i Ab f True fs1 = Inr (ok_status, Some (opened (decimal (unat i)) f), fs2)"
    and "writes fs (decimal (unat i)) f [] fs2"
proof -
  obtain fs1 where wb: "get_lefile i Wb f True fs = Inr (ok_status, Some (opened (decimal (unat i)) f), fs1)"
    "writes fs (decimal (unat i)) f [] fs1" by (rule get_lefile_wb[OF assms])
  have "fs_root fs1" using writes_root[OF wb(2)] assms by simp
  then obtain fs2 where ab: "get_lefile i Ab f True fs1 = Inr (ok_status, Some (opened (decimal (unat i)) f), fs2)"
    "writes fs1 (decimal (unat i)) f (case file_at fs1 (decimal (unat i)) f of None \<Rightarrow> [] | Some c \<Rightarrow> c) fs2"
    by (rule get_lefile_ab)
  have "writes fs1 (decimal (unat i)) f [] fs2" using ab(2) writes_file[OF wb(2)] by simp
  from that[OF wb(1) ab(1) writes_trans[OF wb(2) this]] show ?thesis .
qed

lemma lethread_save_law:
  assumes p: "thread_at s p = Some v" and au: "at_author v = Some (ai, tk)" and root: "fs_root (fsys s)"
  obtains fs where "lethread_save p s = Inr (ok_status, s\<lparr>fsys := fs\<rparr>)"
    and "writes (fsys s) (decimal (unat (at_id v))) FILE_LETHREAD (enc_thread v ai) fs"
proof -
  obtain c t where c: "p = Ptr c" "cells (f_threads s) c = Some t"
    and t: "lt_id t = at_id v" "lt_first_message_id t = at_first v" "lt_next_message_id t = at_next v"
      "lt_topic t = Some (at_topic v)" "author_view (f_authors s) (lt_author t) = Some (at_author v)"
    using p by (rule thread_viewD)
  obtain a x where a: "lt_author t = Ptr a" "cells (f_authors s) a = Some x" "la_id x = ai"
    using t(5) unfolding au by (rule author_viewE)
  let ?d = "decimal (unat (at_id v))" let ?h = "opened ?d FILE_LETHREAD"
  obtain fs1 fs2 where o: "get_lefile (at_id v) Wb FILE_LETHREAD True (fsys s) = Inr (ok_status, Some ?h, fs1)"
    "get_lefile (at_id v) Ab FILE_LETHREAD True fs1 = Inr (ok_status, Some ?h, fs2)"
    "writes (fsys s) ?d FILE_LETHREAD [] fs2"
    by (rule get_lefile_wb_ab[OF root])
  have "writes (fsys s) ?d FILE_LETHREAD (enc_thread v ai) (fwrite (enc_thread v ai) ?h fs2)"
    using fwrite_writes[of "fsys s" ?h "[]" fs2 "enc_thread v ai"] o(3) by simp
  moreover have "lethread_save p s = Inr (ok_status, s\<lparr>fsys := fwrite (enc_thread v ai) ?h fs2\<rparr>)"
    using c t a o by (simp add: lethread_save_def enc_thread_def fwrite_fwrite Let_def)
  ultimately show ?thesis by (intro that)
qed

lemma leauthor_save_law:
  assumes p: "thread_at s p = Some v" and au: "at_author v = Some (ai, tk)" and len: "TOKEN_SIZE \<le> length tk"
    and root: "fs_root (fsys s)"
  obtains fs where "leauthor_save p s = Inr (ok_status, s\<lparr>fsys := fs\<rparr>)"
    and "writes (fsys s) (decimal (unat (at_id v))) FILE_LEAUTHOR (le64 ai @ take TOKEN_SIZE tk) fs"
proof -
  obtain c t where c: "p = Ptr c" "cells (f_threads s) c = Some t" and t: "lt_id t = at_id v"
    "author_view (f_authors s) (lt_author t) = Some (at_author v)"
    using p by (rule thread_viewD)
  obtain a x where a: "lt_author t = Ptr a" "cells (f_authors s) a = Some x" "la_id x = ai" "la_token x = Some tk"
    using t(2) unfolding au by (rule author_viewE)
  let ?d = "decimal (unat (at_id v))" let ?h = "opened ?d FILE_LEAUTHOR"
  obtain fs1 fs2 where o: "get_lefile (at_id v) Wb FILE_LEAUTHOR True (fsys s) = Inr (ok_status, Some ?h, fs1)"
    "get_lefile (at_id v) Ab FILE_LEAUTHOR True fs1 = Inr (ok_status, Some ?h, fs2)"
    "writes (fsys s) ?d FILE_LEAUTHOR [] fs2"
    by (rule get_lefile_wb_ab[OF root])
  let ?c = "le64 ai @ take TOKEN_SIZE tk"
  have "writes (fsys s) ?d FILE_LEAUTHOR ?c (fwrite ?c ?h fs2)"
    using fwrite_writes[of "fsys s" ?h "[]" fs2 ?c] o(3) by simp
  moreover have "leauthor_save p s = Inr (ok_status, s\<lparr>fsys := fwrite ?c ?h fs2\<rparr>)"
    using c t a o len by (simp add: leauthor_save_def fwrite_fwrite not_less Let_def)
  ultimately show ?thesis by (intro that)
qed

lemma enc_messages_simps [simp]:
  "enc_messages [] = []"
  "enc_messages (m # ms) = enc_message (msg_record m) @ enc_messages ms"
  "enc_messages (ms @ ns) = enc_messages ms @ enc_messages ns"
  by (simp_all add: enc_messages_def)

lemma lemessages_save_loop_law:
  assumes "those (map (msg_view M) ds) = Some ms" and "writes fs0 (lf_dir h) (lf_name h) c fs"
  shows "\<exists>fs'. lemessages_save_loop M h ds fs = Inr fs' \<and>
    writes fs0 (lf_dir h) (lf_name h) (c @ enc_messages ms) fs'"
  using assms
proof (induction ds arbitrary: ms c fs)
  case Nil
  then show ?case by simp
next
  case (Cons d ds)
  obtain m ns where m: "msg_view M d = Some m" "those (map (msg_view M) ds) = Some ns" "ms = m # ns"
    using Cons.prems(1) by (auto split: option.splits)
  obtain a x tx where x: "d = Ptr a" "cells M a = Some x" "lm_text x = Some tx"
    "m = \<lparr>am_id = lm_id x, am_text = tx, am_by = lm_by_lethread_author x\<rparr>"
    using m(1) by (rule msg_viewE)
  from Cons.IH[OF m(2) write_message_writes[OF Cons.prems(2), of x tx]] m(3) x show ?case by simp
qed

lemma lemessages_save_law:
  assumes p: "thread_at s p = Some v" and root: "fs_root (fsys s)"
  obtains fs where "lemessages_save p s = Inr (ok_status, s\<lparr>fsys := fs\<rparr>)"
    and "writes (fsys s) (decimal (unat (at_id v))) FILE_LEMESSAGES (enc_messages (at_messages v)) fs"
proof -
  obtain c t where c: "p = Ptr c" "cells (f_threads s) c = Some t" and id: "lt_id t = at_id v"
    and tv: "thread_view (items s) (f_messages s) (f_authors s) t = Some v"
    using p by (rule thread_viewD)
  obtain ds where ds: "items s (lt_messages t) = Some ds"
    "those (map (msg_view (f_messages s)) ds) = Some (at_messages v)"
    using tv by (rule thread_viewE)
  have walk: "queue_items (lt_messages t) s = Inr ds" using ds(1) by (simp add: queue_items_iff)
  let ?d = "decimal (unat (at_id v))" let ?h = "opened ?d FILE_LEMESSAGES"
  obtain fs1 fs2 where o: "get_lefile (at_id v) Wb FILE_LEMESSAGES True (fsys s) = Inr (ok_status, Some ?h, fs1)"
    "get_lefile (at_id v) Ab FILE_LEMESSAGES True fs1 = Inr (ok_status, Some ?h, fs2)"
    "writes (fsys s) ?d FILE_LEMESSAGES [] fs2"
    by (rule get_lefile_wb_ab[OF root])
  obtain fs where "lemessages_save_loop (f_messages s) ?h ds fs2 = Inr fs"
    "writes (fsys s) ?d FILE_LEMESSAGES (enc_messages (at_messages v)) fs"
    using lemessages_save_loop_law[OF ds(2), of "fsys s" ?h "[]" fs2] o(3) by auto
  moreover from this have "lemessages_save p s = Inr (ok_status, s\<lparr>fsys := fs\<rparr>)"
    using c id o walk by (simp add: lemessages_save_def)
  ultimately show ?thesis by (intro that)
qed

text \<open>Saving one message appends its record.\<close>

lemma lemessage_save_law:
  assumes m: "deref (f_messages s) p = Inr m" "lm_text m = Some tx" and t: "deref (f_threads s) (lm_lethread m) = Inr t"
    and root: "fs_root (fsys s)"
  obtains fs where "lemessage_save p s = Inr (ok_status, s\<lparr>fsys := fs\<rparr>)"
    and "writes (fsys s) (decimal (unat (lt_id t))) FILE_LEMESSAGES
      ((case file_at (fsys s) (decimal (unat (lt_id t))) FILE_LEMESSAGES of None \<Rightarrow> [] | Some c \<Rightarrow> c) @
       enc_message (lm_id m, lm_by_lethread_author m, tx)) fs"
proof -
  let ?d = "decimal (unat (lt_id t))" let ?h = "opened ?d FILE_LEMESSAGES"
  obtain fs1 where o: "get_lefile (lt_id t) Ab FILE_LEMESSAGES True (fsys s) = Inr (ok_status, Some ?h, fs1)"
    "writes (fsys s) ?d FILE_LEMESSAGES (case file_at (fsys s) ?d FILE_LEMESSAGES of None \<Rightarrow> [] | Some c \<Rightarrow> c) fs1"
    by (rule get_lefile_ab[OF root])
  obtain a where "p = Ptr a" using m(1) by (cases p) auto
  then have "lemessage_save p s = Inr (ok_status, s\<lparr>fsys := write_message m tx ?h fs1\<rparr>)"
    using m t o(1) by (simp add: lemessage_save_def)
  with write_message_writes[of "fsys s" ?h _ fs1 m tx] o(2) show ?thesis by (intro that) simp_all
qed

section \<open>What is loaded\<close>

lemma lethread_load_law:
  assumes ok: "queue_ok s" and c: "cells (f_threads s) c = Some old" and root: "fs_root (fsys s)"
    and content: "file_at (fsys s) (decimal (unat i)) FILE_LETHREAD = Some (enc_thread v ai)"
    and topic: "length (at_topic v) < 2 ^ 64" "NUL \<notin> set (at_topic v)"
  obtains q qs where "lethread_load (Ptr c) i s = Inr (ok_status, s\<lparr>q_queues := qs,
      f_threads := (f_threads s)\<lparr>cells := (cells (f_threads s))(c \<mapsto> \<lparr>lt_id = at_id v,
        lt_first_message_id = at_first v, lt_next_message_id = at_next v,
        lt_topic = Some (take MAX_TOPIC_SIZE (at_topic v)), lt_messages = q, lt_author = Null\<rparr>)\<rparr>\<rparr>)"
    and "qok (q_nodes s) qs" and "qitems (q_nodes s) qs = (items s)(q \<mapsto> [])" and "items s q = None"
    and "qkind qs = (qkind (q_queues s))(q \<mapsto> Lemessage_delete)"
proof -
  obtain q qs where create: "queue_create Lemessage_delete s = (ok_status, q, s\<lparr>q_queues := qs\<rparr>)"
    and qs: "qok (q_nodes s) qs" "qitems (q_nodes s) qs = (items s)(q \<mapsto> [])" "items s q = None"
    using ok by (rule queue_create_law)
  have kind: "qkind qs = (qkind (q_queues s))(q \<mapsto> Lemessage_delete)"
    using qkind_create[OF create] by simp
  have len: "unat (of_nat (length (at_topic v)) :: u64) = length (at_topic v)"
    using topic(1) by simp
  have "takeWhile (\<lambda>c. c \<noteq> NUL) (take (min (length (at_topic v)) MAX_TOPIC_SIZE) (at_topic v)) =
      take MAX_TOPIC_SIZE (at_topic v)"
    using topic(2) by (subst takeWhile_neq_id) (auto simp: min_def dest: in_set_takeD)
  with create c len get_lefile_rb[OF root content]
  have "lethread_load (Ptr c) i s = Inr (ok_status, s\<lparr>q_queues := qs,
      f_threads := (f_threads s)\<lparr>cells := (cells (f_threads s))(c \<mapsto> \<lparr>lt_id = at_id v,
        lt_first_message_id = at_first v, lt_next_message_id = at_next v,
        lt_topic = Some (take MAX_TOPIC_SIZE (at_topic v)), lt_messages = q, lt_author = Null\<rparr>)\<rparr>\<rparr>)"
    by (simp add: lethread_load_def enc_thread_def fread_text_def Let_def)
  with qs kind show ?thesis by (intro that)
qed

lemma lethread_load_missing:
  assumes "file_at (fsys s) (decimal (unat i)) FILE_LETHREAD = None"
  shows "lethread_load (Ptr c) i s = Inr (err LESTATUS_NSFD, s)"
  using get_lefile_missing[OF assms] by (simp add: lethread_load_def)

lemma store_same: "cells h c = Some x \<Longrightarrow> h\<lparr>cells := (cells h)(c \<mapsto> x)\<rparr> = h"
  by (intro store.equality) auto

text \<open>The loop pushes what it reads behind what the queue holds.\<close>

lemma lemessages_load_loop_law:
  assumes "forum_ok s" and "cells (f_threads s) c = Some t"
    and "thread_view (items s) (f_messages s) (f_authors s) t = Some v"
    and "list_all text_ok (map am_text ms)" and "items s (lt_messages t) = Some ds"
  obtains M nodes qs es where "lemessages_load_loop (length ms) (lt_messages t) (enc_messages ms @ r) s =
      Inr (s\<lparr>f_messages := M, q_nodes := nodes, q_queues := qs\<rparr>)"
    and "qok nodes qs" and "fok (qitems nodes qs) (f_threads s) M (f_authors s)"
    and "view (qitems nodes qs) (f_threads s) M (f_authors s) =
      (thread_at s)(Ptr c \<mapsto> v\<lparr>at_messages := at_messages v @ ms\<rparr>)"
    and "qitems nodes qs = (items s)(lt_messages t \<mapsto> ds @ es)" and "qkind qs = qkind (q_queues s)"
    and "cells (f_messages s) \<subseteq>\<^sub>m cells M"
  using assms
proof (induction ms arbitrary: s v ds thesis)
  case Nil
  have v: "v\<lparr>at_messages := at_messages v @ []\<rparr> = v" by (intro athread.equality) simp_all
  have at: "thread_at s (Ptr c) = Some v" using Nil.prems(3,4) by (simp add: view_Ptr)
  show ?case
    by (rule Nil.prems(1)[where M = "f_messages s" and nodes = "q_nodes s" and qs = "q_queues s" and es = "[]"])
      (use Nil.prems(2,6) at v in \<open>simp_all add: fun_upd_idem\<close>)
next
  case (Cons m ms)
  define x where "x = \<lparr>lm_id = am_id m, lm_text = Some (am_text m), lm_by_lethread_author = am_by m,
      lm_lethread = Wild\<rparr>"
  define b where "b = brk (f_messages s)"
  define M1 where "M1 = (f_messages s)\<lparr>cells := (cells (f_messages s))(b \<mapsto> x), brk := Suc b\<rparr>"
  have x: "lm_text x = Some (am_text m)" by (simp add: x_def)
  have same: "(f_threads s)\<lparr>cells := (cells (f_threads s))
      (c \<mapsto> t\<lparr>lt_next_message_id := lt_next_message_id t\<rparr>)\<rparr> = f_threads s"
    using store_same[OF Cons.prems(3)] by simp
  obtain ds1 nodes1 qs1 where push: "queue_push (lt_messages t) (Ptr b) (s\<lparr>f_threads := f_threads s, f_messages := M1\<rparr>) =
        Inr (ok_status, s\<lparr>f_threads := f_threads s, f_messages := M1, q_nodes := nodes1, q_queues := qs1\<rparr>)"
      "qok nodes1 qs1" "items s (lt_messages t) = Some ds1"
      "qitems nodes1 qs1 = (items s)(lt_messages t \<mapsto> ds1 @ [Ptr b])"
      "fok (qitems nodes1 qs1) (f_threads s) M1 (f_authors s)"
      "view (qitems nodes1 qs1) (f_threads s) M1 (f_authors s) = (thread_at s)(Ptr c \<mapsto>
       v\<lparr>at_messages := at_messages v @ [\<lparr>am_id = lm_id x, am_text = am_text m, am_by = lm_by_lethread_author x\<rparr>],
         at_next := lt_next_message_id t\<rparr>)" "qkind qs1 = qkind (q_queues s)"
    by (rule append_message_law[OF Cons.prems(2-4) x, where nx = "lt_next_message_id t",
          folded b_def, folded M1_def, unfolded same])
  have ds1: "ds1 = ds" using push(3) Cons.prems(6) by simp
  let ?s1 = "s\<lparr>f_messages := M1, q_nodes := nodes1, q_queues := qs1\<rparr>"
  define v1 where "v1 = v\<lparr>at_messages := at_messages v @ [m]\<rparr>"
  have nx: "lt_next_message_id t = at_next v" using Cons.prems(4) by (rule thread_viewE)
  have m: "\<lparr>am_id = lm_id x, am_text = am_text m, am_by = lm_by_lethread_author x\<rparr> = m"
    by (simp add: x_def)
  have view1: "thread_at ?s1 = (thread_at s)(Ptr c \<mapsto> v1)"
    using push(6) by (simp add: m nx v1_def)
  then have tv1: "thread_view (items ?s1) (f_messages ?s1) (f_authors ?s1) t = Some v1"
    using Cons.prems(3) by (auto simp: fun_eq_iff view_Ptr dest: spec[of _ "Ptr c"])
  have c1: "cells (f_threads ?s1) c = Some t" using Cons.prems(3) by simp
  have ok1: "forum_ok ?s1" using push(2,5) Cons.prems(2) by simp
  have texts: "list_all text_ok (map am_text ms)" "text_ok (am_text m)" using Cons.prems(5) by simp_all
  have items1: "items ?s1 (lt_messages t) = Some (ds @ [Ptr b])" using push(4) ds1 by simp
  obtain M nodes qs es where IH: "lemessages_load_loop (length ms) (lt_messages t) (enc_messages ms @ r) ?s1 =
      Inr (?s1\<lparr>f_messages := M, q_nodes := nodes, q_queues := qs\<rparr>)"
    "qok nodes qs" "fok (qitems nodes qs) (f_threads ?s1) M (f_authors ?s1)"
    "view (qitems nodes qs) (f_threads ?s1) M (f_authors ?s1) =
      (thread_at ?s1)(Ptr c \<mapsto> v1\<lparr>at_messages := at_messages v1 @ ms\<rparr>)"
    "qitems nodes qs = (items ?s1)(lt_messages t \<mapsto> (ds @ [Ptr b]) @ es)" "qkind qs = qkind (q_queues ?s1)"
    "cells (f_messages ?s1) \<subseteq>\<^sub>m cells M"
    by (rule Cons.IH[where s = ?s1 and v = v1 and ds = "ds @ [Ptr b]", OF _ ok1 c1 tv1 texts(1) items1])
  have read: "read_message (enc_messages (m # ms) @ r) = Inr (msg_record m, enc_messages ms @ r)"
    using texts(2) by (simp add: read_message_enc)
  have "lemessages_load_loop (length (m # ms)) (lt_messages t) (enc_messages (m # ms) @ r) s =
      lemessages_load_loop (length ms) (lt_messages t) (enc_messages ms @ r) ?s1"
    using read push(1) by (simp add: new_obj_def M1_def b_def x_def Let_def del: enc_messages_simps)
  with IH(1) have run: "lemessages_load_loop (length (m # ms)) (lt_messages t) (enc_messages (m # ms) @ r) s =
      Inr (s\<lparr>f_messages := M, q_nodes := nodes, q_queues := qs\<rparr>)" by simp
  have I: "qitems nodes qs = (items s)(lt_messages t \<mapsto> ds @ Ptr b # es)"
    using IH(5) push(4) by simp
  have V: "view (qitems nodes qs) (f_threads s) M (f_authors s) =
      (thread_at s)(Ptr c \<mapsto> v\<lparr>at_messages := at_messages v @ m # ms\<rparr>)"
    using IH(4) unfolding view1 by (simp add: v1_def)
  have "cells (f_messages s) b = None" using fokD(2)[of "items s" "f_threads s" "f_messages s" "f_authors s"] Cons.prems(2) by (simp add: b_def)
  then have "cells (f_messages s) \<subseteq>\<^sub>m cells M1" by (auto simp: map_le_def M1_def)
  then have "cells (f_messages s) \<subseteq>\<^sub>m cells M" using IH(7) by (auto intro: map_le_trans)
  then show ?case
    by (intro Cons.prems(1)[OF run IH(2)]) (use IH(3,6) push(7) I V in \<open>simp_all del: fun_upd_apply\<close>)
qed

lemma lemessages_load_law:
  assumes ok: "forum_ok s" and p: "thread_at s p = Some v" and root: "fs_root (fsys s)"
    and content: "file_at (fsys s) (decimal (unat (at_id v))) FILE_LEMESSAGES = Some (enc_messages ms)"
    and n: "unat (at_next v - at_first v) = length ms" and texts: "list_all text_ok (map am_text ms)"
  obtains M nodes qs q ds where "lemessages_load p s =
      Inr (ok_status, s\<lparr>f_messages := M, q_nodes := nodes, q_queues := qs\<rparr>)"
    and "qok nodes qs" and "fok (qitems nodes qs) (f_threads s) M (f_authors s)"
    and "view (qitems nodes qs) (f_threads s) M (f_authors s) =
      (thread_at s)(p \<mapsto> v\<lparr>at_messages := at_messages v @ ms\<rparr>)"
    and "\<exists>c t. p = Ptr c \<and> cells (f_threads s) c = Some t \<and> lt_messages t = q"
    and "qitems nodes qs = (items s)(q \<mapsto> ds)" and "qkind qs = qkind (q_queues s)"
    and "cells (f_messages s) \<subseteq>\<^sub>m cells M"
proof -
  obtain c t where c: "p = Ptr c" "cells (f_threads s) c = Some t"
    and tv: "thread_view (items s) (f_messages s) (f_authors s) t = Some v"
    using p by (rule viewE)
  obtain es where t: "items s (lt_messages t) = Some es" "lt_id t = at_id v" "lt_first_message_id t = at_first v"
    "lt_next_message_id t = at_next v"
    using tv by (rule thread_viewE)
  obtain qa where q: "lt_messages t = Ptr qa" using t(1) by (auto elim: qitems_live)
  obtain M nodes qs ds where loop: "lemessages_load_loop (length ms) (lt_messages t) (enc_messages ms @ []) s =
      Inr (s\<lparr>f_messages := M, q_nodes := nodes, q_queues := qs\<rparr>)"
    "qok nodes qs" "fok (qitems nodes qs) (f_threads s) M (f_authors s)"
    "view (qitems nodes qs) (f_threads s) M (f_authors s) =
      (thread_at s)(Ptr c \<mapsto> v\<lparr>at_messages := at_messages v @ ms\<rparr>)"
    "qitems nodes qs = (items s)(lt_messages t \<mapsto> es @ ds)" "qkind qs = qkind (q_queues s)"
    "cells (f_messages s) \<subseteq>\<^sub>m cells M"
    by (rule lemessages_load_loop_law[OF ok c(2) tv texts t(1)])
  have "lemessages_load p s = Inr (ok_status, s\<lparr>f_messages := M, q_nodes := nodes, q_queues := qs\<rparr>)"
    using c q t loop(1) n get_lefile_rb[OF root content]
    by (simp add: lemessages_load_def lethread_message_count_def)
  with loop c show ?thesis
    by (intro that[where M = M and nodes = nodes and qs = qs and q = "lt_messages t" and ds = "es @ ds"])
      (simp_all del: fun_upd_apply)
qed

lemma lemessages_load_missing:
  assumes p: "thread_at s p = Some v"
    and "file_at (fsys s) (decimal (unat (at_id v))) FILE_LEMESSAGES = None"
  shows "lemessages_load p s = Inr (err LESTATUS_NSFD, s)"
proof -
  obtain c t where c: "p = Ptr c" "cells (f_threads s) c = Some t"
    and tv: "thread_view (items s) (f_messages s) (f_authors s) t = Some v"
    using p by (rule viewE)
  obtain es where t: "items s (lt_messages t) = Some es" "lt_id t = at_id v"
    using tv by (rule thread_viewE)
  obtain qa where "lt_messages t = Ptr qa" using t(1) by (auto elim: qitems_live)
  with c t get_lefile_missing[OF assms(2)] show ?thesis by (simp add: lemessages_load_def)
qed

text \<open>Changing what the author object of one thread holds.\<close>

lemma fok_author_upd:
  assumes f: "fok I T M A" and c: "cells T c = Some t" and tv: "thread_view I M A t = Some v"
    and a: "lt_author t = Ptr a" and tok: "la_token x = Some tk"
  defines "A' \<equiv> A\<lparr>cells := (cells A)(a \<mapsto> x)\<rparr>"
  shows "fok I T M A'" and "view I T M A' = (view I T M A)(Ptr c \<mapsto> v\<lparr>at_author := Some (la_id x, tk)\<rparr>)"
proof -
  note D = fokD[OF f]
  obtain ds where t: "lt_topic t = Some (at_topic v)" "I (lt_messages t) = Some ds"
    "author_view A (lt_author t) = Some (at_author v)" "those (map (msg_view M) ds) = Some (at_messages v)"
    "lt_id t = at_id v" "lt_first_message_id t = at_first v" "lt_next_message_id t = at_next v"
    using tv by (rule thread_viewE)
  have live: "cells A a \<noteq> None" using t(3) a by (auto simp: author_view_def split: option.splits)
  have store: "store_ok A'" using D(3) live by (auto simp: store_ok_def A'_def)
  have tv': "thread_view I M A' t = Some (v\<lparr>at_author := Some (la_id x, tk)\<rparr>)"
    unfolding thread_view_eq_Some using t a tok by (simp add: author_view_def A'_def)
  have frame: "thread_view I M A' u = thread_view I M A u \<and> I (lt_messages u) = I (lt_messages u)"
    if b: "b \<noteq> c" "cells T b = Some u" for b u
  proof -
    have "lt_author u \<noteq> Ptr a" using D(7)[OF b(2) c b(1)] a by auto
    then have "author_view A' (lt_author u) = author_view A (lt_author u)"
      by (cases "lt_author u") (auto simp: author_view_def A'_def)
    then show ?thesis by (simp add: thread_view_def)
  qed
  note upd = fok_update[where a = c and I' = I, OF f D(1,2) store refl frame]
  have sep: "lt_messages t' \<noteq> lt_messages u \<and> (lt_author t' = lt_author u \<longrightarrow> lt_author t' = Null) \<and>
      (\<forall>ds es. I (lt_messages t') = Some ds \<longrightarrow> I (lt_messages u) = Some es \<longrightarrow> set ds \<inter> set es = {})"
    if "cells T c = Some t'" "b \<noteq> c" "cells T b = Some u" for t' b u
    using D(6-8)[OF that(1,3)] that(2) by blast
  show "fok I T M A'" by (rule upd(1)) (use c tv' D(5) sep in \<open>simp_all\<close>)
  have "view I T M A' = (view I T M A)(Ptr c := (case cells T c of None \<Rightarrow> None | Some t \<Rightarrow> thread_view I M A' t))"
    by (rule upd(2)) (use c tv' D(5) sep in \<open>simp_all\<close>)
  then show "view I T M A' = (view I T M A)(Ptr c \<mapsto> v\<lparr>at_author := Some (la_id x, tk)\<rparr>)"
    using c tv' by simp
qed

lemma overlay_full: "length new = length old \<Longrightarrow> overlay new old = new"
  by (simp add: overlay_def)

lemma overlay_append: "length new = n \<Longrightarrow> overlay new (replicate (n + k) x) = new @ replicate k x"
  by (simp add: overlay_def)

lemma leauthor_load_law:
  assumes ok: "forum_ok s" and p: "thread_at s p = Some v" and root: "fs_root (fsys s)"
    and content: "file_at (fsys s) (decimal (unat (at_id v))) FILE_LEAUTHOR = Some (le64 ai @ tk)"
    and tk: "length tk = TOKEN_SIZE" and rnd: "rand_uint64_t (urandom s) = Inr (r, dev)"
  obtains T A where "leauthor_load p s = Inr (ok_status, s\<lparr>urandom := dev, f_threads := T, f_authors := A\<rparr>)"
    and "fok (items s) T (f_messages s) A"
    and "view (items s) T (f_messages s) A = (thread_at s)(p \<mapsto> v\<lparr>at_author := Some (ai, tk @ [NUL])\<rparr>)"
    and "\<And>c u. cells T c = Some u \<Longrightarrow> \<exists>u'. cells (f_threads s) c = Some u' \<and> lt_messages u = lt_messages u'"
proof -
  obtain c t where c: "p = Ptr c" "cells (f_threads s) c = Some t" and id: "lt_id t = at_id v"
    using p by (rule thread_viewD)
  define au where "au = \<lparr>la_id = r mod 0xffffffff, la_token = Some (replicate (TOKEN_SIZE + 1) NUL)\<rparr>"
  have tok: "if False then rand_string TOKEN_SIZE dev = Inr (replicate (TOKEN_SIZE + 1) NUL, dev)
      else replicate (TOKEN_SIZE + 1) NUL = replicate (TOKEN_SIZE + 1) NUL \<and> dev = dev" by simp
  obtain a T A where create: "leauthor_create p False s =
       Inr (ok_status, Ptr a, s\<lparr>urandom := dev, f_threads := T, f_authors := A\<rparr>)"
    and fok: "fok (items s) T (f_messages s) A"
    and vw: "view (items s) T (f_messages s) A = (thread_at s)(p \<mapsto>
      v\<lparr>at_author := Some (r mod 0xffffffff, replicate (TOKEN_SIZE + 1) NUL)\<rparr>)"
    and cell: "cells A a = Some au"
    and same: "\<And>c u. cells T c = Some u \<Longrightarrow> \<exists>u'. cells (f_threads s) c = Some u' \<and> lt_messages u = lt_messages u'"
    and own: "\<exists>c u. p = Ptr c \<and> cells T c = Some u \<and> lt_author u = Ptr a"
    unfolding au_def by (rule leauthor_create_law[OF ok p rnd tok]) blast
  obtain u where u: "cells T c = Some u" "lt_author u = Ptr a" using own c(1) by auto
  have tvu: "thread_view (items s) (f_messages s) A u =
      Some (v\<lparr>at_author := Some (r mod 0xffffffff, replicate (TOKEN_SIZE + 1) NUL)\<rparr>)"
    using fun_cong[OF vw, of p] c(1) u(1) by (simp add: view_Ptr)
  define x where "x = \<lparr>la_id = ai, la_token = Some (tk @ [NUL])\<rparr>"
  define A' where "A' = A\<lparr>cells := (cells A)(a \<mapsto> x)\<rparr>"
  have x: "la_token x = Some (tk @ [NUL])" by (simp add: x_def)
  note upd = fok_author_upd[OF fok u(1) tvu u(2) x, folded A'_def]
  have "overlay tk (replicate (TOKEN_SIZE + 1) NUL) = tk @ [NUL]"
    using overlay_append[of tk TOKEN_SIZE 1 NUL] tk by simp
  then have "leauthor_load p s = Inr (ok_status, s\<lparr>urandom := dev, f_threads := T, f_authors := A'\<rparr>)"
    using c id create cell tk get_lefile_rb[OF root content]
    by (simp add: leauthor_load_def overlay_full A'_def x_def au_def Let_def)
  moreover have "view (items s) T (f_messages s) A' = (thread_at s)(p \<mapsto> v\<lparr>at_author := Some (ai, tk @ [NUL])\<rparr>)"
    using upd(2) vw c(1) by (simp add: x_def)
  ultimately show ?thesis using upd(1) same by (intro that[where T = T and A = A'])
qed

lemma leauthor_load_missing:
  assumes p: "thread_at s p = Some v"
    and "file_at (fsys s) (decimal (unat (at_id v))) FILE_LEAUTHOR = None"
  shows "leauthor_load p s = Inr (err LESTATUS_NSFD, s)"
proof -
  obtain c t where "p = Ptr c" "cells (f_threads s) c = Some t" "lt_id t = at_id v"
    using p by (rule thread_viewD)
  with get_lefile_missing[OF assms(2)] show ?thesis by (simp add: leauthor_load_def)
qed

section \<open>A small forum with files\<close>

definition no_files :: filesystem where
  "no_files = \<lparr>fs_root = True, fs_dirs = [], fs_meta = None\<rparr>"

definition small_io :: mem_io where
  "small_io = mem_forum.extend small_forum (mem_io.fields no_files)"

lemma small_io_simps [simp]:
  "q_nodes small_io = q_nodes small_forum" "q_queues small_io = q_queues small_forum"
  "sp_objs small_io = sp_objs small_forum" "sp_counts small_io = sp_counts small_forum"
  "urandom small_io = urandom small_forum" "f_threads small_io = f_threads small_forum"
  "f_messages small_io = f_messages small_forum" "f_authors small_io = f_authors small_forum"
  "fsys small_io = no_files"
  by (simp_all add: small_io_def mem_forum.defs mem_io.defs)

lemma no_files_simps [simp]: "fs_root no_files" "file_at no_files d f = None"
  by (simp_all add: no_files_def file_at_def)

text \<open>The same forum after its thread got an author and a first message.\<close>

lemma small_io_posted:
  obtains s :: mem_io and v ai where "forum_ok s" and "fsys s = no_files" and "thread_at s (Ptr 0) = Some v"
    and "at_author v = Some (ai, As)" and "at_topic v = ''topic''" and "at_id v = 7"
    and "at_messages v = [\<lparr>am_id = at_first v, am_text = ''hello'', am_by = 1\<rparr>]" and "at_next v = at_first v + 1"
    and "rand_uint64_t (urandom s) = Inr (un_le64 (replicate 8 (CHR ''A'')), [])"
proof -
  have ok: "forum_ok small_io" using small_forum_ok by simp
  have at: "thread_at small_io (Ptr 0) = Some small_thread" using small_thread_at by simp
  have rnd: "rand_uint64_t (urandom small_io) = Inr (un_le64 (replicate 8 (CHR ''A'')), replicate 32 (CHR ''A''))"
    using small_forum_rand(1) by simp
  have tok: "if True then rand_string TOKEN_SIZE (replicate 32 (CHR ''A'')) = Inr (As, replicate 8 (CHR ''A''))
      else As = replicate (TOKEN_SIZE + 1) NUL \<and> replicate 8 (CHR ''A'') = replicate 32 (CHR ''A'')"
    using small_forum_rand(2) by (simp add: TOKEN_SIZE_def)
  define v1 where "v1 = small_thread\<lparr>at_author := Some (un_le64 (replicate 8 (CHR ''A'')) mod 0xffffffff, As)\<rparr>"
  obtain a T A where create: "leauthor_create (Ptr 0) True small_io = Inr (ok_status, Ptr a,
      small_io\<lparr>urandom := replicate 8 (CHR ''A''), f_threads := T, f_authors := A\<rparr>)"
    "fok (items small_io) T (f_messages small_io) A"
    "view (items small_io) T (f_messages small_io) A = (thread_at small_io)(Ptr 0 \<mapsto> v1)"
    unfolding v1_def by (rule leauthor_create_law[OF ok at rnd tok])
  define s1 where "s1 = small_io\<lparr>urandom := replicate 8 (CHR ''A''), f_threads := T, f_authors := A\<rparr>"
  have s1: "forum_ok s1" "thread_at s1 (Ptr 0) = Some v1" "fsys s1 = no_files" "urandom s1 = replicate 8 (CHR ''A'')"
    using ok create(2,3) by (simp_all add: s1_def)
  obtain s2 m where s2: "lemessage_create (Ptr 0) (Some ''hello'') 1 s1 = Inr (ok_status, m, s2)" "forum_ok s2"
    "thread_at s2 (Ptr 0) = Some (v1\<lparr>at_messages := at_messages v1 @ [\<lparr>am_id = at_next v1, am_text = ''hello'',
       am_by = 1\<rparr>], at_next := at_next v1 + 1\<rparr>)" "fsys s2 = no_files" "urandom s2 = replicate 8 (CHR ''A'')"
    by (rule lemessage_create_law[OF s1(1,2), of "''hello''" 1]) (use s1 in \<open>auto simp: size_limits\<close>)
  show ?thesis
    by (rule that[OF s2(2,4,3)])
      (use s2(5) in \<open>simp_all add: v1_def small_thread_def rand_uint64_t_def\<close>)
qed

section \<open>Properties\<close>

text \<open>
  C38.  What \<open>lethread_save\<close> writes is what \<open>lethread_load\<close> reads, in any later state with the same
  files: the ids and the message counters come back, the topic up to 64 characters, with an empty
  queue for the messages and no author yet.
\<close>

theorem thread_file_roundtrip:
  assumes "thread_at s p = Some v" and "at_author v = Some (ai, tk)" and "fs_root (fsys s)"
    and "length (at_topic v) < 2 ^ 64" and "NUL \<notin> set (at_topic v)"
    and "queue_ok t" and "live (f_threads t) (Ptr c)"
  shows "\<exists>s' u q. lethread_save p s = Inr (0, s') \<and>
    lethread_load (Ptr c) (at_id v) (t\<lparr>fsys := fsys s'\<rparr>) = Inr (0, u) \<and> queue_ok u \<and>
    deref (f_threads u) (Ptr c) = Inr \<lparr>lt_id = at_id v, lt_first_message_id = at_first v,
      lt_next_message_id = at_next v, lt_topic = Some (take 64 (at_topic v)), lt_messages = q, lt_author = Null\<rparr> \<and>
    items t q = None \<and> items u = (items t)(q \<mapsto> [])"
proof -
  obtain fs where save: "lethread_save p s = Inr (ok_status, s\<lparr>fsys := fs\<rparr>)"
    "writes (fsys s) (decimal (unat (at_id v))) FILE_LETHREAD (enc_thread v ai) fs"
    by (rule lethread_save_law[OF assms(1-3)])
  obtain old where old: "cells (f_threads (t\<lparr>fsys := fs\<rparr>)) c = Some old" using assms(7) by auto
  have root: "fs_root (fsys (t\<lparr>fsys := fs\<rparr>))" using writes_root[OF save(2)] assms(3) by simp
  have content: "file_at (fsys (t\<lparr>fsys := fs\<rparr>)) (decimal (unat (at_id v))) FILE_LETHREAD = Some (enc_thread v ai)"
    using writes_file[OF save(2)] by simp
  have "queue_ok (t\<lparr>fsys := fs\<rparr>)" using assms(6) by simp
  then obtain q qs where load: "lethread_load (Ptr c) (at_id v) (t\<lparr>fsys := fs\<rparr>) = Inr (ok_status,
      t\<lparr>fsys := fs, q_queues := qs, f_threads := (f_threads t)\<lparr>cells := (cells (f_threads t))(c \<mapsto>
        \<lparr>lt_id = at_id v, lt_first_message_id = at_first v, lt_next_message_id = at_next v,
        lt_topic = Some (take MAX_TOPIC_SIZE (at_topic v)), lt_messages = q, lt_author = Null\<rparr>)\<rparr>\<rparr>)"
    "qok (q_nodes t) qs" "qitems (q_nodes t) qs = (items t)(q \<mapsto> [])" "items t q = None"
    by (rule lethread_load_law[OF _ old root content assms(4,5)]) auto
  define u where "u = t\<lparr>fsys := fs, q_queues := qs, f_threads := (f_threads t)\<lparr>cells :=
    (cells (f_threads t))(c \<mapsto> \<lparr>lt_id = at_id v, lt_first_message_id = at_first v,
      lt_next_message_id = at_next v, lt_topic = Some (take MAX_TOPIC_SIZE (at_topic v)),
      lt_messages = q, lt_author = Null\<rparr>)\<rparr>\<rparr>"
  from save(1) load show ?thesis
    by (intro exI[of _ "s\<lparr>fsys := fs\<rparr>"] exI[of _ u] exI[of _ q]) (simp add: u_def MAX_TOPIC_SIZE_def)
qed

lemma thread_file_roundtrip_witness:
  "\<exists>(s :: mem_io) s' u q. lethread_save (Ptr 0) s = Inr (0, s') \<and>
    lethread_load (Ptr 0) 7 (small_io\<lparr>fsys := fsys s'\<rparr>) = Inr (0, u) \<and>
    (\<exists>t. deref (f_threads u) (Ptr 0) = Inr t \<and> lt_topic t = Some ''topic'')"
proof -
  obtain s :: mem_io and v ai where s: "fsys s = no_files" "thread_at s (Ptr 0) = Some v"
    "at_author v = Some (ai, As)" "at_topic v = ''topic''" "at_id v = 7"
    by (rule small_io_posted)
  have "live (f_threads small_io) (Ptr 0)" using small_thread_at by (auto elim: viewE)
  moreover have "queue_ok small_io" using small_forum_ok by simp
  ultimately show ?thesis
    using thread_file_roundtrip[OF s(2,3), of small_io 0] s by fastforce
qed

text \<open>
  C37.  What \<open>lemessages_save\<close> writes is what \<open>lemessages_load\<close> reads into a thread of the same id
  whose counters announce that many messages: the same ids, author flags and texts, in order.
\<close>

theorem messages_file_roundtrip:
  assumes "thread_at s p = Some v" and "fs_root (fsys s)" and "list_all text_ok (map am_text (at_messages v))"
    and "forum_ok t" and "thread_at t p' = Some v'" and "at_id v' = at_id v" and "at_messages v' = []"
    and "unat (at_next v' - at_first v') = length (at_messages v)"
  shows "\<exists>s' u. lemessages_save p s = Inr (0, s') \<and>
    lemessages_load p' (t\<lparr>fsys := fsys s'\<rparr>) = Inr (0, u) \<and> forum_ok u \<and>
    thread_at u = (thread_at t)(p' \<mapsto> v'\<lparr>at_messages := at_messages v\<rparr>)"
proof -
  obtain fs where save: "lemessages_save p s = Inr (ok_status, s\<lparr>fsys := fs\<rparr>)"
    "writes (fsys s) (decimal (unat (at_id v))) FILE_LEMESSAGES (enc_messages (at_messages v)) fs"
    by (rule lemessages_save_law[OF assms(1,2)])
  let ?t = "t\<lparr>fsys := fs\<rparr>"
  have t: "forum_ok ?t" "thread_at ?t p' = Some v'" using assms(4,5) by simp_all
  have root: "fs_root (fsys ?t)" using writes_root[OF save(2)] assms(2) by simp
  have content: "file_at (fsys ?t) (decimal (unat (at_id v'))) FILE_LEMESSAGES = Some (enc_messages (at_messages v))"
    using writes_file[OF save(2)] assms(6) by simp
  obtain M nodes qs q ds where load: "lemessages_load p' ?t =
      Inr (ok_status, ?t\<lparr>f_messages := M, q_nodes := nodes, q_queues := qs\<rparr>)"
    "qok nodes qs" "fok (qitems nodes qs) (f_threads ?t) M (f_authors ?t)"
    "view (qitems nodes qs) (f_threads ?t) M (f_authors ?t) =
      (thread_at ?t)(p' \<mapsto> v'\<lparr>at_messages := at_messages v' @ at_messages v\<rparr>)"
    by (rule lemessages_load_law[OF t root content assms(8,3)])
  define u where "u = ?t\<lparr>f_messages := M, q_nodes := nodes, q_queues := qs\<rparr>"
  have "forum_ok u" using load(2,3) assms(4) by (simp add: u_def)
  with save(1) load(1,4) assms(7) show ?thesis
    by (intro exI[of _ "s\<lparr>fsys := fs\<rparr>"] exI[of _ u]) (simp add: u_def)
qed

lemma small_io_text_ok: "text_ok ''hello''"
  by (simp add: text_ok_def MAX_MESSAGE_SIZE_def)

lemma thread_view_next:
  "thread_view I M A x = Some v \<Longrightarrow> thread_view I M A (x\<lparr>lt_next_message_id := n\<rparr>) = Some (v\<lparr>at_next := n\<rparr>)"
  by (auto simp: thread_view_eq_Some)

lemma messages_file_roundtrip_witness:
  "\<exists>(s :: mem_io) (t :: mem_io) s' u. lemessages_save (Ptr 0) s = Inr (0, s') \<and>
    lemessages_load (Ptr 0) (t\<lparr>fsys := fsys s'\<rparr>) = Inr (0, u) \<and>
    (\<exists>v. thread_at u (Ptr 0) = Some v \<and> map am_text (at_messages v) = [''hello''])"
proof -
  obtain s :: mem_io and v ai where s: "forum_ok s" "fsys s = no_files" "thread_at s (Ptr 0) = Some v"
    "at_id v = 7" "at_messages v = [\<lparr>am_id = at_first v, am_text = ''hello'', am_by = 1\<rparr>]"
    "at_next v = at_first v + 1"
    by (rule small_io_posted)
  define t where "t = small_io\<lparr>f_threads := (f_threads small_io)\<lparr>cells := (cells (f_threads small_io))
    (0 := map_option (lt_next_message_id_update (\<lambda>n. n + 1)) (cells (f_threads small_io) 0))\<rparr>\<rparr>"
  obtain x where x: "cells (f_threads small_io) 0 = Some x"
    and tv: "thread_view (items small_io) (f_messages small_io) (f_authors small_io) x = Some small_thread"
    using small_thread_at by (auto elim: viewE)
  have nx: "lt_next_message_id x = at_next small_thread" using tv by (rule thread_viewE)
  have ok: "forum_ok small_io" using small_forum_ok by simp
  have only: "cells (f_threads small_io) b = (if b = 0 then Some x else None)" for b
    using x by (simp add: small_forum_def lethread_create_def cstr_def empty_forum_def rand_uint64_t_def queue_create_def
      new_obj_def empty_store_def Let_def split: if_splits)
  have tv': "thread_view (items t) (f_messages t) (f_authors t) (x\<lparr>lt_next_message_id := lt_next_message_id x + 1\<rparr>) =
      Some (small_thread\<lparr>at_next := at_next small_thread + 1\<rparr>)"
    using thread_view_next[OF tv, of "at_next small_thread + 1"] nx by (simp add: t_def)
  have t: "cells (f_threads t) b = (if b = 0 then Some (x\<lparr>lt_next_message_id := lt_next_message_id x + 1\<rparr>) else None)" for b
    using only by (simp add: t_def)
  have it: "items t = items small_io" by (simp add: t_def)
  have fok: "fok (items small_io) (f_threads small_io) (f_messages small_io) (f_authors small_io)"
    using ok by simp
  have "fok (items t) (f_threads t) (f_messages t) (f_authors t)"
    unfolding fok_def
  proof (intro conjI allI impI)
    have "brk (f_threads t) = brk (f_threads small_io)" by (simp add: t_def)
    with store_ok_less[OF fokD(1)[OF fok] x] show "store_ok (f_threads t)" by (simp add: store_ok_def t)
    show "store_ok (f_messages t)" "store_ok (f_authors t)" using fokD(2,3)[OF fok] by (simp_all add: t_def)
    show "distinct ds" if "cells (f_threads t) a = Some w" "items t (lt_messages w) = Some ds" for a w ds
      using that fokD(5)[OF fok x, of ds] it by (auto simp: t simp del: small_io_simps split: if_splits)
  qed (use t tv' in \<open>auto split: if_splits\<close>)
  then have okt: "forum_ok t" using ok by (simp add: t_def)
  have at: "thread_at t (Ptr 0) = Some (small_thread\<lparr>at_next := at_next small_thread + 1\<rparr>)"
    using tv' t by (simp add: view_Ptr)
  have root: "fs_root (fsys s)" using s(2) by simp
  have texts: "list_all text_ok (map am_text (at_messages v))" using s(5) small_io_text_ok by simp
  have "at_id (small_thread\<lparr>at_next := at_next small_thread + 1\<rparr>) = at_id v"
    "at_messages (small_thread\<lparr>at_next := at_next small_thread + 1\<rparr>) = []"
    "unat (at_next (small_thread\<lparr>at_next := at_next small_thread + 1\<rparr>) -
      at_first (small_thread\<lparr>at_next := at_next small_thread + 1\<rparr>)) = length (at_messages v)"
    using s(4,5) by (simp_all add: small_thread_def)
  from messages_file_roundtrip[OF s(3) root texts okt at this] obtain s' u where
    "lemessages_save (Ptr 0) s = Inr (0, s')" "lemessages_load (Ptr 0) (t\<lparr>fsys := fsys s'\<rparr>) = Inr (0, u)"
    "thread_at u (Ptr 0) = Some ((small_thread\<lparr>at_next := at_next small_thread + 1\<rparr>)\<lparr>at_messages := at_messages v\<rparr>)"
    by auto
  with s(5) show ?thesis by (intro exI[of _ s] exI[of _ t] exI[of _ s'] exI[of _ u]) auto
qed

text \<open>
  The author comes back too: \<open>leauthor_load\<close> gives the thread the id and the 24 token bytes
  that \<open>leauthor_save\<close> wrote, now followed by a terminator.
\<close>

lemma author_file_roundtrip:
  assumes "thread_at s p = Some v" and "at_author v = Some (ai, tk)" and "24 \<le> length tk" and "fs_root (fsys s)"
    and "forum_ok t" and "thread_at t p' = Some v'" and "at_id v' = at_id v"
    and "rand_uint64_t (urandom t) = Inr (r, dev)"
  shows "\<exists>s' u. leauthor_save p s = Inr (0, s') \<and>
    leauthor_load p' (t\<lparr>fsys := fsys s'\<rparr>) = Inr (0, u) \<and> forum_ok u \<and>
    thread_at u = (thread_at t)(p' \<mapsto> v'\<lparr>at_author := Some (ai, take 24 tk @ [NUL])\<rparr>)"
proof -
  have len: "TOKEN_SIZE \<le> length tk" using assms(3) by (simp add: TOKEN_SIZE_def)
  obtain fs where save: "leauthor_save p s = Inr (ok_status, s\<lparr>fsys := fs\<rparr>)"
    "writes (fsys s) (decimal (unat (at_id v))) FILE_LEAUTHOR (le64 ai @ take TOKEN_SIZE tk) fs"
    by (rule leauthor_save_law[OF assms(1,2) len assms(4)])
  let ?t = "t\<lparr>fsys := fs\<rparr>"
  have t: "forum_ok ?t" "thread_at ?t p' = Some v'" using assms(5,6) by simp_all
  have root: "fs_root (fsys ?t)" using writes_root[OF save(2)] assms(4) by simp
  have content: "file_at (fsys ?t) (decimal (unat (at_id v'))) FILE_LEAUTHOR = Some (le64 ai @ take TOKEN_SIZE tk)"
    using writes_file[OF save(2)] assms(7) by simp
  have tk: "length (take TOKEN_SIZE tk) = TOKEN_SIZE" using len by simp
  have rnd: "rand_uint64_t (urandom ?t) = Inr (r, dev)" using assms(8) by simp
  obtain T A where load: "leauthor_load p' ?t = Inr (ok_status, ?t\<lparr>urandom := dev, f_threads := T, f_authors := A\<rparr>)"
    "fok (items ?t) T (f_messages ?t) A"
    "view (items ?t) T (f_messages ?t) A = (thread_at ?t)(p' \<mapsto> v'\<lparr>at_author := Some (ai, take TOKEN_SIZE tk @ [NUL])\<rparr>)"
    by (rule leauthor_load_law[OF t root content tk rnd])
  define u where "u = ?t\<lparr>urandom := dev, f_threads := T, f_authors := A\<rparr>"
  have "forum_ok u" using load(2) assms(5) by (simp add: u_def)
  with save(1) load(1,3) show ?thesis
    by (intro exI[of _ "s\<lparr>fsys := fs\<rparr>"] exI[of _ u]) (simp add: u_def TOKEN_SIZE_def)
qed

lemma author_file_roundtrip_witness:
  "\<exists>(s :: mem_io) s' u. leauthor_save (Ptr 0) s = Inr (0, s') \<and>
    leauthor_load (Ptr 0) (small_io\<lparr>fsys := fsys s'\<rparr>) = Inr (0, u) \<and>
    (\<exists>v ai. thread_at u (Ptr 0) = Some v \<and> at_author v = Some (ai, As @ [NUL]))"
proof -
  obtain s :: mem_io and v ai where s: "fsys s = no_files" "thread_at s (Ptr 0) = Some v"
    "at_author v = Some (ai, As)" "at_id v = 7"
    by (rule small_io_posted)
  have As: "length As = 24" by (simp add: As_def)
  have ok: "forum_ok small_io" using small_forum_ok by simp
  have at: "thread_at small_io (Ptr 0) = Some small_thread" using small_thread_at by simp
  have rnd: "rand_uint64_t (urandom small_io) = Inr (un_le64 (replicate 8 (CHR ''A'')), replicate 32 (CHR ''A''))"
    using small_forum_rand(1) by simp
  have "at_id small_thread = at_id v" using s(4) by (simp add: small_thread_def)
  from author_file_roundtrip[OF s(2,3) _ _ ok at this rnd] As s(1) obtain s' u where
    "leauthor_save (Ptr 0) s = Inr (0, s')" "leauthor_load (Ptr 0) (small_io\<lparr>fsys := fsys s'\<rparr>) = Inr (0, u)"
    "thread_at u (Ptr 0) = Some (small_thread\<lparr>at_author := Some (ai, take 24 As @ [NUL])\<rparr>)"
    by auto
  with As show ?thesis by (intro exI[of _ s] exI[of _ s'] exI[of _ u]) auto
qed

text \<open>
  While the message file of a thread holds its messages, posting one and saving it alone keeps
  it so: the file then is what saving the whole thread would have written.
\<close>

lemma message_file_follows_thread:
  assumes "forum_ok s" and "thread_at s p = Some v" and "3 \<le> length tx" and "length tx \<le> 512"
    and "fs_root (fsys s)"
    and "(case file_at (fsys s) (decimal (unat (at_id v))) FILE_LEMESSAGES of None \<Rightarrow> [] | Some c \<Rightarrow> c) =
      enc_messages (at_messages v)"
  shows "\<exists>m t u w. lemessage_create p (Some tx) by s = Inr (0, m, t) \<and> thread_at t p = Some w \<and>
    at_messages w = at_messages v @ [\<lparr>am_id = at_next v, am_text = tx, am_by = by\<rparr>] \<and>
    lemessage_save m t = Inr (0, u) \<and> thread_at u = thread_at t \<and>
    file_at (fsys u) (decimal (unat (at_id v))) FILE_LEMESSAGES = Some (enc_messages (at_messages w))"
proof -
  let ?m = "\<lparr>am_id = at_next v, am_text = tx, am_by = by\<rparr>"
  define w where "w = v\<lparr>at_messages := at_messages v @ [?m], at_next := at_next v + 1\<rparr>"
  obtain b t where t: "lemessage_create p (Some tx) by s = Inr (0, Ptr b, t)" "thread_at t = (thread_at s)(p \<mapsto> w)"
    "fsys t = fsys s" "deref (f_messages t) (Ptr b) = Inr \<lparr>lm_id = at_next v, lm_text = Some tx,
       lm_by_lethread_author = by, lm_lethread = p\<rparr>"
    by (rule lemessage_create_law[OF assms(1,2), of tx "by"]) (use assms(3,4) in \<open>auto simp: size_limits w_def\<close>)
  have "thread_at t p = Some w" using t(2) by simp
  then obtain c x where x: "p = Ptr c" "cells (f_threads t) c = Some x" "lt_id x = at_id w"
    by (rule thread_viewD)
  have deref: "deref (f_threads t) p = Inr x" using x by simp
  have root: "fs_root (fsys t)" using t(3) assms(5) by simp
  obtain fs where save: "lemessage_save (Ptr b) t = Inr (ok_status, t\<lparr>fsys := fs\<rparr>)"
    "writes (fsys t) (decimal (unat (lt_id x))) FILE_LEMESSAGES
      ((case file_at (fsys t) (decimal (unat (lt_id x))) FILE_LEMESSAGES of None \<Rightarrow> [] | Some c \<Rightarrow> c) @
       enc_message (at_next v, by, tx)) fs"
    by (rule lemessage_save_law[OF t(4) _ _ root, of tx x]) (use deref in auto)
  have "file_at fs (decimal (unat (at_id v))) FILE_LEMESSAGES = Some (enc_messages (at_messages w))"
    using writes_file[OF save(2)] assms(6) x(3) t(3) by (simp add: w_def)
  with t save(1) show ?thesis
    by (intro exI[of _ "Ptr b"] exI[of _ t] exI[of _ "t\<lparr>fsys := fs\<rparr>"] exI[of _ w]) (simp add: w_def)
qed

lemma message_file_follows_thread_witness:
  "\<exists>m t u w. lemessage_create (Ptr 0) (Some ''hello'') 0 small_io = Inr (0, m, t) \<and> lemessage_save m t = Inr (0, u) \<and>
    file_at (fsys u) (decimal 7) FILE_LEMESSAGES = Some (enc_messages [w]) \<and> am_text w = ''hello''"
proof -
  have ok: "forum_ok small_io" using small_forum_ok by simp
  have at: "thread_at small_io (Ptr 0) = Some small_thread" using small_thread_at by simp
  have pre: "3 \<le> length ''hello''" "length ''hello'' \<le> 512" "fs_root (fsys small_io)"
    "(case file_at (fsys small_io) (decimal (unat (at_id small_thread))) FILE_LEMESSAGES of None \<Rightarrow> [] | Some c \<Rightarrow> c) =
      enc_messages (at_messages small_thread)" by (simp_all add: small_thread_def)
  obtain m t u and w :: athread where r: "lemessage_create (Ptr 0) (Some ''hello'') 0 small_io = Inr (0, m, t)"
    "lemessage_save m t = Inr (0, u)" "at_messages w = at_messages small_thread @
       [\<lparr>am_id = at_next small_thread, am_text = ''hello'', am_by = 0\<rparr>]"
    "file_at (fsys u) (decimal (unat (at_id small_thread))) FILE_LEMESSAGES = Some (enc_messages (at_messages w))"
    using message_file_follows_thread[OF ok at pre, of 0] by blast
  from r show ?thesis
    by (intro exI[of _ m] exI[of _ t] exI[of _ u] exI[of _ "hd (at_messages w)"]) (simp add: small_thread_def)
qed

text \<open>
  The directory that is made for a thread is named so that \<open>startup\<close> reads the thread's id
  back from the name, and the directories of different threads have different names.
\<close>

lemma directory_names_give_ids:
  assumes "fs_root fs"
  shows "\<exists>h fs' d. get_lefile i Wb f True fs = Inr (0, Some h, fs') \<and> lf_dir h = d \<and> has_dir d fs' \<and>
    strtoull d = i \<and> (\<forall>j. strtoull d = j \<longleftrightarrow> decimal (unat j) = d)"
proof -
  obtain fs' where "get_lefile i Wb f True fs = Inr (ok_status, Some (opened (decimal (unat i)) f), fs')"
    "writes fs (decimal (unat i)) f [] fs'" by (rule get_lefile_wb[OF assms])
  with writes_has_dir[OF this(2)] show ?thesis
    by (intro exI[of _ "opened (decimal (unat i)) f"] exI[of _ fs'] exI[of _ "decimal (unat i)"])
      (auto simp: strtoull_decimal decimal_inj simp flip: word_unat_eq_iff)
qed

lemma directory_names_give_ids_witness:
  "\<exists>h fs'. get_lefile 42 Wb FILE_LETHREAD True no_files = Inr (0, Some h, fs') \<and> strtoull (lf_dir h) = 42"
  using directory_names_give_ids[of no_files 42 FILE_LETHREAD] by auto

end
