(* ===== verification/Client_State.thy ===== *)
theory Client_State
  imports Util Communication Client_Query Forum_IO
begin

text \<open>
  \<open>client/client.h\<close> and the first part of \<open>client/client.c\<close>: the globals of the client, its menus
  and the way it talks to the user.

  Standard input and output are lists of bytes; what goes to the error stream is left out.  The
  network is the list of what each attempt to connect will meet.  While the program waits for input
  the query thread goes on and signals may come: \<open>c_events\<close> lists, for each line of input, what
  happens before it is there.  Between those points the main thread is taken to be fast.
\<close>

section \<open>State\<close>

text \<open>\<open>addr\<close> is the C string in the 32 bytes.\<close>

record haddress =
  ha_addr :: bytes
  ha_port :: u16

text \<open>The members of \<open>struct sockaddr_in\<close> that the client sets: the port, and the four bytes of the address.\<close>

record sockaddr_in =
  sin_port :: u16
  sin_addr :: bytes

text \<open>What \<open>socket\<close> and \<open>connect\<close> do.\<close>

datatype net_event = Socket_fails | Connect_fails | Connects socket

text \<open>What happens while the main thread waits: a pass of \<open>query_loop\<close>, or a signal.\<close>

datatype event = Query_pass | Signal

text \<open>
  Memory falls into parts that no pointer leaves: the queue of addresses, the queue of queries with
  the queries, and in \<open>c_heap\<close> the threads and queues of threads that responses are parsed into.
\<close>

record mem_history = mem_queue +
  h_haddrs :: "haddress store"

record mem_pending = mem_queue +
  p_queries :: "server_query store"

text \<open>
  \<open>c_files\<close> are the files in the client's directory, if there is one.  \<open>c_response_size\<close> is the
  variable \<open>response_size\<close> of \<open>query_loop\<close>, which keeps its bytes from one pass to the next.
  \<open>c_capacity\<close> says how much of a block can be used.
\<close>

record client =
  g_working :: bool
  g_server_connected :: bool
  g_server_addr :: sockaddr_in
  g_server_fd :: socket
  g_server_meta :: lemeta
  g_server_addr_history :: ptr
  g_server_haddr :: haddress
  g_server_queries :: ptr
  g_active_thread_exists :: bool
  g_active_thread_id :: u64
  g_home_dir :: bytes
  c_heap :: mem_forum
  c_pending :: mem_pending
  c_history :: mem_history
  c_infos :: "created_thread_info store"
  c_metas :: "lemeta store"
  c_response_size :: bytes
  c_stdin :: bytes
  c_stdout :: bytes
  c_events :: "event list list"
  c_net :: "net_event list"
  c_dir :: bool
  c_files :: "bytes \<Rightarrow> bytes option"
  c_capacity :: "nat \<Rightarrow> nat"

section \<open>Output\<close>

text \<open>\<open>printf\<close> of a text, \<open>puts\<close>, and \<open>newline\<close> of \<open>util.h\<close>.\<close>

definition say :: "bytes \<Rightarrow> client \<Rightarrow> client" where
  "say str s = s\<lparr>c_stdout := c_stdout s @ str\<rparr>"

definition puts :: "bytes \<Rightarrow> client \<Rightarrow> client" where
  "puts str s = say (str @ [newline]) s"

definition say_newline :: "client \<Rightarrow> client" where
  "say_newline s = say [newline] s"

text \<open>\<open>%zu\<close>, \<open>%" PRIu64 "\<close> and \<open>%hd\<close>, which takes the port for a signed number of 16 bits.\<close>

definition show_u64 :: "u64 \<Rightarrow> bytes" where
  "show_u64 w = decimal (unat w)"

definition show_short :: "u16 \<Rightarrow> bytes" where
  "show_short w = (if unat w < 2 ^ 15 then decimal (unat w) else CHR ''-'' # decimal (2 ^ 16 - unat w))"

text \<open>\<open>%s\<close>; the C library writes \<open>(null)\<close> for a null string.\<close>

definition printed :: "bytes option \<Rightarrow> bytes" where
  "printed str = (case str of None \<Rightarrow> ''(null)'' | Some str \<Rightarrow> str)"

section \<open>Input\<close>

text \<open>\<open>s_fgets(str, n, stdin)\<close>: the size, and the string unless nothing was read.\<close>

definition read_stdin :: "nat \<Rightarrow> client \<Rightarrow> u64 \<times> bytes option \<times> client" where
  "read_stdin n s =
     (let (sz, str, rest) = s_fgets n (c_stdin s) in (sz, str, s\<lparr>c_stdin := rest\<rparr>))"

text \<open>
  \<open>if (s_fgets(str, n, stdin) < 0) newline();\<close>.  When nothing was read the caller goes on with the
  block as it was, uninitialised.
\<close>

definition read_field :: "nat \<Rightarrow> client \<Rightarrow> (bytes \<times> client) res" where
  "read_field n s =
     (let (sz, str, s) = read_stdin n s in
      case str of None \<Rightarrow> Inl Uninitialised | Some str \<Rightarrow> Inr (str, s))"

definition read_range :: "u64 \<Rightarrow> u64 \<Rightarrow> client \<Rightarrow> (u64 \<times> bytes \<times> client) res" where
  "read_range mn mx s =
     andthen (s_fgets_range (unat mn) (unat mx) (c_stdin s)) (\<lambda>(sz, str, rest).
     Inr (sz, str, s\<lparr>c_stdin := rest\<rparr>))"

section \<open>Menus\<close>

text \<open>The enumerations; \<open>_MCID_BEGIN\<close> is 0, and the commands follow it.\<close>

datatype main_cmd = MCID_SERVER | MCID_THREAD | MCID_SETTINGS | MCID_EXIT
datatype server_cmd = SCID_CONNECT_DISCONNECT | SCID_INFO | SCID_HISTORY | SCID_BACK
datatype thread_cmd = TCID_CREATE | TCID_FIND | TCID_INFO | TCID_MESSAGES | TCID_SEND_MESSAGE | TCID_BACK
datatype settings_cmd = STGCID_BACK

definition MainCmdIDs :: "main_cmd list" where
  "MainCmdIDs = [MCID_SERVER, MCID_THREAD, MCID_SETTINGS, MCID_EXIT]"

definition ServerCmdIDs :: "server_cmd list" where
  "ServerCmdIDs = [SCID_CONNECT_DISCONNECT, SCID_INFO, SCID_HISTORY, SCID_BACK]"

definition ThreadCmdIDs :: "thread_cmd list" where
  "ThreadCmdIDs = [TCID_CREATE, TCID_FIND, TCID_INFO, TCID_MESSAGES, TCID_SEND_MESSAGE, TCID_BACK]"

definition SettingsCmdIDs :: "settings_cmd list" where
  "SettingsCmdIDs = [STGCID_BACK]"

text \<open>The command with the given number, as \<open>switch\<close> finds it.\<close>

definition cmd_of :: "'c list \<Rightarrow> i32 \<Rightarrow> 'c option" where
  "cmd_of cmds cmd_id =
     (if 1 \<le> unat cmd_id \<and> unat cmd_id \<le> length cmds then Some (cmds ! (unat cmd_id - 1)) else None)"

definition MainCmdID_REPR :: "i32 \<Rightarrow> bytes option" where
  "MainCmdID_REPR i =
     (case cmd_of MainCmdIDs i of
        Some MCID_SERVER \<Rightarrow> Some ''Server''
      | Some MCID_THREAD \<Rightarrow> Some ''Thread''
      | Some MCID_SETTINGS \<Rightarrow> Some ''Settings''
      | Some MCID_EXIT \<Rightarrow> Some ''Exit''
      | None \<Rightarrow> None)"

definition ServerCmdID_REPR :: "bool \<Rightarrow> i32 \<Rightarrow> bytes option" where
  "ServerCmdID_REPR connected i =
     (case cmd_of ServerCmdIDs i of
        Some SCID_CONNECT_DISCONNECT \<Rightarrow> Some (if connected then ''Disconnect'' else ''Connect'')
      | Some SCID_INFO \<Rightarrow> Some ''Server information''
      | Some SCID_HISTORY \<Rightarrow> Some ''Server history''
      | Some SCID_BACK \<Rightarrow> Some ''Back''
      | None \<Rightarrow> None)"

definition ThreadCmdID_REPR :: "i32 \<Rightarrow> bytes option" where
  "ThreadCmdID_REPR i =
     (case cmd_of ThreadCmdIDs i of
        Some TCID_CREATE \<Rightarrow> Some ''Create thread''
      | Some TCID_FIND \<Rightarrow> Some ''Find thread''
      | Some TCID_INFO \<Rightarrow> Some ''Thread info''
      | Some TCID_MESSAGES \<Rightarrow> Some ''Message history''
      | Some TCID_SEND_MESSAGE \<Rightarrow> Some ''Post message''
      | Some TCID_BACK \<Rightarrow> Some ''Back''
      | None \<Rightarrow> None)"

definition SettingsCmdID_REPR :: "i32 \<Rightarrow> bytes option" where
  "SettingsCmdID_REPR i =
     (case cmd_of SettingsCmdIDs i of
        Some STGCID_BACK \<Rightarrow> Some ''Back''
      | None \<Rightarrow> None)"

text \<open>The loops that print a menu, from \<open>_BEGIN + 1\<close> up to \<open>_END\<close>.\<close>

definition print_cmds :: "'c list \<Rightarrow> (i32 \<Rightarrow> bytes option) \<Rightarrow> client \<Rightarrow> client" where
  "print_cmds cmds repr s =
     fold (\<lambda>i. say (decimal i @ '' - '' @ printed (repr (of_nat i)) @ [newline])) [1..<Suc (length cmds)] s"

definition print_menu_server :: "client \<Rightarrow> client" where
  "print_menu_server s =
     print_cmds ServerCmdIDs (ServerCmdID_REPR (g_server_connected s)) (puts ''Available server commands:'' s)"

definition print_menu_thread :: "client \<Rightarrow> client" where
  "print_menu_thread s = print_cmds ThreadCmdIDs ThreadCmdID_REPR (puts ''Available thread commands:'' s)"

definition print_menu_settings :: "client \<Rightarrow> client" where
  "print_menu_settings s =
     print_cmds SettingsCmdIDs SettingsCmdID_REPR (puts ''Available settings commands:'' s)"

definition print_menu_main :: "client \<Rightarrow> client" where
  "print_menu_main s = print_cmds MainCmdIDs MainCmdID_REPR (puts ''Available commands:'' s)"

definition print_prefix_server :: "client \<Rightarrow> client" where
  "print_prefix_server s = say ''[Server] > '' (say_newline s)"

definition print_prefix_thread :: "client \<Rightarrow> client" where
  "print_prefix_thread s = say ''[Thread] > '' (say_newline s)"

definition print_prefix_settings :: "client \<Rightarrow> client" where
  "print_prefix_settings s = say ''[Settings] > '' (say_newline s)"

definition print_prefix_main :: "client \<Rightarrow> client" where
  "print_prefix_main s = say ''[*] > '' (say_newline s)"

lemmas print_defs = say_def puts_def say_newline_def print_prefix_server_def print_prefix_thread_def
  print_prefix_settings_def print_prefix_main_def

end
