(* ===== verification/Client_Files.thy ===== *)
theory Client_Files
  imports Client_State
begin

text \<open>
  The files of the client in \<open>client/client.c\<close>: the servers it has been connected to, one per line,
  and the token of every thread it has created, in a file named by the thread's id.
\<close>

section \<open>Files\<close>

definition FILE_SERVER_HISTORY :: bytes where
  "FILE_SERVER_HISTORY = ''servers''"

text \<open>\<open>"r"\<close>, \<open>"w+"\<close> and \<open>"a+"\<close>.\<close>

datatype cmode = Mode_r | Mode_w | Mode_a

text \<open>An open file: its name, and what is left to read of it.\<close>

record stream =
  st_name :: bytes
  st_input :: bytes

text \<open>\<open>fopen\<close>; \<open>None\<close> is the null pointer.\<close>

definition fopen_client :: "cmode \<Rightarrow> bytes \<Rightarrow> client \<Rightarrow> stream option \<times> client" where
  "fopen_client mode filename s =
     (case mode of
        Mode_r \<Rightarrow>
          (if c_dir s then map_option (\<lambda>c. \<lparr>st_name = filename, st_input = c\<rparr>) (c_files s filename) else None, s)
      | Mode_w \<Rightarrow>
          if c_dir s then (Some \<lparr>st_name = filename, st_input = []\<rparr>, s\<lparr>c_files := (c_files s)(filename \<mapsto> [])\<rparr>)
          else (None, s)
      | Mode_a \<Rightarrow>
          if \<not> c_dir s then (None, s)
          else
            case c_files s filename of
              None \<Rightarrow> (Some \<lparr>st_name = filename, st_input = []\<rparr>, s\<lparr>c_files := (c_files s)(filename \<mapsto> [])\<rparr>)
            | Some c \<Rightarrow> (Some \<lparr>st_name = filename, st_input = c\<rparr>, s))"

text \<open>\<open>fputs\<close> and \<open>fprintf\<close>; both modes for writing add at the end here.\<close>

definition fputs_client :: "bytes \<Rightarrow> stream option \<Rightarrow> client \<Rightarrow> client res" where
  "fputs_client str file s =
     (case file of
        None \<Rightarrow> Inl NullDeref
      | Some f \<Rightarrow>
          case c_files s (st_name f) of
            None \<Rightarrow> Inr s
          | Some c \<Rightarrow> Inr (s\<lparr>c_files := (c_files s)(st_name f \<mapsto> c @ str)\<rparr>))"

text \<open>
  \<open>get_leclient_file\<close>.  The path always fits its block.  The status is \<open>LESTATUS_OK\<close> also when
  \<open>fopen\<close> fails.
\<close>

definition get_leclient_file ::
  "bytes \<Rightarrow> cmode \<Rightarrow> bool \<Rightarrow> client \<Rightarrow> status_t \<times> stream option \<times> client" where
  "get_leclient_file filename mode create s =
     (if (\<not> c_dir s \<or> c_files s filename = None) \<and> \<not> create then (err LESTATUS_NSFD, None, s)
      else
        let (file, s) = fopen_client mode filename s
        in (ok_status, file, s))"

section \<open>Servers\<close>

text \<open>\<open>sprintf(formatted_address, "%s %hd", addr, port)\<close> into 64 bytes.\<close>

definition format_address :: "bytes \<Rightarrow> u16 \<Rightarrow> bytes" where
  "format_address addr port = addr @ '' '' @ show_short port"

text \<open>The loop over \<open>getline\<close>: is there a line equal to the address?\<close>

function address_known :: "bytes \<Rightarrow> bytes \<Rightarrow> bool" where
  "address_known formatted_address inp =
     (if inp = [] then False
      else if takeWhile (\<lambda>c. c \<noteq> NUL \<and> c \<noteq> newline) inp = formatted_address then True
      else address_known formatted_address (drop 1 (dropWhile (\<lambda>c. c \<noteq> newline) inp)))"
  by pat_completeness auto
termination
proof (relation "measure (\<lambda>(a, inp). length inp)")
  fix a inp :: bytes
  assume "inp \<noteq> []"
  moreover have "length (dropWhile (\<lambda>c. c \<noteq> newline) inp) \<le> length inp" by (rule length_dropWhile_le)
  ultimately show "((a, drop 1 (dropWhile (\<lambda>c. c \<noteq> newline) inp)), a, inp) \<in> measure (\<lambda>(a, inp). length inp)"
    by (cases inp) auto
qed simp

declare address_known.simps [simp del]

definition server_addr_save :: "bytes \<Rightarrow> u16 \<Rightarrow> client \<Rightarrow> (status_t \<times> client) res" where
  "server_addr_save addr port s =
     (let formatted_address = format_address addr port in
      if 64 \<le> length formatted_address then Inl OutOfBounds
      else
        let (status, file, s) = get_leclient_file FILE_SERVER_HISTORY Mode_r False s in
        andthen
          (if status \<noteq> err LESTATUS_NSFD
           then case file of None \<Rightarrow> Inl NullDeref | Some f \<Rightarrow> Inr (address_known formatted_address (st_input f))
           else Inr False) (\<lambda>contains.
        if contains then Inr (err LESTATUS_EXST, s)
        else
          let (status, file, s) = get_leclient_file FILE_SERVER_HISTORY Mode_a True s in
          if status < 0 then Inr (err LESTATUS_CLIB, s)
          else
            andthen (fputs_client formatted_address file s) (\<lambda>s.
            andthen (fputs_client [newline] file s) (\<lambda>s.
            Inr (ok_status, s)))))"

text \<open>
  \<open>sscanf(tmp, "%s %hd", h_addr, &h_port)\<close>: a word, which has to fit the 32 bytes of \<open>h_addr\<close>,
  then a number.  What is missing leaves its variable as it was, indeterminate at first.
\<close>

definition scan_address :: "bytes \<Rightarrow> bytes option \<times> u16 option \<Rightarrow> (bytes option \<times> u16 option) res" where
  "scan_address tmp old =
     (let tmp = dropWhile is_space tmp; word = takeWhile (\<lambda>c. \<not> is_space c) tmp in
      if word = [] then Inr old
      else if 32 \<le> length word then Inl OutOfBounds
      else Inr (Some word,
        case strtol (drop (length word) tmp) of None \<Rightarrow> snd old | Some v \<Rightarrow> Some (of_int v)))"

text \<open>The loop of \<open>server_addr_history_load\<close> over the lines of the file.\<close>

function history_loop ::
  "bytes option \<times> u16 option \<Rightarrow> bytes \<Rightarrow> ptr \<Rightarrow> mem_history \<Rightarrow> mem_history res" where
  "history_loop hp inp q h =
     (case s_fgets 64 inp of
        (_, None, _) \<Rightarrow> Inr h
      | (bytes_read, Some tmp, rest) \<Rightarrow>
          if 0 <s bytes_read then
            andthen (scan_address tmp hp) (\<lambda>hp.
            case hp of
              (Some h_addr, Some h_port) \<Rightarrow>
                let (p, haddrs) = new_obj \<lparr>ha_addr = h_addr, ha_port = h_port\<rparr> (h_haddrs h) in
                andthen (queue_push q p (h\<lparr>h_haddrs := haddrs\<rparr>)) (\<lambda>(st, h).
                history_loop hp rest q h)
            | _ \<Rightarrow> Inl Uninitialised)
          else Inr h)"
  by pat_completeness auto
termination
  by (relation "measure (\<lambda>(hp, inp, q, h). length inp)") (auto dest!: sym[of "(_, _)" "s_fgets _ _"] s_fgets_progress)

declare history_loop.simps [simp del]

text \<open>\<open>free\<close>, the destructor of that queue.\<close>

definition free_haddress :: "destructor \<Rightarrow> ptr \<Rightarrow> mem_history \<Rightarrow> mem_history res" where
  "free_haddress d p h = andthen (free_obj p (h_haddrs h)) (\<lambda>haddrs. Inr (h\<lparr>h_haddrs := haddrs\<rparr>))"

definition server_addr_history_load :: "client \<Rightarrow> (status_t \<times> client) res" where
  "server_addr_history_load s =
     (let (status, file, s) = get_leclient_file FILE_SERVER_HISTORY Mode_r False s in
      if status = err LESTATUS_NSFD then Inr (err LESTATUS_NSFD, s)
      else
        andthen
          (if g_server_addr_history s \<noteq> Null
           then queue_delete free_haddress (g_server_addr_history s) (c_history s)
           else Inr (ok_status, c_history s)) (\<lambda>(st, h).
        let (st, q, h) = queue_create Libc_free h in
        case file of
          None \<Rightarrow> Inl NullDeref
        | Some f \<Rightarrow>
            andthen (history_loop (None, None) (st_input f) q h) (\<lambda>h.
            Inr (ok_status, s\<lparr>g_server_addr_history := q, c_history := h\<rparr>))))"

section \<open>Tokens\<close>

definition token_save :: "bytes \<Rightarrow> client \<Rightarrow> (status_t \<times> client) res" where
  "token_save token s =
     (if \<not> g_active_thread_exists s then Inr (err LESTATUS_IDAT, s)
      else
        let srepr_thread_id = show_u64 (g_active_thread_id s);
            (status, file, s) = get_leclient_file srepr_thread_id Mode_w True s in
        if status = err LESTATUS_CLIB then Inr (err LESTATUS_CLIB, s)
        else
          andthen (fputs_client token file s) (\<lambda>s.
          Inr (ok_status, s)))"

text \<open>The token is a block of \<open>TOKEN_SIZE + 1\<close> bytes, zero behind the string.\<close>

definition token_load :: "client \<Rightarrow> (status_t \<times> bytes option \<times> client) res" where
  "token_load s =
     (if \<not> g_active_thread_exists s then Inr (err LESTATUS_IDAT, None, s)
      else
        let srepr_thread_id = show_u64 (g_active_thread_id s);
            (status, file, s) = get_leclient_file srepr_thread_id Mode_r False s in
        if status = err LESTATUS_NSFD then Inr (err LESTATUS_NSFD, None, s)
        else
          case file of
            None \<Rightarrow> Inl NullDeref
          | Some f \<Rightarrow>
              let (sz, str, rest) = s_fgets (TOKEN_SIZE + 1) (st_input f);
                  str = (case str of None \<Rightarrow> [] | Some str \<Rightarrow> str)
              in Inr (ok_status, Some (str @ replicate (TOKEN_SIZE + 1 - length str) NUL), s))"

end
