(* ===== verification/Client_Net.thy ===== *)
theory Client_Net
  imports Client_Files
begin

text \<open>
  The query thread of \<open>client/client.c\<close> and the main thread's side of it: a query is pushed, the
  main thread spins until it is completed, \<open>query_loop\<close> sends it and parses the answer.  A pass of
  \<open>query_loop\<close> is taken to run without interruption.
\<close>

section \<open>Addresses\<close>

text \<open>\<open>inet_pton(AF_INET, ...)\<close>: four decimal numbers up to 255, without leading zeros.\<close>

fun split_dots :: "bytes \<Rightarrow> bytes list" where
  "split_dots [] = [[]]"
| "split_dots (c # cs) =
     (if c = CHR ''.'' then [] # split_dots cs
      else case split_dots cs of p # ps \<Rightarrow> (c # p) # ps | [] \<Rightarrow> [[c]])"

definition octet :: "bytes \<Rightarrow> bool" where
  "octet ds \<longleftrightarrow> ds \<noteq> [] \<and> list_all is_digit ds \<and> digits_val 0 ds \<le> 255 \<and>
     (hd ds = CHR ''0'' \<longrightarrow> length ds = 1)"

definition inet_pton :: "bytes \<Rightarrow> bytes option" where
  "inet_pton addr =
     (let ps = split_dots addr in
      if length ps = 4 \<and> list_all octet ps then Some (map (\<lambda>p. char_of (digits_val 0 p)) ps) else None)"

section \<open>Disconnecting\<close>

definition server_disconnect :: "client \<Rightarrow> status_t \<times> client" where
  "server_disconnect s =
     (if \<not> g_server_connected s then (err LESTATUS_NFND, s)
      else (ok_status, s\<lparr>g_server_connected := False, g_active_thread_exists := False, g_active_thread_id := 0\<rparr>))"

section \<open>The query loop\<close>

text \<open>\<open>query->parse_response(raw_response, bytes_read, &query->parsed_data)\<close>: the new value of \<open>parsed_data\<close>.\<close>

definition parse_response ::
  "parser \<Rightarrow> bytes \<Rightarrow> nat \<Rightarrow> ptr \<Rightarrow> client \<Rightarrow> (ptr \<times> client) res" where
  "parse_response parser raw sz old s =
     (case parser of
        Parse_response_CTHR \<Rightarrow>
          andthen (parse_response_CTHR (c_capacity s) raw) (\<lambda>(st, info).
          case info of None \<Rightarrow> Inr (old, s)
          | Some i \<Rightarrow> let (p, infos) = new_obj i (c_infos s) in Inr (p, s\<lparr>c_infos := infos\<rparr>))
      | Parse_response_GTHR \<Rightarrow>
          andthen (parse_response_GTHR raw (c_heap s)) (\<lambda>(st, t, heap).
          Inr (case t of None \<Rightarrow> old | Some p \<Rightarrow> p, s\<lparr>c_heap := heap\<rparr>))
      | Parse_response_FTHR \<Rightarrow>
          andthen (parse_response_FTHR raw sz (c_heap s)) (\<lambda>(st, q, heap).
          Inr (case q of None \<Rightarrow> old | Some p \<Rightarrow> p, s\<lparr>c_heap := heap\<rparr>))
      | Parse_response_CMSG \<Rightarrow> andthen (parse_response_CMSG raw) (\<lambda>st. Inr (old, s))
      | Parse_response_META \<Rightarrow>
          andthen (parse_response_META (c_capacity s) raw) (\<lambda>(st, meta).
          case meta of None \<Rightarrow> Inr (old, s)
          | Some m \<Rightarrow> let (p, metas) = new_obj m (c_metas s) in Inr (p, s\<lparr>c_metas := metas\<rparr>))
      | Parse_response_LIVE \<Rightarrow> andthen (parse_response_LIVE raw) (\<lambda>st. Inr (old, s)))"

definition SUSPICIOUS :: bytes where
  "SUSPICIOUS = ''Server acts suspiciously. Disconnecting...''"

definition LOST :: bytes where
  "LOST = ''Lost connection with the server, your last action might not have been applied.''"

text \<open>
  The eight bytes of \<open>response_size\<close>, received by one call; what does not arrive is left as it was.
  The result of the call, and the new bytes.
\<close>

definition recv_size :: "client \<Rightarrow> (int \<times> client) res" where
  "recv_size s =
     andthen (recv 8 (g_server_fd s)) (\<lambda>(r, bs, sk).
     Inr (r, s\<lparr>g_server_fd := sk, c_response_size := overlay bs (c_response_size s)\<rparr>))"

text \<open>The branch that serves a query.  A request that is too large is only reported.\<close>

definition serve_query :: "client \<Rightarrow> client res" where
  "serve_query s =
     andthen (queue_pop (g_server_queries s) (c_pending s)) (\<lambda>(query, pend).
     andthen (deref (p_queries pend) query) (\<lambda>q.
     let s = s\<lparr>c_pending := pend\<rparr>; request_size = sq_raw_request_data_size q in
     andthen (send (le64 request_size) (g_server_fd s)) (\<lambda>(r, sk).
     let s = (if unat request_size > MAX_PACKET_SIZE then puts SUSPICIOUS (say_newline s) else s) in
     case sq_raw_request_data q of
       None \<Rightarrow> Inl NullDeref
     | Some data \<Rightarrow>
         if length data < unat request_size then Inl OutOfBounds
         else
           andthen (s_send data (unat request_size) sk) (\<lambda>(n, sk).
           andthen (recv_size (s\<lparr>g_server_fd := sk\<rparr>)) (\<lambda>(r, s).
           let response_size = un_le64 (c_response_size s) in
           if response_size + 1 = 0 then Inl OutOfBounds
           else
             andthen (s_recv (unat response_size) (g_server_fd s)) (\<lambda>(bs, sk).
             let raw_response = bs @ replicate (unat response_size + 1 - length bs) NUL in
             andthen (parse_response (sq_parse_response q) raw_response (length bs) (sq_parsed_data q)
               (s\<lparr>g_server_fd := sk\<rparr>)) (\<lambda>(parsed, s).
             andthen (assign query (q\<lparr>sq_parsed_data := parsed, sq_completed := True\<rparr>)
               (p_queries (c_pending s))) (\<lambda>queries.
             Inr (s\<lparr>c_pending := (c_pending s)\<lparr>p_queries := queries\<rparr>\<rparr>)))))))))"

text \<open>The branch that keeps the connection alive, and its label \<open>LIVE_FAILURE\<close>.\<close>

definition live_failure :: "bytes \<Rightarrow> client \<Rightarrow> client res" where
  "live_failure str s = Inr (snd (server_disconnect (puts str (say_newline s))))"

definition keep_alive :: "client \<Rightarrow> client res" where
  "keep_alive s =
     andthen (send (le64 (of_nat (length ''LIVE''))) (g_server_fd s)) (\<lambda>(r, sk).
     let s = s\<lparr>g_server_fd := sk\<rparr> in
     if r < 0 then live_failure LOST s
     else
       andthen (send ''LIVE'' (g_server_fd s)) (\<lambda>(r, sk).
       let s = s\<lparr>g_server_fd := sk\<rparr> in
       if r < 0 then live_failure LOST s
       else
         andthen (recv_size s) (\<lambda>(r, s).
         let response_size = unat (un_le64 (c_response_size s)) in
         if r < 0 then live_failure LOST s
         else if response_size > MAX_PACKET_SIZE then live_failure SUSPICIOUS s
         else
           andthen (if response_size = 0 then Inr (0, [], g_server_fd s) else recv response_size (g_server_fd s))
             (\<lambda>(r, bs, sk).
           let s = s\<lparr>g_server_fd := sk\<rparr>; raw_response = bs @ replicate (response_size + 1 - length bs) NUL in
           if r < 0 then live_failure LOST s
           else
             andthen (at_lit raw_response ''OK'') (\<lambda>eq.
             if eq then Inr s else live_failure SUSPICIOUS s)))))"

definition query_loop_pass :: "client \<Rightarrow> client res" where
  "query_loop_pass s =
     (if \<not> g_working s then Inr s
      else if g_server_connected s then
        andthen (deref (q_queues (c_pending s)) (g_server_queries s)) (\<lambda>q.
        if q_size q \<noteq> 0 then serve_query s else keep_alive s)
      else Inr s)"

definition stop_program_handle :: "client \<Rightarrow> client" where
  "stop_program_handle s = s\<lparr>g_working := False\<rparr>"

text \<open>What happens while the main thread waits for a line, then the line.\<close>

definition event_step :: "event \<Rightarrow> client \<Rightarrow> client res" where
  "event_step e s = (case e of Query_pass \<Rightarrow> query_loop_pass s | Signal \<Rightarrow> Inr (stop_program_handle s))"

definition meanwhile :: "client \<Rightarrow> client res" where
  "meanwhile s =
     (case c_events s of
        [] \<Rightarrow> Inr s
      | es # ess \<Rightarrow> fold_res event_step es (s\<lparr>c_events := ess\<rparr>))"

section \<open>Waiting for an answer\<close>

text \<open>
  \<open>queue_push(g_server_queries, query); while (query->completed == FALSE) {}\<close>.  A pass that finds
  queries serves one; once the queue is empty no pass completes a query any more.  So the spinning
  ends within as many passes as there are queries, or never.
\<close>

fun spin :: "nat \<Rightarrow> ptr \<Rightarrow> client \<Rightarrow> client res" where
  "spin n query s =
     andthen (deref (p_queries (c_pending s)) query) (\<lambda>q.
     if sq_completed q then Inr s
     else case n of 0 \<Rightarrow> Inl Diverges | Suc n \<Rightarrow> andthen (query_loop_pass s) (spin n query))"

declare spin.simps [simp del]

text \<open>The call as a function of its own, which the commands do not use.\<close>

definition server_query_add :: "ptr \<Rightarrow> client \<Rightarrow> client res" where
  "server_query_add query s =
     andthen (queue_push (g_server_queries s) query (c_pending s)) (\<lambda>(st, pend). Inr (s\<lparr>c_pending := pend\<rparr>))"

text \<open>
  The part all commands share: \<open>query_create\<close>, \<open>queue_push\<close>, the spinning, \<open>parsed_data\<close>, \<open>query_delete\<close>.
\<close>

definition run_query :: "parser \<Rightarrow> ledata \<Rightarrow> client \<Rightarrow> (ptr \<times> client) res" where
  "run_query parser qdata s =
     (let (query, queries) = query_create parser (Some (ld_data qdata)) (ld_size qdata) (p_queries (c_pending s)) in
      andthen (queue_push (g_server_queries s) query ((c_pending s)\<lparr>p_queries := queries\<rparr>)) (\<lambda>(st, pend).
      andthen (deref (q_queues pend) (g_server_queries s)) (\<lambda>q.
      andthen (spin (q_size q) query (s\<lparr>c_pending := pend\<rparr>)) (\<lambda>s.
      andthen (deref (p_queries (c_pending s)) query) (\<lambda>q.
      let parsed = sq_parsed_data q in
      andthen (query_delete query (p_queries (c_pending s))) (\<lambda>(st, queries).
      Inr (parsed, s\<lparr>c_pending := (c_pending s)\<lparr>p_queries := queries\<rparr>\<rparr>)))))))"

section \<open>Connecting\<close>

definition server_connect :: "bytes \<Rightarrow> u16 \<Rightarrow> client \<Rightarrow> (status_t \<times> client) res" where
  "server_connect addr port s =
     (if g_server_connected s then Inr (err LESTATUS_EXST, s)
      else
        case c_net s of
          [] \<Rightarrow> Inl Diverges
        | ev # net \<Rightarrow>
            if ev = Socket_fails then Inr (err LESTATUS_CLIB, s\<lparr>c_net := net\<rparr>)
            else
              let s = s\<lparr>g_server_addr := (g_server_addr s)\<lparr>sin_port := port\<rparr>\<rparr> in
              case inet_pton addr of
                None \<Rightarrow> Inr (err LESTATUS_IDAT, puts ''Invalid addr is provided. Aborted.'' s)
              | Some octets \<Rightarrow>
                  let s = s\<lparr>g_server_addr := (g_server_addr s)\<lparr>sin_addr := octets\<rparr>, c_net := net\<rparr> in
                  case ev of
                    Connects sk \<Rightarrow>
                      andthen (server_addr_save addr port (s\<lparr>g_server_fd := sk\<rparr>)) (\<lambda>(st, s).
                      andthen gen_query_META (\<lambda>qdata.
                      andthen (run_query Parse_response_META qdata (s\<lparr>g_server_connected := True\<rparr>)) (\<lambda>(p, s).
                      let s = s\<lparr>g_server_haddr := \<lparr>ha_addr = addr, ha_port = port\<rparr>\<rparr> in
                      andthen (deref (c_metas s) p) (\<lambda>m.
                      let s = s\<lparr>g_server_meta := m\<lparr>mt_version_size := mt_version_size (g_server_meta s)\<rparr>\<rparr> in
                      andthen (free_obj p (c_metas s)) (\<lambda>metas.
                      Inr (ok_status, s\<lparr>c_metas := metas\<rparr>))))))
                  | _ \<Rightarrow> Inr (err LESTATUS_CLIB, s))"

end
