(* ===== verification/Client_Commands.thy ===== *)
theory Client_Commands
  imports Client_Net
begin

text \<open>
  The commands of \<open>client/client.c\<close>, from their prompt to their last line of output.  A response
  that could not be parsed leaves \<open>parsed_data\<close> null, and the commands dereference it.
\<close>

section \<open>Prompts\<close>

text \<open>A line of at most \<open>n - 1\<close> characters, after what happens while it is typed.\<close>

definition ask :: "nat \<Rightarrow> client \<Rightarrow> (bytes \<times> client) res" where
  "ask n s = andthen (meanwhile s) (read_field n)"

definition ask_range :: "u64 \<Rightarrow> u64 \<Rightarrow> client \<Rightarrow> (u64 \<times> bytes \<times> client) res" where
  "ask_range mn mx s = andthen (meanwhile s) (read_range mn mx)"

text \<open>
  The same into a block of \<open>block\<close> bytes, which may be smaller than the limit that is passed: what
  each call of \<open>fgets\<close> stores, a terminator included, has to fit behind what is there.
\<close>

function range_fits :: "nat \<Rightarrow> bytes \<Rightarrow> nat \<Rightarrow> nat \<Rightarrow> bytes \<Rightarrow> bool" where
  "range_fits block acc mn mx inp =
     (if length acc < mn then
        case fgets (sint (of_nat (mx + 1 - length acc) :: i32)) inp of
          None \<Rightarrow> True
        | Some (raw, rest) \<Rightarrow>
            length acc + length raw < block \<and>
            (length rest < length inp \<longrightarrow>
               range_fits block (acc @ takeWhile (\<lambda>c. c \<noteq> NUL \<and> c \<noteq> newline) raw) mn mx rest)
      else True)"
  by pat_completeness auto
termination
  by (relation "measure (\<lambda>(block, acc, mn, mx, inp). length inp)") auto

declare range_fits.simps [simp del]

definition ask_block :: "nat \<Rightarrow> u64 \<Rightarrow> u64 \<Rightarrow> client \<Rightarrow> (u64 \<times> bytes \<times> client) res" where
  "ask_block block mn mx s =
     andthen (meanwhile s) (\<lambda>s.
     if range_fits block [] (unat mn) (unat mx) (c_stdin s) then read_range mn mx s else Inl OutOfBounds)"

lemma range_fits:
  assumes "length acc \<le> mx" and "mx < block"
  shows "range_fits block acc mn mx inp"
  using assms
proof (induction block acc mn mx inp rule: range_fits.induct)
  case (1 block acc mn mx inp)
  have "length acc + length raw \<le> mx \<and> length acc + length (takeWhile (\<lambda>c. c \<noteq> NUL \<and> c \<noteq> newline) raw) \<le> mx"
    if "fgets (sint (of_nat (mx + 1 - length acc) :: i32)) inp = Some (raw, rest)" for raw rest
  proof -
    have "sint (of_nat (mx + 1 - length acc) :: i32) \<le> int (mx + 1 - length acc)" by (rule sint_of_nat32_le)
    moreover have "int (length raw) < sint (of_nat (mx + 1 - length acc) :: i32)" using that
      by (auto simp: fgets_def split: if_splits dest: read_line_length)
    ultimately have "length acc + length raw \<le> mx" using 1(2) by linarith
    moreover have "length (takeWhile (\<lambda>c. c \<noteq> NUL \<and> c \<noteq> newline) raw) \<le> length raw" by (rule length_takeWhile_le)
    ultimately show ?thesis by linarith
  qed
  with 1 show ?case by (subst range_fits.simps) (fastforce split: option.splits)
qed

lemma ask_block_fits: "unat mx < block \<Longrightarrow> ask_block block mn mx s = ask_range mn mx s"
  by (simp add: ask_block_def ask_range_def range_fits)

text \<open>
  \<open>leclient_loop_process\<close>: \<open>fgets\<close> may store 128 bytes in \<open>tmp\<close>, which has 64.  At the end of the
  input \<open>tmp\<close> is read uninitialised.
\<close>

definition leclient_loop_process ::
  "(client \<Rightarrow> client) \<Rightarrow> (client \<Rightarrow> client) \<Rightarrow> client \<Rightarrow> (i32 \<times> client) res" where
  "leclient_loop_process print_menu print_prefix s =
     andthen (meanwhile (print_prefix (print_menu s))) (\<lambda>s.
     case fgets 128 (c_stdin s) of
       None \<Rightarrow> Inl Uninitialised
     | Some (tmp, rest) \<Rightarrow>
         if 64 \<le> length tmp then Inl OutOfBounds
         else
           let cmd_id = atoi (takeWhile (\<lambda>c. c \<noteq> NUL \<and> c \<noteq> newline) tmp)
           in Inr (cmd_id, say_newline (s\<lparr>c_stdin := rest\<rparr>)))"

section \<open>Server commands\<close>

definition cmd_server_connect :: "client \<Rightarrow> client res" where
  "cmd_server_connect s =
     andthen (ask 32 (print_prefix_server (puts ''Enter addr of the server.'' s))) (\<lambda>(h_addr, s).
     let s = say_newline s in
     andthen (ask 32 (print_prefix_server (puts ''Enter port of the server.'' s))) (\<lambda>(port, s).
     let s = say_newline s; h_port = ucast (atoi port) in
     andthen (server_connect h_addr h_port s) (\<lambda>(st, s).
     if st \<noteq> ok_status then Inr (say_newline s)
     else Inr (say_newline (puts ''Connected.'' s)))))"

definition cmd_server_disconnect :: "client \<Rightarrow> client" where
  "cmd_server_disconnect s = snd (server_disconnect (say_newline (puts ''Disconnected.'' s)))"

definition cmd_server_info :: "client \<Rightarrow> client" where
  "cmd_server_info s =
     (if \<not> g_server_connected s
      then say_newline (puts ''Can't get any information - you are not connected to any server.'' s)
      else
        let s = say (''Server address: '' @ ha_addr (g_server_haddr s) @ '':'' @
                  show_short (ha_port (g_server_haddr s)) @ [newline]) s;
            s = say (''Server version: '' @ mt_version (g_server_meta s) @ [newline]) s;
            s = say (''Threads on a server: '' @ show_u64 (mt_thread_count (g_server_meta s)) @ [newline]) s
        in say_newline s)"

fun print_history :: "nat \<Rightarrow> ptr list \<Rightarrow> client \<Rightarrow> client res" where
  "print_history i [] s = Inr s"
| "print_history i (p # ps) s =
     andthen (deref (h_haddrs (c_history s)) p) (\<lambda>a.
     print_history (Suc i) ps (say (decimal i @ ''. '' @ ha_addr a @ '':'' @ show_short (ha_port a) @ [newline]) s))"

definition cmd_server_history :: "client \<Rightarrow> client res" where
  "cmd_server_history s =
     andthen (server_addr_history_load s) (\<lambda>(st, s).
     if st \<noteq> ok_status then Inr (say_newline (puts ''You haven't connected to any server yet.'' s))
     else
       andthen (deref (q_queues (c_history s)) (g_server_addr_history s)) (\<lambda>q.
       andthen (queue_items (g_server_addr_history s) (c_history s)) (\<lambda>nodes.
       andthen (print_history 1 nodes s) (\<lambda>s.
       let s = say (''Choose the server number (1-'' @ decimal (q_size q) @
                 ''). Type 'r' or any other number if you don't want to connect to any server:'' @ [newline])
                 (say_newline s) in
       andthen (ask 32 (print_prefix_thread s)) (\<lambda>(buf, s).
       let server_choice_n = unat (strtoull buf); s = say_newline s in
       if server_choice_n < 1 \<or> q_size q < server_choice_n then Inr s
       else
         case drop (server_choice_n - 1) nodes of
           [] \<Rightarrow> Inl NullDeref
         | p # ps \<Rightarrow>
             andthen (deref (h_haddrs (c_history s)) p) (\<lambda>a.
             andthen (server_connect (ha_addr a) (ha_port a) (snd (server_disconnect s))) (\<lambda>(st, s).
             if st \<noteq> ok_status then Inr (say_newline s)
             else Inr (say_newline (say
               (''Connected to '' @ ha_addr a @ '':'' @ show_short (ha_port a) @ [newline]) s)))))))))"

section \<open>Thread commands\<close>

definition limits :: "u64 \<Rightarrow> u64 \<Rightarrow> bytes" where
  "limits mn mx = ''('' @ show_u64 mn @ ''-'' @ show_u64 mx @ '' characters, no newlines):'' @ [newline]"

definition too_short :: "u64 \<Rightarrow> bool" where
  "too_short sz \<longleftrightarrow> sz = of_int (err LESTATUS_IDAT)"

definition cmd_thread_create :: "client \<Rightarrow> client res" where
  "cmd_thread_create s =
     (let mn = mt_min_topic_size (g_server_meta s); mx = mt_max_topic_size (g_server_meta s);
          s = print_prefix_thread (say (''Thread topic '' @ limits mn mx) s) in
      andthen (ask_range mn mx s) (\<lambda>(topic_size, topic, s).
      let s = say_newline s in
      if too_short topic_size then Inr s
      else
        andthen (gen_query_CTHR (topic @ [NUL]) (unat topic_size)) (\<lambda>qdata.
        andthen (run_query Parse_response_CTHR qdata s) (\<lambda>(p, s).
        let s = s\<lparr>g_active_thread_exists := True\<rparr> in
        andthen (deref (c_infos s) p) (\<lambda>info.
        let s = s\<lparr>g_active_thread_id := ct_thread_id info\<rparr> in
        andthen (token_save (ct_token info) s) (\<lambda>(st, s).
        andthen (free_obj p (c_infos s)) (\<lambda>infos.
        Inr (s\<lparr>c_infos := infos\<rparr>))))))))"

fun print_threads :: "nat \<Rightarrow> ptr list \<Rightarrow> client \<Rightarrow> client res" where
  "print_threads cntr [] s = Inr s"
| "print_threads cntr (p # ps) s =
     andthen (deref (f_threads (c_heap s)) p) (\<lambda>t.
     print_threads (Suc cntr) ps (say (decimal cntr @ ''. '' @ printed (lt_topic t) @ [newline]) s))"

abbreviation QUOTE :: byte where
  "QUOTE \<equiv> CHR 0x27"

text \<open>What follows a search that found something: the list and the user's choice.\<close>

definition choose_thread :: "ptr \<Rightarrow> nat \<Rightarrow> bytes \<Rightarrow> client \<Rightarrow> client res" where
  "choose_thread found_threads sz search_query s =
     (let s = say (''Here are the threads that match '' @ [QUOTE] @ search_query @ [QUOTE] @ '':'' @ [newline]) s in
      andthen (queue_items found_threads (c_heap s)) (\<lambda>nodes.
      andthen (print_threads 1 nodes s) (\<lambda>s.
      let s = say (''Choose the thread number (1-'' @ decimal sz @
                ''). Type 'r' or any other number if you want to return:'' @ [newline]) s in
      andthen (ask 32 (print_prefix_thread s)) (\<lambda>(buf, s).
      let thread_choice_n = unat (strtoull buf) in
      if thread_choice_n < 1 \<or> sz < thread_choice_n then Inr s
      else
        case drop (thread_choice_n - 1) nodes of
          [] \<Rightarrow> Inl NullDeref
        | p # ps \<Rightarrow>
            andthen (deref (f_threads (c_heap s)) p) (\<lambda>t.
            Inr (s\<lparr>g_active_thread_id := lt_id t, g_active_thread_exists := True\<rparr>))))))"

text \<open>Where the lower limit is 0 nothing is read, and what is printed of the block is uninitialised.\<close>

definition cmd_thread_find :: "client \<Rightarrow> client res" where
  "cmd_thread_find s =
     (let mn = mt_min_topic_size (g_server_meta s); mx = mt_max_topic_size (g_server_meta s);
          s = print_prefix_thread (say (''Type part of the topic to find '' @ limits mn mx) s) in
      andthen (ask_range mn mx s) (\<lambda>(search_query_size, search_query, s).
      let s = say_newline s in
      if too_short search_query_size then Inr s
      else
        andthen (gen_query_FTHR (search_query @ [NUL]) (unat search_query_size)) (\<lambda>qdata.
        andthen (run_query Parse_response_FTHR qdata s) (\<lambda>(found_threads, s).
        andthen (deref (q_queues (c_heap s)) found_threads) (\<lambda>q.
        andthen
          (if q_size q = 0 then Inr (puts ''Nothing found.'' s)
           else if mn = 0 then Inl Uninitialised
           else choose_thread found_threads (q_size q) search_query s) (\<lambda>s.
        let s = say_newline s in
        andthen (queue_delete call_destructor found_threads (c_heap s)) (\<lambda>(st, heap).
        Inr (s\<lparr>c_heap := heap\<rparr>))))))))"

text \<open>The thread that is active, fetched from the server; both commands that show it begin like this.\<close>

definition fetch_thread :: "client \<Rightarrow> (ptr \<times> client) res" where
  "fetch_thread s =
     andthen (gen_query_GTHR (g_active_thread_id s)) (\<lambda>qdata.
     run_query Parse_response_GTHR qdata s)"

definition CHOOSE_FIRST :: bytes where
  "CHOOSE_FIRST = ''To use this command, choose some thread first!''"

definition drop_thread :: "ptr \<Rightarrow> client \<Rightarrow> client res" where
  "drop_thread thread s =
     andthen (lethread_delete call_destructor thread (c_heap s)) (\<lambda>(st, heap). Inr (s\<lparr>c_heap := heap\<rparr>))"

definition cmd_thread_info :: "client \<Rightarrow> client res" where
  "cmd_thread_info s =
     (if \<not> g_active_thread_exists s then Inr (puts CHOOSE_FIRST s)
      else
        andthen (fetch_thread s) (\<lambda>(thread, s).
        andthen (deref (f_threads (c_heap s)) thread) (\<lambda>t.
        let s = say (''Topic: '' @ printed (lt_topic t) @ [newline]) s;
            s = say (''ID: '' @ show_u64 (lt_id t) @ [newline]) s in
        andthen (lethread_message_count thread (c_heap s)) (\<lambda>n.
        let s = say (''Messages posted: '' @ show_u64 n @ [newline]) s in
        drop_thread thread (say_newline s)))))"

fun print_messages :: "ptr list \<Rightarrow> client \<Rightarrow> client res" where
  "print_messages [] s = Inr s"
| "print_messages (p # ps) s =
     andthen (deref (f_messages (c_heap s)) p) (\<lambda>m.
     let s = say (''msg #'' @ show_u64 (lm_id m)) s;
         s = (if lm_by_lethread_author m \<noteq> 0 then say '' (OP)'' s else s);
         s = say ('':'' @ [newline]) s
     in print_messages ps (say (''  '' @ printed (lm_text m) @ [newline]) s))"

definition cmd_thread_message_history :: "client \<Rightarrow> client res" where
  "cmd_thread_message_history s =
     (if \<not> g_active_thread_exists s then Inr (puts CHOOSE_FIRST s)
      else
        andthen (fetch_thread s) (\<lambda>(thread, s).
        andthen (deref (f_threads (c_heap s)) thread) (\<lambda>t.
        andthen (deref (q_queues (c_heap s)) (lt_messages t)) (\<lambda>q.
        andthen
          (if 0 < q_size q then andthen (queue_items (lt_messages t) (c_heap s)) (\<lambda>ps. print_messages ps s)
           else Inr (puts ''No messages. Be first to post here!'' s)) (\<lambda>s.
        drop_thread thread (say_newline s))))))"

text \<open>
  The block for the text has \<open>max_message_size + 1\<close> bytes, but the limits of the topic are those
  that are passed on.  Where they are larger, a long line overruns the block.
\<close>

definition cmd_thread_send_message :: "client \<Rightarrow> client res" where
  "cmd_thread_send_message s =
     (if \<not> g_active_thread_exists s then Inr (puts CHOOSE_FIRST s)
      else
        let meta = g_server_meta s;
            s = say (''Type your message '' @ limits (mt_min_message_size meta) (mt_max_message_size meta)) s in
        andthen (ask_block (unat (mt_max_message_size meta + 1)) (mt_min_topic_size meta) (mt_max_topic_size meta) s)
          (\<lambda>(size, message_text, s).
        let s = say_newline s in
        if too_short size then Inr s
        else
          andthen (token_load s) (\<lambda>(status, token, s).
          let token = (if status = err LESTATUS_IDAT \<or> status = err LESTATUS_NSFD then None else token) in
          andthen (gen_query_CMSG (g_active_thread_id s) (message_text @ [NUL]) (unat size) token) (\<lambda>qdata.
          andthen (run_query Parse_response_GTHR qdata s) (\<lambda>(p, s).
          Inr s)))))"

section \<open>Start and end\<close>

definition DIR_CLIENT :: bytes where
  "DIR_CLIENT = ''.leforum_client/''"

text \<open>
  \<open>startup\<close>, given what \<open>getenv("HOME")\<close> returns.  The block for the path has no room for the slash
  in front of \<open>DIR_CLIENT\<close>.  What the block holds behind its end does not matter.
\<close>

definition client_startup :: "bytes option \<Rightarrow> client \<Rightarrow> (status_t \<times> client) res" where
  "client_startup home s =
     (case home of
        None \<Rightarrow> Inl NullDeref
      | Some home \<Rightarrow>
          let block = c_capacity s (length home + length DIR_CLIENT + 1) in
          andthen (le_strcat (overlay home (replicate block NUL)) (''/'' @ DIR_CLIENT @ [NUL])) (\<lambda>(dirpath, e).
          let s = s\<lparr>g_home_dir := home\<rparr>;
              s = (if \<not> c_dir s then s\<lparr>c_dir := True, c_files := (\<lambda>_. None)\<rparr> else s);
              (st, q, pend) = queue_create Libc_free (c_pending s)
          in Inr (ok_status, s\<lparr>g_server_queries := q, c_pending := pend\<rparr>)))"

definition free_query :: "destructor \<Rightarrow> ptr \<Rightarrow> mem_pending \<Rightarrow> mem_pending res" where
  "free_query d p h = andthen (free_obj p (p_queries h)) (\<lambda>queries. Inr (h\<lparr>p_queries := queries\<rparr>))"

definition client_cleanup :: "client \<Rightarrow> (status_t \<times> client) res" where
  "client_cleanup s =
     (let s = (if g_server_connected s then snd (server_disconnect s) else s) in
      if g_server_queries s \<noteq> Null then
        andthen (queue_delete free_query (g_server_queries s) (c_pending s)) (\<lambda>(st, pend).
        Inr (ok_status, s\<lparr>g_server_queries := Null, c_pending := pend\<rparr>))
      else Inr (ok_status, s))"

text \<open>\<open>cmd_exit\<close> does not return; the state is that when the program exits.\<close>

definition cmd_exit :: "client \<Rightarrow> client res" where
  "cmd_exit s = andthen (client_cleanup s) (\<lambda>(st, s). Inr (puts ''Bye!'' s))"

end
