(* ===== verification/Client_Main.thy ===== *)
theory Client_Main
  imports Client_Commands
begin

text \<open>
  The menus and \<open>main\<close> of \<open>client/client.c\<close>.  Each round of a menu takes at least one byte of
  input, so all menus end: with a choice to leave, a fault, or the end of the input, which is one.
\<close>

section \<open>What the query thread leaves alone\<close>

definition untouched :: "client \<Rightarrow> client \<Rightarrow> bool" where
  "untouched s t \<longleftrightarrow> c_stdin t = c_stdin s \<and> c_events t = c_events s \<and> c_net t = c_net s \<and> c_dir t = c_dir s \<and>
     c_files t = c_files s \<and> c_history t = c_history s \<and> c_capacity t = c_capacity s \<and>
     g_working t = g_working s \<and> g_server_addr t = g_server_addr s \<and> g_server_meta t = g_server_meta s \<and>
     g_server_addr_history t = g_server_addr_history s \<and> g_server_haddr t = g_server_haddr s \<and>
     g_server_queries t = g_server_queries s \<and> g_home_dir t = g_home_dir s"

lemma untouched_refl [simp]: "untouched s s"
  by (simp add: untouched_def)

lemma untouched_trans: "untouched s t \<Longrightarrow> untouched t u \<Longrightarrow> untouched s u"
  by (simp add: untouched_def)

lemma say_fields [simp]:
  "c_stdin (say str s) = c_stdin s" "c_stdin (puts str s) = c_stdin s" "c_stdin (say_newline s) = c_stdin s"
  "untouched s (say str s)" "untouched s (puts str s)" "untouched s (say_newline s)"
  by (simp_all add: print_defs untouched_def)

lemma untouched_disconnect [simp]: "untouched s (snd (server_disconnect s))"
  by (simp add: server_disconnect_def untouched_def)

lemma untouched_recv_size: "recv_size s = Inr (r, t) \<Longrightarrow> untouched s t"
  by (auto simp: recv_size_def untouched_def)

lemma untouched_parse: "parse_response parser raw sz old s = Inr (p, t) \<Longrightarrow> untouched s t"
  by (auto simp: parse_response_def untouched_def new_obj_def split: parser.splits option.splits)

lemma untouched_fd [simp]:
  "untouched s (t\<lparr>g_server_fd := sk\<rparr>) = untouched s t" "untouched s (t\<lparr>c_pending := pend\<rparr>) = untouched s t"
  "untouched (s\<lparr>g_server_fd := sk\<rparr>) t = untouched s t" "untouched (s\<lparr>c_pending := pend\<rparr>) t = untouched s t"
  "untouched (s\<lparr>g_server_connected := b\<rparr>) t = untouched s t"
  by (simp_all add: untouched_def)

lemma untouched_say [simp]: "untouched (say str s) t = untouched s t" "untouched (puts str s) t = untouched s t"
  "untouched (say_newline s) t = untouched s t"
  by (simp_all add: untouched_def print_defs)

lemma untouched_serve: "serve_query s = Inr t \<Longrightarrow> untouched s t"
proof (erule yieldsD[rotated])
  show "yields (serve_query s) (untouched s)"
    unfolding serve_query_def Let_def
    by (intro yields_intros; clarsimp split: if_splits; drule untouched_parse; drule untouched_recv_size;
      simp; erule (1) untouched_trans)
qed

lemma untouched_live_failure: "untouched s u \<Longrightarrow> yields (live_failure str u) (untouched s)"
  unfolding live_failure_def
  by (rule yields_intros(2)) (metis untouched_trans untouched_disconnect untouched_say(2,3))

lemma untouched_keep_alive: "keep_alive s = Inr t \<Longrightarrow> untouched s t"
proof (erule yieldsD[rotated])
  show "yields (keep_alive s) (untouched s)"
    unfolding keep_alive_def Let_def
    by (intro yields_intros untouched_live_failure; clarsimp?; (drule untouched_recv_size)?; simp?)
qed

lemma untouched_pass: "query_loop_pass s = Inr t \<Longrightarrow> untouched s t"
  by (auto simp: query_loop_pass_def split: if_splits dest: untouched_serve untouched_keep_alive)

lemma untouched_spin: "spin n query s = Inr t \<Longrightarrow> untouched s t"
proof (induction n arbitrary: s)
  case 0
  then show ?case by (subst (asm) spin.simps) (auto split: if_splits)
next
  case (Suc n)
  from Suc.prems show ?case
    by (subst (asm) spin.simps) (auto split: if_splits dest!: untouched_pass Suc.IH elim: untouched_trans)
qed

lemma untouched_run_query: "run_query parser qdata s = Inr (p, t) \<Longrightarrow> untouched s t"
  by (auto simp: run_query_def Let_def untouched_def dest!: untouched_spin split: prod.splits)

section \<open>Input is only taken\<close>

named_theorems input_left

lemma meanwhile_stdin [input_left]: "meanwhile s = Inr t \<Longrightarrow> c_stdin t = c_stdin s"
proof -
  have "fold_res event_step es u = Inr t \<Longrightarrow> c_stdin t = c_stdin u" for es u
  proof (induction es arbitrary: u)
    case (Cons e es)
    then obtain v where "event_step e u = Inr v" and "c_stdin t = c_stdin v" by auto
    then show ?case
      by (cases e) (auto simp: event_step_def stop_program_handle_def untouched_def dest!: untouched_pass)
  qed simp
  then show "meanwhile s = Inr t \<Longrightarrow> c_stdin t = c_stdin s"
    by (fastforce simp: meanwhile_def split: list.splits)
qed

lemma run_query_stdin [input_left]: "run_query parser qdata s = Inr (p, t) \<Longrightarrow> c_stdin t = c_stdin s"
  by (drule untouched_run_query) (simp add: untouched_def)

lemma files_stdin [input_left]:
  "get_leclient_file f m c s = (st, file, t) \<Longrightarrow> c_stdin t = c_stdin s"
  by (auto simp: get_leclient_file_def fopen_client_def Let_def split: if_splits cmode.splits option.splits)

lemma fputs_stdin [input_left]: "fputs_client str file s = Inr t \<Longrightarrow> c_stdin t = c_stdin s"
  by (auto simp: fputs_client_def split: option.splits)

lemma save_stdin [input_left]:
  "server_addr_save addr port s = Inr (st, t) \<Longrightarrow> c_stdin t = c_stdin s"
  "token_save token s = Inr (st, t) \<Longrightarrow> c_stdin t = c_stdin s"
  by (auto simp: server_addr_save_def token_save_def Let_def split: if_splits option.splits prod.splits dest!: input_left)

lemma load_stdin [input_left]:
  "server_addr_history_load s = Inr (st, t) \<Longrightarrow> c_stdin t = c_stdin s"
  "token_load s = Inr (st, token, t) \<Longrightarrow> c_stdin t = c_stdin s"
  by (auto simp: server_addr_history_load_def token_load_def Let_def split: if_splits option.splits prod.splits
      dest!: input_left)

lemma ask_stdin: "ask n s = Inr (str, t) \<Longrightarrow> length (c_stdin t) \<le> length (c_stdin s)"
  by (auto simp: ask_def read_field_def read_stdin_def Let_def split: option.splits prod.splits
      dest!: meanwhile_stdin s_fgets_rest)

lemma s_fgets_range_rest: "s_fgets_range_loop acc mn mx inp = Inr (sz, str, rest) \<Longrightarrow> length rest \<le> length inp"
proof (induction acc mn mx inp rule: s_fgets_range_loop.induct)
  case (1 acc mn mx inp)
  obtain a b r where call: "s_fgets (mx + 1 - length acc) inp = (a, b, r)" by (metis prod_cases3)
  from "1.prems" show ?case
    by (subst (asm) s_fgets_range_loop.simps)
      (auto simp: call[simplified] split: if_splits option.splits dest: "1.IH"[OF _ call[symmetric] refl]
        intro: order_trans[OF _ s_fgets_rest[OF call]] s_fgets_rest[OF call])
qed

lemma ask_range_stdin: "ask_range mn mx s = Inr (sz, str, t) \<Longrightarrow> length (c_stdin t) \<le> length (c_stdin s)"
  by (auto simp: ask_range_def read_range_def s_fgets_range_def dest!: input_left s_fgets_range_rest)

lemma ask_block_stdin: "ask_block b mn mx s = Inr (sz, str, t) \<Longrightarrow> length (c_stdin t) \<le> length (c_stdin s)"
  by (auto simp: ask_block_def read_range_def s_fgets_range_def split: if_splits dest!: input_left s_fgets_range_rest)

lemma loop_stdin:
  assumes "leclient_loop_process menu prefix s = Inr (cmd_id, t)" and "\<And>u. c_stdin (menu u) = c_stdin u"
    and "\<And>u. c_stdin (prefix u) = c_stdin u"
  shows "length (c_stdin t) < length (c_stdin s)"
proof -
  from assms(1) obtain u tmp rest where "meanwhile (prefix (menu s)) = Inr u"
    and f: "fgets 128 (c_stdin u) = Some (tmp, rest)" and "t = say_newline (u\<lparr>c_stdin := rest\<rparr>)"
    by (auto simp: leclient_loop_process_def Let_def split: option.splits if_splits)
  moreover have "length rest < length (c_stdin u)" by (rule fgets_progress[OF f]) simp
  ultimately show ?thesis using assms(2,3) by (simp add: meanwhile_stdin)
qed

lemma print_cmds_stdin [simp]: "c_stdin (print_cmds cmds repr s) = c_stdin s"
proof -
  have "c_stdin (fold (\<lambda>i. say (g i)) is u) = c_stdin u" for g and "is" :: "nat list" and u
    by (induction "is" arbitrary: u) auto
  then show ?thesis by (simp add: print_cmds_def)
qed

lemma prints_stdin [simp]:
  "c_stdin (print_menu_server s) = c_stdin s" "c_stdin (print_prefix_server s) = c_stdin s"
  "c_stdin (print_menu_thread s) = c_stdin s" "c_stdin (print_prefix_thread s) = c_stdin s"
  "c_stdin (print_menu_settings s) = c_stdin s" "c_stdin (print_prefix_settings s) = c_stdin s"
  "c_stdin (print_menu_main s) = c_stdin s" "c_stdin (print_prefix_main s) = c_stdin s"
  "c_stdin (snd (server_disconnect s)) = c_stdin s"
  by (simp_all add: print_menu_server_def print_prefix_server_def print_menu_thread_def print_prefix_thread_def
    print_menu_settings_def print_prefix_settings_def print_menu_main_def print_prefix_main_def
    server_disconnect_def)

lemma connect_stdin [input_left]: "server_connect addr port s = Inr (st, t) \<Longrightarrow> c_stdin t = c_stdin s"
  by (auto simp: server_connect_def Let_def split: list.splits if_splits option.splits net_event.splits dest!: input_left)

lemma print_history_stdin [input_left]: "print_history i ps s = Inr t \<Longrightarrow> c_stdin t = c_stdin s"
  by (induction i ps s rule: print_history.induct) auto

lemma print_threads_stdin [input_left]: "print_threads i ps s = Inr t \<Longrightarrow> c_stdin t = c_stdin s"
  by (induction i ps s rule: print_threads.induct) auto

lemma print_messages_stdin [input_left]: "print_messages ps s = Inr t \<Longrightarrow> c_stdin t = c_stdin s"
  by (induction ps s rule: print_messages.induct) (auto simp: Let_def split: if_splits)

lemma drop_thread_stdin [input_left]: "drop_thread p s = Inr t \<Longrightarrow> c_stdin t = c_stdin s"
  by (auto simp: drop_thread_def)

lemma cmd_server_connect_stdin: "cmd_server_connect s = Inr t \<Longrightarrow> length (c_stdin t) \<le> length (c_stdin s)"
  by (auto simp: cmd_server_connect_def Let_def split: if_splits dest!: input_left ask_stdin)

lemma cmd_server_history_stdin: "cmd_server_history s = Inr t \<Longrightarrow> length (c_stdin t) \<le> length (c_stdin s)"
  by (auto simp: cmd_server_history_def Let_def split: if_splits list.splits dest!: input_left ask_stdin)

lemma cmd_thread_create_stdin: "cmd_thread_create s = Inr t \<Longrightarrow> length (c_stdin t) \<le> length (c_stdin s)"
  by (auto simp: cmd_thread_create_def Let_def split: if_splits dest!: input_left ask_range_stdin)

lemma choose_thread_stdin: "choose_thread q n str s = Inr t \<Longrightarrow> length (c_stdin t) \<le> length (c_stdin s)"
  by (auto simp: choose_thread_def Let_def split: if_splits list.splits dest!: input_left ask_stdin)

lemma cmd_thread_find_stdin: "cmd_thread_find s = Inr t \<Longrightarrow> length (c_stdin t) \<le> length (c_stdin s)"
  by (auto simp: cmd_thread_find_def Let_def split: if_splits dest!: input_left choose_thread_stdin ask_range_stdin)

lemma cmd_thread_send_message_stdin:
  "cmd_thread_send_message s = Inr t \<Longrightarrow> length (c_stdin t) \<le> length (c_stdin s)"
  by (auto simp: cmd_thread_send_message_def Let_def split: if_splits dest!: input_left ask_block_stdin)

lemma show_thread_stdin:
  "cmd_thread_info s = Inr t \<Longrightarrow> c_stdin t = c_stdin s"
  "cmd_thread_message_history s = Inr t \<Longrightarrow> c_stdin t = c_stdin s"
  by (auto simp: cmd_thread_info_def cmd_thread_message_history_def fetch_thread_def Let_def split: if_splits
      dest!: input_left)

section \<open>Menus\<close>

fun server_cmd_step :: "server_cmd \<Rightarrow> client \<Rightarrow> client res" where
  "server_cmd_step SCID_CONNECT_DISCONNECT s =
     (if g_server_connected s then Inr (cmd_server_disconnect s) else cmd_server_connect s)"
| "server_cmd_step SCID_HISTORY s = cmd_server_history s"
| "server_cmd_step SCID_INFO s = Inr (cmd_server_info s)"
| "server_cmd_step SCID_BACK s = Inr s"

lemma server_cmd_step_stdin: "server_cmd_step c s = Inr t \<Longrightarrow> length (c_stdin t) \<le> length (c_stdin s)"
  by (cases c) (auto simp: cmd_server_disconnect_def cmd_server_info_def Let_def split: if_splits
    dest: cmd_server_connect_stdin cmd_server_history_stdin)

function cmd_server :: "client \<Rightarrow> client res" where
  "cmd_server s =
     andthen (leclient_loop_process print_menu_server print_prefix_server s) (\<lambda>(cmd_id, s).
     case cmd_of ServerCmdIDs cmd_id of
       None \<Rightarrow> cmd_server (puts ''Command not found.'' s)
     | Some cmd \<Rightarrow>
         if cmd = SCID_BACK then Inr s
         else andthen (server_cmd_step cmd s) (\<lambda>s. cmd_server s))"
  by pat_completeness auto
termination
  by (relation "measure (\<lambda>s. length (c_stdin s))")
    (auto dest!: loop_stdin server_cmd_step_stdin)

fun thread_cmd_step :: "thread_cmd \<Rightarrow> client \<Rightarrow> client res" where
  "thread_cmd_step TCID_CREATE s = cmd_thread_create s"
| "thread_cmd_step TCID_FIND s = cmd_thread_find s"
| "thread_cmd_step TCID_INFO s = cmd_thread_info s"
| "thread_cmd_step TCID_MESSAGES s = cmd_thread_message_history s"
| "thread_cmd_step TCID_SEND_MESSAGE s = cmd_thread_send_message s"
| "thread_cmd_step TCID_BACK s = Inr s"

lemma thread_cmd_step_stdin: "thread_cmd_step c s = Inr t \<Longrightarrow> length (c_stdin t) \<le> length (c_stdin s)"
  by (cases c) (auto dest: cmd_thread_create_stdin cmd_thread_find_stdin cmd_thread_send_message_stdin
    show_thread_stdin)

function thread_loop :: "client \<Rightarrow> client res" where
  "thread_loop s =
     andthen (leclient_loop_process print_menu_thread print_prefix_thread s) (\<lambda>(cmd_id, s).
     case cmd_of ThreadCmdIDs cmd_id of
       None \<Rightarrow> thread_loop (puts ''Command not found.'' s)
     | Some cmd \<Rightarrow>
         if cmd = TCID_BACK then Inr s
         else andthen (thread_cmd_step cmd s) (\<lambda>s. thread_loop s))"
  by pat_completeness auto
termination
  by (relation "measure (\<lambda>s. length (c_stdin s))")
    (auto dest!: loop_stdin thread_cmd_step_stdin)

definition cmd_thread :: "client \<Rightarrow> client res" where
  "cmd_thread s =
     (if \<not> g_server_connected s
      then Inr (say_newline (puts ''To see threads, connect to some server first!'' s))
      else thread_loop s)"

function cmd_settings :: "client \<Rightarrow> client res" where
  "cmd_settings s =
     andthen (leclient_loop_process print_menu_settings print_prefix_settings s) (\<lambda>(cmd_id, s).
     case cmd_of SettingsCmdIDs cmd_id of
       None \<Rightarrow> cmd_settings (puts ''Command not found.'' s)
     | Some STGCID_BACK \<Rightarrow> Inr s)"
  by pat_completeness auto
termination
  by (relation "measure (\<lambda>s. length (c_stdin s))") (auto dest!: loop_stdin)

declare cmd_server.simps [simp del] thread_loop.simps [simp del] cmd_settings.simps [simp del]

lemma cmd_server_stdin: "cmd_server s = Inr t \<Longrightarrow> length (c_stdin t) \<le> length (c_stdin s)"
proof (induction s arbitrary: t rule: measure_induct_rule[of "\<lambda>s. length (c_stdin s)"])
  case (less s)
  have ih: "cmd_server u = Inr t \<Longrightarrow> length (c_stdin u) < length (c_stdin s) \<longrightarrow> length (c_stdin t) \<le> length (c_stdin u)"
    for u t using less.IH[of u t] by simp
  have "yields (cmd_server s) (\<lambda>t. length (c_stdin t) \<le> length (c_stdin s))"
    by (subst cmd_server.simps, intro yields_intros;
      clarsimp simp: yields_def split: settings_cmd.splits; drule loop_stdin; simp?; (drule server_cmd_step_stdin)?; (drule ih)?; simp?)
  then show ?case using less.prems by (rule yieldsD)
qed

lemma thread_loop_stdin: "thread_loop s = Inr t \<Longrightarrow> length (c_stdin t) \<le> length (c_stdin s)"
proof (induction s arbitrary: t rule: measure_induct_rule[of "\<lambda>s. length (c_stdin s)"])
  case (less s)
  have ih: "thread_loop u = Inr t \<Longrightarrow> length (c_stdin u) < length (c_stdin s) \<longrightarrow> length (c_stdin t) \<le> length (c_stdin u)"
    for u t using less.IH[of u t] by simp
  have "yields (thread_loop s) (\<lambda>t. length (c_stdin t) \<le> length (c_stdin s))"
    by (subst thread_loop.simps, intro yields_intros;
      clarsimp simp: yields_def split: settings_cmd.splits; drule loop_stdin; simp?; (drule thread_cmd_step_stdin)?; (drule ih)?; simp?)
  then show ?case using less.prems by (rule yieldsD)
qed

lemma cmd_settings_stdin: "cmd_settings s = Inr t \<Longrightarrow> length (c_stdin t) \<le> length (c_stdin s)"
proof (induction s arbitrary: t rule: measure_induct_rule[of "\<lambda>s. length (c_stdin s)"])
  case (less s)
  have ih: "cmd_settings u = Inr t \<Longrightarrow> length (c_stdin u) < length (c_stdin s) \<longrightarrow> length (c_stdin t) \<le> length (c_stdin u)"
    for u t using less.IH[of u t] by simp
  have "yields (cmd_settings s) (\<lambda>t. length (c_stdin t) \<le> length (c_stdin s))"
    by (subst cmd_settings.simps, intro yields_intros;
      clarsimp simp: yields_def split: settings_cmd.splits; drule loop_stdin; simp?; (drule ih)?; simp?)
  then show ?case using less.prems by (rule yieldsD)
qed

section \<open>\<open>main\<close>\<close>

fun main_cmd_step :: "main_cmd \<Rightarrow> client \<Rightarrow> client res" where
  "main_cmd_step MCID_SERVER s = cmd_server s"
| "main_cmd_step MCID_THREAD s = cmd_thread s"
| "main_cmd_step MCID_SETTINGS s = cmd_settings s"
| "main_cmd_step MCID_EXIT s = cmd_exit s"

lemma main_cmd_step_stdin:
  "main_cmd_step c s = Inr t \<Longrightarrow> c \<noteq> MCID_EXIT \<Longrightarrow> length (c_stdin t) \<le> length (c_stdin s)"
  by (cases c) (auto simp: cmd_thread_def split: if_splits
    dest: cmd_server_stdin thread_loop_stdin cmd_settings_stdin)

text \<open>The loop of \<open>main\<close> and the cleanup behind it.  \<open>exit(0)\<close> in \<open>cmd_exit\<close> ends the program.\<close>

function main_loop :: "client \<Rightarrow> client res" where
  "main_loop s =
     (if g_working s then
        andthen (leclient_loop_process print_menu_main print_prefix_main s) (\<lambda>(cmd_id, s).
        case cmd_of MainCmdIDs cmd_id of
          None \<Rightarrow> main_loop s
        | Some cmd \<Rightarrow>
            if cmd = MCID_EXIT then main_cmd_step cmd s
            else andthen (main_cmd_step cmd s) (\<lambda>s. main_loop s))
      else andthen (client_cleanup s) (\<lambda>(st, s). Inr s))"
  by pat_completeness auto
termination
  by (relation "measure (\<lambda>s. length (c_stdin s))")
    (auto dest!: loop_stdin main_cmd_step_stdin)

declare main_loop.simps [simp del]

definition client_main :: "bytes option \<Rightarrow> client \<Rightarrow> client res" where
  "client_main home s = andthen (client_startup home s) (\<lambda>(st, s). main_loop s)"

end
