(* ===== verification/Client_Storage.thy ===== *)
theory Client_Storage
  imports Client_Files
begin

text \<open>
  What the client's files are worth: an address or a token that was saved is what is loaded later.
\<close>

section \<open>Ports in writing\<close>

lemma spaces [simp]: "is_space newline" "is_space (CHR '' '')" "\<not> is_space (CHR ''-'')" "\<not> is_digit newline"
  "\<not> is_digit NUL"
  by (simp_all add: is_space_def is_digit_def)

lemma strtol_decimal: "n < 2 ^ 63 \<Longrightarrow> strtol (decimal n) = Some (int n)"
  and strtol_minus_decimal: "n < 2 ^ 63 \<Longrightarrow> strtol (CHR ''-'' # decimal n) = Some (- int n)"
  and strtol_space: "strtol (CHR '' '' # str) = strtol str"
proof -
  obtain d ds where dec: "decimal n = d # ds" "is_digit d"
    using decimal_digits[of n] decimal_not_Nil[of n] by (cases "decimal n") auto
  have v: "digits_val 0 (d # ds) = n" using decimal_val[of n] unfolding dec(1) .
  have "\<not> is_space d" "d \<noteq> CHR ''-''" "d \<noteq> CHR ''+''"
    using is_digit_not_space[OF dec(2)] is_digit_not_sign[OF dec(2)] by auto
  then show "n < 2 ^ 63 \<Longrightarrow> strtol (decimal n) = Some (int n)"
    and "n < 2 ^ 63 \<Longrightarrow> strtol (CHR ''-'' # decimal n) = Some (- int n)"
    using dec(2) v unfolding dec(1) by (simp_all add: strtol_def Let_def del: digits_val.simps)
  show "strtol (CHR '' '' # str) = strtol str" by (simp add: strtol_def)
qed

lemma strtol_show_short: "\<exists>v. strtol (CHR '' '' # show_short w) = Some v \<and> of_int v = w"
proof (cases "unat w < 2 ^ 15")
  case True
  then show ?thesis by (simp add: strtol_space show_short_def strtol_decimal)
next
  case False
  have less: "unat w < 2 ^ 16" using unsigned_less[of w, where ?'a = nat] by simp
  have "of_int (- int (2 ^ 16 - unat w)) = - (of_nat (2 ^ 16 - unat w) :: u16)" by simp
  also have "\<dots> = - (of_nat (2 ^ 16) - of_nat (unat w))" using less by (subst of_nat_diff) simp_all
  also have "\<dots> = w" by simp
  finally have "of_int (- int (2 ^ 16 - unat w)) = w" .
  moreover have "strtol (CHR '' '' # show_short w) = Some (- int (2 ^ 16 - unat w))"
    unfolding strtol_space using False less by (simp add: show_short_def strtol_minus_decimal)
  ultimately show ?thesis by blast
qed

lemma show_short_chars: "c \<in> set (show_short w) \<Longrightarrow> is_digit c \<or> c = CHR ''-''"
  using decimal_digits by (auto simp: show_short_def list_all_iff split: if_splits)

lemma show_short_length: "length (show_short w) \<le> 6"
proof -
  have "length (decimal n) \<le> k" if "n < 10 ^ k" "0 < k" for n k
    using that
  proof (induction k arbitrary: n)
    case (Suc k)
    show ?case
    proof (cases "n < 10")
      case True
      then show ?thesis by (subst decimal.simps) simp
    next
      case False
      then have "0 < k" using Suc.prems by (cases k) auto
      then have "length (decimal (n div 10)) \<le> k" using Suc by simp
      with False show ?thesis by (subst decimal.simps) simp
    qed
  qed simp
  from this[of "unat w" 5] this[of "2 ^ 16 - unat w" 5] show ?thesis
    by (auto simp: show_short_def)
qed

section \<open>Lines of the history\<close>

text \<open>An address as it can stand in a line: a word of at most 31 characters.\<close>

definition word_ok :: "bytes \<Rightarrow> bool" where
  "word_ok a \<longleftrightarrow> a \<noteq> [] \<and> length a < 32 \<and> (\<forall>c\<in>set a. \<not> is_space c \<and> c \<noteq> NUL)"

lemma format_address_line:
  assumes "word_ok a"
  shows "newline \<notin> set (format_address a p)" and "NUL \<notin> set (format_address a p)"
    and "length (format_address a p) \<le> 38" and "format_address a p \<noteq> []"
proof -
  have chars: "set (format_address a p) \<subseteq> set a \<union> {CHR '' ''} \<union> {c. is_digit c \<or> c = CHR ''-''}"
    using show_short_chars[of _ p] by (auto simp: format_address_def)
  have "newline \<notin> set a" "NUL \<notin> set a" using assms spaces(1) unfolding word_ok_def by blast+
  with chars show "newline \<notin> set (format_address a p)" "NUL \<notin> set (format_address a p)" by auto
  show "length (format_address a p) \<le> 38" "format_address a p \<noteq> []"
    using assms show_short_length[of p] by (auto simp: format_address_def word_ok_def)
qed

lemma dropWhile_word: "word_ok a \<Longrightarrow> dropWhile is_space (a @ r) = a @ r"
  by (cases a) (auto simp: word_ok_def)

lemma takeWhile_word: "word_ok a \<Longrightarrow> takeWhile (\<lambda>c. \<not> is_space c) (a @ CHR '' '' # r) = a"
  by (subst takeWhile_append2) (auto simp: word_ok_def)

lemma scan_format:
  assumes "word_ok a"
  shows "scan_address (format_address a p) old = Inr (Some a, Some p)"
proof -
  obtain v where "strtol (CHR '' '' # show_short p) = Some v" "of_int v = p" using strtol_show_short by blast
  with assms show ?thesis
    by (simp add: scan_address_def format_address_def dropWhile_word takeWhile_word)
      (auto simp: word_ok_def)
qed

lemma format_inj:
  assumes "word_ok a" and "word_ok b" and "format_address a p = format_address b q"
  shows "a = b \<and> p = q"
  using scan_format[OF assms(1), of p "(None, None)"] scan_format[OF assms(2), of q "(None, None)"]
  unfolding assms(3) by simp

abbreviation line_of :: "bytes \<times> u16 \<Rightarrow> bytes" where
  "line_of ap \<equiv> format_address (fst ap) (snd ap) @ [newline]"

definition history_text :: "(bytes \<times> u16) list \<Rightarrow> bytes" where
  "history_text aps = concat (map line_of aps)"

lemma takeWhile_line:
  assumes "newline \<notin> set l" and "NUL \<notin> set l"
  shows "takeWhile (\<lambda>c. c \<noteq> NUL \<and> c \<noteq> newline) (l @ newline # r) = l" and "dropWhile (\<lambda>c. c \<noteq> newline) (l @ newline # r) = newline # r"
  using assms by (induction l) auto

lemma address_known_iff:
  assumes "\<forall>ap\<in>set aps. word_ok (fst ap)" and "word_ok a"
  shows "address_known (format_address a p) (history_text aps) \<longleftrightarrow> (a, p) \<in> set aps"
  using assms(1)
proof (induction aps)
  case Nil
  then show ?case by (subst address_known.simps) (simp add: history_text_def)
next
  case (Cons ap aps)
  obtain b q where ap: "ap = (b, q)" by (cases ap)
  with Cons.prems have b: "word_ok b" by simp
  have "history_text (ap # aps) = format_address b q @ newline # history_text aps"
    by (simp add: history_text_def ap)
  then have "address_known (format_address a p) (history_text (ap # aps)) \<longleftrightarrow>
      format_address b q = format_address a p \<or> address_known (format_address a p) (history_text aps)"
    by (subst address_known.simps) (simp add: takeWhile_line format_address_line[OF b])
  with Cons format_inj[OF b assms(2)] ap show ?case by auto
qed

section \<open>Saving an address\<close>

text \<open>The history file holds these addresses; there may be no file yet.\<close>

definition history_file :: "client \<Rightarrow> (bytes \<times> u16) list \<Rightarrow> bool" where
  "history_file s aps \<longleftrightarrow> c_dir s \<and> (\<forall>ap\<in>set aps. word_ok (fst ap)) \<and>
     (case c_files s FILE_SERVER_HISTORY of None \<Rightarrow> aps = [] | Some c \<Rightarrow> c = history_text aps)"

definition add_new :: "'a \<Rightarrow> 'a list \<Rightarrow> 'a list" where
  "add_new x xs = (if x \<in> set xs then xs else xs @ [x])"

lemma server_addr_save_law:
  assumes h: "history_file s aps" and a: "word_ok a"
  obtains st t where "server_addr_save a p s = Inr (st, t)" and "history_file t (add_new (a, p) aps)"
    and "c_files t FILE_SERVER_HISTORY = Some (history_text (add_new (a, p) aps))"
    and "t = s\<lparr>c_files := (c_files s)(FILE_SERVER_HISTORY := c_files t FILE_SERVER_HISTORY)\<rparr>"
    and "st = (if (a, p) \<in> set aps then err LESTATUS_EXST else ok_status)"
proof (cases "c_files s FILE_SERVER_HISTORY")
  case None
  let ?t = "s\<lparr>c_files := (c_files s)(FILE_SERVER_HISTORY \<mapsto> line_of (a, p))\<rparr>"
  have "server_addr_save a p s = Inr (ok_status, ?t)"
    using None h format_address_line(3)[OF a, of p]
    by (simp add: server_addr_save_def get_leclient_file_def fopen_client_def fputs_client_def history_file_def)
  then show ?thesis
    by (rule that) (use None h a in \<open>auto simp: history_file_def add_new_def history_text_def\<close>)
next
  case (Some c)
  then have c: "c = history_text aps" "c_dir s" and w: "\<forall>ap\<in>set aps. word_ok (fst ap)"
    using h by (auto simp: history_file_def)
  show ?thesis
  proof (cases "(a, p) \<in> set aps")
    case True
    have "server_addr_save a p s = Inr (err LESTATUS_EXST, s)"
      using Some c True address_known_iff[OF w a, of p] format_address_line(3)[OF a, of p]
      by (simp add: server_addr_save_def get_leclient_file_def fopen_client_def)
    then show ?thesis
      by (rule that) (use h Some c True in \<open>auto simp: add_new_def fun_upd_idem\<close>)
  next
    case False
    let ?t = "s\<lparr>c_files := (c_files s)(FILE_SERVER_HISTORY \<mapsto> c @ line_of (a, p))\<rparr>"
    have "server_addr_save a p s = Inr (ok_status, ?t)"
      using Some c False address_known_iff[OF w a, of p] format_address_line(3)[OF a, of p]
      by (simp add: server_addr_save_def get_leclient_file_def fopen_client_def fputs_client_def)
    then show ?thesis
      by (rule that) (use Some c w a False in \<open>auto simp: history_file_def add_new_def history_text_def\<close>)
  qed
qed

section \<open>Loading the history\<close>

text \<open>The queue of addresses that the client keeps: null, or a queue that owns its addresses.\<close>

definition owns :: "mem_history \<Rightarrow> ptr list \<Rightarrow> bool" where
  "owns h ps \<longleftrightarrow> distinct ps \<and> (\<forall>p\<in>set ps. live (h_haddrs h) p)"

definition history_ok :: "ptr \<Rightarrow> mem_history \<Rightarrow> bool" where
  "history_ok q h \<longleftrightarrow> queue_ok h \<and> store_ok (h_haddrs h) \<and>
     (q = Null \<or> (\<exists>ps. items h q = Some ps \<and> owns h ps))"

definition addresses :: "ptr \<Rightarrow> mem_history \<Rightarrow> (bytes \<times> u16) list \<Rightarrow> bool" where
  "addresses q h aps \<longleftrightarrow> (\<exists>ps. items h q = Some ps \<and> owns h ps \<and>
     list_all2 (\<lambda>p ap. deref (h_haddrs h) p = Inr \<lparr>ha_addr = fst ap, ha_port = snd ap\<rparr>) ps aps)"

lemma off_queues_free [simp]: "off_queues (free_haddress f)"
proof -
  have *: "h\<lparr>q_nodes := n, q_queues := qs, h_haddrs := x\<rparr> = h\<lparr>h_haddrs := x, q_nodes := n, q_queues := qs\<rparr>"
    for h :: mem_history and n qs x by (cases h) simp
  show ?thesis unfolding off_queues_def free_haddress_def by (simp add: andthen_assoc) (simp only: * simp_thms)
qed

lemma free_all:
  assumes "owns h ps" and "store_ok (h_haddrs h)"
  shows "\<exists>haddrs. fold_res (free_haddress f) ps h = Inr (h\<lparr>h_haddrs := haddrs\<rparr>) \<and> store_ok haddrs"
  using assms
proof (induction ps arbitrary: h)
  case Nil
  then show ?case by (auto intro: exI[of _ "h_haddrs h"])
next
  case (Cons p ps)
  obtain a x where p: "p = Ptr a" "cells (h_haddrs h) a = Some x"
    using Cons.prems(1) by (auto simp: owns_def elim: liveE)
  let ?h = "h\<lparr>h_haddrs := (h_haddrs h)\<lparr>cells := (cells (h_haddrs h))(a := None)\<rparr>\<rparr>"
  have "free_haddress f p h = Inr ?h" using p by (simp add: free_haddress_def)
  moreover have "owns ?h ps"
    using Cons.prems(1) p(1) unfolding owns_def live_def by fastforce
  moreover have "store_ok (h_haddrs ?h)" using Cons.prems(2) by (simp add: store_ok_def)
  ultimately show ?case using Cons.IH[of ?h] by auto
qed

lemma history_push:
  assumes "addresses q h aps" and "queue_ok h" and "store_ok (h_haddrs h)"
  obtains h' where "\<forall>k :: status_t \<times> mem_history \<Rightarrow> mem_history res.
      (let (p, haddrs) = new_obj \<lparr>ha_addr = a, ha_port = po\<rparr> (h_haddrs h) in
      andthen (queue_push q p (h\<lparr>h_haddrs := haddrs\<rparr>)) k) = k (ok_status, h')"
    and "addresses q h' (aps @ [(a, po)])" and "queue_ok h'" and "store_ok (h_haddrs h')"
proof -
  let ?b = "brk (h_haddrs h)" and ?x = "\<lparr>ha_addr = a, ha_port = po\<rparr>"
  let ?h = "h\<lparr>h_haddrs := snd (new_obj ?x (h_haddrs h))\<rparr>"
  obtain ps where it: "items h q = Some ps" and o: "owns h ps"
    and l: "list_all2 (\<lambda>p ap. deref (h_haddrs h) p = Inr \<lparr>ha_addr = fst ap, ha_port = snd ap\<rparr>) ps aps"
    using assms(1) by (auto simp: addresses_def)
  have b: "cells (h_haddrs h) ?b = None" using assms(3) by simp
  obtain n qs where push: "queue_push q (Ptr ?b) ?h = Inr (ok_status, ?h\<lparr>q_nodes := n, q_queues := qs\<rparr>)"
    and ok: "qok n qs" and items: "qitems n qs = (items ?h)(q \<mapsto> ps @ [Ptr ?b])"
    by (rule queue_push_law[of ?h q ps "Ptr ?b" ?b]) (use assms(2) it in simp_all)
  let ?h' = "?h\<lparr>q_nodes := n, q_queues := qs\<rparr>"
  have old: "deref (h_haddrs ?h') p = deref (h_haddrs h) p" if "live (h_haddrs h) p" for p
    using that b by (auto simp: live_def new_obj_def)
  have live: "\<forall>p\<in>set ps. live (h_haddrs h) p" and d: "distinct ps" using o by (auto simp: owns_def)
  have "Ptr ?b \<notin> set ps" using live b by auto
  then have "owns ?h' (ps @ [Ptr ?b])"
    using live d old unfolding owns_def live_deref by (auto simp: new_obj_def)
  moreover have "list_all2 (\<lambda>p ap. deref (h_haddrs ?h') p = Inr \<lparr>ha_addr = fst ap, ha_port = snd ap\<rparr>) ps aps"
    using l by (rule list.rel_mono_strong) (use live old in auto)
  ultimately have "addresses q ?h' (aps @ [(a, po)])"
    unfolding addresses_def using items by (auto simp: list_all2_appendI new_obj_def)
  moreover have "store_ok (h_haddrs ?h')" using assms(3) by (simp add: store_ok_new)
  ultimately show ?thesis
    using push ok by (intro that[of ?h']) (simp_all add: new_obj_def)
qed

lemma history_loop_law:
  assumes "\<forall>ap\<in>set new. word_ok (fst ap)" and "addresses q h aps" and "queue_ok h" and "store_ok (h_haddrs h)"
  shows "\<exists>h'. history_loop hp (history_text new) q h = Inr h' \<and> addresses q h' (aps @ new) \<and> queue_ok h' \<and>
    store_ok (h_haddrs h')"
  using assms
proof (induction new arbitrary: hp h aps)
  case Nil
  have "s_fgets 64 [] = (of_int (err LESTATUS_CLIB), None, [])"
    using sint_of_nat32[of 64] by (simp add: s_fgets_def fgets_def)
  with Nil show ?case by (subst history_loop.simps) (simp add: history_text_def)
next
  case (Cons ap new)
  obtain a p where ap: "ap = (a, p)" by (cases ap)
  with Cons.prems have a: "word_ok a" by simp
  let ?l = "format_address a p"
  obtain h' where push: "\<forall>k :: status_t \<times> mem_history \<Rightarrow> mem_history res. (let (r, haddrs) = new_obj \<lparr>ha_addr = a, ha_port = p\<rparr> (h_haddrs h) in
      andthen (queue_push q r (h\<lparr>h_haddrs := haddrs\<rparr>)) k) = k (ok_status, h')"
    and ok: "addresses q h' (aps @ [(a, p)])" "queue_ok h'" "store_ok (h_haddrs h')"
    by (rule history_push[OF Cons.prems(2-4), of a p])
  have lines: "history_text (ap # new) = ?l @ newline # history_text new"
    by (simp add: history_text_def ap)
  have line: "s_fgets 64 (?l @ newline # history_text new) = (of_nat (length ?l), Some ?l, history_text new)"
    using format_address_line[OF a, of p] by (intro s_fgets_line) simp_all
  have pos: "0 <s (of_nat (length ?l) :: u64)"
    using format_address_line[OF a, of p] by (simp add: word_sless_alt signed_of_nat signed_take_bit_int_eq_self)
  have "history_loop hp (history_text (ap # new)) q h = history_loop (Some a, Some p) (history_text new) q h'"
    unfolding lines
    by (subst history_loop.simps) (simp add: line pos scan_format[OF a] push[rule_format])
  then show ?case
    using Cons.IH[of h' "aps @ [(a, p)]" "(Some a, Some p)"] Cons.prems(1) ok ap by auto
qed

text \<open>The list is replaced by an empty one before the file is read.\<close>

lemma history_reset:
  assumes "history_ok q h"
  obtains h1 r qs where "(if q \<noteq> Null then queue_delete free_haddress q h else Inr (ok_status, h)) = Inr (ok_status, h1)"
    and "queue_create Libc_free h1 = (ok_status, r, h1\<lparr>q_queues := qs\<rparr>)"
    and "addresses r (h1\<lparr>q_queues := qs\<rparr>) []" and "qok (q_nodes h1) qs" and "store_ok (h_haddrs h1)"
proof -
  let ?old = "if q \<noteq> Null then queue_delete free_haddress q h else Inr (ok_status, h)"
  have "\<exists>h1. ?old = Inr (ok_status, h1) \<and> queue_ok h1 \<and> store_ok (h_haddrs h1)"
  proof (cases "q = Null")
    case True
    with assms show ?thesis by (simp add: history_ok_def)
  next
    case False
    then obtain ps where ok: "queue_ok h" and it: "items h q = Some ps" and o: "owns h ps" "store_ok (h_haddrs h)"
      using assms by (auto simp: history_ok_def)
    show ?thesis
    proof (rule queue_delete_law[of free_haddress, OF off_queues_free ok it])
      fix a qu n qs
      assume "queue_delete free_haddress q h =
          andthen (fold_res (free_haddress (q_destruct qu)) ps h) (\<lambda>t. Inr (ok_status, t\<lparr>q_nodes := n, q_queues := qs\<rparr>))"
        and "qok n qs"
      moreover obtain x where "fold_res (free_haddress (q_destruct qu)) ps h = Inr (h\<lparr>h_haddrs := x\<rparr>)" "store_ok x"
        using free_all[OF o] by blast
      ultimately show ?thesis using False by simp
    qed
  qed
  then obtain h1 where old: "?old = Inr (ok_status, h1)" and h1: "queue_ok h1" "store_ok (h_haddrs h1)" by blast
  obtain r qs where new: "queue_create Libc_free h1 = (ok_status, r, h1\<lparr>q_queues := qs\<rparr>)"
    and qok: "qok (q_nodes h1) qs" and it: "qitems (q_nodes h1) qs = (items h1)(r \<mapsto> [])"
    by (rule queue_create_law[OF h1(1), of Libc_free])
  have "addresses r (h1\<lparr>q_queues := qs\<rparr>) []" using it by (simp add: addresses_def owns_def)
  then show ?thesis by (rule that[OF old new _ qok h1(2)])
qed

lemma server_addr_history_load_law:
  assumes f: "history_file s aps" "c_files s FILE_SERVER_HISTORY \<noteq> None"
    and h: "history_ok (g_server_addr_history s) (c_history s)"
  obtains q h' where "server_addr_history_load s = Inr (ok_status, s\<lparr>g_server_addr_history := q, c_history := h'\<rparr>)"
    and "addresses q h' aps" and "queue_ok h'" and "store_ok (h_haddrs h')"
proof -
  obtain h1 q qs where old: "(if g_server_addr_history s \<noteq> Null
      then queue_delete free_haddress (g_server_addr_history s) (c_history s) else Inr (ok_status, c_history s)) = Inr (ok_status, h1)"
    and new: "queue_create Libc_free h1 = (ok_status, q, h1\<lparr>q_queues := qs\<rparr>)"
    and h1: "addresses q (h1\<lparr>q_queues := qs\<rparr>) []" "qok (q_nodes h1) qs" "store_ok (h_haddrs h1)"
    by (rule history_reset[OF h])
  have "\<forall>ap\<in>set aps. word_ok (fst ap)" using f by (simp add: history_file_def)
  then obtain h' where "history_loop (None, None) (history_text aps) q (h1\<lparr>q_queues := qs\<rparr>) = Inr h'" "addresses q h' aps"
    "queue_ok h'" "store_ok (h_haddrs h')"
    using history_loop_law[of aps q "h1\<lparr>q_queues := qs\<rparr>" "[]"] h1 by fastforce
  moreover from this have "server_addr_history_load s =
      Inr (ok_status, s\<lparr>g_server_addr_history := q, c_history := h'\<rparr>)"
    using f old new
    by (auto simp: server_addr_history_load_def get_leclient_file_def fopen_client_def history_file_def)
  ultimately show ?thesis by (intro that)
qed

lemma addresses_ok: "addresses q h aps \<Longrightarrow> queue_ok h \<Longrightarrow> store_ok (h_haddrs h) \<Longrightarrow> history_ok q h"
  by (auto simp: addresses_def history_ok_def)

section \<open>Tokens\<close>

lemma read_line_all: "newline \<notin> set str \<Longrightarrow> length str \<le> k \<Longrightarrow> read_line k str = (str, [])"
proof (induction str arbitrary: k)
  case Nil
  then show ?case by (cases k) auto
next
  case (Cons c str)
  then show ?case by (cases k) auto
qed

lemma token_load_law:
  assumes "c_dir s" and "g_active_thread_exists s" and "c_files s (show_u64 (g_active_thread_id s)) = Some token"
    and "newline \<notin> set token" and "NUL \<notin> set token" and "token \<noteq> []" and "length token \<le> TOKEN_SIZE"
  shows "token_load s = Inr (ok_status, Some (token @ replicate (TOKEN_SIZE + 1 - length token) NUL), s)"
proof -
  have word: "takeWhile (\<lambda>c. c \<noteq> NUL \<and> c \<noteq> newline) token = token"
    using assms(4,5) by (induction token) auto
  have "fgets 25 token = Some (token, [])"
    using assms(4-7) by (simp add: fgets_def read_line_all TOKEN_SIZE_def)
  then have "s_fgets (TOKEN_SIZE + 1) token = (of_nat (length token), Some token, [])"
    using sint_of_nat32[of 25] by (simp only: s_fgets_def TOKEN_SIZE_def) (simp add: Let_def word)
  then show ?thesis
    using assms(1-3) by (simp add: token_load_def get_leclient_file_def fopen_client_def Let_def)
qed

lemma token_save_law:
  assumes "c_dir s" and "g_active_thread_exists s"
  shows "token_save token s =
    Inr (ok_status, s\<lparr>c_files := (c_files s)(show_u64 (g_active_thread_id s) \<mapsto> token)\<rparr>)"
  using assms by (simp add: token_save_def get_leclient_file_def fopen_client_def fputs_client_def Let_def)

section \<open>Properties\<close>

text \<open>Connecting to one server after the other, as far as the history is concerned.\<close>

definition save_all :: "(bytes \<times> u16) list \<Rightarrow> client \<Rightarrow> client res" where
  "save_all aps s = fold_res (\<lambda>(a, p) s. andthen (server_addr_save a p s) (\<lambda>(st, s). Inr s)) aps s"

lemma save_all_law:
  assumes "history_file s old" and "\<forall>ap\<in>set aps. word_ok (fst ap)"
  shows "\<exists>t. save_all aps s = Inr t \<and> history_file t (fold add_new aps old) \<and>
    (aps \<noteq> [] \<longrightarrow> c_files t FILE_SERVER_HISTORY \<noteq> None) \<and> t = s\<lparr>c_files := c_files t\<rparr>"
  using assms
proof (induction aps arbitrary: s old)
  case Nil
  then show ?case by (simp add: save_all_def)
next
  case (Cons ap aps)
  obtain a p where ap: "ap = (a, p)" by (cases ap)
  with Cons.prems have a: "word_ok a" by simp
  show ?case
  proof (rule server_addr_save_law[OF Cons.prems(1) a, of p])
    fix st u
    assume u: "server_addr_save a p s = Inr (st, u)" "history_file u (add_new (a, p) old)"
      "c_files u FILE_SERVER_HISTORY = Some (history_text (add_new (a, p) old))"
      "u = s\<lparr>c_files := (c_files s)(FILE_SERVER_HISTORY := c_files u FILE_SERVER_HISTORY)\<rparr>"
    obtain t where t: "save_all aps u = Inr t" "history_file t (fold add_new aps (add_new (a, p) old))"
      "aps \<noteq> [] \<longrightarrow> c_files t FILE_SERVER_HISTORY \<noteq> None" "t = u\<lparr>c_files := c_files t\<rparr>"
      using Cons.IH[OF u(2)] Cons.prems(2) by auto
    have "t = s\<lparr>c_files := c_files t\<rparr>" by (subst t(4), subst u(4)) simp
    moreover have "c_files t FILE_SERVER_HISTORY \<noteq> None"
    proof (cases aps)
      case Nil
      with t(1) u(3) show ?thesis by (simp add: save_all_def)
    qed (use t(3) in simp)
    moreover have "save_all (ap # aps) s = Inr t" using u(1) t(1) by (simp add: save_all_def ap)
    ultimately show ?case using t(2) ap by auto
  qed
qed

definition blank_meta :: lemeta where
  "blank_meta = \<lparr>mt_min_message_size = 0, mt_max_message_size = 0, mt_min_topic_size = 0, mt_max_topic_size = 0,
     mt_version = [], mt_version_size = 0, mt_thread_count = 0\<rparr>"

definition empty_queues :: mem_queue where
  "empty_queues = \<lparr>q_nodes = empty_store, q_queues = empty_store\<rparr>"

text \<open>The client's globals as they are initialised, in a world of empty files and input.\<close>

definition new_client :: client where
  "new_client = \<lparr>g_working = True, g_server_connected = False, g_server_addr = \<lparr>sin_port = 0, sin_addr = []\<rparr>,
     g_server_fd = \<lparr>sk_rx = [], sk_tx = [], sk_out = []\<rparr>, g_server_meta = blank_meta,
     g_server_addr_history = Null, g_server_haddr = \<lparr>ha_addr = [], ha_port = 0\<rparr>, g_server_queries = Null,
     g_active_thread_exists = False, g_active_thread_id = 0, g_home_dir = [], c_heap = empty_forum 40,
     c_pending = mem_queue.extend empty_queues \<lparr>p_queries = empty_store\<rparr>,
     c_history = mem_queue.extend empty_queues \<lparr>h_haddrs = empty_store\<rparr>,
     c_infos = empty_store, c_metas = empty_store, c_response_size = replicate 8 NUL, c_stdin = [],
     c_stdout = [], c_events = [], c_net = [], c_dir = True, c_files = (\<lambda>_. None), c_capacity = (\<lambda>n. 7 * n)\<rparr>"

text \<open>
  C33.  The servers a client was connected to, in any order and with repetitions, are loaded back as its
  history: each once, in the order of the first time, with the port that was saved, also one of 32768
  and above, which is printed as a negative number.
\<close>

theorem history_roundtrip:
  assumes "history_file s []" and "\<forall>ap\<in>set aps. word_ok (fst ap)" and "aps \<noteq> []"
    and "history_ok (g_server_addr_history s) (c_history s)"
  shows "\<exists>t u. save_all aps s = Inr t \<and> server_addr_history_load t = Inr (0, u) \<and>
    addresses (g_server_addr_history u) (c_history u) (fold add_new aps []) \<and>
    history_ok (g_server_addr_history u) (c_history u)"
proof -
  obtain t where t: "save_all aps s = Inr t" "history_file t (fold add_new aps [])"
    "c_files t FILE_SERVER_HISTORY \<noteq> None"
    "t = s\<lparr>c_files := c_files t\<rparr>"
    using save_all_law[OF assms(1,2)] assms(3) by blast
  have "history_ok (g_server_addr_history t) (c_history t)" using assms(4) by (subst t(4), subst t(4)) simp
  then obtain q h' where "server_addr_history_load t =
      Inr (ok_status, t\<lparr>g_server_addr_history := q, c_history := h'\<rparr>)"
    "addresses q h' (fold add_new aps [])" "queue_ok h'" "store_ok (h_haddrs h')"
    by (rule server_addr_history_load_law[OF t(2,3)])
  with t(1) show ?thesis by (auto intro: addresses_ok)
qed

lemma new_history_ok: "history_ok (g_server_addr_history new_client) (c_history new_client)"
  by (simp add: new_client_def history_ok_def mem_queue.defs empty_queues_def)

lemma new_history_file: "history_file new_client []"
  by (simp add: new_client_def history_file_def)

lemma history_roundtrip_witness:
  "\<exists>t u. save_all [(''10.0.0.1'', 7431), (''10.0.0.2'', 50000), (''10.0.0.1'', 7431)] new_client = Inr t \<and>
    server_addr_history_load t = Inr (0, u) \<and>
    addresses (g_server_addr_history u) (c_history u) [(''10.0.0.1'', 7431), (''10.0.0.2'', 50000)]"
proof -
  let ?aps = "[(''10.0.0.1'', 7431), (''10.0.0.2'', 50000), (''10.0.0.1'', 7431)] :: (bytes \<times> u16) list"
  have "\<forall>ap\<in>set ?aps. word_ok (fst ap)" by (simp add: word_ok_def is_space_def)
  moreover have "fold add_new ?aps [] = [(''10.0.0.1'', 7431), (''10.0.0.2'', 50000)]" by (simp add: add_new_def)
  ultimately show ?thesis
    using history_roundtrip[OF new_history_file _ _ new_history_ok, of ?aps] by fastforce
qed

text \<open>
  C34.  A token of at most 24 characters without newline that was saved for the active thread is what is
  loaded for it, padded with zeros, and no other file is touched.
\<close>

theorem token_roundtrip:
  assumes "c_dir s" and "g_active_thread_exists s" and "newline \<notin> set token" and "NUL \<notin> set token"
    and "token \<noteq> []" and "length token \<le> 24"
  shows "\<exists>t. token_save token s = Inr (0, t) \<and>
    token_load t = Inr (0, Some (token @ replicate (25 - length token) NUL), t) \<and>
    (\<forall>f. f \<noteq> decimal (unat (g_active_thread_id s)) \<longrightarrow> c_files t f = c_files s f)"
  using assms
  by (auto simp: token_save_law token_load_law TOKEN_SIZE_def show_u64_def)

lemma token_roundtrip_witness:
  "\<exists>t. token_save ''secret'' (new_client\<lparr>g_active_thread_exists := True, g_active_thread_id := 12\<rparr>) = Inr (0, t) \<and>
    token_load t = Inr (0, Some (''secret'' @ replicate 19 NUL), t)"
  using token_roundtrip[of "new_client\<lparr>g_active_thread_exists := True, g_active_thread_id := 12\<rparr>" "''secret''"]
  by (auto simp: new_client_def)

end
