(* ===== verification/Server.thy ===== *)
theory Server
  imports Forum_IO
begin

text \<open>
  \<open>server/server.c\<close>: the server's globals and the operations on them.  All threads are kept as
  handles in \<open>g_lethread_queue\<close>; four more queues hold what the manager threads still have to save.
  The mutex around \<open>g_next_lethread_id_value\<close> only matters between threads; here an operation runs
  from its call to its return.

  \<open>server_ok\<close> is the invariant of the running server and \<open>forum_of\<close> the forum it stands for; the
  laws say what each operation does to both.
\<close>

section \<open>State\<close>

text \<open>
  \<open>mem_junk\<close> is what a block of characters fresh from \<open>malloc\<close> happens to hold, by offset: the
  theorems hold for any, so what they say of a byte that the code never wrote depends on it.
\<close>

record server = mem_io +
  mem_junk :: "nat \<Rightarrow> byte"
  g_next_lethread_id_value :: u64
  g_lethread_query_queue :: ptr
  g_lemessages_query_queue :: ptr
  g_lemessage_query_queue :: ptr
  g_leauthor_query_queue :: ptr
  g_lethread_queue :: ptr
  g_program_on_finish :: bool
  g_cleaned :: bool

section \<open>Operations\<close>

subsection \<open>The queue of threads\<close>

text \<open>The loop of \<open>lethread_get_by_id\<close> over the handles: the node's handle and the thread.\<close>

fun find_lethread :: "u64 \<Rightarrow> ptr list \<Rightarrow> server \<Rightarrow> (ptr \<times> ptr) option res" where
  "find_lethread lethread_id [] s = Inr None"
| "find_lethread lethread_id (h # hs) s =
     andthen (deref (sp_objs s) h) (\<lambda>o1.
     andthen (deref (f_threads s) (sp_data o1)) (\<lambda>t.
     if lt_id t = lethread_id then Inr (Some (h, sp_data o1))
     else find_lethread lethread_id hs s))"

text \<open>
  \<open>lethread_get_by_id\<close>.  \<open>None\<close> is the pointer \<open>-LESTATUS_NFND\<close>; the messages and the author are
  loaded when they are missing.
\<close>

definition lethread_get_by_id :: "u64 \<Rightarrow> server \<Rightarrow> (ptr option \<times> server) res" where
  "lethread_get_by_id lethread_id s =
     andthen (queue_items (g_lethread_queue s) s) (\<lambda>hs.
     andthen (find_lethread lethread_id hs s) (\<lambda>found.
     case found of
       None \<Rightarrow> Inr (None, s)
     | Some (h, p) \<Rightarrow>
         andthen (deref (f_threads s) p) (\<lambda>t.
         andthen (deref (q_queues s) (lt_messages t)) (\<lambda>qu.
         andthen (lethread_message_count p s) (\<lambda>n.
         andthen (if q_first qu = Null \<and> n \<noteq> 0 then lemessages_load p s else Inr (ok_status, s)) (\<lambda>(st, s).
         andthen (deref (f_threads s) p) (\<lambda>t.
         andthen (if lt_author t = Null then Inr True
                  else andthen (deref (f_authors s) (lt_author t)) (\<lambda>a. Inr (la_token a = None))) (\<lambda>no_author.
         andthen (if no_author then leauthor_load p s else Inr (ok_status, s)) (\<lambda>(st, s).
         andthen (sharedptr_add h s) (\<lambda>(q, s). Inr (Some q, s)))))))))))"

fun find_loop :: "bytes \<Rightarrow> ptr \<Rightarrow> ptr list \<Rightarrow> server \<Rightarrow> server res" where
  "find_loop topic_part q [] s = Inr s"
| "find_loop topic_part q (h # hs) s =
     andthen (deref (sp_objs s) h) (\<lambda>o1.
     andthen (deref (f_threads s) (sp_data o1)) (\<lambda>t.
     case lt_topic t of
       None \<Rightarrow> Inl NullDeref
     | Some topic \<Rightarrow>
         andthen
           (if strstr topic topic_part then
              andthen (sharedptr_add h s) (\<lambda>(h', s).
              andthen (queue_push q h' s) (\<lambda>(st, s). Inr s))
            else Inr s) (\<lambda>s.
         find_loop topic_part q hs s)))"

definition lethread_find :: "bytes \<Rightarrow> server \<Rightarrow> (ptr \<times> server) res" where
  "lethread_find topic_part s =
     andthen (queue_items (g_lethread_queue s) s) (\<lambda>hs.
     let (st, q, s) = queue_create Sharedptr_delete s in
     andthen (find_loop topic_part q hs s) (\<lambda>s. Inr (q, s)))"

definition get_lethread_count :: "server \<Rightarrow> nat res" where
  "get_lethread_count s = andthen (deref (q_queues s) (g_lethread_queue s)) (\<lambda>qu. Inr (q_size qu))"

subsection \<open>Requests to save\<close>

definition s_lethread_save :: "ptr \<Rightarrow> server \<Rightarrow> (status_t \<times> server) res" where
  "s_lethread_save h s =
     NULLPTR_PREVENT h (err LESTATUS_NPTR, s) (
     andthen (sharedptr_add h s) (\<lambda>(h', s).
     andthen (queue_push (g_lethread_query_queue s) h' s) (\<lambda>(st, s). Inr (ok_status, s))))"

definition s_lemessages_save :: "ptr \<Rightarrow> server \<Rightarrow> (status_t \<times> server) res" where
  "s_lemessages_save h s =
     NULLPTR_PREVENT h (err LESTATUS_NPTR, s) (
     andthen (sharedptr_add h s) (\<lambda>(h', s).
     andthen (queue_push (g_lemessages_query_queue s) h' s) (\<lambda>(st, s). Inr (ok_status, s))))"

definition s_lemessage_save :: "ptr \<Rightarrow> server \<Rightarrow> (status_t \<times> server) res" where
  "s_lemessage_save m s =
     NULLPTR_PREVENT m (err LESTATUS_NPTR, s) (
     andthen (queue_push (g_lemessage_query_queue s) m s) (\<lambda>(st, s). Inr (ok_status, s)))"

definition s_leauthor_save :: "ptr \<Rightarrow> server \<Rightarrow> (status_t \<times> server) res" where
  "s_leauthor_save h s =
     NULLPTR_PREVENT h (err LESTATUS_NPTR, s) (
     andthen (sharedptr_add h s) (\<lambda>(h', s).
     andthen (queue_push (g_leauthor_query_queue s) h' s) (\<lambda>(st, s). Inr (ok_status, s))))"

subsection \<open>The meta file and new threads\<close>

definition lemeta_save :: "server \<Rightarrow> server res" where
  "lemeta_save s =
     (if fs_root (fsys s)
      then Inr (s\<lparr>fsys := (fsys s)\<lparr>fs_meta := Some (le64 (g_next_lethread_id_value s))\<rparr>\<rparr>)
      else Inl NullDeref)"

definition lemeta_load :: "server \<Rightarrow> server" where
  "lemeta_load s =
     (case (if fs_root (fsys s) then fs_meta (fsys s) else None) of
        None \<Rightarrow> s\<lparr>g_next_lethread_id_value := 0\<rparr>
      | Some c \<Rightarrow> s\<lparr>g_next_lethread_id_value :=
          un_le64 (overlay (take 8 c) (le64 (g_next_lethread_id_value s)))\<rparr>)"

definition next_lethread_id :: "server \<Rightarrow> (u64 \<times> server) res" where
  "next_lethread_id s =
     (let v = g_next_lethread_id_value s in
      andthen (lemeta_save (s\<lparr>g_next_lethread_id_value := v + 1\<rparr>)) (\<lambda>s. Inr (v, s)))"

text \<open>The id the caller passes is not used.\<close>

definition s_lethread_create :: "bytes \<Rightarrow> u64 \<Rightarrow> server \<Rightarrow> (ptr \<times> server) res" where
  "s_lethread_create topic lethread_id s =
     andthen (next_lethread_id s) (\<lambda>(i, s).
     andthen (lethread_create (Some topic) i s) (\<lambda>(st, tmp, s).
     andthen (sharedptr_create tmp Lethread_delete s) (\<lambda>(st, h, s).
     andthen (queue_push (g_lethread_queue s) h s) (\<lambda>(st, s).
     sharedptr_add h s))))"

subsection \<open>The manager threads\<close>

text \<open>One pass of the inner loop of each manager.\<close>

definition lethread_query_step :: "server \<Rightarrow> server res" where
  "lethread_query_step s =
     andthen (queue_pop (g_lethread_query_queue s) s) (\<lambda>(h, s).
     andthen (deref (sp_objs s) h) (\<lambda>o1.
     andthen (lethread_save (sp_data o1) s) (\<lambda>(st, s).
     andthen (sharedptr_delete call_destructor h s) (\<lambda>(st, s). Inr s))))"

definition lemessages_query_step :: "server \<Rightarrow> server res" where
  "lemessages_query_step s =
     andthen (queue_pop (g_lemessages_query_queue s) s) (\<lambda>(h, s).
     andthen (deref (sp_objs s) h) (\<lambda>o1.
     andthen (lemessages_save (sp_data o1) s) (\<lambda>(st, s).
     andthen (sharedptr_delete call_destructor h s) (\<lambda>(st, s). Inr s))))"

definition lemessage_query_step :: "server \<Rightarrow> server res" where
  "lemessage_query_step s =
     andthen (queue_pop (g_lemessage_query_queue s) s) (\<lambda>(m, s).
     andthen (lemessage_save m s) (\<lambda>(st, s). Inr s))"

definition leauthor_query_step :: "server \<Rightarrow> server res" where
  "leauthor_query_step s =
     andthen (queue_pop (g_leauthor_query_queue s) s) (\<lambda>(h, s).
     andthen (deref (sp_objs s) h) (\<lambda>o1.
     andthen (leauthor_save (sp_data o1) s) (\<lambda>(st, s).
     andthen (sharedptr_delete call_destructor h s) (\<lambda>(st, s). Inr s))))"

text \<open>
  The inner loop, for at most the given number of passes.  The outer loop of each manager polls: it
  starts the inner one again and again until the program finishes.
\<close>

fun drain :: "nat \<Rightarrow> (server \<Rightarrow> ptr) \<Rightarrow> (server \<Rightarrow> server res) \<Rightarrow> server \<Rightarrow> server res" where
  "drain 0 q step s = Inl Diverges"
| "drain (Suc n) q step s =
     andthen (queue_is_empty (q s) s) (\<lambda>e.
     if e = 0 \<and> \<not> g_program_on_finish s then andthen (step s) (drain n q step) else Inr s)"

definition lethread_query_drain :: "nat \<Rightarrow> server \<Rightarrow> server res" where
  "lethread_query_drain n = drain n g_lethread_query_queue lethread_query_step"

definition lemessages_query_drain :: "nat \<Rightarrow> server \<Rightarrow> server res" where
  "lemessages_query_drain n = drain n g_lemessages_query_queue lemessages_query_step"

definition lemessage_query_drain :: "nat \<Rightarrow> server \<Rightarrow> server res" where
  "lemessage_query_drain n = drain n g_lemessage_query_queue lemessage_query_step"

definition leauthor_query_drain :: "nat \<Rightarrow> server \<Rightarrow> server res" where
  "leauthor_query_drain n = drain n g_leauthor_query_queue leauthor_query_step"

subsection \<open>Startup and cleanup\<close>

text \<open>
  The loop of \<open>startup\<close> over the directories; it returns how many threads it loaded.  A fresh
  thread block has no defined field until \<open>lethread_load\<close> sets them all.
\<close>

definition blank_lethread :: lethread where
  "blank_lethread = \<lparr>lt_id = 0, lt_first_message_id = 0, lt_next_message_id = 0, lt_topic = None,
     lt_messages = Wild, lt_author = Wild\<rparr>"

fun startup_loop :: "bytes list \<Rightarrow> nat \<Rightarrow> server \<Rightarrow> (nat \<times> server) res" where
  "startup_loop [] dir_cnt s = Inr (dir_cnt, s)"
| "startup_loop (d_name # ds) dir_cnt s =
     (let (p, threads) = new_obj blank_lethread (f_threads s); s = s\<lparr>f_threads := threads\<rparr>;
          lethread_id = strtoull d_name in
      andthen (lethread_load p lethread_id s) (\<lambda>(st, s).
      if st \<noteq> ok_status then
        andthen (free_obj p (f_threads s)) (\<lambda>threads.
        startup_loop ds dir_cnt (s\<lparr>f_threads := threads\<rparr>))
      else
        andthen (leauthor_load p s) (\<lambda>(st, s).
        andthen (sharedptr_create p Lethread_delete s) (\<lambda>(st, h, s).
        andthen (queue_push (g_lethread_queue s) h s) (\<lambda>(st, s).
        startup_loop ds (Suc dir_cnt) s)))))"

text \<open>The five global queues.\<close>

definition create_queues :: "server \<Rightarrow> server" where
  "create_queues s =
     (let (st, q1, s) = queue_create Sharedptr_delete s;
          (st, q2, s) = queue_create Sharedptr_delete s;
          (st, q3, s) = queue_create Lemessage_delete s;
          (st, q4, s) = queue_create Sharedptr_delete s;
          (st, q5, s) = queue_create Sharedptr_delete s
      in s\<lparr>g_lethread_query_queue := q1, g_lemessages_query_queue := q2,
           g_lemessage_query_queue := q3, g_leauthor_query_queue := q4, g_lethread_queue := q5\<rparr>)"

definition startup :: "server \<Rightarrow> (nat \<times> server) res" where
  "startup s =
     (let s = (if fs_root (fsys s) then s
               else s\<lparr>fsys := \<lparr>fs_root = True, fs_dirs = [], fs_meta = None\<rparr>\<rparr>);
          s = create_queues s
      in andthen (startup_loop (map fst (fs_dirs (fsys s))) 0 s) (\<lambda>(dir_cnt, s).
         Inr (dir_cnt, lemeta_load s)))"

definition cleanup :: "server \<Rightarrow> server res" where
  "cleanup s =
     (let s = s\<lparr>g_program_on_finish := True\<rparr> in
      if g_cleaned s then Inr s
      else
        andthen (lemeta_save (s\<lparr>g_cleaned := True\<rparr>)) (\<lambda>s.
        andthen (queue_delete call_destructor (g_lethread_query_queue s) s) (\<lambda>(st, s).
        let s = s\<lparr>g_lethread_query_queue := Null\<rparr> in
        andthen (queue_delete call_destructor (g_lemessages_query_queue s) s) (\<lambda>(st, s).
        let s = s\<lparr>g_lemessages_query_queue := Null\<rparr> in
        andthen (queue_delete call_destructor (g_lemessage_query_queue s) s) (\<lambda>(st, s).
        let s = s\<lparr>g_lemessage_query_queue := Null\<rparr> in
        andthen (queue_delete call_destructor (g_leauthor_query_queue s) s) (\<lambda>(st, s).
        let s = s\<lparr>g_leauthor_query_queue := Null\<rparr> in
        andthen (queue_delete call_destructor (g_lethread_queue s) s) (\<lambda>(st, s).
        Inr (s\<lparr>g_lethread_queue := Null\<rparr>))))))))"

section \<open>The invariant\<close>

text \<open>
  The global queues are live, separate from each other and from the message queues.  Each registered
  handle owns a thread of its own; what waits to be saved are further handles of registered threads,
  and messages of live threads.
\<close>

definition cont :: "(ptr \<Rightarrow> ptr list option) \<Rightarrow> ptr \<Rightarrow> ptr list" where
  "cont I g = (case I g of None \<Rightarrow> [] | Some ds \<Rightarrow> ds)"

definition owner :: "(ptr \<Rightarrow> (ptr \<times> ptr \<times> destructor) option) \<Rightarrow> ptr \<Rightarrow> ptr" where
  "owner H h = fst (snd (the (H h)))"

definition queues_ok :: "ptr list \<Rightarrow> (ptr \<Rightarrow> ptr list option) \<Rightarrow> lethread store \<Rightarrow> bool" where
  "queues_ok G I T \<longleftrightarrow> distinct G \<and> (\<forall>g\<in>set G. I g \<noteq> None) \<and>
     (\<forall>a t. cells T a = Some t \<longrightarrow> lt_messages t \<notin> set G)"

definition handles_ok :: "(ptr \<Rightarrow> (ptr \<times> ptr \<times> destructor) option) \<Rightarrow> (ptr \<Rightarrow> athread option) \<Rightarrow>
    ptr list \<Rightarrow> ptr list \<Rightarrow> bool" where
  "handles_ok H V hs ws \<longleftrightarrow> distinct (hs @ ws) \<and> distinct (map (owner H) hs) \<and>
     (\<forall>h\<in>set hs. \<exists>r p v. H h = Some (r, p, Lethread_delete) \<and> V p = Some v) \<and>
     (\<forall>h\<in>set ws. \<exists>h'\<in>set hs. H h = H h')"

definition saves_ok :: "lethread store \<Rightarrow> lemessage store \<Rightarrow> ptr list \<Rightarrow> bool" where
  "saves_ok T M ms \<longleftrightarrow>
     (\<forall>m\<in>set ms. \<exists>x y. deref M m = Inr x \<and> lm_text x \<noteq> None \<and> deref T (lm_lethread x) = Inr y)"

definition gq :: "server \<Rightarrow> ptr list" where
  "gq s = [g_lethread_queue s, g_lethread_query_queue s, g_leauthor_query_queue s,
           g_lemessages_query_queue s, g_lemessage_query_queue s]"

abbreviation registered :: "server \<Rightarrow> ptr list" where
  "registered s \<equiv> cont (items s) (g_lethread_queue s)"

abbreviation waiting :: "server \<Rightarrow> ptr list" where
  "waiting s \<equiv> cont (items s) (g_lethread_query_queue s) @ cont (items s) (g_leauthor_query_queue s) @
     cont (items s) (g_lemessages_query_queue s)"

abbreviation pending :: "server \<Rightarrow> ptr list" where
  "pending s \<equiv> cont (items s) (g_lemessage_query_queue s)"

definition server_ok :: "server \<Rightarrow> bool" where
  "server_ok s \<longleftrightarrow> forum_ok s \<and> fs_root (fsys s) \<and> queues_ok (gq s) (items s) (f_threads s) \<and>
     handles_ok (handle_of s) (thread_at s) (registered s) (waiting s) \<and>
     saves_ok (f_threads s) (f_messages s) (pending s)"

text \<open>The forum that the registered handles stand for.\<close>

definition forum_of :: "server \<Rightarrow> athread list" where
  "forum_of s = map (\<lambda>h. the (thread_at s (owner (handle_of s) h))) (registered s)"

text \<open>A thread that \<open>lethread_get_by_id\<close> does not have to load anything for.\<close>

definition loaded :: "athread \<Rightarrow> bool" where
  "loaded v \<longleftrightarrow> (at_messages v \<noteq> [] \<or> at_next v = at_first v) \<and> at_author v \<noteq> None"

lemma server_okD:
  assumes "server_ok s"
  shows "forum_ok s" and "fs_root (fsys s)" and "queues_ok (gq s) (items s) (f_threads s)"
    and "handles_ok (handle_of s) (thread_at s) (registered s) (waiting s)"
    and "saves_ok (f_threads s) (f_messages s) (pending s)"
  using assms by (simp_all add: server_ok_def)

lemma queues_ok_items: "queues_ok G I T \<Longrightarrow> g \<in> set G \<Longrightarrow> I g = Some (cont I g)"
  by (auto simp: queues_ok_def cont_def)

lemma gq_mem [simp]:
  "g_lethread_queue s \<in> set (gq s)" "g_lethread_query_queue s \<in> set (gq s)"
  "g_leauthor_query_queue s \<in> set (gq s)" "g_lemessages_query_queue s \<in> set (gq s)"
  "g_lemessage_query_queue s \<in> set (gq s)"
  by (simp_all add: gq_def)

lemma gq_distinct:
  "distinct (gq s) \<longleftrightarrow> g_lethread_queue s \<notin> {g_lethread_query_queue s, g_leauthor_query_queue s,
     g_lemessages_query_queue s, g_lemessage_query_queue s} \<and>
   g_lethread_query_queue s \<notin> {g_leauthor_query_queue s, g_lemessages_query_queue s, g_lemessage_query_queue s} \<and>
   g_leauthor_query_queue s \<notin> {g_lemessages_query_queue s, g_lemessage_query_queue s} \<and>
   g_lemessages_query_queue s \<noteq> g_lemessage_query_queue s"
  by (simp add: gq_def)

lemma cont_upd [simp]: "cont (I(g \<mapsto> ds)) g' = (if g' = g then ds else cont I g')"
  by (simp add: cont_def)

lemma handles_okD:
  assumes "handles_ok H V hs ws" and "h \<in> set (hs @ ws)"
  obtains r p v where "H h = Some (r, p, Lethread_delete)" and "V p = Some v" and "owner H h = p"
proof -
  obtain h' where "h' \<in> set hs" "H h = H h'" using assms by (auto simp: handles_ok_def)
  then obtain r p v where "H h' = Some (r, p, Lethread_delete)" "V p = Some v"
    using assms(1) by (auto simp: handles_ok_def)
  with \<open>H h = H h'\<close> show ?thesis by (intro that[of r p v]) (simp_all add: owner_def)
qed

subsection \<open>Steps that keep it\<close>

lemma handles_ok_fresh:
  assumes ok: "handles_ok H V hs ws" and fresh: "H q = None \<or> q \<notin> set (hs @ ws)"
  shows "handles_ok (H(q := x)) V hs ws"
proof -
  have q: "h \<noteq> q" if "h \<in> set (hs @ ws)" for h
    using handles_okD[OF ok that] fresh that by (metis option.distinct(1))
  define H' where "H' = H(q := x)"
  have same: "H' h = H h" if "h \<in> set (hs @ ws)" for h using q[OF that] by (simp add: H'_def)
  have own: "map (owner H') hs = map (owner H) hs" using same by (simp add: owner_def)
  show ?thesis
    unfolding H'_def[symmetric] handles_ok_def own
  proof (intro conjI ballI)
    show "distinct (hs @ ws)" "distinct (map (owner H) hs)" using ok by (simp_all add: handles_ok_def)
    show "\<exists>r p v. H' h = Some (r, p, Lethread_delete) \<and> V p = Some v" if "h \<in> set hs" for h
      using ok that same[of h] by (simp add: handles_ok_def)
    fix h
    assume h: "h \<in> set ws"
    then obtain h' where "h' \<in> set hs" "H h = H h'" using ok by (auto simp: handles_ok_def)
    then show "\<exists>h'\<in>set hs. H' h = H' h'" using same[of h] same[of h'] h by (intro bexI[of _ h']) simp_all
  qed
qed

lemma handles_ok_wait:
  assumes "handles_ok H V hs ws" and "q \<notin> set (hs @ ws)" and "h \<in> set hs" and "H q = H h"
    and "set ws' = insert q (set ws)" and "distinct ws'"
  shows "handles_ok H V hs ws'"
  using assms unfolding handles_ok_def by auto

lemma handles_ok_register:
  assumes "handles_ok H V hs ws" and "q \<notin> set (hs @ ws)" and "H q = Some (r, p, Lethread_delete)"
    and "V p = Some v" and "p \<notin> owner H ` set hs"
  shows "handles_ok H V (hs @ [q]) ws"
  using assms unfolding handles_ok_def by (auto simp: owner_def)

lemma handles_ok_view:
  assumes "handles_ok H V hs ws" and "\<And>p v. V p = Some v \<Longrightarrow> \<exists>v'. V' p = Some v'"
  shows "handles_ok H V' hs ws"
  using assms unfolding handles_ok_def by (metis (no_types, lifting))

lemma handles_ok_unwait:
  assumes "handles_ok H V hs ws" and "set ws' \<subseteq> set ws" and "distinct ws'"
  shows "handles_ok H V hs ws'"
  using assms unfolding handles_ok_def by auto

lemma queues_ok_upd: "queues_ok G I T \<Longrightarrow> queues_ok G (I(g \<mapsto> ds)) T"
  by (auto simp: queues_ok_def)

lemma forum_ok_upd_global:
  assumes "forum_ok s" and "queues_ok G (items s) (f_threads s)" and "g \<in> set G"
    and "qok nodes qs" and "qitems nodes qs = (items s)(g \<mapsto> ds)"
  shows "fok (qitems nodes qs) (f_threads s) (f_messages s) (f_authors s)"
    and "view (qitems nodes qs) (f_threads s) (f_messages s) (f_authors s) = thread_at s"
proof -
  have "qitems nodes qs (lt_messages t) = items s (lt_messages t)" if "cells (f_threads s) a = Some t" for a t
    using assms(2,3,5) that by (auto simp: queues_ok_def)
  with assms(1) show "fok (qitems nodes qs) (f_threads s) (f_messages s) (f_authors s)"
    "view (qitems nodes qs) (f_threads s) (f_messages s) (f_authors s) = thread_at s"
    using fok_items_frame by blast+
qed

section \<open>Looking up threads\<close>

abbreviation shown :: "server \<Rightarrow> ptr \<Rightarrow> athread" where
  "shown s h \<equiv> the (thread_at s (owner (handle_of s) h))"

lemma registeredE:
  assumes "server_ok s" and "h \<in> set (registered s)"
  obtains r a o1 where "handle_of s h = Some (r, Ptr a, Lethread_delete)" and "owner (handle_of s) h = Ptr a"
    and "thread_at s (Ptr a) = Some (shown s h)" and "deref (sp_objs s) h = Inr o1" and "sp_data o1 = Ptr a"
proof -
  obtain r p v where H: "handle_of s h = Some (r, p, Lethread_delete)" "thread_at s p = Some v"
    "owner (handle_of s) h = p"
    by (rule handles_okD[OF server_okD(4)[OF assms(1)], of h]) (use assms(2) in auto)
  obtain a where p: "p = Ptr a" using H(2) by (auto elim: viewE)
  obtain b where "h = Ptr b" "cells (sp_objs s) b = Some \<lparr>sp_ref = r, sp_data = p, sp_destruct = Some Lethread_delete\<rparr>"
    using H(1) by (rule owned_liveE)
  with H p show ?thesis by (intro that) auto
qed

lemma find_lethread_eq:
  assumes "server_ok s" and "set hs \<subseteq> set (registered s)"
  shows "find_lethread i hs s =
    Inr (map_option (\<lambda>h. (h, owner (handle_of s) h)) (List.find (\<lambda>h. at_id (shown s h) = i) hs))"
  using assms(2)
proof (induction hs)
  case Nil
  then show ?case by simp
next
  case (Cons h hs)
  obtain r a o1 where h: "owner (handle_of s) h = Ptr a" "thread_at s (Ptr a) = Some (shown s h)"
    "deref (sp_objs s) h = Inr o1" "sp_data o1 = Ptr a"
    by (rule registeredE[OF assms(1), of h]) (use Cons.prems in auto)
  obtain c t where "Ptr a = Ptr c" "cells (f_threads s) c = Some t" "lt_id t = at_id (shown s h)"
    using h(2) by (rule thread_viewD)
  with Cons h show ?case by simp
qed

lemma registered_items: "server_ok s \<Longrightarrow> queue_items (g_lethread_queue s) s = Inr (registered s)"
  using queues_ok_items[OF server_okD(3), of s "g_lethread_queue s"] by (simp add: queue_items_iff)

text \<open>The registered handle of a thread of the forum.\<close>

lemma forum_of_split:
  assumes "forum_of s = us @ v # ws"
  obtains hs1 h hs2 where "registered s = hs1 @ h # hs2" and "map (shown s) hs1 = us" and "shown s h = v"
    and "map (shown s) hs2 = ws"
proof -
  from assms obtain hs1 rest where r: "registered s = hs1 @ rest" "map (shown s) hs1 = us" "map (shown s) rest = v # ws"
    unfolding forum_of_def by (auto simp: map_eq_append_conv)
  then obtain h hs2 where "rest = h # hs2" "shown s h = v" "map (shown s) hs2 = ws" by auto
  with r that show ?thesis by blast
qed

lemma find_append_None:
  "\<forall>x\<in>set xs. \<not> P x \<Longrightarrow> List.find P (xs @ ys) = List.find P ys"
  by (induction xs) auto

lemma lethread_get_by_id_missing:
  assumes ok: "server_ok s" and "i \<notin> at_id ` set (forum_of s)"
  shows "lethread_get_by_id i s = Inr (None, s)"
proof -
  have "List.find (\<lambda>h. at_id (shown s h) = i) (registered s) = None"
    using assms(2) by (auto simp: find_None_iff forum_of_def)
  then show ?thesis
    using find_lethread_eq[OF ok order_refl, of i] registered_items[OF ok] by (simp add: lethread_get_by_id_def)
qed

lemma server_ok_handle:
  assumes ok: "server_ok s" and sp: "sp_ok objs counts"
    and H: "owned objs = (handle_of s)(q := x)" and q: "handle_of s q = None \<or> q \<notin> set (registered s @ waiting s)"
  shows "server_ok (s\<lparr>sp_objs := objs, sp_counts := counts\<rparr>)"
    and "forum_of (s\<lparr>sp_objs := objs, sp_counts := counts\<rparr>) = forum_of s"
proof -
  let ?u = "s\<lparr>sp_objs := objs, sp_counts := counts\<rparr>"
  note D = server_okD[OF ok]
  have "handles_ok (handle_of ?u) (thread_at s) (registered s) (waiting s)"
    using handles_ok_fresh[OF D(4) q, of x] H by simp
  then show "server_ok ?u" using D sp by (simp add: server_ok_def gq_def)
  have "h \<noteq> q" if "h \<in> set (registered s)" for h
    using handles_okD[OF D(4), of h] q that by (metis UnCI option.distinct(1) set_append)
  then have "map (shown ?u) (registered s) = map (shown s) (registered s)"
    using H by (intro map_cong) (simp_all add: owner_def)
  then show "forum_of ?u = forum_of s" by (simp add: forum_of_def)
qed

text \<open>Only the handles that the queues hold matter.\<close>

lemma server_ok_handles:
  assumes ok: "server_ok s" and sp: "sp_ok objs counts"
    and H: "\<forall>h\<in>set (registered s @ waiting s). owned objs h = handle_of s h"
  shows "server_ok (s\<lparr>sp_objs := objs, sp_counts := counts\<rparr>)"
    and "forum_of (s\<lparr>sp_objs := objs, sp_counts := counts\<rparr>) = forum_of s"
proof -
  let ?u = "s\<lparr>sp_objs := objs, sp_counts := counts\<rparr>"
  note D = server_okD[OF ok]
  have own: "map (owner (owned objs)) (registered s) = map (owner (handle_of s)) (registered s)"
    using H by (intro map_cong) (simp_all add: owner_def)
  have "handles_ok (owned objs) (thread_at s) (registered s) (waiting s)"
    using D(4) H unfolding handles_ok_def own by (metis UnI1 UnI2 set_append)
  then show "server_ok ?u" using D sp by (simp add: server_ok_def gq_def)
  have "map (shown ?u) (registered s) = map (shown s) (registered s)"
    using H by (intro map_cong) (simp_all add: owner_def)
  then show "forum_of ?u = forum_of s" by (simp add: forum_of_def)
qed

lemma lethread_get_by_id_hit:
  assumes "queue_items (g_lethread_queue s) s = Inr hs" and "find_lethread i hs s = Inr (Some (h, Ptr a))"
    and "cells (f_threads s) a = Some t" and "lt_messages t = Ptr qa" and "cells (q_queues s) qa = Some qu"
    and "q_first qu \<noteq> Null \<or> lt_next_message_id t = lt_first_message_id t"
    and "lt_author t = Ptr b" and "cells (f_authors s) b = Some x" and "la_token x = Some tk"
    and "sharedptr_add h s = Inr (q, s')"
  shows "lethread_get_by_id i s = Inr (Some q, s')"
  using assms by (auto simp: lethread_get_by_id_def lethread_message_count_def)

lemma found_law:
  assumes ok: "server_ok s" and f: "forum_of s = us @ v # ws" and us: "at_id v \<notin> at_id ` set us"
  obtains hs1 h hs2 r a t qa qu where "registered s = hs1 @ h # hs2" and "map (shown s) hs1 = us" and "shown s h = v"
    and "map (shown s) hs2 = ws" and "find_lethread (at_id v) (registered s) s = Inr (Some (h, Ptr a))"
    and "handle_of s h = Some (r, Ptr a, Lethread_delete)" and "thread_at s (Ptr a) = Some v"
    and "cells (f_threads s) a = Some t" and "thread_view (items s) (f_messages s) (f_authors s) t = Some v"
    and "lt_messages t = Ptr qa" and "cells (q_queues s) qa = Some qu"
    and "q_first qu = Null \<longleftrightarrow> at_messages v = []"
proof -
  note D = server_okD[OF ok]
  obtain hs1 h hs2 where r: "registered s = hs1 @ h # hs2" "map (shown s) hs1 = us" "shown s h = v"
    "map (shown s) hs2 = ws" using f by (rule forum_of_split)
  have "at_id (shown s x) \<in> at_id ` set us" if "x \<in> set hs1" for x
    using that by (simp add: r(2)[symmetric])
  then have no: "\<forall>x\<in>set hs1. at_id (shown s x) \<noteq> at_id v" using us by metis
  have "List.find (\<lambda>h. at_id (shown s h) = at_id v) (registered s) = Some h"
    using r(1,3) find_append_None[OF no, where ys="h # hs2"] by simp
  then have found: "find_lethread (at_id v) (registered s) s = Inr (Some (h, owner (handle_of s) h))"
    using find_lethread_eq[OF ok order_refl, of "at_id v"] by simp
  have "h \<in> set (registered s)" unfolding r(1) by simp
  then obtain ref a where h: "handle_of s h = Some (ref, Ptr a, Lethread_delete)" "owner (handle_of s) h = Ptr a"
    "thread_at s (Ptr a) = Some (shown s h)"
    by (rule registeredE[OF ok]) blast
  obtain t where t: "cells (f_threads s) a = Some t"
    and tv: "thread_view (items s) (f_messages s) (f_authors s) t = Some v"
    using h(3) r(3) by (auto elim: viewE)
  obtain ds where ds: "items s (lt_messages t) = Some ds" "author_view (f_authors s) (lt_author t) = Some (at_author v)"
    "those (map (msg_view (f_messages s)) ds) = Some (at_messages v)" "lt_first_message_id t = at_first v"
    "lt_next_message_id t = at_next v"
    using tv by (rule thread_viewE)
  obtain qa qu where q: "lt_messages t = Ptr qa" "cells (q_queues s) qa = Some qu"
    using ds(1) by (rule qitems_live)
  have len: "length ds = length (at_messages v)"
    using ds(3) by (auto simp: those_map_Some dest: list_all2_lengthD)
  have qok: "queue_ok s" using D(1) by simp
  have first: "q_first qu = Null \<longleftrightarrow> at_messages v = []"
    using q_first_Null_iff(1)[OF qok _ q(2), of ds] ds(1) q(1) len by (cases ds) auto
  show ?thesis
    by (rule that[OF r found[unfolded h(2)] h(1)]) (use h(3) r(3) t tv q first in simp_all)
qed

lemma lethread_get_by_id_loaded:
  assumes ok: "server_ok s" and f: "forum_of s = us @ v # ws" and us: "at_id v \<notin> at_id ` set us"
    and l: "loaded v"
  obtains h q objs counts where "lethread_get_by_id (at_id v) s =
      Inr (Some (Ptr q), s\<lparr>sp_objs := objs, sp_counts := counts\<rparr>)"
    and "server_ok (s\<lparr>sp_objs := objs, sp_counts := counts\<rparr>)"
    and "forum_of (s\<lparr>sp_objs := objs, sp_counts := counts\<rparr>) = forum_of s"
    and "\<exists>hs1 hs2. registered s = hs1 @ h # hs2 \<and> map (shown s) hs1 = us \<and> shown s h = v \<and> map (shown s) hs2 = ws"
    and "sp_ok objs counts" and "handle_of s (Ptr q) = None"
    and "owned objs = (handle_of s)(Ptr q := handle_of s h)"
proof -
  note D = server_okD[OF ok]
  obtain hs1 h hs2 ref a t qa qu where r: "registered s = hs1 @ h # hs2" "map (shown s) hs1 = us" "shown s h = v"
    "map (shown s) hs2 = ws" and found: "find_lethread (at_id v) (registered s) s = Inr (Some (h, Ptr a))"
    and h: "handle_of s h = Some (ref, Ptr a, Lethread_delete)"
    and t: "cells (f_threads s) a = Some t" and tv: "thread_view (items s) (f_messages s) (f_authors s) t = Some v"
    and q: "lt_messages t = Ptr qa" "cells (q_queues s) qa = Some qu"
    and first: "q_first qu = Null \<longleftrightarrow> at_messages v = []"
    by (rule found_law[OF ok f us])
  have ds: "author_view (f_authors s) (lt_author t) = Some (at_author v)" "lt_first_message_id t = at_first v"
    "lt_next_message_id t = at_next v"
    using tv by (auto elim: thread_viewE)
  obtain i tk where "at_author v = Some (i, tk)" using l by (auto simp: loaded_def)
  then obtain b x where au: "lt_author t = Ptr b" "cells (f_authors s) b = Some x" "la_token x = Some tk"
    using ds(1) by (auto elim: author_viewE)
  obtain q objs counts where add: "sharedptr_add h s = Inr (Ptr q, s\<lparr>sp_objs := objs, sp_counts := counts\<rparr>)"
    "sp_ok objs counts" "owned objs = (handle_of s)(Ptr q \<mapsto> (ref, Ptr a, Lethread_delete))"
    "handle_of s (Ptr q) = None"
    by (rule sharedptr_add_law[OF _ h]) (use D(1) in auto)
  have "q_first qu \<noteq> Null \<or> lt_next_message_id t = lt_first_message_id t"
    using first l ds(2,3) by (simp add: loaded_def)
  with registered_items[OF ok] found t q au add(1)
  have "lethread_get_by_id (at_id v) s = Inr (Some (Ptr q), s\<lparr>sp_objs := objs, sp_counts := counts\<rparr>)"
    by (simp add: lethread_get_by_id_hit)
  moreover have H: "owned objs = (handle_of s)(Ptr q := handle_of s h)" using add(3) h by simp
  moreover have "handle_of s (Ptr q) = None \<or> Ptr q \<notin> set (registered s @ waiting s)" using add(4) by simp
  note O = server_ok_handle[OF ok add(2) H this]
  moreover have "\<exists>hs1 hs2. registered s = hs1 @ h # hs2 \<and> map (shown s) hs1 = us \<and> shown s h = v \<and>
      map (shown s) hs2 = ws"
    by (intro exI conjI) (rule r)+
  ultimately show ?thesis using O add(2,4) by (intro that)
qed

section \<open>What stays the same\<close>

text \<open>
  \<open>frame\<close> is what most operations leave alone.  \<open>backlog\<close> is what waits to be saved: for each message
  in \<open>g_lemessage_query_queue\<close> the id of the thread and the bytes that will be added to its file, and
  the ids of the threads whose \<open>lethreadinfo\<close> or \<open>leauthor\<close> file will be written.
\<close>

definition frame :: "server \<Rightarrow> bytes \<times> filesystem \<times> (nat \<Rightarrow> byte) \<times> u64 \<times> bool" where
  "frame s = (urandom s, fsys s, mem_junk s, g_next_lethread_id_value s, g_program_on_finish s)"

definition msg_line :: "server \<Rightarrow> ptr \<Rightarrow> u64 \<times> bytes" where
  "msg_line s m =
     (case deref (f_messages s) m of
        Inl f \<Rightarrow> (0, [])
      | Inr x \<Rightarrow> (case deref (f_threads s) (lm_lethread x) of
          Inl f \<Rightarrow> (0, [])
        | Inr t \<Rightarrow> (lt_id t, enc_message (lm_id x, lm_by_lethread_author x, the (lm_text x)))))"

record todo =
  td_messages :: "(u64 \<times> bytes) list"
  td_threads :: "u64 list"
  td_authors :: "u64 list"

abbreviation nothing_due :: todo where
  "nothing_due \<equiv> \<lparr>td_messages = [], td_threads = [], td_authors = []\<rparr>"

abbreviation due :: "server \<Rightarrow> ptr \<Rightarrow> u64 list" where
  "due s g \<equiv> map (\<lambda>h. at_id (shown s h)) (cont (items s) g)"

definition backlog :: "server \<Rightarrow> todo" where
  "backlog s = \<lparr>td_messages = map (msg_line s) (pending s), td_threads = due s (g_lethread_query_queue s),
     td_authors = due s (g_leauthor_query_queue s)\<rparr>"

definition steady :: "server \<Rightarrow> server \<Rightarrow> bool" where
  "steady s u \<longleftrightarrow> frame u = frame s \<and> backlog u = backlog s"

lemma frameD:
  assumes "frame u = frame s"
  shows "urandom u = urandom s" and "fsys u = fsys s" and "mem_junk u = mem_junk s"
    and "g_next_lethread_id_value u = g_next_lethread_id_value s"
    and "g_program_on_finish u = g_program_on_finish s"
  using assms by (simp_all add: frame_def)

lemma steady_refl [simp]: "steady s s"
  by (simp add: steady_def)

lemma steady_trans: "steady s t \<Longrightarrow> steady t u \<Longrightarrow> steady s u"
  by (simp add: steady_def)

lemma steadyD:
  assumes "steady s u"
  shows "frame u = frame s" and "backlog u = backlog s"
  using assms by (simp_all add: steady_def)

lemma msg_line_cong: "f_messages u = f_messages s \<Longrightarrow> f_threads u = f_threads s \<Longrightarrow> msg_line u = msg_line s"
  by (simp only: fun_eq_iff msg_line_def) simp

text \<open>Threads that stay, under the same ids.\<close>

definition same_ids :: "server \<Rightarrow> server \<Rightarrow> bool" where
  "same_ids s u \<longleftrightarrow> (\<forall>p v. thread_at s p = Some v \<longrightarrow> (\<exists>v'. thread_at u p = Some v' \<and> at_id v' = at_id v))"

lemma same_ids_refl: "thread_at u = thread_at s \<Longrightarrow> same_ids s u"
  by (simp add: same_ids_def)

lemma same_ids_upd:
  assumes "thread_at u = (thread_at s)(p \<mapsto> w)" and "\<forall>v. thread_at s p = Some v \<longrightarrow> at_id w = at_id v"
  shows "same_ids s u"
  unfolding same_ids_def assms(1) using assms(2) by simp

lemma ids_kept:
  assumes ok: "forum_ok s" and V: "same_ids s u" and t: "cells (f_threads s) c = Some t"
  shows "\<exists>t'. cells (f_threads u) c = Some t' \<and> lt_id t' = lt_id t"
proof -
  obtain v where v: "thread_view (items s) (f_messages s) (f_authors s) t = Some v"
    using fokD(4)[of "items s" "f_threads s" "f_messages s" "f_authors s" c t] ok t by auto
  then have "thread_at s (Ptr c) = Some v" using t by (simp add: view_Ptr)
  then obtain v' where v': "thread_at u (Ptr c) = Some v'" "at_id v' = at_id v" using V unfolding same_ids_def by blast
  obtain t' where t': "cells (f_threads u) c = Some t'" "thread_view (items u) (f_messages u) (f_authors u) t' = Some v'"
    using v'(1) by (auto elim: viewE)
  have "lt_id t = at_id v" using v by (auto elim: thread_viewE)
  moreover have "lt_id t' = at_id v'" using t'(2) by (auto elim: thread_viewE)
  ultimately show ?thesis using t'(1) v'(2) by auto
qed

text \<open>What waits stays the same while messages, threads' ids and waiting handles do.\<close>

lemma msg_lines_eq:
  assumes ok: "server_ok s" and M: "cells (f_messages s) \<subseteq>\<^sub>m cells (f_messages u)" and V: "same_ids s u"
    and ms: "set ms \<subseteq> set (pending s)"
  shows "map (msg_line u) ms = map (msg_line s) ms"
proof (rule map_cong[OF refl])
  fix m
  assume "m \<in> set ms"
  then obtain x y where m: "deref (f_messages s) m = Inr x" "deref (f_threads s) (lm_lethread x) = Inr y"
    using server_okD(5)[OF ok] ms by (fastforce simp: saves_ok_def)
  obtain b where b: "m = Ptr b" "cells (f_messages s) b = Some x" using m(1) by (cases m) (auto split: option.splits)
  obtain c where c: "lm_lethread x = Ptr c" "cells (f_threads s) c = Some y"
    using m(2) by (cases "lm_lethread x") (auto split: option.splits)
  have "cells (f_messages u) b = Some x" using M b(2) by (force simp: map_le_def dom_def)
  moreover obtain y' where "cells (f_threads u) c = Some y'" "lt_id y' = lt_id y"
    using ids_kept[OF server_okD(1)[OF ok] V c(2)] by blast
  ultimately show "msg_line u m = msg_line s m" using b c by (simp add: msg_line_def)
qed

lemma due_eq:
  assumes ok: "server_ok s" and H: "\<forall>h\<in>set hs. handle_of u h = handle_of s h" and V: "same_ids s u"
    and hs: "set hs \<subseteq> set (registered s @ waiting s)"
  shows "map (\<lambda>h. at_id (shown u h)) hs = map (\<lambda>h. at_id (shown s h)) hs"
proof (rule map_cong[OF refl])
  fix h
  assume h: "h \<in> set hs"
  then have "h \<in> set (registered s @ waiting s)" using hs by blast
  then obtain r p v where w: "handle_of s h = Some (r, p, Lethread_delete)" "thread_at s p = Some v" "owner (handle_of s) h = p"
    by (rule handles_okD[OF server_okD(4)[OF ok]])
  have "owner (handle_of u) h = p" using H h w(1) by (simp add: owner_def)
  moreover obtain v' where "thread_at u p = Some v'" "at_id v' = at_id v" using V w(2) unfolding same_ids_def by blast
  ultimately show "at_id (shown u h) = at_id (shown s h)" using w(2,3) by simp
qed

lemma backlog_eq:
  assumes ok: "server_ok s" and M: "cells (f_messages s) \<subseteq>\<^sub>m cells (f_messages u)" and V: "same_ids s u"
    and H: "\<forall>h\<in>set (waiting s). handle_of u h = handle_of s h" and g: "gq u = gq s"
    and I: "\<forall>g\<in>set (gq s) - {g_lethread_queue s}. items u g = items s g"
  shows "backlog u = backlog s"
proof -
  have G: "g_lethread_query_queue u = g_lethread_query_queue s" "g_leauthor_query_queue u = g_leauthor_query_queue s"
    "g_lemessage_query_queue u = g_lemessage_query_queue s" using g by (simp_all add: gq_def)
  have "distinct (gq s)" using server_okD(3)[OF ok] by (simp add: queues_ok_def)
  then have C: "cont (items u) (g_lemessage_query_queue s) = pending s"
    "cont (items u) (g_lethread_query_queue s) = cont (items s) (g_lethread_query_queue s)"
    "cont (items u) (g_leauthor_query_queue s) = cont (items s) (g_leauthor_query_queue s)"
    using I unfolding G by (auto simp: cont_def gq_distinct)
  have sub: "set (cont (items s) (g_lethread_query_queue s)) \<subseteq> set (waiting s)"
    "set (cont (items s) (g_leauthor_query_queue s)) \<subseteq> set (waiting s)" by auto
  have "map (msg_line u) (pending s) = map (msg_line s) (pending s)" by (rule msg_lines_eq[OF ok M V order_refl])
  moreover have "map (\<lambda>h. at_id (shown u h)) (cont (items s) (g_lethread_query_queue s)) = due s (g_lethread_query_queue s)"
    by (rule due_eq[OF ok _ V]) (use H sub(1) in auto)
  moreover have "map (\<lambda>h. at_id (shown u h)) (cont (items s) (g_leauthor_query_queue s)) = due s (g_leauthor_query_queue s)"
    by (rule due_eq[OF ok _ V]) (use H sub(2) in auto)
  ultimately show ?thesis by (simp add: backlog_def G C)
qed

lemma steady_handles:
  assumes "server_ok s" and "\<forall>h\<in>set (waiting s). owned objs h = handle_of s h"
  shows "steady s (s\<lparr>sp_objs := objs, sp_counts := counts\<rparr>)"
proof -
  have "same_ids s (s\<lparr>sp_objs := objs, sp_counts := counts\<rparr>)" by (rule same_ids_refl) simp
  from backlog_eq[OF assms(1) _ this] assms(2) show ?thesis by (simp add: steady_def frame_def gq_def)
qed

section \<open>Borrowed handles\<close>

text \<open>
  \<open>borrows s q i\<close>: a client holds the handle \<open>q\<close> on the \<open>i\<close>-th thread of the forum.  Every
  operation is described by what it does to the list \<open>forum_of\<close> and to such handles.
\<close>

definition borrows :: "server \<Rightarrow> ptr \<Rightarrow> nat \<Rightarrow> bool" where
  "borrows s q i \<longleftrightarrow> i < length (registered s) \<and> q \<notin> set (registered s @ waiting s) \<and>
     handle_of s q = handle_of s (registered s ! i)"

lemma length_forum_of [simp]: "length (forum_of s) = length (registered s)"
  by (simp add: forum_of_def)

lemma forum_of_nth: "i < length (registered s) \<Longrightarrow> forum_of s ! i = shown s (registered s ! i)"
  by (simp add: forum_of_def)

lemma borrowsE:
  assumes "server_ok s" and "borrows s q i"
  obtains r a o1 t where "handle_of s q = Some (r, Ptr a, Lethread_delete)"
    and "handle_of s (registered s ! i) = Some (r, Ptr a, Lethread_delete)"
    and "deref (sp_objs s) q = Inr o1" and "sp_data o1 = Ptr a"
    and "thread_at s (Ptr a) = Some (forum_of s ! i)" and "cells (f_threads s) a = Some t"
    and "thread_view (items s) (f_messages s) (f_authors s) t = Some (forum_of s ! i)"
    and "i < length (forum_of s)"
proof -
  let ?h = "registered s ! i"
  have i: "i < length (registered s)" and H: "handle_of s q = handle_of s ?h"
    using assms(2) by (simp_all add: borrows_def)
  then have "?h \<in> set (registered s)" by simp
  then obtain r a where h: "handle_of s ?h = Some (r, Ptr a, Lethread_delete)"
    "owner (handle_of s) ?h = Ptr a" "thread_at s (Ptr a) = Some (shown s ?h)"
    by (rule registeredE[OF assms(1)]) blast
  obtain b where b: "q = Ptr b" "cells (sp_objs s) b = Some \<lparr>sp_ref = r, sp_data = Ptr a, sp_destruct = Some Lethread_delete\<rparr>"
    using H h(1) by (metis owned_liveE)
  obtain t where t: "cells (f_threads s) a = Some t"
    "thread_view (items s) (f_messages s) (f_authors s) t = Some (shown s ?h)"
    using h(3) by (auto elim: viewE)
  show ?thesis
    by (rule that[of r a "\<lparr>sp_ref = r, sp_data = Ptr a, sp_destruct = Some Lethread_delete\<rparr>" t])
      (use H h b t i in \<open>simp_all add: forum_of_nth\<close>)
qed

text \<open>
  A thread whose messages are not in memory: once they are loaded, the rest of the lookup is the one in
  the state that the load leaves.
\<close>

lemma lethread_get_by_id_load:
  assumes s: "queue_items (g_lethread_queue s) s = Inr hs" "find_lethread i hs s = Inr (Some (h, Ptr a))"
    "cells (f_threads s) a = Some t" "lt_messages t = Ptr qa" "cells (q_queues s) qa = Some qu" "q_first qu = Null"
    "lt_next_message_id t \<noteq> lt_first_message_id t" "lemessages_load (Ptr a) s = Inr (st, u)"
    and u: "queue_items (g_lethread_queue u) u = Inr hs" "find_lethread i hs u = Inr (Some (h, Ptr a))"
    "cells (f_threads u) a = Some t" "cells (q_queues u) qa = Some qv" "q_first qv \<noteq> Null"
  shows "lethread_get_by_id i s = lethread_get_by_id i u"
  using s u by (simp add: lethread_get_by_id_def lethread_message_count_def)

text \<open>Borrowing and giving back.\<close>

lemma lethread_get_by_id_law:
  assumes ok: "server_ok s" and f: "forum_of s = us @ v # ws" and us: "at_id v \<notin> at_id ` set us"
    and l: "loaded v"
  obtains q objs counts where "lethread_get_by_id (at_id v) s =
      Inr (Some q, s\<lparr>sp_objs := objs, sp_counts := counts\<rparr>)"
    and "server_ok (s\<lparr>sp_objs := objs, sp_counts := counts\<rparr>)"
    and "forum_of (s\<lparr>sp_objs := objs, sp_counts := counts\<rparr>) = forum_of s"
    and "borrows (s\<lparr>sp_objs := objs, sp_counts := counts\<rparr>) q (length us)"
    and "steady s (s\<lparr>sp_objs := objs, sp_counts := counts\<rparr>)"
    and "(owned objs)(q := None) = handle_of s"
proof -
  obtain h q objs counts where g: "lethread_get_by_id (at_id v) s =
      Inr (Some (Ptr q), s\<lparr>sp_objs := objs, sp_counts := counts\<rparr>)"
    "server_ok (s\<lparr>sp_objs := objs, sp_counts := counts\<rparr>)"
    "forum_of (s\<lparr>sp_objs := objs, sp_counts := counts\<rparr>) = forum_of s"
    and r: "\<exists>hs1 hs2. registered s = hs1 @ h # hs2 \<and> map (shown s) hs1 = us \<and> shown s h = v \<and> map (shown s) hs2 = ws"
    and sp: "sp_ok objs counts" "handle_of s (Ptr q) = None" "owned objs = (handle_of s)(Ptr q := handle_of s h)"
    by (rule lethread_get_by_id_loaded[OF ok f us l])
  obtain hs1 hs2 where r: "registered s = hs1 @ h # hs2" "map (shown s) hs1 = us" using r by blast
  have len: "length us < length (registered s)" and h: "registered s ! length us = h"
    using r by (auto simp: r(2)[symmetric])
  have "x \<noteq> Ptr q" if "x \<in> set (registered s @ waiting s)" for x
    by (rule handles_okD[OF server_okD(4)[OF ok] that]) (use sp(2) in auto)
  then have "Ptr q \<notin> set (registered s @ waiting s)" by blast
  moreover from this len have "h \<noteq> Ptr q" unfolding h[symmetric] by (metis UnCI nth_mem set_append)
  ultimately have "borrows (s\<lparr>sp_objs := objs, sp_counts := counts\<rparr>) (Ptr q) (length us)"
    using len h sp(3) by (simp add: borrows_def)
  moreover have "\<forall>h\<in>set (waiting s). owned objs h = handle_of s h"
    using \<open>Ptr q \<notin> set (registered s @ waiting s)\<close> sp(3) by auto
  then have "steady s (s\<lparr>sp_objs := objs, sp_counts := counts\<rparr>)" by (rule steady_handles[OF ok])
  moreover have "(owned objs)(Ptr q := None) = handle_of s" using sp(2,3) by auto
  ultimately show ?thesis using g by (intro that)
qed

lemma release_law:
  assumes ok: "server_ok s" and b: "borrows s q i"
  obtains objs counts where "sharedptr_delete call q s = Inr (ok_status, s\<lparr>sp_objs := objs, sp_counts := counts\<rparr>)"
    and "server_ok (s\<lparr>sp_objs := objs, sp_counts := counts\<rparr>)"
    and "forum_of (s\<lparr>sp_objs := objs, sp_counts := counts\<rparr>) = forum_of s"
    and "sp_ok objs counts" and "owned objs = (handle_of s)(q := None)"
    and "steady s (s\<lparr>sp_objs := objs, sp_counts := counts\<rparr>)"
proof -
  obtain r a where h: "handle_of s q = Some (r, Ptr a, Lethread_delete)"
    "handle_of s (registered s ! i) = Some (r, Ptr a, Lethread_delete)"
    by (rule borrowsE[OF ok b]) blast
  have q: "q \<notin> set (registered s @ waiting s)" "i < length (registered s)" using b by (simp_all add: borrows_def)
  then have ne: "registered s ! i \<noteq> q" by (metis UnCI nth_mem set_append)
  have "sp_ok (sp_objs s) (sp_counts s)" using server_okD(1)[OF ok] by simp
  then obtain objs counts where
    d: "sharedptr_delete call q s = Inr (ok_status, s\<lparr>sp_objs := objs, sp_counts := counts\<rparr>)"
    "sp_ok objs counts" "owned objs = (handle_of s)(q := None)"
    by (rule sharedptr_delete_law[OF _ h(1,2) ne])
  note O = server_ok_handle[OF ok d(2,3)]
  have "steady s (s\<lparr>sp_objs := objs, sp_counts := counts\<rparr>)"
    by (rule steady_handles[OF ok]) (use q d(3) in auto)
  then show ?thesis by (intro that[OF d(1) O]) (use q d(2,3) in simp_all)
qed

end
