(* ===== verification/Server_Query.thy ===== *)
theory Server_Query
  imports Server Buffer
begin

text \<open>
  \<open>server/query.h\<close>, \<open>server/query.c\<close>: the commands of the protocol.  A command reads its
  arguments from the raw packet through a pointer, which is modelled by the bytes from the pointer to
  the end of the receive buffer, and builds its response in a block that it fills from left to right
  and, where the response has no fixed size, doubles.
\<close>

section \<open>Commands\<close>

record lecommandresult =
  lr_data :: "bytes option"
  lr_size :: u64
  lr_status :: status_t

type_synonym lecommand = "bytes \<Rightarrow> u64 \<Rightarrow> server \<Rightarrow> (lecommandresult \<times> server) res"

definition status_result :: "status_t \<Rightarrow> lecommandresult" where
  "status_result st = \<lparr>lr_data = None, lr_size = 0, lr_status = st\<rparr>"

definition buf_result :: "outbuf \<Rightarrow> nat \<Rightarrow> lecommandresult" where
  "buf_result b n = \<lparr>lr_data = Some (ob_data b), lr_size = of_nat n, lr_status = ok_status\<rparr>"

subsection \<open>GTHR\<close>

text \<open>
  The loop over the messages.  \<open>*(uint8_t *)response = by_lethread_author\<close> stores one byte, and
  \<open>response\<close> moves on by the four of a \<open>bool_t\<close>.
\<close>

fun get_messages_loop :: "ptr list \<Rightarrow> nat \<Rightarrow> nat \<Rightarrow> outbuf \<Rightarrow> server \<Rightarrow> outbuf res" where
  "get_messages_loop [] response_size chunk b s = Inr b"
| "get_messages_loop (d # ds) response_size chunk b s =
     andthen (deref (f_messages s) d) (\<lambda>m.
     case lm_text m of
       None \<Rightarrow> Inl NullDeref
     | Some text \<Rightarrow>
         let text_size = length text in
         andthen (reserve response_size (3 + 4 + 8 + 8 + text_size + 6) chunk (mem_junk s) b) (\<lambda>(chunk, b).
         andthen (put ''MSG'' b) (\<lambda>b.
         andthen (put [char_of (unat (lm_by_lethread_author m))] b) (\<lambda>b.
         andthen (skip 3 b) (\<lambda>b.
         andthen (put (le64 (lm_id m)) b) (\<lambda>b.
         andthen (put (le64 (of_nat text_size)) b) (\<lambda>b.
         andthen (put text b) (\<lambda>b.
         andthen (put ''MSGEND'' b) (\<lambda>b.
         get_messages_loop ds (ob_pos b) chunk b s)))))))))"

definition cmd_lethread_get :: lecommand where
  "cmd_lethread_get raw_data sz s =
     (let syntax = Inr (status_result (err LESTATUS_ISYN), s) in
      if unat sz < 5 + 8 then syntax
      else
        keyword ''THRID'' raw_data syntax (\<lambda>p.
        andthen (rd64 p) (\<lambda>lethread_id.
        andthen (lethread_get_by_id lethread_id s) (\<lambda>(found, s).
        case found of
          None \<Rightarrow> Inr (status_result (err LESTATUS_NFND), s)
        | Some h \<Rightarrow>
            andthen (deref (sp_objs s) h) (\<lambda>o1.
            andthen (deref (f_threads s) (sp_data o1)) (\<lambda>t.
            case lt_topic t of
              None \<Rightarrow> Inl NullDeref
            | Some topic \<Rightarrow>
                let topic_size = length topic in
                andthen (lethread_message_count (sp_data o1) s) (\<lambda>message_cnt.
                let response_size = 5 + 8 + 5 + 8 + 3 + topic_size + 6 + 8;
                    chunk_size = response_size + 1024;
                    b = malloc_buf (chunk_size + 1) (mem_junk s) in
                andthen (put ''THRID'' b) (\<lambda>b.
                andthen (put (le64 lethread_id) b) (\<lambda>b.
                andthen (put ''TPCSZ'' b) (\<lambda>b.
                andthen (put (le64 (of_nat topic_size)) b) (\<lambda>b.
                andthen (put ''TPC'' b) (\<lambda>b.
                andthen (put topic b) (\<lambda>b.
                andthen (put ''MSGCNT'' b) (\<lambda>b.
                andthen (put (le64 message_cnt) b) (\<lambda>b.
                andthen (queue_items (lt_messages t) s) (\<lambda>ds.
                andthen (get_messages_loop ds response_size chunk_size b s) (\<lambda>b.
                andthen (sharedptr_delete call_destructor h s) (\<lambda>(st, s).
                Inr (buf_result b (ob_pos b), s)))))))))))))))))))"

subsection \<open>CTHR\<close>

text \<open>\<open>response_size\<close> counts \<open>"OKTHRID"\<close>, but \<open>"THRID"\<close> is written.\<close>

definition cmd_lethread_create :: lecommand where
  "cmd_lethread_create raw_data sz s =
     (let syntax = Inr (status_result (err LESTATUS_ISYN), s);
          response_size = 7 + 8 + 3 + TOKEN_SIZE in
      if unat sz < 5 + 8 + 3 then syntax
      else
        keyword ''TPCSZ'' raw_data syntax (\<lambda>p.
        andthen (rd64 p) (\<lambda>topic_size.
        let p = drop 8 p in
        if unat topic_size > MAX_TOPIC_SIZE \<or> unat topic_size < MIN_TOPIC_SIZE
        then Inr (status_result (err LESTATUS_IDAT), s)
        else
          keyword ''TPC'' p syntax (\<lambda>p.
          andthen (rand_uint64_t (urandom s)) (\<lambda>(r, dev).
          andthen (s_lethread_create p (r mod 0xffffffff) (s\<lparr>urandom := dev\<rparr>)) (\<lambda>(h, s).
          andthen (deref (sp_objs s) h) (\<lambda>o1.
          andthen (leauthor_create (sp_data o1) True s) (\<lambda>(st, a, s).
          andthen (s_lethread_save h s) (\<lambda>(st, s).
          andthen (s_leauthor_save h s) (\<lambda>(st, s).
          let b = malloc_buf (response_size + 1) (mem_junk s) in
          andthen (deref (f_threads s) (sp_data o1)) (\<lambda>t.
          andthen (deref (f_authors s) (lt_author t)) (\<lambda>au.
          case la_token au of
            None \<Rightarrow> Inl NullDeref
          | Some token \<Rightarrow>
              andthen (put ''THRID'' b) (\<lambda>b.
              andthen (put (le64 (lt_id t)) b) (\<lambda>b.
              andthen (put ''TKN'' b) (\<lambda>b.
              andthen (strncpy_out token TOKEN_SIZE) (\<lambda>tkn.
              andthen (put tkn b) (\<lambda>b.
              andthen (sharedptr_delete call_destructor h s) (\<lambda>(st, s).
              Inr (buf_result b response_size, s)))))))))))))))))))"

subsection \<open>FTHR\<close>

fun find_response_loop :: "ptr list \<Rightarrow> nat \<Rightarrow> nat \<Rightarrow> outbuf \<Rightarrow> server \<Rightarrow> outbuf res" where
  "find_response_loop [] response_size chunk b s = Inr b"
| "find_response_loop (h # hs) response_size chunk b s =
     andthen (deref (sp_objs s) h) (\<lambda>o1.
     andthen (deref (f_threads s) (sp_data o1)) (\<lambda>t.
     case lt_topic t of
       None \<Rightarrow> Inl NullDeref
     | Some topic \<Rightarrow>
         let topic_size = length topic in
         andthen (reserve response_size (5 + 8 + 5 + 8 + 3 + topic_size) chunk (mem_junk s) b) (\<lambda>(chunk, b).
         andthen (put ''THRID'' b) (\<lambda>b.
         andthen (put (le64 (lt_id t)) b) (\<lambda>b.
         andthen (put ''TPCSZ'' b) (\<lambda>b.
         andthen (put (le64 (of_nat topic_size)) b) (\<lambda>b.
         andthen (put ''TPC'' b) (\<lambda>b.
         andthen (put topic b) (\<lambda>b.
         find_response_loop hs (ob_pos b) chunk b s)))))))))"

definition cmd_lethread_find :: lecommand where
  "cmd_lethread_find raw_data sz s =
     (let syntax = Inr (status_result (err LESTATUS_ISYN), s) in
      keyword ''TPCPSZ'' raw_data syntax (\<lambda>p.
      andthen (rd64 p) (\<lambda>topic_part_size.
      let p = drop 8 p in
      if unat topic_part_size > MAX_TOPIC_SIZE \<or> unat topic_part_size < MIN_TOPIC_SIZE
      then Inr (status_result (err LESTATUS_IDAT), s)
      else
        keyword ''TPCP'' p syntax (\<lambda>p.
        andthen (strncpy_str p (unat topic_part_size)) (\<lambda>topic_part.
        andthen (lethread_find topic_part s) (\<lambda>(q, s).
        andthen (queue_items q s) (\<lambda>hs.
        let chunk_size = 1024; b = malloc_buf (chunk_size + 1) (mem_junk s) in
        andthen (queue_is_empty q s) (\<lambda>e.
        andthen
          (if e \<noteq> 0 \<or> hs = [] then put ''NFND'' b
           else find_response_loop hs 0 chunk_size b s) (\<lambda>b.
        andthen (queue_delete call_destructor q s) (\<lambda>(st, s).
        Inr (buf_result b (ob_pos b), s)))))))))))"

subsection \<open>CMSG\<close>

definition cmd_lemessage_create :: lecommand where
  "cmd_lemessage_create raw_data sz s =
     (let syntax = Inr (status_result (err LESTATUS_ISYN), s) in
      if unat sz < 5 + 8 + 5 + 8 + 3 then syntax
      else
        keyword ''THRID'' raw_data syntax (\<lambda>p.
        andthen (rd64 p) (\<lambda>lethread_id.
        let p = drop 8 p in
        andthen (lethread_get_by_id lethread_id s) (\<lambda>(found, s).
        case found of
          None \<Rightarrow> Inr (status_result (err LESTATUS_NFND), s)
        | Some h \<Rightarrow>
            let leave = (\<lambda>st. andthen (sharedptr_delete call_destructor h s) (\<lambda>(st', s). Inr (status_result st, s))) in
            andthen (deref (sp_objs s) h) (\<lambda>o1.
            keyword ''TXTSZ'' p (leave (err LESTATUS_ISYN)) (\<lambda>p.
            andthen (rd64 p) (\<lambda>text_size.
            let p = drop 8 p in
            if unat text_size > MAX_MESSAGE_SIZE \<or> unat text_size < MIN_MESSAGE_SIZE
            then leave (err LESTATUS_IDAT)
            else
              keyword ''TXT'' p (leave (err LESTATUS_ISYN)) (\<lambda>p.
              andthen (strncpy_str p (unat text_size)) (\<lambda>text.
              let p = drop (unat text_size) p in
              andthen
                (keyword ''TKN'' p (Inr 0) (\<lambda>p. is_token_valid (sp_data o1) (Some p) s)) (\<lambda>is_author.
              andthen (lemessage_create (sp_data o1) (Some text) is_author s) (\<lambda>(st, m, s).
              andthen (s_lemessage_save m s) (\<lambda>(st, s).
              andthen (s_lethread_save h s) (\<lambda>(st, s).
              andthen (sharedptr_delete call_destructor h s) (\<lambda>(st, s).
              Inr (status_result ok_status, s)))))))))))))))"

subsection \<open>META, LIVE\<close>

text \<open>\<open>get_version\<close> returns \<open>argp_program_version\<close>.\<close>

definition get_version :: bytes where
  "get_version = ''LeForum Server v0.1''"

definition cmd_meta :: lecommand where
  "cmd_meta raw_data sz s =
     (let b = malloc_buf 128 (mem_junk s) in
      andthen (put ''MINTPCSZ'' b) (\<lambda>b.
      andthen (put (le64 (of_nat MIN_TOPIC_SIZE)) b) (\<lambda>b.
      andthen (put ''MAXTPCSZ'' b) (\<lambda>b.
      andthen (put (le64 (of_nat MAX_TOPIC_SIZE)) b) (\<lambda>b.
      andthen (put ''MINMSGSZ'' b) (\<lambda>b.
      andthen (put (le64 (of_nat MIN_MESSAGE_SIZE)) b) (\<lambda>b.
      andthen (put ''MAXMSGSZ'' b) (\<lambda>b.
      andthen (put (le64 (of_nat MAX_MESSAGE_SIZE)) b) (\<lambda>b.
      andthen (put ''THRN'' b) (\<lambda>b.
      andthen (get_lethread_count s) (\<lambda>n.
      andthen (put (le64 (of_nat n)) b) (\<lambda>b.
      andthen (put ''VERSZ'' b) (\<lambda>b.
      andthen (put (le64 (of_nat (length get_version))) b) (\<lambda>b.
      andthen (put ''VER'' b) (\<lambda>b.
      andthen (put get_version b) (\<lambda>b.
      Inr (buf_result b (ob_pos b), s)))))))))))))))))"

definition cmd_alive :: lecommand where
  "cmd_alive raw_data sz s = Inr (status_result ok_status, s)"

subsection \<open>Dispatch\<close>

definition CMDS :: "(bytes \<times> lecommand) list" where
  "CMDS =
     [(''GTHR'', cmd_lethread_get), (''CTHR'', cmd_lethread_create), (''FTHR'', cmd_lethread_find),
      (''CMSG'', cmd_lemessage_create), (''META'', cmd_meta), (''LIVE'', cmd_alive)]"

fun find_command :: "bytes \<Rightarrow> (bytes \<times> lecommand) list \<Rightarrow> (bytes \<times> lecommand) option res" where
  "find_command raw_data [] = Inr None"
| "find_command raw_data (c # cs) =
     andthen (at_lit raw_data (fst c)) (\<lambda>eq.
     if eq then Inr (Some c) else find_command raw_data cs)"

definition query_process :: "bytes option \<Rightarrow> u64 \<Rightarrow> server \<Rightarrow> (lecommandresult \<times> server) res" where
  "query_process raw_data sz s =
     (case raw_data of
        None \<Rightarrow> Inr (status_result (err LESTATUS_NPTR), s)
      | Some p \<Rightarrow>
          andthen (find_command p CMDS) (\<lambda>cmd.
          case cmd of
            None \<Rightarrow> Inr (status_result (err LESTATUS_ISYN), s)
          | Some (name, process) \<Rightarrow>
              process (drop (length name) p) (sz - of_nat (length name)) s))"

end
