(* ===== verification/Connection.thy ===== *)
theory Connection
  imports Server_Query Communication
begin

text \<open>
  \<open>handle_client\<close> in \<open>server/server.c\<close>: the loop that serves one client.  Each packet is a size in
  eight bytes and that many bytes of query; so is each answer.
\<close>

section \<open>Serving a client\<close>

definition leclientinfo_delete :: "ptr \<Rightarrow> 'a store \<Rightarrow> (status_t \<times> 'a store) res" where
  "leclientinfo_delete clinfo st =
     NULLPTR_PREVENT clinfo (err LESTATUS_NPTR, st) (
     andthen (free_obj clinfo st) (\<lambda>st. Inr (ok_status, st)))"

text \<open>The answer.  The results of \<open>send\<close> and \<open>s_send\<close> are not looked at.\<close>

definition send_result :: "lecommandresult \<Rightarrow> socket \<Rightarrow> socket res" where
  "send_result query_result sk =
     (if lr_size query_result = 0 then
        andthen (get_lestatus_string_repr (lr_status query_result)) (\<lambda>lestatus_representation.
        andthen (send (le64 (of_nat (length lestatus_representation))) sk) (\<lambda>(r, sk).
        andthen (send lestatus_representation sk) (\<lambda>(r, sk). Inr sk)))
      else
        case lr_data query_result of
          Some data \<Rightarrow>
            andthen (send (le64 (lr_size query_result)) sk) (\<lambda>(r, sk).
            if length data < unat (lr_size query_result) then Inl OutOfBounds
            else andthen (s_send data (unat (lr_size query_result)) sk) (\<lambda>(n, sk). Inr sk))
        | None \<Rightarrow>
            andthen (send (le64 (of_nat (length ''ERR''))) sk) (\<lambda>(r, sk).
            andthen (send ''ERR'' sk) (\<lambda>(r, sk). Inr sk)))"

text \<open>
  One pass of the loop: \<open>None\<close> when it breaks out.  \<open>recv\<close> of the size is not repeated, so fewer
  than eight bytes leave the high ones of \<open>cl_expected_data_size\<close> zero.
\<close>

definition handle_packet :: "bytes \<Rightarrow> socket \<Rightarrow> server \<Rightarrow> (bytes option \<times> socket \<times> server) res" where
  "handle_packet cl_data sk s =
     andthen (recv 8 sk) (\<lambda>(r, bs, sk).
     let cl_expected_data_size = un_le64 (overlay bs (le64 0)) in
     if unat cl_expected_data_size > MAX_PACKET_SIZE then Inr (None, sk, s)
     else
       andthen (s_recv (unat cl_expected_data_size) sk) (\<lambda>(data, sk).
       let cl_data_size = length data in
       if cl_data_size = 0 then Inr (None, sk, s)
       else if length cl_data \<le> cl_data_size then Inl OutOfBounds
       else
         let cl_data = overlay (data @ [NUL]) cl_data in
         andthen (query_process (Some cl_data) (of_nat cl_data_size) s) (\<lambda>(query_result, s).
         let cl_data = overlay (replicate (cl_data_size + 1) NUL) cl_data in
         andthen (send_result query_result sk) (\<lambda>sk. Inr (Some cl_data, sk, s)))))"

text \<open>The loop, for at most the given number of packets; then the connection is closed.\<close>

fun handle_client_loop :: "nat \<Rightarrow> bytes \<Rightarrow> socket \<Rightarrow> server \<Rightarrow> (socket \<times> server) res" where
  "handle_client_loop 0 cl_data sk s = Inl Diverges"
| "handle_client_loop (Suc n) cl_data sk s =
     (if g_program_on_finish s then Inr (sk, s)
      else
        andthen (handle_packet cl_data sk s) (\<lambda>(next_data, sk, s).
        case next_data of
          None \<Rightarrow> Inr (sk, s)
        | Some cl_data \<Rightarrow> handle_client_loop n cl_data sk s))"

definition handle_client :: "nat \<Rightarrow> socket \<Rightarrow> server \<Rightarrow> (socket \<times> server) res" where
  "handle_client n sk s = handle_client_loop n (map (mem_junk s) [0..<MAX_PACKET_SIZE + 1]) sk s"

end
