(* ===== verification/Server_Laws.thy ===== *)
theory Server_Laws
  imports Server
begin

text \<open>
  What the operations of \<open>server/server.c\<close> that the commands use do to the abstract forum: requests
  to save, new messages, authors and threads, each under the invariant \<open>server_ok\<close>.
\<close>

section \<open>Pushing onto a global queue\<close>

lemma push_global_law:
  assumes ok: "server_ok s" and g: "g \<in> set (gq s)"
  obtains nodes qs where "queue_push g (Ptr x) s = Inr (ok_status, s\<lparr>q_nodes := nodes, q_queues := qs\<rparr>)"
    and "qok nodes qs" and "qitems nodes qs = (items s)(g \<mapsto> cont (items s) g @ [Ptr x])"
    and "fok (qitems nodes qs) (f_threads s) (f_messages s) (f_authors s)"
    and "view (qitems nodes qs) (f_threads s) (f_messages s) (f_authors s) = thread_at s"
    and "queues_ok (gq s) (qitems nodes qs) (f_threads s)"
proof -
  note D = server_okD[OF ok]
  obtain nodes qs where p: "queue_push g (Ptr x) s = Inr (ok_status, s\<lparr>q_nodes := nodes, q_queues := qs\<rparr>)"
    "qok nodes qs" "qitems nodes qs = (items s)(g \<mapsto> cont (items s) g @ [Ptr x])"
    by (rule queue_push_law[OF _ queues_ok_items[OF D(3) g] refl]) (use D(1) in auto)
  note F = forum_ok_upd_global[OF D(1,3) g p(2,3)]
  have "queues_ok (gq s) (qitems nodes qs) (f_threads s)" unfolding p(3) by (rule queues_ok_upd[OF D(3)])
  with p F show ?thesis by (rule that)
qed

lemma fresh_handle:
  assumes "server_ok s" and "handle_of s p = None"
  shows "p \<notin> set (registered s @ waiting s)"
proof
  assume "p \<in> set (registered s @ waiting s)"
  then show False by (rule handles_okD[OF server_okD(4)[OF assms(1)]]) (use assms(2) in auto)
qed

section \<open>Requests to save\<close>

abbreviation request_queues :: "server \<Rightarrow> ptr set" where
  "request_queues s \<equiv> {g_lethread_query_queue s, g_leauthor_query_queue s, g_lemessages_query_queue s}"

text \<open>What a request for the thread \<open>i\<close> on the queue \<open>g\<close> adds to the backlog.\<close>

definition asked :: "u64 \<Rightarrow> ptr \<Rightarrow> server \<Rightarrow> todo" where
  "asked i g s =
     (backlog s)\<lparr>td_threads := td_threads (backlog s) @ (if g = g_lethread_query_queue s then [i] else []),
       td_authors := td_authors (backlog s) @ (if g = g_leauthor_query_queue s then [i] else [])\<rparr>"

lemma request_law:
  assumes ok: "server_ok s" and b: "borrows s q i" and g: "g \<in> request_queues s"
  obtains h objs counts nodes qs u where
    "sharedptr_add q s = Inr (h, s\<lparr>sp_objs := objs, sp_counts := counts\<rparr>)"
    and "queue_push g h (s\<lparr>sp_objs := objs, sp_counts := counts\<rparr>) = Inr (ok_status, u)"
    and "u = s\<lparr>sp_objs := objs, sp_counts := counts, q_nodes := nodes, q_queues := qs\<rparr>"
    and "server_ok u" and "forum_of u = forum_of s" and "borrows u q i"
    and "items u = (items s)(g \<mapsto> cont (items s) g @ [h])" and "handle_of u h = handle_of u q"
    and "frame u = frame s" and "backlog u = asked (at_id (forum_of s ! i)) g s"
proof -
  note D = server_okD[OF ok]
  obtain r a where hq: "handle_of s q = Some (r, Ptr a, Lethread_delete)"
    by (rule borrowsE[OF ok b]) blast
  have bd: "i < length (registered s)" "q \<notin> set (registered s @ waiting s)"
    "handle_of s q = handle_of s (registered s ! i)" using b by (simp_all add: borrows_def)
  obtain c objs counts where add: "sharedptr_add q s = Inr (Ptr c, s\<lparr>sp_objs := objs, sp_counts := counts\<rparr>)"
    "sp_ok objs counts" "owned objs = (handle_of s)(Ptr c \<mapsto> (r, Ptr a, Lethread_delete))" "handle_of s (Ptr c) = None"
    by (rule sharedptr_add_law[OF _ hq]) (use D(1) in auto)
  define s1 where "s1 = s\<lparr>sp_objs := objs, sp_counts := counts\<rparr>"
  have fresh: "Ptr c \<notin> set (registered s @ waiting s)" by (rule fresh_handle[OF ok add(4)])
  have cq: "Ptr c \<noteq> q" using add(4) hq by auto
  have mem: "registered s ! i \<in> set (registered s)" using bd(1) by simp
  have H: "owned objs = (handle_of s)(Ptr c := handle_of s q)" using add(3) hq by simp
  have ok1: "server_ok s1" "forum_of s1 = forum_of s"
    unfolding s1_def by (rule server_ok_handle[OF ok add(2) H], use fresh in blast)+
  have g1: "g \<in> set (gq s1)" using g by (auto simp: s1_def gq_def)
  obtain nodes qs where p: "queue_push g (Ptr c) s1 = Inr (ok_status, s1\<lparr>q_nodes := nodes, q_queues := qs\<rparr>)"
    "qok nodes qs" "qitems nodes qs = (items s1)(g \<mapsto> cont (items s1) g @ [Ptr c])"
    "fok (qitems nodes qs) (f_threads s1) (f_messages s1) (f_authors s1)"
    "view (qitems nodes qs) (f_threads s1) (f_messages s1) (f_authors s1) = thread_at s1"
    "queues_ok (gq s1) (qitems nodes qs) (f_threads s1)"
    by (rule push_global_law[OF ok1(1) g1])
  define u where "u = s1\<lparr>q_nodes := nodes, q_queues := qs\<rparr>"
  have it: "items u = (items s)(g \<mapsto> cont (items s) g @ [Ptr c])" using p(3) by (simp add: u_def s1_def)
  have sel: "gq u = gq s" "g_lethread_queue u = g_lethread_queue s" "g_lethread_query_queue u = g_lethread_query_queue s"
    "g_leauthor_query_queue u = g_leauthor_query_queue s" "g_lemessages_query_queue u = g_lemessages_query_queue s"
    "g_lemessage_query_queue u = g_lemessage_query_queue s" "handle_of u = owned objs" "thread_at u = thread_at s"
    using p(5) by (simp_all add: u_def s1_def gq_def)
  have dist: "distinct (gq s)" using D(3) by (simp add: queues_ok_def)
  then have reg: "registered u = registered s" and pend: "pending u = pending s"
    using g by (auto simp: it sel gq_distinct)
  have hok: "handles_ok (owned objs) (thread_at s) (registered s) (waiting s)"
    using server_okD(4)[OF ok1(1)] by (simp add: s1_def)
  have "set (waiting u) = insert (Ptr c) (set (waiting s))" using g dist by (auto simp: it sel gq_distinct)
  moreover have "distinct (waiting s)" using hok by (simp add: handles_ok_def)
  then have "distinct (waiting u)" using g dist fresh by (auto simp: it sel gq_distinct)
  ultimately have "handles_ok (owned objs) (thread_at s) (registered s) (waiting u)"
    using handles_ok_wait[OF hok fresh mem] H bd(3) mem fresh by auto
  then have "server_ok u"
    using p(2,4,6) D(1,2,5) add(2) reg pend sel
    by (simp add: server_ok_def) (simp add: u_def s1_def gq_def)
  moreover have "forum_of u = forum_of s"
    using ok1(2) unfolding forum_of_def sel reg[unfolded sel] by (simp add: s1_def)
  moreover have "handle_of u (Ptr c) = handle_of u q" using cq by (simp add: sel H)
  moreover have "borrows u q i"
    using bd cq fresh mem \<open>set (waiting u) = _\<close> unfolding borrows_def reg by (auto simp: sel H)
  moreover have "frame u = frame s" by (simp add: u_def s1_def frame_def)
  moreover have "backlog u = asked (at_id (forum_of s ! i)) g s"
  proof -
    have same: "same_ids s u" by (rule same_ids_refl) (rule sel(8))
    have keep: "\<forall>h\<in>set hs. handle_of u h = handle_of s h" if "set hs \<subseteq> set (waiting s)" for hs
      using that fresh by (auto simp: sel(7) H)
    have due: "map (\<lambda>h. at_id (shown u h)) hs = map (\<lambda>h. at_id (shown s h)) hs" if "set hs \<subseteq> set (waiting s)" for hs
      by (rule due_eq[OF ok keep[OF that] same]) (use that in auto)
    have old: "map (\<lambda>h. at_id (shown u h)) (cont (items s) g') = due s g'" if "g' \<in> request_queues s" for g'
      by (rule due) (use that in auto)
    have old1: "map (\<lambda>h. at_id (shown u h)) (cont (items s) (g_lethread_query_queue s)) = due s (g_lethread_query_queue s)"
      "map (\<lambda>h. at_id (shown u h)) (cont (items s) (g_leauthor_query_queue s)) = due s (g_leauthor_query_queue s)"
      by (rule old, simp)+
    have contents: "cont (items u) g' = cont (items s) g' @ (if g' = g then [Ptr c] else [])" for g'
      by (simp add: it cont_def)
    have "shown u (Ptr c) = forum_of s ! i"
      using sel(7,8) H bd(3) mem fresh by (simp add: owner_def forum_of_nth[OF bd(1)])
    moreover have "msg_line u = msg_line s" by (rule msg_line_cong) (simp_all add: u_def s1_def)
    ultimately show ?thesis
      using old1 contents pend unfolding backlog_def asked_def sel(3-6) by simp
  qed
  ultimately show ?thesis
    using add(1) p(1) it
    by (intro that[where h = "Ptr c" and u = u]) (simp_all add: u_def s1_def)
qed

section \<open>Changing one thread\<close>

lemma gq_eqD:
  assumes "gq u = gq s"
  shows "g_lethread_queue u = g_lethread_queue s" and "g_lethread_query_queue u = g_lethread_query_queue s"
    and "g_leauthor_query_queue u = g_leauthor_query_queue s"
    and "g_lemessages_query_queue u = g_lemessages_query_queue s"
    and "g_lemessage_query_queue u = g_lemessage_query_queue s"
  using assms by (simp_all add: gq_def)

lemma cont_cong: "I g = J g \<Longrightarrow> cont I g = cont J g"
  by (simp add: cont_def)

lemma global_contents:
  assumes "gq u = gq s" and "\<forall>g\<in>set (gq s). items u g = items s g"
  shows "registered u = registered s" and "waiting u = waiting s" and "pending u = pending s"
  using assms(2) unfolding gq_eqD[OF assms(1)] by (simp_all cong: cont_cong)

lemma shown_update:
  assumes "handles_ok H V hs ws" and "i < length hs" and "owner H (hs ! i) = p"
  shows "map (\<lambda>h. the ((V(p \<mapsto> v)) (owner H h))) hs = (map (\<lambda>h. the (V (owner H h))) hs)[i := v]"
proof (intro nth_equalityI)
  fix j
  assume "j < length (map (\<lambda>h. the ((V(p \<mapsto> v)) (owner H h))) hs)"
  then have j: "j < length hs" by simp
  have "distinct (map (owner H) hs)" using assms(1) by (simp add: handles_ok_def)
  then have "owner H (hs ! j) = owner H (hs ! i) \<longleftrightarrow> j = i"
    using j assms(2) by (metis length_map nth_eq_iff_index_eq nth_map)
  with j assms(2,3) show "map (\<lambda>h. the ((V(p \<mapsto> v)) (owner H h))) hs ! j =
      (map (\<lambda>h. the (V (owner H h))) hs)[i := v] ! j"
    by auto
qed simp

lemma live_threads_mono:
  assumes "forum_ok s" and "\<And>c. thread_at s (Ptr c) \<noteq> None \<Longrightarrow> thread_at u (Ptr c) \<noteq> None"
    and "cells (f_threads s) c = Some t"
  shows "\<exists>t'. cells (f_threads u) c = Some t'"
proof -
  obtain v where "thread_view (items s) (f_messages s) (f_authors s) t = Some v"
    using fokD(4)[of "items s" "f_threads s" "f_messages s" "f_authors s" c t] assms(1,3) by auto
  then have "thread_at s (Ptr c) \<noteq> None" using assms(3) by (simp add: view_Ptr)
  then have "thread_at u (Ptr c) \<noteq> None" by (rule assms(2))
  then show ?thesis by (auto simp: view_Ptr split: option.splits)
qed

lemma saves_ok_mono:
  assumes "saves_ok T M ms" and "cells M \<subseteq>\<^sub>m cells M'"
    and "\<And>c t. cells T c = Some t \<Longrightarrow> \<exists>t'. cells T' c = Some t'"
  shows "saves_ok T' M' ms"
  unfolding saves_ok_def
proof
  fix m
  assume "m \<in> set ms"
  then obtain x y where x: "deref M m = Inr x" "lm_text x \<noteq> None" "deref T (lm_lethread x) = Inr y"
    using assms(1) unfolding saves_ok_def by blast
  then obtain a c where a: "m = Ptr a" "cells M a = Some x" "lm_lethread x = Ptr c" "cells T c = Some y"
    by (auto simp: deref_eq_Inr)
  moreover have "cells M' a = Some x" using a(2) assms(2) by (metis domI map_le_def)
  moreover obtain y' where "cells T' c = Some y'" using assms(3)[OF a(4)] by blast
  ultimately show "\<exists>x y. deref M' m = Inr x \<and> lm_text x \<noteq> None \<and> deref T' (lm_lethread x) = Inr y"
    using x(2) by (intro exI[of _ x] exI[of _ y']) simp
qed

lemma server_ok_upd:
  assumes ok: "server_ok s" and f: "forum_ok u" and V: "thread_at u = (thread_at s)(p \<mapsto> v)"
    and same: "gq u = gq s" "sp_objs u = sp_objs s" "fs_root (fsys u)"
    and I: "\<forall>g\<in>set (gq s). items u g = items s g"
    and T: "\<forall>c t. cells (f_threads u) c = Some t \<longrightarrow> lt_messages t \<notin> set (gq s)"
    and M: "cells (f_messages s) \<subseteq>\<^sub>m cells (f_messages u)"
  shows "server_ok u" and "registered u = registered s" and "waiting u = waiting s"
proof -
  note D = server_okD[OF ok]
  note C = global_contents[OF same(1) I]
  have mono: "\<exists>v'. thread_at u p' = Some v'" if "thread_at s p' = Some v0" for p' v0
    using that V by simp
  have "queues_ok (gq u) (items u) (f_threads u)"
    using D(3) I T unfolding same(1) queues_ok_def by metis
  moreover have "handles_ok (handle_of u) (thread_at u) (registered u) (waiting u)"
    unfolding C same(2) by (rule handles_ok_view[OF D(4) mono])
  moreover have "\<exists>t'. cells (f_threads u) c = Some t'" if "cells (f_threads s) c = Some t" for c t
    using live_threads_mono[where s = s and u = u, OF D(1) _ that] V by simp
  with D(5) M have "saves_ok (f_threads u) (f_messages u) (pending u)"
    unfolding C by (rule saves_ok_mono)
  ultimately show "server_ok u" using f same(3) by (simp add: server_ok_def)
  show "registered u = registered s" "waiting u = waiting s" by (fact C)+
qed

lemma server_ok_view:
  assumes ok: "server_ok s" and i: "i < length (registered s)"
    and h: "handle_of s (registered s ! i) = Some (r, p, Lethread_delete)"
    and f: "forum_ok u" and V: "thread_at u = (thread_at s)(p \<mapsto> v)"
    and same: "gq u = gq s" "sp_objs u = sp_objs s" "fs_root (fsys u)"
    and I: "\<forall>g\<in>set (gq s). items u g = items s g"
    and T: "\<And>c t. cells (f_threads u) c = Some t \<Longrightarrow>
      \<exists>t'. cells (f_threads s) c = Some t' \<and> lt_messages t = lt_messages t'"
    and M: "cells (f_messages s) \<subseteq>\<^sub>m cells (f_messages u)"
  shows "server_ok u" and "forum_of u = (forum_of s)[i := v]" and "borrows u q j = borrows s q j"
proof -
  note D = server_okD[OF ok]
  have own: "owner (handle_of s) (registered s ! i) = p" using h by (simp add: owner_def)
  have "\<forall>c t. cells (f_threads u) c = Some t \<longrightarrow> lt_messages t \<notin> set (gq s)"
    using T D(3) unfolding queues_ok_def by metis
  note U = server_ok_upd[OF ok f V same I this M]
  show "server_ok u" by (rule U(1))
  show "forum_of u = (forum_of s)[i := v]"
    using shown_update[OF D(4) i own, of v] unfolding forum_of_def U(2) same(2) V .
  show "borrows u q j = borrows s q j" unfolding borrows_def U(2,3) same(2) ..
qed

text \<open>A thread that no handle owns yet does not belong to the forum.\<close>

definition unowned :: "server \<Rightarrow> ptr \<Rightarrow> bool" where
  "unowned s p \<longleftrightarrow> (\<forall>h\<in>set (registered s). owner (handle_of s) h \<noteq> p)"

lemma unowned_dead:
  assumes "server_ok s" and "thread_at s p = None"
  shows "unowned s p"
  unfolding unowned_def
proof
  fix h
  assume "h \<in> set (registered s)"
  then show "owner (handle_of s) h \<noteq> p"
    by (rule registeredE[OF assms(1)]) (use assms(2) in auto)
qed

lemma server_ok_unowned:
  assumes ok: "server_ok s" and p: "unowned s p"
    and f: "forum_ok u" and V: "thread_at u = (thread_at s)(p \<mapsto> v)"
    and same: "gq u = gq s" "sp_objs u = sp_objs s" "fs_root (fsys u)"
    and I: "\<forall>g\<in>set (gq s). items u g = items s g"
    and T: "\<forall>c t. cells (f_threads u) c = Some t \<longrightarrow> lt_messages t \<notin> set (gq s)"
    and M: "cells (f_messages s) \<subseteq>\<^sub>m cells (f_messages u)"
  shows "server_ok u" and "forum_of u = forum_of s" and "unowned u p"
proof -
  note U = server_ok_upd[OF ok f V same I T M]
  show "server_ok u" by (rule U(1))
  have "shown u h = shown s h" if "h \<in> set (registered s)" for h
    using p that V by (simp add: unowned_def same(2))
  then show "forum_of u = forum_of s" unfolding forum_of_def U(2) by simp
  show "unowned u p" using p unfolding unowned_def U(2) same(2) .
qed

text \<open>Registering a thread: a first handle, pushed onto \<open>g_lethread_queue\<close>.\<close>

lemma register_law:
  assumes ok: "server_ok s" and p: "unowned s (Ptr a)" and v: "thread_at s (Ptr a) = Some v"
  obtains b c s1 u where "sharedptr_create (Ptr a) Lethread_delete s = Inr (ok_status, Ptr b, s1)"
    and "queue_push (g_lethread_queue s1) (Ptr b) s1 = Inr (ok_status, u)"
    and "server_ok u" and "forum_of u = forum_of s @ [v]" and "registered u = registered s @ [Ptr b]"
    and "handle_of u = (handle_of s)(Ptr b \<mapsto> (Ptr c, Ptr a, Lethread_delete))"
    and "\<exists>objs counts nodes qs. u = s\<lparr>sp_objs := objs, sp_counts := counts, q_nodes := nodes, q_queues := qs\<rparr>"
    and "backlog u = backlog s"
proof -
  note D = server_okD[OF ok]
  obtain b rc objs counts where d: "sharedptr_create (Ptr a) Lethread_delete s =
      Inr (ok_status, Ptr b, s\<lparr>sp_objs := objs, sp_counts := counts\<rparr>)" "sp_ok objs counts"
    "owned objs = (handle_of s)(Ptr b \<mapsto> (Ptr rc, Ptr a, Lethread_delete))" "handle_of s (Ptr b) = None"
    by (rule sharedptr_create_law[where s = s]) (use D(1) in auto)
  define s1 where "s1 = s\<lparr>sp_objs := objs, sp_counts := counts\<rparr>"
  have none: "handle_of s (Ptr b) = None \<or> Ptr b \<notin> set (registered s @ waiting s)" using d(4) by simp
  note S = server_ok_handle[OF ok d(2,3) none, folded s1_def]
  have g: "g_lethread_queue s \<in> set (gq s1)" by (simp add: s1_def gq_def)
  have c1: "cont (items s1) g' = cont (items s) g'" for g' by (simp add: s1_def)
  obtain nodes qs where q: "queue_push (g_lethread_queue s) (Ptr b) s1 = Inr (ok_status, s1\<lparr>q_nodes := nodes, q_queues := qs\<rparr>)"
    "qok nodes qs" "qitems nodes qs = (items s1)(g_lethread_queue s \<mapsto> cont (items s1) (g_lethread_queue s) @ [Ptr b])"
    "fok (qitems nodes qs) (f_threads s1) (f_messages s1) (f_authors s1)"
    "view (qitems nodes qs) (f_threads s1) (f_messages s1) (f_authors s1) = thread_at s1"
    "queues_ok (gq s1) (qitems nodes qs) (f_threads s1)"
    by (rule push_global_law[OF S(1) g])
  define u where "u = s1\<lparr>q_nodes := nodes, q_queues := qs\<rparr>"
  have sel: "gq u = gq s" "thread_at u = thread_at s" "f_threads u = f_threads s" "f_messages u = f_messages s"
    using q(5) by (simp_all add: u_def s1_def gq_def)
  have H: "handle_of u = (handle_of s)(Ptr b \<mapsto> (Ptr rc, Ptr a, Lethread_delete))" using d(3) by (simp add: u_def s1_def)
  note G = gq_eqD[OF sel(1)]
  have I: "items u = (items s)(g_lethread_queue s \<mapsto> registered s @ [Ptr b])"
    using q(3) by (simp add: u_def s1_def)
  have dist: "distinct (gq s)" using D(3) by (simp add: queues_ok_def)
  have R: "registered u = registered s @ [Ptr b]" unfolding G by (simp add: I)
  have W: "waiting u = waiting s" "pending u = pending s"
    using dist unfolding G by (auto simp: I gq_distinct)
  note fresh = fresh_handle[OF ok d(4)]
  have hok: "handles_ok (handle_of u) (thread_at u) (registered s) (waiting s)"
    unfolding H sel(2) by (rule handles_ok_fresh[OF D(4) none])
  have sep: "owner (handle_of u) h \<noteq> Ptr a \<and> h \<noteq> Ptr b" if "h \<in> set (registered s)" for h
    using p that fresh by (auto simp: unowned_def H owner_def)
  have "handles_ok (handle_of u) (thread_at u) (registered u) (waiting u)"
    unfolding R W
  proof (rule handles_ok_register[OF hok fresh])
    show "handle_of u (Ptr b) = Some (Ptr rc, Ptr a, Lethread_delete)" by (simp add: H)
    show "thread_at u (Ptr a) = Some v" by (simp only: sel(2) v)
    show "Ptr a \<notin> owner (handle_of u) ` set (registered s)" using sep by force
  qed
  moreover have "saves_ok (f_threads u) (f_messages u) (pending u)" using D(5) by (simp add: W sel)
  moreover have "queues_ok (gq u) (items u) (f_threads u)" using q(6) unfolding sel by (simp add: u_def s1_def gq_def)
  ultimately have ok': "server_ok u"
    using q(2,4) d(2) D(1,2) by (simp add: server_ok_def u_def s1_def)
  have "map (shown u) (registered s) = map (shown s) (registered s)"
  proof (intro map_cong refl)
    fix h
    assume "h \<in> set (registered s)"
    from sep[OF this] show "shown u h = shown s h" by (simp add: sel(2) H owner_def)
  qed
  then have "forum_of u = forum_of s @ [v]"
    unfolding forum_of_def R by (simp add: H sel(2) v owner_def)
  moreover have "backlog u = backlog s"
    by (rule backlog_eq[OF ok _ same_ids_refl[OF sel(2)]]) (use fresh dist in \<open>auto simp: sel(1,4) H I\<close>)
  moreover have "queue_push (g_lethread_queue s1) (Ptr b) s1 = Inr (ok_status, u)"
    using q(1) by (simp add: s1_def u_def)
  moreover have "\<exists>objs counts nodes qs. u = s\<lparr>sp_objs := objs, sp_counts := counts, q_nodes := nodes, q_queues := qs\<rparr>"
    unfolding u_def s1_def by blast
  ultimately show ?thesis
    using d(1) ok' R H by (intro that[of b s1 u rc]) (simp_all add: s1_def)
qed

section \<open>Posting a message\<close>

definition posted :: "athread \<Rightarrow> bytes \<Rightarrow> i32 \<Rightarrow> athread" where
  "posted v txt by_author =
     v\<lparr>at_messages := at_messages v @ [\<lparr>am_id = at_next v, am_text = txt, am_by = by_author\<rparr>],
       at_next := at_next v + 1\<rparr>"

lemma post_law:
  assumes ok: "server_ok s" and b: "borrows s q i" and o1: "deref (sp_objs s) q = Inr o1"
    and len: "MIN_MESSAGE_SIZE \<le> length txt" "length txt \<le> MAX_MESSAGE_SIZE"
  obtains x u where "lemessage_create (sp_data o1) (Some txt) by_author s = Inr (ok_status, Ptr x, u)"
    and "server_ok u" and "forum_of u = (forum_of s)[i := posted (forum_of s ! i) txt by_author]"
    and "borrows u q i" and "saves_ok (f_threads u) (f_messages u) [Ptr x]"
    and "fsys u = fsys s" and "gq u = gq s" and "\<forall>g\<in>set (gq s). items u g = items s g"
    and "steady s u"
    and "msg_line u (Ptr x) = (at_id (forum_of s ! i), enc_message (at_next (forum_of s ! i), by_author, txt))"
proof -
  note D = server_okD[OF ok]
  obtain r a o2 t where h: "handle_of s (registered s ! i) = Some (r, Ptr a, Lethread_delete)"
    "deref (sp_objs s) q = Inr o2" "sp_data o2 = Ptr a" "thread_at s (Ptr a) = Some (forum_of s ! i)"
    by (rule borrowsE[OF ok b]) blast
  have p: "sp_data o1 = Ptr a" using h(2,3) o1 by simp
  have i: "i < length (registered s)" using b by (simp add: borrows_def)
  obtain x qm ds nodes qs threads messages where c: "lemessage_create (Ptr a) (Some txt) by_author s =
      Inr (ok_status, Ptr x, s\<lparr>f_threads := threads, f_messages := messages, q_nodes := nodes, q_queues := qs\<rparr>)"
    "qok nodes qs" "qitems nodes qs = (items s)(qm \<mapsto> ds @ [Ptr x])"
    "fok (qitems nodes qs) threads messages (f_authors s)"
    "view (qitems nodes qs) threads messages (f_authors s) = (thread_at s)(Ptr a \<mapsto> (forum_of s ! i)
       \<lparr>at_messages := at_messages (forum_of s ! i) @ [\<lparr>am_id = at_next (forum_of s ! i), am_text = txt, am_by = by_author\<rparr>],
        at_next := at_next (forum_of s ! i) + 1\<rparr>)"
    "cells (f_messages s) x = None"
    "messages = (f_messages s)\<lparr>cells := (cells (f_messages s))(x \<mapsto> \<lparr>lm_id = at_next (forum_of s ! i), lm_text = Some txt,
       lm_by_lethread_author = by_author, lm_lethread = Ptr a\<rparr>), brk := Suc x\<rparr>"
    "\<exists>c t. Ptr a = Ptr c \<and> cells (f_threads s) c = Some t \<and> lt_messages t = qm \<and>
       threads = (f_threads s)\<lparr>cells := (cells (f_threads s))(c \<mapsto> t\<lparr>lt_next_message_id := at_next (forum_of s ! i) + 1\<rparr>)\<rparr>"
    by (rule lemessage_create_law[OF D(1) h(4) len]) blast
  define u where "u = s\<lparr>f_threads := threads, f_messages := messages, q_nodes := nodes, q_queues := qs\<rparr>"
  obtain t where t: "cells (f_threads s) a = Some t" "lt_messages t = qm"
    "threads = (f_threads s)\<lparr>cells := (cells (f_threads s))(a \<mapsto> t\<lparr>lt_next_message_id := at_next (forum_of s ! i) + 1\<rparr>)\<rparr>"
    using c(8) by blast
  have sel: "sp_objs u = sp_objs s" "sp_counts u = sp_counts s" "gq u = gq s" "fsys u = fsys s" "f_threads u = threads" "f_messages u = messages"
    "items u = (items s)(qm \<mapsto> ds @ [Ptr x])" "forum_ok u"
    using c(2-4) D(1) by (simp_all add: u_def gq_def)
  have V: "thread_at u = (thread_at s)(Ptr a \<mapsto> posted (forum_of s ! i) txt by_author)"
    using c(5) by (simp add: u_def posted_def)
  have I: "\<forall>g\<in>set (gq s). items u g = items s g"
    using D(3) t(1,2) unfolding queues_ok_def sel by auto
  have T: "\<exists>t'. cells (f_threads s) b = Some t' \<and> lt_messages t0 = lt_messages t'" if "cells (f_threads u) b = Some t0" for b t0
    using that t by (auto simp: sel split: if_splits)
  have M: "cells (f_messages s) \<subseteq>\<^sub>m cells (f_messages u)"
    using c(6,7) by (auto simp: sel map_le_def)
  have root: "fs_root (fsys u)" using D(2) by (simp add: sel)
  note S = server_ok_view[OF ok i h(1) sel(8) V sel(3,1) root I T M]
  have so: "saves_ok (f_threads u) (f_messages u) [Ptr x]"
    using c(7) t(3) by (simp add: saves_ok_def sel)
  have "frame u = frame s" by (simp add: u_def frame_def)
  moreover have "backlog u = backlog s"
    by (rule backlog_eq[OF ok M same_ids_upd[OF V]]) (use I in \<open>simp_all add: sel(1,3) h(4) posted_def\<close>)
  ultimately have "steady s u" by (simp add: steady_def)
  moreover have "lt_id t = at_id (forum_of s ! i)"
    using h(4) t(1) by (auto elim!: viewE thread_viewE)
  then have "msg_line u (Ptr x) = (at_id (forum_of s ! i), enc_message (at_next (forum_of s ! i), by_author, txt))"
    using c(7) t(3) by (simp add: msg_line_def sel)
  ultimately show ?thesis
    using c(1) S b I so by (intro that[of x u]) (simp_all add: p sel(3,4) flip: u_def)
qed

lemma s_lemessage_save_law:
  assumes ok: "server_ok s" and m: "saves_ok (f_threads s) (f_messages s) [Ptr x]"
  obtains nodes qs u where "s_lemessage_save (Ptr x) s = Inr (ok_status, u)"
    and "u = s\<lparr>q_nodes := nodes, q_queues := qs\<rparr>"
    and "server_ok u" and "forum_of u = forum_of s" and "\<And>q i. borrows u q i = borrows s q i"
    and "items u = (items s)(g_lemessage_query_queue s \<mapsto> pending s @ [Ptr x])"
    and "frame u = frame s" and "backlog u = (backlog s)\<lparr>td_messages := td_messages (backlog s) @ [msg_line s (Ptr x)]\<rparr>"
proof -
  note D = server_okD[OF ok]
  let ?g = "g_lemessage_query_queue s"
  have g: "?g \<in> set (gq s)" by simp
  obtain nodes qs where p: "queue_push ?g (Ptr x) s = Inr (ok_status, s\<lparr>q_nodes := nodes, q_queues := qs\<rparr>)"
    "qok nodes qs" "qitems nodes qs = (items s)(?g \<mapsto> pending s @ [Ptr x])"
    "fok (qitems nodes qs) (f_threads s) (f_messages s) (f_authors s)"
    "view (qitems nodes qs) (f_threads s) (f_messages s) (f_authors s) = thread_at s"
    "queues_ok (gq s) (qitems nodes qs) (f_threads s)"
    by (rule push_global_law[OF ok g])
  define u where "u = s\<lparr>q_nodes := nodes, q_queues := qs\<rparr>"
  have it: "items u = (items s)(?g \<mapsto> pending s @ [Ptr x])" using p(3) by (simp add: u_def)
  have sel: "gq u = gq s" "handle_of u = handle_of s" "thread_at u = thread_at s"
    using p(5) by (simp_all add: u_def gq_def)
  note G = gq_eqD[OF sel(1)]
  have dist: "distinct (gq s)" using D(3) by (simp add: queues_ok_def)
  have reg: "registered u = registered s" and w: "waiting u = waiting s"
    using dist unfolding G by (auto simp: it gq_distinct)
  have pend: "pending u = pending s @ [Ptr x]" unfolding G by (simp add: it)
  have contents: "cont (items u) (g_lethread_query_queue s) = cont (items s) (g_lethread_query_queue s)"
    "cont (items u) (g_leauthor_query_queue s) = cont (items s) (g_leauthor_query_queue s)"
    using dist by (auto simp: it gq_distinct)
  have "saves_ok (f_threads s) (f_messages s) (pending s @ [Ptr x])"
    using D(5) m by (auto simp: saves_ok_def)
  then have "server_ok u"
    using D p(2,4,6) unfolding server_ok_def reg w pend sel by (simp add: u_def)
  moreover have "forum_of u = forum_of s" unfolding forum_of_def reg sel ..
  moreover have "borrows u q i = borrows s q i" for q i unfolding borrows_def reg w sel ..
  moreover have "s_lemessage_save (Ptr x) s = Inr (ok_status, u)"
    using p(1) by (simp add: s_lemessage_save_def NULLPTR_PREVENT_def u_def)
  moreover have "msg_line u = msg_line s" by (rule msg_line_cong) (simp_all add: u_def)
  then have "backlog u = (backlog s)\<lparr>td_messages := td_messages (backlog s) @ [msg_line s (Ptr x)]\<rparr>"
    using contents pend unfolding backlog_def sel(2,3) G by simp
  moreover have "frame u = frame s" by (simp add: frame_def u_def)
  ultimately show ?thesis using it by (intro that[where u = u and nodes = nodes and qs = qs]) (simp_all add: u_def)
qed

lemma s_lethread_save_law:
  assumes "server_ok s" and "borrows s q i"
  obtains h objs counts nodes qs u where "s_lethread_save q s = Inr (ok_status, u)"
    and "u = s\<lparr>sp_objs := objs, sp_counts := counts, q_nodes := nodes, q_queues := qs\<rparr>"
    and "server_ok u" and "forum_of u = forum_of s" and "borrows u q i"
    and "items u = (items s)(g_lethread_query_queue s \<mapsto> cont (items s) (g_lethread_query_queue s) @ [h])"
    and "handle_of u h = handle_of u q" and "frame u = frame s"
    and "backlog u = (backlog s)\<lparr>td_threads := td_threads (backlog s) @ [at_id (forum_of s ! i)]\<rparr>"
proof -
  obtain r a where "handle_of s q = Some (r, Ptr a, Lethread_delete)" by (rule borrowsE[OF assms]) blast
  then obtain b where b: "q = Ptr b" by (rule owned_liveE)
  have g: "g_lethread_query_queue s \<in> request_queues s" by simp
  show ?thesis
  proof (rule request_law[OF assms g], goal_cases)
    case (1 h objs counts nodes qs u)
    then have "s_lethread_save q s = Inr (ok_status, u)" by (simp add: s_lethread_save_def b)
    moreover have "distinct (gq s)" using server_okD(3)[OF assms(1)] by (simp add: queues_ok_def)
    then have "backlog u = (backlog s)\<lparr>td_threads := td_threads (backlog s) @ [at_id (forum_of s ! i)]\<rparr>"
      using 1(10) by (auto simp: asked_def gq_distinct)
    ultimately show ?case using 1(3-9) by (intro that) assumption+
  qed
qed

lemma s_leauthor_save_law:
  assumes "server_ok s" and "borrows s q i"
  obtains h objs counts nodes qs u where "s_leauthor_save q s = Inr (ok_status, u)"
    and "u = s\<lparr>sp_objs := objs, sp_counts := counts, q_nodes := nodes, q_queues := qs\<rparr>"
    and "server_ok u" and "forum_of u = forum_of s" and "borrows u q i"
    and "items u = (items s)(g_leauthor_query_queue s \<mapsto> cont (items s) (g_leauthor_query_queue s) @ [h])"
    and "handle_of u h = handle_of u q" and "frame u = frame s"
    and "backlog u = (backlog s)\<lparr>td_authors := td_authors (backlog s) @ [at_id (forum_of s ! i)]\<rparr>"
proof -
  obtain r a where "handle_of s q = Some (r, Ptr a, Lethread_delete)" by (rule borrowsE[OF assms]) blast
  then obtain b where b: "q = Ptr b" by (rule owned_liveE)
  have g: "g_leauthor_query_queue s \<in> request_queues s" by simp
  show ?thesis
  proof (rule request_law[OF assms g], goal_cases)
    case (1 h objs counts nodes qs u)
    then have "s_leauthor_save q s = Inr (ok_status, u)" by (simp add: s_leauthor_save_def b)
    moreover have "distinct (gq s)" using server_okD(3)[OF assms(1)] by (simp add: queues_ok_def)
    then have "backlog u = (backlog s)\<lparr>td_authors := td_authors (backlog s) @ [at_id (forum_of s ! i)]\<rparr>"
      using 1(10) by (auto simp: asked_def gq_distinct)
    ultimately show ?case using 1(3-9) by (intro that) assumption+
  qed
qed

section \<open>A new thread and its author\<close>

lemma next_lethread_id_law:
  assumes "server_ok s"
  shows "next_lethread_id s = Inr (g_next_lethread_id_value s,
    s\<lparr>g_next_lethread_id_value := g_next_lethread_id_value s + 1,
      fsys := (fsys s)\<lparr>fs_meta := Some (le64 (g_next_lethread_id_value s + 1))\<rparr>\<rparr>)"
  using server_okD(2)[OF assms] by (simp add: next_lethread_id_def lemeta_save_def Let_def)

definition new_thread :: "u64 \<Rightarrow> u64 \<Rightarrow> bytes \<Rightarrow> athread" where
  "new_thread i first topic = \<lparr>at_id = i, at_first = first, at_next = first, at_topic = topic,
     at_messages = [], at_author = None\<rparr>"

lemma s_lethread_create_law:
  assumes ok: "server_ok s" and src: "cstr src = Inr topic" and rnd: "rand_uint64_t (urandom s) = Inr (r, dev)"
  obtains q u where "s_lethread_create src j s = Inr (q, u)" and "server_ok u"
    and "forum_of u = forum_of s @ [new_thread (g_next_lethread_id_value s) (r mod 0xffffffff) topic]"
    and "borrows u q (length (forum_of s))"
    and "g_next_lethread_id_value u = g_next_lethread_id_value s + 1" and "urandom u = dev"
    and "mem_junk u = mem_junk s"
    and "fsys u = (fsys s)\<lparr>fs_meta := Some (le64 (g_next_lethread_id_value u))\<rparr>"
    and "g_program_on_finish u = g_program_on_finish s" and "backlog u = backlog s"
proof -
  let ?n = "g_next_lethread_id_value s"
  define s1 where "s1 = s\<lparr>g_next_lethread_id_value := ?n + 1, fsys := (fsys s)\<lparr>fs_meta := Some (le64 (?n + 1))\<rparr>\<rparr>"
  note D = server_okD[OF ok]
  have g1: "gq s1 = gq s" by (simp add: s1_def gq_def)
  have f1: "forum_ok s1" "urandom s1 = urandom s" "items s1 = items s" "handle_of s1 = handle_of s"
    "thread_at s1 = thread_at s" using D(1) by (simp_all add: s1_def)
  have rnd1: "rand_uint64_t (urandom s1) = Inr (r, dev)" using rnd f1(2) by simp
  obtain a qm qs threads where c: "lethread_create (Some src) ?n s1 =
      Inr (ok_status, Ptr a, s1\<lparr>urandom := dev, q_queues := qs, f_threads := threads\<rparr>)"
    "qok (q_nodes s1) qs" "items s1 qm = None" "qitems (q_nodes s1) qs = (items s1)(qm \<mapsto> [])"
    "fok (qitems (q_nodes s1) qs) threads (f_messages s1) (f_authors s1)" "thread_at s1 (Ptr a) = None"
    "view (qitems (q_nodes s1) qs) threads (f_messages s1) (f_authors s1) =
      (thread_at s1)(Ptr a \<mapsto> new_thread ?n (r mod 0xffffffff) topic)"
    and t: "\<exists>t. threads = (f_threads s1)\<lparr>cells := (cells (f_threads s1))(a \<mapsto> t), brk := Suc a\<rparr> \<and> lt_messages t = qm"
    unfolding new_thread_def by (rule lethread_create_law[OF f1(1) src rnd1, where i = ?n]) blast
  define s2 where "s2 = s1\<lparr>urandom := dev, q_queues := qs, f_threads := threads\<rparr>"
  have sel: "forum_ok s2" "gq s2 = gq s" "sp_objs s2 = sp_objs s" "fs_root (fsys s2)"
    using c(2,5) f1(1) D(2) by (simp_all add: s2_def s1_def gq_def)
  have V: "thread_at s2 = (thread_at s)(Ptr a \<mapsto> new_thread ?n (r mod 0xffffffff) topic)"
    using c(7) f1(5) by (simp add: s2_def)
  have qm: "qm \<notin> set (gq s)" using D(3) c(3) f1(3) by (auto simp: queues_ok_def)
  have I: "\<forall>g\<in>set (gq s). items s2 g = items s g" using c(4) f1(3) qm by (auto simp: s2_def)
  have T: "\<forall>b x. cells (f_threads s2) b = Some x \<longrightarrow> lt_messages x \<notin> set (gq s)"
  proof (intro allI impI)
    fix b x
    assume x: "cells (f_threads s2) b = Some x"
    obtain t where t: "threads = (f_threads s)\<lparr>cells := (cells (f_threads s))(a \<mapsto> t), brk := Suc a\<rparr>" "lt_messages t = qm"
      using t by (auto simp: s1_def)
    show "lt_messages x \<notin> set (gq s)"
    proof (cases "b = a")
      case True
      with x t qm show ?thesis by (simp add: s2_def)
    next
      case False
      with x t have "cells (f_threads s) b = Some x" by (simp add: s2_def)
      with D(3) show ?thesis by (auto simp: queues_ok_def)
    qed
  qed
  have M: "cells (f_messages s) \<subseteq>\<^sub>m cells (f_messages s2)" by (simp add: s2_def s1_def)
  have "thread_at s (Ptr a) = None" using c(6) f1(5) by simp
  note un = unowned_dead[OF ok this]
  note S2 = server_ok_unowned[OF ok un sel(1) V sel(2-4) I T M]
  obtain b rc s3 s4 where d: "sharedptr_create (Ptr a) Lethread_delete s2 = Inr (ok_status, Ptr b, s3)"
    "queue_push (g_lethread_queue s3) (Ptr b) s3 = Inr (ok_status, s4)" "server_ok s4"
    "forum_of s4 = forum_of s2 @ [new_thread ?n (r mod 0xffffffff) topic]" "registered s4 = registered s2 @ [Ptr b]"
    "handle_of s4 = (handle_of s2)(Ptr b \<mapsto> (Ptr rc, Ptr a, Lethread_delete))" "backlog s4 = backlog s2"
    and shape: "\<exists>objs counts nodes qs. s4 = s2\<lparr>sp_objs := objs, sp_counts := counts, q_nodes := nodes, q_queues := qs\<rparr>"
    by (rule register_law[OF S2(1,3), where v = "new_thread ?n (r mod 0xffffffff) topic"]) (use V in simp, blast)
  note ok4 = d(3) and R = d(5) and H = d(6)
  have fo: "forum_of s4 = forum_of s @ [new_thread ?n (r mod 0xffffffff) topic]" using d(4) S2(2) by simp
  obtain e objs' counts' where e: "sharedptr_add (Ptr b) s4 = Inr (Ptr e, s4\<lparr>sp_objs := objs', sp_counts := counts'\<rparr>)"
    "sp_ok objs' counts'" "owned objs' = (handle_of s4)(Ptr e \<mapsto> (Ptr rc, Ptr a, Lethread_delete))" "handle_of s4 (Ptr e) = None"
    by (rule sharedptr_add_law[where s = s4 and p = "Ptr b"]) (use server_okD(1)[OF ok4] H in auto)
  define u where "u = s4\<lparr>sp_objs := objs', sp_counts := counts'\<rparr>"
  have He: "handle_of s4 (Ptr e) = None \<or> Ptr e \<notin> set (registered s4 @ waiting s4)" using e(4) by simp
  note U = server_ok_handle[OF ok4 e(2,3) He]
  note fe = fresh_handle[OF ok4 e(4)]
  have be: "Ptr b \<noteq> Ptr e" using e(4) H by auto
  have borrow: "borrows u (Ptr e) (length (forum_of s))"
  proof -
    have len: "length (forum_of s) = length (registered s2)" using S2(2) by (metis length_forum_of)
    show ?thesis using fe be e(3) unfolding borrows_def u_def len by (simp add: R H nth_append)
  qed
  have "backlog s2 = backlog s"
    by (rule backlog_eq[OF ok M same_ids_upd[OF V]]) (use c(6) f1(5) sel(2,3) I in simp_all)
  moreover have "backlog u = backlog s4"
    unfolding u_def by (rule steadyD(2), rule steady_handles[OF ok4]) (use fe e(3) in auto)
  ultimately have bl: "backlog u = backlog s" using d(7) by simp
  have "s_lethread_create src j s = Inr (Ptr e, u)"
    using next_lethread_id_law[OF ok] c(1) d(1,2) e(1)
    by (simp add: s_lethread_create_def u_def flip: s1_def s2_def)
  then show ?thesis
    using U fo borrow shape bl by (intro that[of "Ptr e" u]) (auto simp: u_def s2_def s1_def)
qed

lemma author_law:
  assumes ok: "server_ok s" and b: "borrows s q i" and o1: "deref (sp_objs s) q = Inr o1"
    and rnd: "rand_uint64_t (urandom s) = Inr (r, dev)" and tok: "rand_string TOKEN_SIZE dev = Inr (token, dev')"
  obtains x u where "leauthor_create (sp_data o1) True s = Inr (ok_status, Ptr x, u)"
    and "server_ok u"
    and "forum_of u = (forum_of s)[i := (forum_of s ! i)\<lparr>at_author := Some (r mod 0xffffffff, token)\<rparr>]"
    and "borrows u q i" and "fsys u = fsys s" and "gq u = gq s" and "mem_junk u = mem_junk s"
    and "sp_objs u = sp_objs s" and "g_next_lethread_id_value u = g_next_lethread_id_value s" and "urandom u = dev'"
    and "g_program_on_finish u = g_program_on_finish s" and "backlog u = backlog s"
proof -
  note D = server_okD[OF ok]
  obtain ref a o2 where h: "handle_of s (registered s ! i) = Some (ref, Ptr a, Lethread_delete)"
    "deref (sp_objs s) q = Inr o2" "sp_data o2 = Ptr a" "thread_at s (Ptr a) = Some (forum_of s ! i)"
    by (rule borrowsE[OF ok b]) blast
  have p: "sp_data o1 = Ptr a" using h(2,3) o1 by simp
  have i: "i < length (registered s)" using b by (simp add: borrows_def)
  have tok': "if True then rand_string TOKEN_SIZE dev = Inr (token, dev')
      else token = replicate (TOKEN_SIZE + 1) NUL \<and> dev' = dev" using tok by simp
  obtain x threads authors where c: "leauthor_create (Ptr a) True s =
      Inr (ok_status, Ptr x, s\<lparr>urandom := dev', f_threads := threads, f_authors := authors\<rparr>)"
    "fok (items s) threads (f_messages s) authors"
    "view (items s) threads (f_messages s) authors =
      (thread_at s)(Ptr a \<mapsto> (forum_of s ! i)\<lparr>at_author := Some (r mod 0xffffffff, token)\<rparr>)"
    "\<And>c u. cells threads c = Some u \<Longrightarrow> \<exists>u'. cells (f_threads s) c = Some u' \<and> lt_messages u = lt_messages u'"
    by (rule leauthor_create_law[OF D(1) h(4) rnd tok']) blast
  define u where "u = s\<lparr>urandom := dev', f_threads := threads, f_authors := authors\<rparr>"
  have sel: "forum_ok u" "gq u = gq s" "sp_objs u = sp_objs s" "fs_root (fsys u)" "\<forall>g\<in>set (gq s). items u g = items s g"
    using c(2) D(1,2) by (simp_all add: u_def gq_def)
  have V: "thread_at u = (thread_at s)(Ptr a \<mapsto> (forum_of s ! i)\<lparr>at_author := Some (r mod 0xffffffff, token)\<rparr>)"
    using c(3) by (simp add: u_def)
  have T: "\<exists>t'. cells (f_threads s) b = Some t' \<and> lt_messages t = lt_messages t'" if "cells (f_threads u) b = Some t" for b t
    using c(4) that by (simp add: u_def)
  have M: "cells (f_messages s) \<subseteq>\<^sub>m cells (f_messages u)" by (simp add: u_def)
  note S = server_ok_view[OF ok i h(1) sel(1) V sel(2-5) T M]
  have "backlog u = backlog s"
    by (rule backlog_eq[OF ok M same_ids_upd[OF V]]) (use sel(5) in \<open>simp_all add: sel(2,3) h(4)\<close>)
  then show ?thesis
    using c(1) S b by (intro that[of x u]) (simp_all add: p u_def gq_def)
qed

end
