(* ===== verification/Server_Startup.thy ===== *)
theory Server_Startup
  imports Server_Laws
begin

text \<open>
  \<open>startup\<close>: the queues, and the threads that earlier runs saved.  A thread comes back with its topic
  and its author; its messages stay in their file until the thread is asked for.
\<close>

section \<open>The empty server\<close>

text \<open>The memory of a process that has not loaded any thread yet.\<close>

definition no_threads :: "server \<Rightarrow> bool" where
  "no_threads s \<longleftrightarrow> (\<forall>a. cells (f_threads s) a = None)"

lemma no_threads_create:
  assumes "forum_ok s" and "no_threads s"
  obtains q qs where "queue_create f s = (ok_status, q, s\<lparr>q_queues := qs\<rparr>)"
    and "forum_ok (s\<lparr>q_queues := qs\<rparr>)" and "no_threads (s\<lparr>q_queues := qs\<rparr>)"
    and "items (s\<lparr>q_queues := qs\<rparr>) = (items s)(q \<mapsto> [])" and "items s q = None"
proof -
  obtain q qs where c: "queue_create f s = (ok_status, q, s\<lparr>q_queues := qs\<rparr>)"
    "qok (q_nodes s) qs" "qitems (q_nodes s) qs = (items s)(q \<mapsto> [])" "items s q = None"
    by (rule queue_create_law[of s f]) (use assms(1) in auto)
  have "fok (items s) (f_threads s) (f_messages s) (f_authors s)" using assms(1) by simp
  then have "fok (qitems (q_nodes s) qs) (f_threads s) (f_messages s) (f_authors s)"
    by (rule fok_items_frame) (use assms(2) in \<open>simp add: no_threads_def\<close>)
  with c assms show ?thesis by (intro that[of q qs]) (simp_all add: no_threads_def)
qed

lemma create_queues_law:
  assumes f: "forum_ok s" and n: "no_threads s" and root: "fs_root (fsys s)"
  shows "server_ok (create_queues s)" and "forum_of (create_queues s) = []"
    and "fsys (create_queues s) = fsys s" and "urandom (create_queues s) = urandom s"
    and "g_next_lethread_id_value (create_queues s) = g_next_lethread_id_value s"
    and "g_program_on_finish (create_queues s) = g_program_on_finish s"
    and "backlog (create_queues s) = nothing_due"
    and "mem_junk (create_queues s) = mem_junk s"
proof -
  obtain q1 r1 where c1: "queue_create Sharedptr_delete s = (ok_status, q1, s\<lparr>q_queues := r1\<rparr>)"
    "forum_ok (s\<lparr>q_queues := r1\<rparr>)" "no_threads (s\<lparr>q_queues := r1\<rparr>)"
    "items (s\<lparr>q_queues := r1\<rparr>) = (items s)(q1 \<mapsto> [])" by (rule no_threads_create[OF f n]) blast
  obtain q2 r2 where c2: "queue_create Sharedptr_delete (s\<lparr>q_queues := r1\<rparr>) = (ok_status, q2, s\<lparr>q_queues := r1\<rparr>\<lparr>q_queues := r2\<rparr>)"
    "forum_ok (s\<lparr>q_queues := r1\<rparr>\<lparr>q_queues := r2\<rparr>)" "no_threads (s\<lparr>q_queues := r1\<rparr>\<lparr>q_queues := r2\<rparr>)"
    "items (s\<lparr>q_queues := r1\<rparr>\<lparr>q_queues := r2\<rparr>) = (items (s\<lparr>q_queues := r1\<rparr>))(q2 \<mapsto> [])" "items (s\<lparr>q_queues := r1\<rparr>) q2 = None"
    by (rule no_threads_create[OF c1(2,3)])
  note c2 = c2[simplified]
  obtain q3 r3 where c3: "queue_create Lemessage_delete (s\<lparr>q_queues := r2\<rparr>) = (ok_status, q3, s\<lparr>q_queues := r2\<rparr>\<lparr>q_queues := r3\<rparr>)"
    "forum_ok (s\<lparr>q_queues := r2\<rparr>\<lparr>q_queues := r3\<rparr>)" "no_threads (s\<lparr>q_queues := r2\<rparr>\<lparr>q_queues := r3\<rparr>)"
    "items (s\<lparr>q_queues := r2\<rparr>\<lparr>q_queues := r3\<rparr>) = (items (s\<lparr>q_queues := r2\<rparr>))(q3 \<mapsto> [])" "items (s\<lparr>q_queues := r2\<rparr>) q3 = None"
    by (rule no_threads_create[where s = "s\<lparr>q_queues := r2\<rparr>"]) (use c2 in simp_all)
  note c3 = c3[simplified]
  obtain q4 r4 where c4: "queue_create Sharedptr_delete (s\<lparr>q_queues := r3\<rparr>) = (ok_status, q4, s\<lparr>q_queues := r3\<rparr>\<lparr>q_queues := r4\<rparr>)"
    "forum_ok (s\<lparr>q_queues := r3\<rparr>\<lparr>q_queues := r4\<rparr>)" "no_threads (s\<lparr>q_queues := r3\<rparr>\<lparr>q_queues := r4\<rparr>)"
    "items (s\<lparr>q_queues := r3\<rparr>\<lparr>q_queues := r4\<rparr>) = (items (s\<lparr>q_queues := r3\<rparr>))(q4 \<mapsto> [])" "items (s\<lparr>q_queues := r3\<rparr>) q4 = None"
    by (rule no_threads_create[where s = "s\<lparr>q_queues := r3\<rparr>"]) (use c3 in simp_all)
  note c4 = c4[simplified]
  obtain q5 r5 where c5: "queue_create Sharedptr_delete (s\<lparr>q_queues := r4\<rparr>) = (ok_status, q5, s\<lparr>q_queues := r4\<rparr>\<lparr>q_queues := r5\<rparr>)"
    "forum_ok (s\<lparr>q_queues := r4\<rparr>\<lparr>q_queues := r5\<rparr>)" "no_threads (s\<lparr>q_queues := r4\<rparr>\<lparr>q_queues := r5\<rparr>)"
    "items (s\<lparr>q_queues := r4\<rparr>\<lparr>q_queues := r5\<rparr>) = (items (s\<lparr>q_queues := r4\<rparr>))(q5 \<mapsto> [])" "items (s\<lparr>q_queues := r4\<rparr>) q5 = None"
    by (rule no_threads_create[where s = "s\<lparr>q_queues := r4\<rparr>"]) (use c4 in simp_all)
  note c5 = c5[simplified]
  define u where "u = s\<lparr>q_queues := r5, g_lethread_query_queue := q1, g_lemessages_query_queue := q2,
           g_lemessage_query_queue := q3, g_leauthor_query_queue := q4, g_lethread_queue := q5\<rparr>"
  have u: "create_queues s = u"
    using c1(1) c2(1) c3(1) c4(1) c5(1) by (simp add: create_queues_def u_def)
  have I: "items u = (items s)(q1 \<mapsto> [], q2 \<mapsto> [], q3 \<mapsto> [], q4 \<mapsto> [], q5 \<mapsto> [])"
    using c1(4) c2(4) c3(4) c4(4) c5(4) by (simp add: u_def)
  have ne: "q2 \<noteq> q1" "q3 \<noteq> q1" "q3 \<noteq> q2" "q4 \<noteq> q1" "q4 \<noteq> q2" "q4 \<noteq> q3" "q5 \<noteq> q1" "q5 \<noteq> q2" "q5 \<noteq> q3" "q5 \<noteq> q4"
    using c2(5) c3(5) c4(5) c5(5) unfolding c1(4)[simplified] c2(4)[unfolded c1(4)[simplified]]
      c3(4)[unfolded c2(4) c1(4)[simplified]] c4(4)[unfolded c3(4) c2(4) c1(4)[simplified]]
    by (simp_all split: if_splits)
  have C: "registered u = []" "waiting u = []" "pending u = []"
    using ne by (simp_all add: I) (simp_all add: u_def)
  have "queues_ok (gq u) (items u) (f_threads u)"
    using n ne by (simp add: queues_ok_def I) (simp add: u_def gq_def no_threads_def)
  moreover have "forum_ok u" using c5(2) by (simp add: u_def)
  ultimately have "server_ok u"
    using root unfolding server_ok_def C by (simp add: handles_ok_def saves_ok_def u_def)
  then show "server_ok (create_queues s)" by (simp add: u)
  show "forum_of (create_queues s) = []" unfolding u forum_of_def C by simp
  show "fsys (create_queues s) = fsys s" "urandom (create_queues s) = urandom s"
    "g_next_lethread_id_value (create_queues s) = g_next_lethread_id_value s"
    "g_program_on_finish (create_queues s) = g_program_on_finish s" "mem_junk (create_queues s) = mem_junk s"
    by (simp_all add: u u_def)
  show "backlog (create_queues s) = nothing_due"
    using C by (simp add: u backlog_def)
qed

section \<open>A saved thread\<close>

text \<open>What the files of a thread hold: \<open>lethreadinfo\<close> and \<open>leauthor\<close>.\<close>

definition saved :: "filesystem \<Rightarrow> athread \<Rightarrow> bool" where
  "saved fs v \<longleftrightarrow> (\<exists>ai tk. at_author v = Some (ai, tk) \<and> length tk = TOKEN_SIZE \<and>
     file_at fs (decimal (unat (at_id v))) FILE_LETHREAD = Some (enc_thread v ai) \<and>
     file_at fs (decimal (unat (at_id v))) FILE_LEAUTHOR = Some (le64 ai @ tk)) \<and>
     length (at_topic v) < 2 ^ 64 \<and> NUL \<notin> set (at_topic v)"

definition restored :: "athread \<Rightarrow> athread" where
  "restored v = v\<lparr>at_topic := take MAX_TOPIC_SIZE (at_topic v), at_messages := [],
     at_author := map_option (\<lambda>(ai, tk). (ai, tk @ [NUL])) (at_author v)\<rparr>"

lemma startup_step:
  assumes ok: "server_ok s" and v: "saved (fsys s) v" and rnd: "8 \<le> length (urandom s)"
  obtains u where "\<And>ds n. startup_loop (decimal (unat (at_id v)) # ds) n s = startup_loop ds (Suc n) u"
    and "server_ok u" and "forum_of u = forum_of s @ [restored v]" and "fsys u = fsys s"
    and "urandom u = drop 8 (urandom s)" and "backlog u = backlog s"
    and "mem_junk u = mem_junk s" and "g_program_on_finish u = g_program_on_finish s"
proof -
  note D = server_okD[OF ok]
  obtain ai tk where av: "at_author v = Some (ai, tk)" "length tk = TOKEN_SIZE"
    and f1: "file_at (fsys s) (decimal (unat (at_id v))) FILE_LETHREAD = Some (enc_thread v ai)"
    and f2: "file_at (fsys s) (decimal (unat (at_id v))) FILE_LEAUTHOR = Some (le64 ai @ tk)"
    and topic: "length (at_topic v) < 2 ^ 64" "NUL \<notin> set (at_topic v)"
    using v by (auto simp: saved_def)
  define a where "a = brk (f_threads s)"
  define T0 where "T0 = (f_threads s)\<lparr>cells := (cells (f_threads s))(a \<mapsto> blank_lethread), brk := Suc a\<rparr>"
  define s0 where "s0 = s\<lparr>f_threads := T0\<rparr>"
  have new: "new_obj blank_lethread (f_threads s) = (Ptr a, T0)" by (simp add: new_obj_def T0_def a_def)
  have s0: "queue_ok s0" "cells (f_threads s0) a = Some blank_lethread" "fs_root (fsys s0)"
    "file_at (fsys s0) (decimal (unat (at_id v))) FILE_LETHREAD = Some (enc_thread v ai)"
    using D(1,2) f1 by (simp_all add: s0_def T0_def)
  obtain q qs where l: "lethread_load (Ptr a) (at_id v) s0 = Inr (ok_status, s0\<lparr>q_queues := qs,
      f_threads := (f_threads s0)\<lparr>cells := (cells (f_threads s0))(a \<mapsto> \<lparr>lt_id = at_id v,
        lt_first_message_id = at_first v, lt_next_message_id = at_next v,
        lt_topic = Some (take MAX_TOPIC_SIZE (at_topic v)), lt_messages = q, lt_author = Null\<rparr>)\<rparr>\<rparr>)"
    "qok (q_nodes s0) qs" "qitems (q_nodes s0) qs = (items s0)(q \<mapsto> [])" "items s0 q = None"
    by (rule lethread_load_law[OF s0(1-4) topic]) blast
  define t where "t = \<lparr>lt_id = at_id v, lt_first_message_id = at_first v, lt_next_message_id = at_next v,
    lt_topic = Some (take MAX_TOPIC_SIZE (at_topic v)), lt_messages = q, lt_author = Null\<rparr>"
  define T1 where "T1 = (f_threads s)\<lparr>cells := (cells (f_threads s))(a \<mapsto> t), brk := Suc a\<rparr>"
  define s1 where "s1 = s\<lparr>q_queues := qs, f_threads := T1\<rparr>"
  have load: "lethread_load (Ptr a) (at_id v) s0 = Inr (ok_status, s1)"
    using l(1) by (simp add: s0_def s1_def T0_def T1_def t_def)
  have t: "lt_messages t = q" "lt_author t = Null" "lt_topic t = Some (take MAX_TOPIC_SIZE (at_topic v))"
    by (simp_all add: t_def)
  have none: "items s q = None" "qitems (q_nodes s) qs = (items s)(q \<mapsto> [])" using l(3,4) by (simp_all add: s0_def)
  note N = fok_new_thread[OF D(1) none t T1_def a_def]
  let ?w = "\<lparr>at_id = at_id v, at_first = at_first v, at_next = at_next v,
    at_topic = take MAX_TOPIC_SIZE (at_topic v), at_messages = [], at_author = None\<rparr>"
  have sel: "forum_ok s1" "gq s1 = gq s" "sp_objs s1 = sp_objs s" "fs_root (fsys s1)"
    using N(1) l(2) D(1,2) by (simp_all add: s1_def s0_def gq_def)
  have V: "thread_at s1 = (thread_at s)(Ptr a \<mapsto> ?w)" using N(2) by (simp add: s1_def t_def)
  have qg: "q \<notin> set (gq s)" using D(3) none(1) by (auto simp: queues_ok_def)
  have I: "\<forall>g\<in>set (gq s). items s1 g = items s g" using none(2) qg by (auto simp: s1_def)
  have T: "\<forall>c x. cells (f_threads s1) c = Some x \<longrightarrow> lt_messages x \<notin> set (gq s)"
    using D(3) qg t(1) by (auto simp: s1_def T1_def queues_ok_def)
  have M: "cells (f_messages s) \<subseteq>\<^sub>m cells (f_messages s1)" by (simp add: s1_def)
  note un = unowned_dead[OF ok N(3)]
  note S1 = server_ok_unowned[OF ok un sel(1) V sel(2-4) I T M]
  have b1: "backlog s1 = backlog s"
    by (rule backlog_eq[OF ok M same_ids_upd[OF V]]) (use N(3) I sel(2,3) in simp_all)
  have w: "thread_at s1 (Ptr a) = Some ?w" by (simp only: V fun_upd_same)
  obtain r where r: "rand_uint64_t (urandom s1) = Inr (r, drop 8 (urandom s))"
    using rnd by (simp add: rand_uint64_t_def s1_def)
  have f2': "file_at (fsys s1) (decimal (unat (at_id ?w))) FILE_LEAUTHOR = Some (le64 ai @ tk)"
    using f2 by (simp add: s1_def)
  obtain T2 A where au: "leauthor_load (Ptr a) s1 =
      Inr (ok_status, s1\<lparr>urandom := drop 8 (urandom s), f_threads := T2, f_authors := A\<rparr>)"
    "fok (items s1) T2 (f_messages s1) A"
    "view (items s1) T2 (f_messages s1) A = (thread_at s1)(Ptr a \<mapsto> ?w\<lparr>at_author := Some (ai, tk @ [NUL])\<rparr>)"
    "\<And>c u. cells T2 c = Some u \<Longrightarrow> \<exists>u'. cells (f_threads s1) c = Some u' \<and> lt_messages u = lt_messages u'"
    by (rule leauthor_load_law[OF sel(1) w sel(4) f2' av(2) r]) blast
  define s2 where "s2 = s1\<lparr>urandom := drop 8 (urandom s), f_threads := T2, f_authors := A\<rparr>"
  have sel2: "forum_ok s2" "gq s2 = gq s1" "sp_objs s2 = sp_objs s1" "fs_root (fsys s2)"
    using au(2) sel(1,4) by (simp_all add: s2_def gq_def)
  have V2: "thread_at s2 = (thread_at s1)(Ptr a \<mapsto> restored v)"
  proof -
    have "?w\<lparr>at_author := Some (ai, tk @ [NUL])\<rparr> = restored v" using av(1) by (cases v) (simp add: restored_def)
    with au(3) show ?thesis by (simp add: s2_def)
  qed
  have I2: "\<forall>g\<in>set (gq s1). items s2 g = items s1 g" by (simp add: s2_def)
  have T2: "\<forall>c x. cells (f_threads s2) c = Some x \<longrightarrow> lt_messages x \<notin> set (gq s1)"
  proof (intro allI impI)
    fix c x
    assume "cells (f_threads s2) c = Some x"
    then obtain x' where "cells (f_threads s1) c = Some x'" "lt_messages x = lt_messages x'"
      using au(4)[of c x] by (auto simp: s2_def)
    with T show "lt_messages x \<notin> set (gq s1)" unfolding sel(2) by simp
  qed
  have M2: "cells (f_messages s1) \<subseteq>\<^sub>m cells (f_messages s2)" by (simp add: s2_def)
  note S2 = server_ok_unowned[OF S1(1,3) sel2(1) V2 sel2(2-4) I2 T2 M2]
  have b2: "backlog s2 = backlog s1"
    by (rule backlog_eq[OF S1(1) M2 same_ids_upd[OF V2]]) (use w I2 sel2(2,3) in \<open>simp_all add: restored_def\<close>)
  have w2: "thread_at s2 (Ptr a) = Some (restored v)" by (simp only: V2 fun_upd_same)
  obtain b s3 u where reg: "sharedptr_create (Ptr a) Lethread_delete s2 = Inr (ok_status, Ptr b, s3)"
    "queue_push (g_lethread_queue s3) (Ptr b) s3 = Inr (ok_status, u)" "server_ok u"
    "forum_of u = forum_of s2 @ [restored v]" "backlog u = backlog s2"
    and shape: "\<exists>objs counts nodes qs. u = s2\<lparr>sp_objs := objs, sp_counts := counts, q_nodes := nodes, q_queues := qs\<rparr>"
    by (rule register_law[OF S2(1,3) w2]) blast
  have "startup_loop (decimal (unat (at_id v)) # ds) n s = startup_loop ds (Suc n) u" for ds n
    using new load au(1) reg(1,2)
    by (simp add: strtoull_decimal Let_def flip: s0_def s2_def)
  moreover have "forum_of u = forum_of s @ [restored v]" using reg(4) S2(2) S1(2) by simp
  moreover have "fsys u = fsys s" "urandom u = drop 8 (urandom s)" "mem_junk u = mem_junk s"
    "g_program_on_finish u = g_program_on_finish s"
    using shape by (auto simp: s2_def s1_def)
  moreover have "backlog u = backlog s" using reg(5) b1 b2 by simp
  ultimately show ?thesis using reg(3) that by blast
qed

lemma startup_loop_law:
  assumes "server_ok s" and "\<forall>v\<in>set vs. saved (fsys s) v" and "8 * length vs \<le> length (urandom s)"
  shows "\<exists>u. startup_loop (map (\<lambda>v. decimal (unat (at_id v))) vs) n s = Inr (n + length vs, u) \<and> server_ok u \<and>
    forum_of u = forum_of s @ map restored vs \<and> fsys u = fsys s \<and> backlog u = backlog s \<and>
    urandom u = drop (8 * length vs) (urandom s) \<and> mem_junk u = mem_junk s \<and> g_program_on_finish u = g_program_on_finish s"
  using assms
proof (induction vs arbitrary: n s)
  case Nil
  then show ?case by simp
next
  case (Cons v vs)
  obtain u where u: "\<And>ds n. startup_loop (decimal (unat (at_id v)) # ds) n s = startup_loop ds (Suc n) u"
    "server_ok u" "forum_of u = forum_of s @ [restored v]" "fsys u = fsys s" "urandom u = drop 8 (urandom s)"
    "backlog u = backlog s" "mem_junk u = mem_junk s" "g_program_on_finish u = g_program_on_finish s"
    by (rule startup_step[OF Cons.prems(1), of v]) (use Cons.prems in auto)
  have "\<forall>v\<in>set vs. saved (fsys u) v" "8 * length vs \<le> length (urandom u)"
    using Cons.prems(2,3) u(4,5) by simp_all
  from Cons.IH[OF u(2) this, of "Suc n"] show ?case using u(1,3-8) by (auto simp: add.commute)
qed

end
