(* ===== verification/Sample_Server.thy ===== *)
theory Sample_Server
  imports Server_Startup
begin

text \<open>
  A concrete server on which the theorems about the server are tried out: its queues were just created
  (\<open>empty_server\<close>), and then (\<open>sample_server\<close>) a thread with an author was created and one message
  posted.  The random device delivers the letter A again and again.
\<close>

definition blank_server :: server where
  "blank_server = \<lparr>q_nodes = empty_store, q_queues = empty_store, sp_objs = empty_store,
     sp_counts = empty_store, urandom = replicate 200 (CHR ''A''), f_threads = empty_store,
     f_messages = empty_store, f_authors = empty_store, fsys = no_files, mem_junk = (\<lambda>i. NUL),
     g_next_lethread_id_value = 7, g_lethread_query_queue = Null, g_lemessages_query_queue = Null,
     g_lemessage_query_queue = Null, g_leauthor_query_queue = Null, g_lethread_queue = Null,
     g_program_on_finish = False, g_cleaned = False\<rparr>"

definition empty_server :: server where
  "empty_server = create_queues blank_server"

definition sample_server :: server where
  "sample_server =
     (case andthen (s_lethread_create (''topic'' @ [NUL]) 0 empty_server) (\<lambda>(q, s).
        andthen (deref (sp_objs s) q) (\<lambda>o1.
        andthen (leauthor_create (sp_data o1) True s) (\<lambda>(st, a, s).
        andthen (lemessage_create (sp_data o1) (Some ''hello'') 1 s) (\<lambda>(st, m, s). Inr s)))) of
        Inr s \<Rightarrow> s | Inl f \<Rightarrow> empty_server)"

definition AAAA :: u64 where
  "AAAA = un_le64 (replicate 8 (CHR ''A'')) mod 0xffffffff"

definition sample_thread :: athread where
  "sample_thread = \<lparr>at_id = 7, at_first = AAAA, at_next = AAAA + 1, at_topic = ''topic'',
     at_messages = [\<lparr>am_id = AAAA, am_text = ''hello'', am_by = 1\<rparr>], at_author = Some (AAAA, As)\<rparr>"

lemma rand_A: "8 \<le> n \<Longrightarrow> rand_uint64_t (replicate n (CHR ''A'')) =
    Inr (un_le64 (replicate 8 (CHR ''A'')), replicate (n - 8) (CHR ''A''))"
  by (simp add: rand_uint64_t_def min_def)

lemma token_A: "24 \<le> n \<Longrightarrow> rand_string 24 (replicate n (CHR ''A'')) = Inr (As, replicate (n - 24) (CHR ''A''))"
  using rand_string_replicate[of 24 "n - 24"] by (simp add: As_def)

lemma As_ok: "length As = 24" "NUL \<notin> set As"
  using rand_string_ok[OF token_A[of 24]] by auto

lemma blank_server_ok: "forum_ok blank_server" "no_threads blank_server"
  by (simp_all add: blank_server_def fok_def no_threads_def) (simp_all add: empty_store_def)

lemma empty_server_ok: "server_ok empty_server" "forum_of empty_server = []"
    "fsys empty_server = no_files" "urandom empty_server = replicate 200 (CHR ''A'')"
    "g_next_lethread_id_value empty_server = 7"
    "g_program_on_finish empty_server = False" "backlog empty_server = nothing_due"
  using create_queues_law[OF blank_server_ok]
  by (simp_all add: empty_server_def) (simp_all add: blank_server_def)

lemma sample_server_ok: "server_ok sample_server" "forum_of sample_server = [sample_thread]"
    "\<exists>n. urandom sample_server = replicate n (CHR ''A'') \<and> 128 \<le> n"
    "g_next_lethread_id_value sample_server = 8" "\<not> g_program_on_finish sample_server"
    "backlog sample_server = nothing_due"
proof -
  have c: "cstr (''topic'' @ [NUL]) = Inr ''topic''" by (rule cstr_append) simp
  have r: "rand_uint64_t (urandom empty_server) = Inr (un_le64 (replicate 8 (CHR ''A'')), replicate 192 (CHR ''A''))"
    unfolding empty_server_ok(4) by (rule rand_A[of 200, simplified])
  obtain q s1 where s1: "s_lethread_create (''topic'' @ [NUL]) 0 empty_server = Inr (q, s1)" "server_ok s1"
    "forum_of s1 = [new_thread 7 AAAA ''topic'']" "borrows s1 q 0" "urandom s1 = replicate 192 (CHR ''A'')"
    "g_next_lethread_id_value s1 = 8" "g_program_on_finish s1 = g_program_on_finish empty_server"
    "backlog s1 = backlog empty_server"
    by (rule s_lethread_create_law[OF empty_server_ok(1) c r, of 0]) (auto simp: empty_server_ok AAAA_def)
  obtain o1 where o1: "deref (sp_objs s1) q = Inr o1" by (rule borrowsE[OF s1(2,4)])
  have r2: "rand_uint64_t (urandom s1) = Inr (un_le64 (replicate 8 (CHR ''A'')), replicate 184 (CHR ''A''))"
    unfolding s1(5) by (rule rand_A[of 192, simplified])
  have t2: "rand_string TOKEN_SIZE (replicate 184 (CHR ''A'')) = Inr (As, replicate 160 (CHR ''A''))"
    unfolding TOKEN_SIZE_def by (rule token_A[of 184, simplified])
  obtain x s2 where s2: "leauthor_create (sp_data o1) True s1 = Inr (ok_status, x, s2)" "server_ok s2"
    "forum_of s2 = [(new_thread 7 AAAA ''topic'')\<lparr>at_author := Some (AAAA, As)\<rparr>]" "borrows s2 q 0"
    "deref (sp_objs s2) q = Inr o1" "g_next_lethread_id_value s2 = 8" "urandom s2 = replicate 160 (CHR ''A'')"
    "g_program_on_finish s2 = g_program_on_finish s1" "backlog s2 = backlog s1"
    by (rule author_law[OF s1(2,4) o1 r2 t2]) (use o1 in \<open>auto simp: s1(3,6) AAAA_def\<close>)
  obtain m s3 where s3: "lemessage_create (sp_data o1) (Some ''hello'') 1 s2 = Inr (ok_status, Ptr m, s3)" "server_ok s3"
    "forum_of s3 = (forum_of s2)[0 := posted (forum_of s2 ! 0) ''hello'' 1]"
    "steady s2 s3"
    by (rule post_law[OF s2(2,4,5), of "''hello''" 1]) (simp_all add: size_limits)
  have same: "g_next_lethread_id_value s3 = g_next_lethread_id_value s2" "urandom s3 = urandom s2"
    "g_program_on_finish s3 = g_program_on_finish s2" "backlog s3 = backlog s2"
    using frameD[OF steadyD(1)[OF s3(4)]] steadyD(2)[OF s3(4)] by simp_all
  have s: "sample_server = s3" using s1(1) s2(1) s3(1) o1 by (simp add: sample_server_def)
  then show "server_ok sample_server" "\<exists>n. urandom sample_server = replicate n (CHR ''A'') \<and> 128 \<le> n"
    "g_next_lethread_id_value sample_server = 8" "\<not> g_program_on_finish sample_server" "backlog sample_server = nothing_due"
    using s3(2) same s2(6-9) s1(7,8) empty_server_ok(6,7) by auto
  show "forum_of sample_server = [sample_thread]"
    unfolding s s3(3) s2(3) by (simp add: posted_def new_thread_def sample_thread_def)
qed

lemma sample_thread_simps [simp]:
  "at_id sample_thread = 7" "at_author sample_thread = Some (AAAA, As)" "loaded sample_thread"
  "at_topic sample_thread = ''topic''" "at_messages sample_thread = [\<lparr>am_id = AAAA, am_text = ''hello'', am_by = 1\<rparr>]"
  by (simp_all add: sample_thread_def loaded_def)

end
