(* ===== verification/Lookup.thy ===== *)
theory Lookup
  imports Server_Laws
begin

text \<open>
  \<open>lethread_get_by_id\<close> under the invariant, for a thread in memory and for one whose messages are still
  in their file.
\<close>

section \<open>Threads on the disk\<close>

text \<open>The bytes of a message file; none when there is no file.\<close>

definition bytes_at :: "filesystem \<Rightarrow> u64 \<Rightarrow> bytes" where
  "bytes_at fs i = (case file_at fs (decimal (unat i)) FILE_LEMESSAGES of None \<Rightarrow> [] | Some c \<Rightarrow> c)"

definition stored :: "filesystem \<Rightarrow> athread \<Rightarrow> amessage list \<Rightarrow> bool" where
  "stored fs v ms \<longleftrightarrow> bytes_at fs (at_id v) = enc_messages ms \<and> list_all text_ok (map am_text ms) \<and>
     at_next v = at_first v + of_nat (length ms) \<and> length ms < 2 ^ 64"

text \<open>What a lookup makes of the thread \<open>v\<close>.\<close>

definition awake :: "filesystem \<Rightarrow> athread \<Rightarrow> athread \<Rightarrow> bool" where
  "awake fs v v' \<longleftrightarrow> at_author v \<noteq> None \<and>
     (loaded v \<and> v' = v \<or> at_messages v = [] \<and> (\<exists>ms. ms \<noteq> [] \<and> stored fs v ms \<and> v' = v\<lparr>at_messages := ms\<rparr>))"

lemma le64_ne: "le64 n \<noteq> []"
  by (metis length_le64 list.size(3) zero_neq_numeral)

lemma awake_loaded: "loaded v \<Longrightarrow> awake fs v v"
  by (simp add: awake_def loaded_def)

lemma awakeD:
  assumes "awake fs v v'"
  shows "at_id v' = at_id v" and "at_author v' = at_author v"
  using assms by (auto simp: awake_def)

section \<open>The lookup\<close>

text \<open>The handle \<open>q\<close> is the only one that is new.\<close>

definition looked_up :: "u64 \<Rightarrow> server \<Rightarrow> ptr \<Rightarrow> nat \<Rightarrow> server \<Rightarrow> bool" where
  "looked_up i s q k u \<longleftrightarrow> lethread_get_by_id i s = Inr (Some q, u) \<and> server_ok u \<and> borrows u q k \<and> steady s u \<and>
     (handle_of u)(q := None) = handle_of s"

lemma looked_upD:
  assumes "looked_up i s q k u"
  shows "lethread_get_by_id i s = Inr (Some q, u)" and "server_ok u" and "borrows u q k" and "steady s u"
    and "(handle_of u)(q := None) = handle_of s"
  using assms by (simp_all add: looked_up_def)

lemma look_up_loaded:
  assumes "server_ok s" and "forum_of s = us @ v # ws" and "at_id v \<notin> at_id ` set us" and "loaded v"
  obtains q u where "looked_up (at_id v) s q (length us) u" and "forum_of u = forum_of s"
  by (rule lethread_get_by_id_law[OF assms]) (auto simp: looked_up_def)

lemma look_up_stored:
  assumes ok: "server_ok s" and f: "forum_of s = us @ v # ws" and us: "at_id v \<notin> at_id ` set us"
    and au: "at_author v \<noteq> None" and no: "at_messages v = []" and ms: "ms \<noteq> []" and st: "stored (fsys s) v ms"
  obtains q u where "looked_up (at_id v) s q (length us) u" and "forum_of u = us @ v\<lparr>at_messages := ms\<rparr> # ws"
proof -
  note D = server_okD[OF ok]
  let ?v = "v\<lparr>at_messages := ms\<rparr>"
  obtain hs1 h hs2 r a t qa qu where reg: "registered s = hs1 @ h # hs2" "map (shown s) hs1 = us"
    and fd: "find_lethread (at_id v) (registered s) s = Inr (Some (h, Ptr a))"
    and h: "handle_of s h = Some (r, Ptr a, Lethread_delete)" and at: "thread_at s (Ptr a) = Some v"
    and t: "cells (f_threads s) a = Some t" "thread_view (items s) (f_messages s) (f_authors s) t = Some v"
    and q: "lt_messages t = Ptr qa" "cells (q_queues s) qa = Some qu" "q_first qu = Null \<longleftrightarrow> at_messages v = []"
    by (rule found_law[OF ok f us])
  have nx: "lt_first_message_id t = at_first v" "lt_next_message_id t = at_next v"
    using t(2) by (auto elim: thread_viewE)
  have n: "unat (at_next v - at_first v) = length ms" using st by (simp add: stored_def unat_of_nat64)
  have "enc_messages ms \<noteq> []" using ms by (cases ms) (simp_all add: enc_messages_def enc_message_def le64_ne)
  then have content: "file_at (fsys s) (decimal (unat (at_id v))) FILE_LEMESSAGES = Some (enc_messages ms)"
    using st by (auto simp: stored_def bytes_at_def split: option.splits)
  have texts: "list_all text_ok (map am_text ms)" using st by (simp add: stored_def)
  obtain M nodes qs q0 ds where l: "lemessages_load (Ptr a) s =
      Inr (ok_status, s\<lparr>f_messages := M, q_nodes := nodes, q_queues := qs\<rparr>)"
    "qok nodes qs" "fok (qitems nodes qs) (f_threads s) M (f_authors s)"
    "view (qitems nodes qs) (f_threads s) M (f_authors s) = (thread_at s)(Ptr a \<mapsto> v\<lparr>at_messages := at_messages v @ ms\<rparr>)"
    "\<exists>c t. Ptr a = Ptr c \<and> cells (f_threads s) c = Some t \<and> lt_messages t = q0"
    "qitems nodes qs = (items s)(q0 \<mapsto> ds)" "cells (f_messages s) \<subseteq>\<^sub>m cells M"
    by (rule lemessages_load_law[OF D(1) at D(2) content n texts])
  define s1 where "s1 = s\<lparr>f_messages := M, q_nodes := nodes, q_queues := qs\<rparr>"
  have q0: "q0 = Ptr qa" using l(5) t(1) q(1) by auto
  then have qg: "q0 \<notin> set (gq s)" using D(3) t(1) q(1) unfolding queues_ok_def by metis
  have sel: "forum_ok s1" "gq s1 = gq s" "sp_objs s1 = sp_objs s" "fs_root (fsys s1)" "frame s1 = frame s"
    using l(2,3) D(1,2) by (simp_all add: s1_def gq_def frame_def)
  have V: "thread_at s1 = (thread_at s)(Ptr a \<mapsto> ?v)" using l(4) no by (simp add: s1_def)
  have I: "\<forall>g\<in>set (gq s). items s1 g = items s g" using l(6) qg by (auto simp: s1_def)
  have M: "cells (f_messages s) \<subseteq>\<^sub>m cells (f_messages s1)" using l(7) by (simp add: s1_def)
  have i: "length us < length (registered s)" "registered s ! length us = h"
    using reg by (auto simp: reg(2)[symmetric])
  have own: "handle_of s (registered s ! length us) = Some (r, Ptr a, Lethread_delete)" using h i(2) by simp
  have "\<exists>t'. cells (f_threads s) c = Some t' \<and> lt_messages t = lt_messages t'" if "cells (f_threads s1) c = Some t" for c t
    using that by (simp add: s1_def)
  note S = server_ok_view[OF ok i(1) own sel(1) V sel(2-4) I this M]
  have f1: "forum_of s1 = us @ ?v # ws" using S(2) f by (simp add: list_update_append)
  have l1: "loaded ?v" using au ms by (simp add: loaded_def)
  have "backlog s1 = backlog s"
    by (rule backlog_eq[OF ok M same_ids_upd[OF V]]) (use I at sel(2,3) in simp_all)
  then have st1: "steady s s1" using sel(5) by (simp add: steady_def)
  obtain p u where u: "looked_up (at_id ?v) s1 p (length us) u" "forum_of u = forum_of s1"
    by (rule look_up_loaded[OF S(1) f1 _ l1]) (use us in simp_all)
  obtain hs1' h' hs2' r' a' t' qa' qu' where reg': "registered s1 = hs1' @ h' # hs2'" "map (shown s1) hs1' = us"
    and fd': "find_lethread (at_id ?v) (registered s1) s1 = Inr (Some (h', Ptr a'))"
    and t': "handle_of s1 h' = Some (r', Ptr a', Lethread_delete)" "cells (f_threads s1) a' = Some t'"
    and q': "lt_messages t' = Ptr qa'" "cells (q_queues s1) qa' = Some qu'" "q_first qu' = Null \<longleftrightarrow> at_messages ?v = []"
    by (rule found_law[OF S(1) f1]) (use us in simp_all)
  have R: "registered s1 = registered s" by (rule global_contents(1)[OF sel(2) I])
  have "registered s1 ! length us = h'" unfolding reg'(1) using reg'(2) by (metis length_map nth_append_length)
  then have hh: "h' = h" using i(2) R by simp
  then have aa: "a' = a" using t'(1) h by (simp add: s1_def)
  then have tt: "t' = t" using t'(2) t(1) by (simp add: s1_def)
  have "lethread_get_by_id (at_id v) s = lethread_get_by_id (at_id v) s1"
  proof (rule lethread_get_by_id_load[OF registered_items[OF ok] fd t(1) q(1,2)])
    show "q_first qu = Null" using q(3) no by simp
    show "lt_next_message_id t \<noteq> lt_first_message_id t" using nx n ms by auto
    show "lemessages_load (Ptr a) s = Inr (ok_status, s1)" using l(1) by (simp add: s1_def)
    show "queue_items (g_lethread_queue s1) s1 = Inr (registered s)" using registered_items[OF S(1)] R by simp
    show "find_lethread (at_id v) (registered s) s1 = Inr (Some (h, Ptr a))" using fd' R hh aa by simp
    show "cells (f_threads s1) a = Some t" using t(1) by (simp add: s1_def)
    show "cells (q_queues s1) qa = Some qu'" "q_first qu' \<noteq> Null" using q' tt q(1) ms by simp_all
  qed
  moreover have "handle_of s1 = handle_of s" by (simp add: sel(3))
  ultimately show ?thesis
    using u f1 steady_trans[OF st1] by (intro that[of p u]) (simp_all add: looked_up_def)
qed

lemma look_up:
  assumes "server_ok s" and "forum_of s = us @ v # ws" and "at_id v \<notin> at_id ` set us" and "awake (fsys s) v v'"
  obtains q u where "looked_up (at_id v) s q (length us) u" and "forum_of u = us @ v' # ws"
  using look_up_loaded[OF assms(1-3)] look_up_stored[OF assms(1-3)] assms(2,4) unfolding awake_def by metis

end
