(* ===== verification/Server_Query_Laws.thy ===== *)
theory Server_Query_Laws
  imports Server_Query Sample_Server Lookup
begin

text \<open>
  What the commands do, stated over the abstract forum: the theorems relate the packet, the response
  bytes and \<open>forum_of\<close> before and after, branch by branch.
\<close>

declare length_forum_of [simp del]

section \<open>Reading a packet\<close>

lemma at_lit_take:
  assumes "length lit \<le> length p" and "NUL \<notin> set lit"
  shows "at_lit p lit = Inr (take (length lit) p = lit)"
proof -
  have "strncmp_eq p (lit @ [NUL]) (length lit) = Inr (take (length lit) p = take (length lit) (lit @ [NUL]))"
    using assms
  proof (induction lit arbitrary: p)
    case Nil
    then show ?case by simp
  next
    case (Cons c lit)
    then show ?case by (cases p) auto
  qed
  then show ?thesis by (simp add: at_lit_def)
qed

lemma keyword_other: "at_lit p lit = Inr False \<Longrightarrow> keyword lit p fail k = fail"
  by (simp add: keyword_def)

text \<open>The author flag that a packet earns: the token behind the text, if one is sent, must be the thread's.\<close>

definition author_flag :: "bytes \<Rightarrow> bytes \<Rightarrow> i32" where
  "author_flag token rest =
     (if take 3 rest = ''TKN'' \<and> take 24 (drop 3 rest) = take 24 token then 1 else 0)"

lemma read_author_flag:
  assumes "thread_at s p = Some v" and "at_author v = Some (ai, token)" and "24 \<le> length token"
    and "NUL \<notin> set (take 24 token)" and "27 \<le> length rest"
  shows "keyword ''TKN'' rest (Inr 0) (\<lambda>t. is_token_valid p (Some t) s) = Inr (author_flag token rest)"
proof -
  have "strncmp_eq token (drop 3 rest) 24 = Inr (take 24 token = take 24 (drop 3 rest))"
    by (rule strncmp_eq_take) (use assms in auto)
  moreover have "at_lit rest ''TKN'' = Inr (take 3 rest = ''TKN'')"
    using at_lit_take[of "''TKN''" rest] assms(5) by (simp add: numeral_3_eq_3)
  ultimately show ?thesis
    using is_token_valid_view[OF assms(1,2), of "drop 3 rest"]
    by (auto simp: keyword_def author_flag_def TOKEN_SIZE_def numeral_3_eq_3)
qed

section \<open>CMSG\<close>

definition cmsg_packet :: "u64 \<Rightarrow> bytes \<Rightarrow> bytes \<Rightarrow> bytes" where
  "cmsg_packet i txt rest =
     ''THRID'' @ le64 i @ ''TXTSZ'' @ le64 (of_nat (length txt)) @ ''TXT'' @ txt @ rest"

text \<open>What posting a message adds to the backlog: its bytes, and the thread, whose next id has changed.\<close>

definition message_due :: "athread \<Rightarrow> i32 \<Rightarrow> bytes \<Rightarrow> todo \<Rightarrow> todo" where
  "message_due v by_author txt b =
     b\<lparr>td_messages := td_messages b @ [(at_id v, enc_message (at_next v, by_author, txt))],
       td_threads := td_threads b @ [at_id v]\<rparr>"

text \<open>What creating a thread adds.\<close>

definition thread_due :: "u64 \<Rightarrow> todo \<Rightarrow> todo" where
  "thread_due i b = b\<lparr>td_threads := td_threads b @ [i], td_authors := td_authors b @ [i]\<rparr>"

text \<open>
  The commands that look a thread up are described from there on: it may have been in memory or was just
  loaded.
\<close>

lemma cmsg_from:
  assumes l: "looked_up (at_id v) s q k s1" and v1: "forum_of s1 ! k = v"
    and tk: "at_author v = Some (ai, token)" "24 \<le> length token" "NUL \<notin> set (take 24 token)"
    and tx: "3 \<le> length txt" "length txt \<le> 512" "NUL \<notin> set txt"
    and rest: "27 \<le> length rest" and sz: "29 \<le> unat sz"
  shows "\<exists>u. cmd_lemessage_create (cmsg_packet (at_id v) txt rest) sz s = Inr (status_result 0, u) \<and>
    server_ok u \<and> forum_of u = (forum_of s1)[k := posted v txt (author_flag token rest)] \<and> frame u = frame s \<and>
    backlog u = message_due v (author_flag token rest) txt (backlog s)"
proof -
  note g = looked_upD[OF l]
  let ?by = "author_flag token rest"
  have i: "k < length (forum_of s1)" using g(3) by (simp add: borrows_def forum_of_def)
  obtain r a o1 where o1: "deref (sp_objs s1) q = Inr o1" "sp_data o1 = Ptr a" "thread_at s1 (Ptr a) = Some v"
    by (rule borrowsE[OF g(2,3)]) (use v1 in auto)
  have len: "MIN_MESSAGE_SIZE \<le> length txt" "length txt \<le> MAX_MESSAGE_SIZE"
    using tx(1,2) by (simp_all add: size_limits)
  obtain x s2 where m: "lemessage_create (sp_data o1) (Some txt) ?by s1 = Inr (ok_status, Ptr x, s2)" "server_ok s2"
    "forum_of s2 = (forum_of s1)[k := posted (forum_of s1 ! k) txt ?by]" "borrows s2 q k"
    "saves_ok (f_threads s2) (f_messages s2) [Ptr x]" "steady s1 s2"
    "msg_line s2 (Ptr x) = (at_id (forum_of s1 ! k), enc_message (at_next (forum_of s1 ! k), ?by, txt))"
    by (rule post_law[OF g(2,3) o1(1) len]) blast
  obtain s3 where s3: "s_lemessage_save (Ptr x) s2 = Inr (ok_status, s3)" "server_ok s3" "forum_of s3 = forum_of s2"
    "\<And>q i. borrows s3 q i = borrows s2 q i" "frame s3 = frame s2"
    "backlog s3 = (backlog s2)\<lparr>td_messages := td_messages (backlog s2) @ [msg_line s2 (Ptr x)]\<rparr>"
    by (rule s_lemessage_save_law[OF m(2,5)]) blast
  have b3: "borrows s3 q k" using s3(4) m(4) by simp
  obtain s4 where s4: "s_lethread_save q s3 = Inr (ok_status, s4)" "server_ok s4" "forum_of s4 = forum_of s3"
    "borrows s4 q k" "frame s4 = frame s3"
    "backlog s4 = (backlog s3)\<lparr>td_threads := td_threads (backlog s3) @ [at_id (forum_of s3 ! k)]\<rparr>"
    by (rule s_lethread_save_law[OF s3(2) b3]) blast
  obtain objs' counts' where r: "sharedptr_delete call_destructor q s4 =
      Inr (ok_status, s4\<lparr>sp_objs := objs', sp_counts := counts'\<rparr>)"
    "server_ok (s4\<lparr>sp_objs := objs', sp_counts := counts'\<rparr>)"
    "forum_of (s4\<lparr>sp_objs := objs', sp_counts := counts'\<rparr>) = forum_of s4"
    "steady s4 (s4\<lparr>sp_objs := objs', sp_counts := counts'\<rparr>)"
    by (rule release_law[OF s4(2,4)])
  define u where "u = s4\<lparr>sp_objs := objs', sp_counts := counts'\<rparr>"
  note r = r[folded u_def]
  have flag: "keyword ''TKN'' rest (Inr 0) (\<lambda>t. is_token_valid (sp_data o1) (Some t) s1) = Inr ?by"
    unfolding o1(2) by (rule read_author_flag[OF o1(3) tk rest])
  have size: "unat (of_nat (length txt) :: u64) = length txt" using tx(2) by (intro unat_of_nat64) simp
  have "cmd_lemessage_create (cmsg_packet (at_id v) txt rest) sz s = Inr (status_result 0, u)"
    using tx(1,2) sz g(1) o1(1) flag m(1) s3(1) s4(1) r(1) strncpy_str_exact[OF tx(3) refl, of rest]
    by (simp add: cmd_lemessage_create_def cmsg_packet_def size size_limits Let_def wire_keywords)
  moreover have "forum_of u = (forum_of s1)[k := posted v txt ?by]"
    using r(3) s4(3) s3(3) m(3) v1 by simp
  moreover have "forum_of s3 ! k = posted v txt ?by" using s3(3) m(3) v1 i by simp
  then have "frame u = frame s" "backlog u = message_due v ?by txt (backlog s)"
    using g(4) m(6,7) s3(5,6) s4(5,6) r(4) v1 by (simp_all add: steady_def message_due_def posted_def)
  ultimately show ?thesis using r(2) by blast
qed

lemma cmsg_law:
  assumes "server_ok s" and "forum_of s = us @ v # ws" and "at_id v \<notin> at_id ` set us" and "awake (fsys s) v v'"
    and "at_author v = Some (ai, token)" and "24 \<le> length token" and "NUL \<notin> set (take 24 token)"
    and "3 \<le> length txt" and "length txt \<le> 512" and "NUL \<notin> set txt" and "27 \<le> length rest" and "29 \<le> unat sz"
  shows "\<exists>u. cmd_lemessage_create (cmsg_packet (at_id v) txt rest) sz s = Inr (status_result 0, u) \<and>
    server_ok u \<and> forum_of u = us @ posted v' txt (author_flag token rest) # ws \<and> frame u = frame s \<and>
    backlog u = message_due v' (author_flag token rest) txt (backlog s)"
proof -
  note w = awakeD[OF assms(4)]
  obtain q u where u: "looked_up (at_id v) s q (length us) u" "forum_of u = us @ v' # ws"
    by (rule look_up[OF assms(1-4)])
  then have "forum_of u ! length us = v'" by simp
  from cmsg_from[OF _ this _ assms(6-12)] u w assms(5) show ?thesis by simp
qed

text \<open>
  C20.  The command CMSG appends the text to the thread with the given id under the thread's next
  message id.  The message counts as the author's exactly when the packet ends in \<open>TKN\<close> and the 24
  bytes of the author's token.  The message is queued for saving, and no other thread changes.  If the
  thread's messages were only on the disk they are loaded first, so the new one comes behind them.
\<close>

theorem cmd_lemessage_create_posts:
  assumes "server_ok s" and "forum_of s = us @ v # ws" and "at_id v \<notin> at_id ` set us" and "awake (fsys s) v v'"
    and "at_author v = Some (ai, token)" and "24 \<le> length token" and "NUL \<notin> set (take 24 token)"
    and "3 \<le> length txt" and "length txt \<le> 512" and "NUL \<notin> set txt" and "27 \<le> length rest" and "29 \<le> unat sz"
  shows "\<exists>u. cmd_lemessage_create (cmsg_packet (at_id v) txt rest) sz s = Inr (status_result 0, u) \<and>
    server_ok u \<and> forum_of u = us @ posted v' txt (author_flag token rest) # ws \<and> frame u = frame s \<and>
    backlog u = message_due v' (author_flag token rest) txt (backlog s)"
  using assms by (rule cmsg_law)

lemma cmd_lemessage_create_posts_witness:
  "\<exists>u. cmd_lemessage_create (cmsg_packet 7 ''reply'' (''TKN'' @ As)) 61 sample_server = Inr (status_result 0, u) \<and>
    map am_text (at_messages (hd (forum_of u))) = [''hello'', ''reply''] \<and>
    map am_by (at_messages (hd (forum_of u))) = [1, 1]"
  using cmd_lemessage_create_posts[OF sample_server_ok(1), of "[]" sample_thread "[]" sample_thread AAAA As "''reply''"
      "''TKN'' @ As" 61] As_ok sample_server_ok(2)
    awake_loaded[OF sample_thread_simps(3)]
  by (auto simp: posted_def author_flag_def)

section \<open>GTHR\<close>

text \<open>
  The response.  Of the four bytes that the author flag takes only the first is written: the other
  three are what the block held at that offset.
\<close>

definition gthr_message :: "(nat \<Rightarrow> byte) \<Rightarrow> nat \<Rightarrow> amessage \<Rightarrow> bytes" where
  "gthr_message junk pos m =
     ''MSG'' @ [char_of (unat (am_by m))] @ junk_bytes junk (pos + 4) 3 @ le64 (am_id m) @
     le64 (of_nat (length (am_text m))) @ am_text m @ ''MSGEND''"

fun gthr_messages :: "(nat \<Rightarrow> byte) \<Rightarrow> nat \<Rightarrow> amessage list \<Rightarrow> bytes" where
  "gthr_messages junk pos [] = []"
| "gthr_messages junk pos (m # ms) =
     gthr_message junk pos m @ gthr_messages junk (pos + length (gthr_message junk pos m)) ms"

definition gthr_header :: "athread \<Rightarrow> bytes" where
  "gthr_header v =
     ''THRID'' @ le64 (at_id v) @ ''TPCSZ'' @ le64 (of_nat (length (at_topic v))) @ ''TPC'' @ at_topic v @
     ''MSGCNT'' @ le64 (at_next v - at_first v)"

definition gthr_response :: "(nat \<Rightarrow> byte) \<Rightarrow> athread \<Rightarrow> bytes" where
  "gthr_response junk v = gthr_header v @ gthr_messages junk (length (gthr_header v)) (at_messages v)"

lemma length_gthr_message: "length (gthr_message junk pos m) = 29 + length (am_text m)"
  by (simp add: gthr_message_def)

lemma put_message:
  assumes "length bs + (29 + length text) < n"
  shows "andthen (put ''MSG'' (filled junk n bs)) (\<lambda>b.
     andthen (put [char_of (unat by_author)] b) (\<lambda>b.
     andthen (skip 3 b) (\<lambda>b.
     andthen (put (le64 i) b) (\<lambda>b.
     andthen (put (le64 (of_nat (length text))) b) (\<lambda>b.
     andthen (put text b) (\<lambda>b.
     andthen (put ''MSGEND'' b) k)))))) =
     k (filled junk n (bs @ gthr_message junk (length bs) \<lparr>am_id = i, am_text = text, am_by = by_author\<rparr>))"
  using assms by (simp add: fill_simps gthr_message_def add.commute) (simp add: eval_nat_numeral)

lemma msg_text_viewE:
  assumes "msg_view M d = Some m"
  obtains x where "deref M d = Inr x" and "lm_text x = Some (am_text m)" and "lm_id x = am_id m"
    and "lm_by_lethread_author x = am_by m"
  using assms by (auto simp: msg_view_def split: sum.splits)

lemma get_messages_loop_law:
  assumes "those (map (msg_view (f_messages s)) ds) = Some ms"
    and "0 < chunk" and "chunk \<le> n" and "n \<le> 2 * chunk" and "length bs \<le> n"
  shows "\<exists>n'. get_messages_loop ds (length bs) chunk (filled (mem_junk s) n bs) s =
      Inr (filled (mem_junk s) n' (bs @ gthr_messages (mem_junk s) (length bs) ms)) \<and>
      length (bs @ gthr_messages (mem_junk s) (length bs) ms) \<le> n'"
  using assms
proof (induction ds arbitrary: ms chunk n bs)
  case Nil
  then show ?case by auto
next
  case (Cons d ds)
  obtain m ms' where ms: "ms = m # ms'" "msg_view (f_messages s) d = Some m"
    "those (map (msg_view (f_messages s)) ds) = Some ms'"
    using Cons.prems(1) by (auto split: option.splits)
  obtain x where x: "deref (f_messages s) d = Inr x" "lm_text x = Some (am_text m)" "lm_id x = am_id m"
    "lm_by_lethread_author x = am_by m"
    using ms(2) by (rule msg_text_viewE)
  let ?len = "29 + length (am_text m)"
  obtain c n' where r: "reserve (length bs) ?len chunk (mem_junk s) (filled (mem_junk s) n bs) =
      Inr (c, filled (mem_junk s) n' bs)" "length bs + ?len < c" "0 < c" "c \<le> n'" "n' \<le> 2 * c"
    using Cons.prems(2-5) by (rule reserve_filled)
  let ?bs = "bs @ gthr_message (mem_junk s) (length bs) m"
  have fits: "length bs + ?len < n'" using r(2,4) by simp
  have bs: "length ?bs \<le> n'" using fits by (simp add: length_gthr_message)
  have same: "\<lparr>am_id = am_id m, am_text = am_text m, am_by = am_by m\<rparr> = m" by simp
  obtain n'' where IH: "get_messages_loop ds (length ?bs) c (filled (mem_junk s) n' ?bs) s =
      Inr (filled (mem_junk s) n'' (?bs @ gthr_messages (mem_junk s) (length ?bs) ms'))"
    "length (?bs @ gthr_messages (mem_junk s) (length ?bs) ms') \<le> n''"
    using Cons.IH[OF ms(3) r(3-5) bs] by blast
  have "get_messages_loop (d # ds) (length bs) chunk (filled (mem_junk s) n bs) s =
      get_messages_loop ds (length ?bs) c (filled (mem_junk s) n' ?bs) s"
    using x r(1) put_message[OF fits, of "mem_junk s" "am_by m" "am_id m" "\<lambda>b. get_messages_loop ds (ob_pos b) c b s"]
    by (simp add: Let_def same)
  with IH show ?case by (intro exI[of _ n'']) (simp add: ms(1))
qed

definition answers :: "lecommandresult \<Rightarrow> bytes \<Rightarrow> bool" where
  "answers r bs \<longleftrightarrow> lr_status r = 0 \<and> lr_size r = of_nat (length bs) \<and>
     (\<exists>data. lr_data r = Some data \<and> length bs \<le> length data \<and> take (length bs) data = bs)"

lemma answersE:
  assumes "answers r bs"
  obtains data more where "lr_data r = Some data" and "data = bs @ more"
proof -
  obtain data where d: "lr_data r = Some data" "take (length bs) data = bs" using assms by (auto simp: answers_def)
  have "data = bs @ drop (length bs) data" using d(2) by (metis append_take_drop_id)
  with d(1) show ?thesis by (rule that)
qed

lemma answers_buf_result:
  "length bs \<le> n \<Longrightarrow> answers (buf_result (filled junk n bs) (length bs)) bs"
  by (simp add: answers_def buf_result_def)

lemma gthr_from:
  assumes l: "looked_up (at_id v) s q k s1" and v: "forum_of s1 ! k = v" and sz: "13 \<le> unat sz"
  shows "\<exists>r u. cmd_lethread_get (''THRID'' @ le64 (at_id v) @ rest) sz s = Inr (r, u) \<and>
    answers r (gthr_response (mem_junk s) v) \<and> server_ok u \<and> forum_of u = forum_of s1 \<and> steady s u"
proof -
  note g = looked_upD[OF l]
  obtain ref a o1 t where o1: "deref (sp_objs s1) q = Inr o1" "sp_data o1 = Ptr a" "cells (f_threads s1) a = Some t"
    and tv: "thread_view (items s1) (f_messages s1) (f_authors s1) t = Some v"
    by (rule borrowsE[OF g(2,3)]) (use v in auto)
  obtain ds where ds: "lt_topic t = Some (at_topic v)" "items s1 (lt_messages t) = Some ds"
    "those (map (msg_view (f_messages s1)) ds) = Some (at_messages v)" "lt_first_message_id t = at_first v"
    "lt_next_message_id t = at_next v"
    using tv by (rule thread_viewE)
  let ?h = "gthr_header v"
  let ?chunk = "length ?h + 1024"
  have junk: "mem_junk s1 = mem_junk s" using frameD(3)[OF steadyD(1)[OF g(4)]] .
  obtain n where n: "get_messages_loop ds (length ?h) ?chunk (filled (mem_junk s1) (?chunk + 1) ?h) s1 =
      Inr (filled (mem_junk s1) n (gthr_response (mem_junk s) v))" "length (gthr_response (mem_junk s) v) \<le> n"
    using get_messages_loop_law[OF ds(3), of ?chunk "?chunk + 1" ?h] by (auto simp: gthr_response_def junk)
  obtain objs' counts' where r: "sharedptr_delete call_destructor q s1 =
      Inr (ok_status, s1\<lparr>sp_objs := objs', sp_counts := counts'\<rparr>)"
    "server_ok (s1\<lparr>sp_objs := objs', sp_counts := counts'\<rparr>)"
    "forum_of (s1\<lparr>sp_objs := objs', sp_counts := counts'\<rparr>) = forum_of s1"
    "steady s1 (s1\<lparr>sp_objs := objs', sp_counts := counts'\<rparr>)"
    by (rule release_law[OF g(2,3)])
  define u where "u = s1\<lparr>sp_objs := objs', sp_counts := counts'\<rparr>"
  note r = r[folded u_def]
  have header: "length ?h = 5 + 8 + 5 + 8 + 3 + length (at_topic v) + 6 + 8" by (simp add: gthr_header_def)
  have q: "queue_items (lt_messages t) s1 = Inr ds" using ds(2) by (simp add: queue_items_iff)
  let ?r = "buf_result (filled (mem_junk s1) n (gthr_response (mem_junk s) v)) (length (gthr_response (mem_junk s) v))"
  have "cmd_lethread_get (''THRID'' @ le64 (at_id v) @ rest) sz s = Inr (?r, u)"
    using sz g(1) o1 ds(1,4,5) r(1) q n(1)
    by (simp add: cmd_lethread_get_def Let_def wire_keywords lethread_message_count_def fill_simps header
      gthr_header_def)
  moreover have "steady s u"
    using g(4) r(4) by (rule steady_trans)
  ultimately show ?thesis using r(2,3) answers_buf_result[OF n(2)] by auto
qed

lemma gthr_law:
  assumes "server_ok s" and "forum_of s = us @ v # ws" and "at_id v \<notin> at_id ` set us" and "awake (fsys s) v v'"
    and "13 \<le> unat sz"
  shows "\<exists>r u. cmd_lethread_get (''THRID'' @ le64 (at_id v) @ rest) sz s = Inr (r, u) \<and>
    answers r (gthr_response (mem_junk s) v') \<and> server_ok u \<and> forum_of u = us @ v' # ws \<and> steady s u"
proof -
  obtain q u where u: "looked_up (at_id v) s q (length us) u" "forum_of u = us @ v' # ws"
    by (rule look_up[OF assms(1-4)])
  then have "forum_of u ! length us = v'" by simp
  from gthr_from[OF _ this assms(5)] u show ?thesis by (simp add: awakeD(1)[OF assms(4)])
qed

text \<open>
  The command GTHR answers with the thread's id, topic, number of messages and messages, in
  that layout, however often the response buffer has to grow; the borrowed handle is given back and
  nothing changes but that the thread's messages are in memory.  Of the four bytes of each author flag three are what the block happened to hold.
\<close>

lemma cmd_lethread_get_answers:
  assumes "server_ok s" and "forum_of s = us @ v # ws" and "at_id v \<notin> at_id ` set us" and "awake (fsys s) v v'"
    and "13 \<le> unat sz"
  shows "\<exists>r u. cmd_lethread_get (''THRID'' @ le64 (at_id v) @ rest) sz s = Inr (r, u) \<and>
    answers r (gthr_response (mem_junk s) v') \<and> server_ok u \<and> forum_of u = us @ v' # ws \<and> steady s u"
  using assms by (rule gthr_law)

lemma cmd_lethread_get_answers_witness:
  "\<exists>r u. cmd_lethread_get (''THRID'' @ le64 7) 13 sample_server = Inr (r, u) \<and>
    answers r (gthr_response (mem_junk sample_server) sample_thread)"
  using cmd_lethread_get_answers[OF sample_server_ok(1), of "[]" sample_thread "[]" sample_thread 13 "[]"] sample_server_ok(2)
    awake_loaded[OF sample_thread_simps(3)]
  by auto

section \<open>CTHR\<close>

definition cthr_packet :: "u64 \<Rightarrow> bytes \<Rightarrow> bytes \<Rightarrow> bytes" where
  "cthr_packet n topic rest = ''TPCSZ'' @ le64 n @ ''TPC'' @ topic @ NUL # rest"

text \<open>What is written, and the two bytes more that are sent.\<close>

definition cthr_response :: "(nat \<Rightarrow> byte) \<Rightarrow> u64 \<Rightarrow> bytes \<Rightarrow> bytes" where
  "cthr_response junk i token = ''THRID'' @ le64 i @ ''TKN'' @ token @ junk_bytes junk 40 2"

lemma borrowed_author:
  assumes "server_ok s" and "borrows s q i" and "at_author (forum_of s ! i) = Some (ai, token)"
    and "deref (sp_objs s) q = Inr o1"
  obtains t x where "deref (f_threads s) (sp_data o1) = Inr t" and "lt_id t = at_id (forum_of s ! i)"
    and "deref (f_authors s) (lt_author t) = Inr x" and "la_token x = Some token"
proof -
  obtain a o2 t where o2: "deref (sp_objs s) q = Inr o2" "sp_data o2 = Ptr a" "cells (f_threads s) a = Some t"
    "thread_view (items s) (f_messages s) (f_authors s) t = Some (forum_of s ! i)"
    by (rule borrowsE[OF assms(1,2)]) blast
  have "author_view (f_authors s) (lt_author t) = Some (Some (ai, token))" "lt_id t = at_id (forum_of s ! i)"
    using o2(4) assms(3) by (auto elim!: thread_viewE)
  moreover from this(1) obtain b x where "lt_author t = Ptr b" "cells (f_authors s) b = Some x" "la_token x = Some token"
    by (rule author_viewE)
  ultimately show ?thesis using o2 assms(4) that[of t x] by simp
qed

lemma cthr_law:
  assumes "server_ok s" and "3 \<le> unat n" and "unat n \<le> 64" and "NUL \<notin> set topic" and "16 \<le> unat sz"
    and "rand_uint64_t (urandom s) = Inr (r0, d0)" and "rand_uint64_t d0 = Inr (r1, d1)"
    and "rand_uint64_t d1 = Inr (r2, d2)" and "rand_string 24 d2 = Inr (token, d3)"
  shows "\<exists>r u. cmd_lethread_create (cthr_packet n topic rest) sz s = Inr (r, u) \<and>
    answers r (cthr_response (mem_junk s) (g_next_lethread_id_value s) token) \<and> server_ok u \<and>
    forum_of u = forum_of s @ [(new_thread (g_next_lethread_id_value s) (r1 mod 0xffffffff) topic)
      \<lparr>at_author := Some (r2 mod 0xffffffff, token)\<rparr>] \<and>
    g_next_lethread_id_value u = g_next_lethread_id_value s + 1 \<and> urandom u = d3 \<and> mem_junk u = mem_junk s \<and>
    fsys u = (fsys s)\<lparr>fs_meta := Some (le64 (g_next_lethread_id_value s + 1))\<rparr> \<and>
    g_program_on_finish u = g_program_on_finish s \<and> backlog u = thread_due (g_next_lethread_id_value s) (backlog s)"
proof -
  let ?n = "g_next_lethread_id_value s"
  let ?i = "length (forum_of s)"
  let ?v = "(new_thread ?n (r1 mod 0xffffffff) topic)\<lparr>at_author := Some (r2 mod 0xffffffff, token)\<rparr>"
  define s0 where "s0 = s\<lparr>urandom := d0\<rparr>"
  have s0: "server_ok s0" "forum_of s0 = forum_of s" "g_next_lethread_id_value s0 = ?n" "mem_junk s0 = mem_junk s"
    "rand_uint64_t (urandom s0) = Inr (r1, d1)" "fsys s0 = fsys s" "g_program_on_finish s0 = g_program_on_finish s"
    using assms(1,7) by (simp_all add: s0_def server_ok_def gq_def forum_of_def)
  have bl0: "backlog s0 = backlog s"
    by (rule backlog_eq[OF assms(1) _ same_ids_refl]) (simp_all add: s0_def gq_def)
  have src: "cstr (topic @ NUL # rest) = Inr topic" using assms(4) by simp
  obtain q s1 where s1: "s_lethread_create (topic @ NUL # rest) (r0 mod 0xffffffff) s0 = Inr (q, s1)" "server_ok s1"
    "forum_of s1 = forum_of s @ [new_thread ?n (r1 mod 0xffffffff) topic]" "borrows s1 q ?i"
    "urandom s1 = d1" "mem_junk s1 = mem_junk s" "g_next_lethread_id_value s1 = ?n + 1"
    "fsys s1 = (fsys s)\<lparr>fs_meta := Some (le64 (g_next_lethread_id_value s1))\<rparr>"
    "g_program_on_finish s1 = g_program_on_finish s" "backlog s1 = backlog s"
    by (rule s_lethread_create_law[OF s0(1) src s0(5), unfolded s0(2-4,6-7) bl0]) blast
  obtain o1 where o1: "deref (sp_objs s1) q = Inr o1"
    by (rule borrowsE[OF s1(2,4)]) blast
  have rnd: "rand_uint64_t (urandom s1) = Inr (r2, d2)" "rand_string TOKEN_SIZE d2 = Inr (token, d3)"
    using s1(5) assms(8,9) by (simp_all add: TOKEN_SIZE_def)
  obtain x s2 where s2: "leauthor_create (sp_data o1) True s1 = Inr (ok_status, Ptr x, s2)" "server_ok s2"
    "forum_of s2 = forum_of s @ [?v]" "borrows s2 q ?i" "mem_junk s2 = mem_junk s" "sp_objs s2 = sp_objs s1"
    "frame s2 = (d3, fsys s1, mem_junk s1, ?n + 1, g_program_on_finish s1)" "backlog s2 = backlog s1"
    by (rule author_law[OF s1(2,4) o1 rnd]) (use s1(3,6,7) in \<open>simp add: list_update_append nth_append frame_def\<close>)
  obtain objs counts nodes qs s3 where s3: "s_lethread_save q s2 = Inr (ok_status, s3)" "server_ok s3"
    "forum_of s3 = forum_of s2" "borrows s3 q ?i"
    "s3 = s2\<lparr>sp_objs := objs, sp_counts := counts, q_nodes := nodes, q_queues := qs\<rparr>" "frame s3 = frame s2"
    "backlog s3 = (backlog s2)\<lparr>td_threads := td_threads (backlog s2) @ [at_id (forum_of s2 ! ?i)]\<rparr>"
    by (rule s_lethread_save_law[OF s2(2,4)]) blast
  obtain objs' counts' nodes' qs' s4 where s4: "s_leauthor_save q s3 = Inr (ok_status, s4)" "server_ok s4"
    "forum_of s4 = forum_of s3" "borrows s4 q ?i"
    "s4 = s3\<lparr>sp_objs := objs', sp_counts := counts', q_nodes := nodes', q_queues := qs'\<rparr>" "frame s4 = frame s3"
    "backlog s4 = (backlog s3)\<lparr>td_authors := td_authors (backlog s3) @ [at_id (forum_of s3 ! ?i)]\<rparr>"
    by (rule s_leauthor_save_law[OF s3(2,4)]) blast
  have junk: "mem_junk s4 = mem_junk s" using s2(5) s3(5) s4(5) by simp
  have f4: "forum_of s4 ! ?i = ?v" "f_threads s4 = f_threads s2" "f_authors s4 = f_authors s2"
    using s2(3) s3(3,5) s4(3,5) by simp_all
  have "deref (sp_objs s2) q = Inr o1" using o1 s2(6) by simp
  moreover have "at_author (forum_of s2 ! ?i) = Some (r2 mod 0xffffffff, token)" using s2(3) by simp
  note borrowed_author[OF s2(2,4) this]
  ultimately obtain t y where t: "deref (f_threads s4) (sp_data o1) = Inr t" "lt_id t = ?n"
    "deref (f_authors s4) (lt_author t) = Inr y" "la_token y = Some token"
    using s2(3) f4(2,3) by (auto simp: new_thread_def)
  obtain objs'' counts'' where r: "sharedptr_delete call_destructor q s4 =
      Inr (ok_status, s4\<lparr>sp_objs := objs'', sp_counts := counts''\<rparr>)"
    "server_ok (s4\<lparr>sp_objs := objs'', sp_counts := counts''\<rparr>)"
    "forum_of (s4\<lparr>sp_objs := objs'', sp_counts := counts''\<rparr>) = forum_of s4"
    "steady s4 (s4\<lparr>sp_objs := objs'', sp_counts := counts''\<rparr>)"
    by (rule release_law[OF s4(2,4)])
  define u where "u = s4\<lparr>sp_objs := objs'', sp_counts := counts''\<rparr>"
  note r = r[folded u_def]
  have tk: "length token = 24" "NUL \<notin> set token"
    using rand_string_ok[OF assms(9)] rand_string_no_NUL[OF assms(9)] by simp_all
  let ?bs = "''THRID'' @ le64 ?n @ ''TKN'' @ token"
  have tkn: "strncpy_out token 24 = Inr token" using strncpy_out_exact[OF tk(2), of 24 "[]"] tk(1) by simp
  have "cmd_lethread_create (cthr_packet n topic rest) sz s = Inr (buf_result (filled (mem_junk s) 43 ?bs) 42, u)"
    using assms(2,3,5,6) s1(1)[unfolded s0_def] o1 s2(1) s3(1) s4(1) t r(1) tk tkn junk
    by (simp add: cmd_lethread_create_def cthr_packet_def Let_def wire_keywords size_limits fill_simps)
  moreover have "answers (buf_result (filled (mem_junk s) 43 ?bs) 42) (cthr_response (mem_junk s) ?n token)"
    using take_filled_more[of ?bs 2 43 "mem_junk s"] tk(1)
    by (simp add: answers_def buf_result_def cthr_response_def)
  moreover have "forum_of u = forum_of s @ [?v]" using r(3) s4(3) s3(3) s2(3) by simp
  moreover have "at_id (forum_of s2 ! ?i) = ?n" "at_id (forum_of s3 ! ?i) = ?n"
    using s2(3) s3(3) by (simp_all add: new_thread_def)
  then have "frame u = (d3, fsys s1, mem_junk s1, ?n + 1, g_program_on_finish s1)"
    "backlog u = thread_due ?n (backlog s)"
    using r(4) s4(6,7) s3(6,7) s2(7,8) s1(10) by (simp_all add: steady_def thread_due_def)
  then have "g_next_lethread_id_value u = ?n + 1" "urandom u = d3" "mem_junk u = mem_junk s"
    "fsys u = (fsys s)\<lparr>fs_meta := Some (le64 (?n + 1))\<rparr>" "g_program_on_finish u = g_program_on_finish s"
    "backlog u = thread_due (g_next_lethread_id_value s) (backlog s)"
    using s1(6-9) by (simp_all add: frame_def)
  ultimately show ?thesis using r(2) by blast
qed

text \<open>
  The command CTHR appends a thread with the next id and a fresh token, and answers with
  both.  The topic is the C string found in the packet: the size field is checked against the limits
  but otherwise unused.  The response is two bytes longer than what was written to it.
\<close>

lemma cmd_lethread_create_creates:
  assumes "server_ok s" and "3 \<le> unat n" and "unat n \<le> 64" and "NUL \<notin> set topic" and "16 \<le> unat sz"
    and "rand_uint64_t (urandom s) = Inr (r0, d0)" and "rand_uint64_t d0 = Inr (r1, d1)"
    and "rand_uint64_t d1 = Inr (r2, d2)" and "rand_string 24 d2 = Inr (token, d3)"
  shows "\<exists>r u. cmd_lethread_create (cthr_packet n topic rest) sz s = Inr (r, u) \<and>
    answers r (cthr_response (mem_junk s) (g_next_lethread_id_value s) token) \<and> server_ok u \<and>
    forum_of u = forum_of s @ [(new_thread (g_next_lethread_id_value s) (r1 mod 0xffffffff) topic)
      \<lparr>at_author := Some (r2 mod 0xffffffff, token)\<rparr>] \<and>
    g_next_lethread_id_value u = g_next_lethread_id_value s + 1"
  using cthr_law[OF assms] by blast

lemma cmd_lethread_create_creates_witness:
  "\<exists>r u. cmd_lethread_create (cthr_packet 5 (replicate 100 (CHR ''x'')) []) 21 empty_server = Inr (r, u) \<and>
    map at_topic (forum_of u) = [replicate 100 (CHR ''x'')] \<and> map at_id (forum_of u) = [7]"
proof -
  have r: "rand_uint64_t (urandom empty_server) = Inr (un_le64 (replicate 8 (CHR ''A'')), replicate 192 (CHR ''A''))"
    unfolding empty_server_ok(4) by (rule rand_A[of 200, simplified])
  have u: "unat (5 :: u64) = 5" "unat (21 :: u64) = 21" by simp_all
  show ?thesis
    using cmd_lethread_create_creates[OF empty_server_ok(1), of 5 "replicate 100 (CHR ''x'')" 21, OF _ _ _ _ r
        rand_A[of 192, simplified] rand_A[of 184, simplified] token_A[of 176, simplified], of "[]"]
      empty_server_ok(2,5)
    by (auto simp: u new_thread_def)
qed

section \<open>META, LIVE\<close>

definition meta_response :: "nat \<Rightarrow> bytes" where
  "meta_response n =
     ''MINTPCSZ'' @ le64 3 @ ''MAXTPCSZ'' @ le64 64 @ ''MINMSGSZ'' @ le64 3 @ ''MAXMSGSZ'' @ le64 512 @
     ''THRN'' @ le64 (of_nat n) @ ''VERSZ'' @ le64 19 @ ''VER'' @ ''LeForum Server v0.1''"

lemma get_lethread_count_law:
  assumes "server_ok s"
  shows "get_lethread_count s = Inr (length (forum_of s))"
proof -
  note D = server_okD[OF assms]
  have I: "items s (g_lethread_queue s) = Some (registered s)" by (rule queues_ok_items[OF D(3)]) simp
  then obtain a qu where q: "g_lethread_queue s = Ptr a" "cells (q_queues s) a = Some qu"
    by (rule qitems_live)
  have "q_size qu = length (registered s)"
    by (rule q_first_Null_iff(2)[OF _ _ q(2)]) (use D(1) I q(1) in auto)
  with q show ?thesis by (simp add: get_lethread_count_def length_forum_of)
qed

lemma meta_law:
  assumes "server_ok s"
  shows "\<exists>r. cmd_meta raw sz s = Inr (r, s) \<and> answers r (meta_response (length (forum_of s)))"
proof -
  let ?bs = "meta_response (length (forum_of s))"
  have len: "length ?bs = 111" by (simp add: meta_response_def)
  have "cmd_meta raw sz s = Inr (buf_result (filled (mem_junk s) 128 ?bs) (length ?bs), s)"
    by (simp add: cmd_meta_def get_lethread_count_law[OF assms] fill_simps size_limits get_version_def
      meta_response_def Let_def)
  moreover have "answers (buf_result (filled (mem_junk s) 128 ?bs) (length ?bs)) ?bs"
    by (rule answers_buf_result) (simp add: len)
  ultimately show ?thesis by blast
qed

section \<open>Dispatch\<close>

lemma query_process_dispatch:
  "query_process (Some (''GTHR'' @ p)) sz s = cmd_lethread_get p (sz - 4) s"
  "query_process (Some (''CTHR'' @ p)) sz s = cmd_lethread_create p (sz - 4) s"
  "query_process (Some (''FTHR'' @ p)) sz s = cmd_lethread_find p (sz - 4) s"
  "query_process (Some (''CMSG'' @ p)) sz s = cmd_lemessage_create p (sz - 4) s"
  "query_process (Some (''META'' @ p)) sz s = cmd_meta p (sz - 4) s"
  "query_process (Some (''LIVE'' @ p)) sz s = cmd_alive p (sz - 4) s"
  by (simp_all add: query_process_def CMDS_def at_lit_def)

lemma query_process_other:
  assumes "4 \<le> length p" and "take 4 p \<notin> {''GTHR'', ''CTHR'', ''FTHR'', ''CMSG'', ''META'', ''LIVE''}"
  shows "query_process (Some p) sz s = Inr (status_result (-5), s)"
proof -
  have "at_lit p lit = Inr (take 4 p = lit)" if "length lit = 4" "NUL \<notin> set lit" for lit
    using at_lit_take[of lit p] that assms(1) by simp
  with assms(2) show ?thesis by (simp add: query_process_def CMDS_def)
qed

text \<open>
  C31.  A packet that does not start with one of the six command names is answered with the syntax
  error status and has no effect.
\<close>

theorem query_process_unknown:
  assumes "4 \<le> length p" and "take 4 p \<notin> {''GTHR'', ''CTHR'', ''FTHR'', ''CMSG'', ''META'', ''LIVE''}"
  shows "query_process (Some p) sz s = Inr (status_result (-5), s)"
  using assms by (rule query_process_other)

lemma query_process_unknown_witness:
  "query_process (Some ''HELLO'') 5 sample_server = Inr (status_result (-5), sample_server)"
  by (rule query_process_unknown) simp_all

section \<open>Refused commands\<close>

lemma gthr_missing:
  assumes "server_ok s" and "i \<notin> at_id ` set (forum_of s)" and "13 \<le> unat sz"
  shows "cmd_lethread_get (''THRID'' @ le64 i @ rest) sz s = Inr (status_result (-4), s)"
  using assms(3) lethread_get_by_id_missing[OF assms(1,2)]
  by (simp add: cmd_lethread_get_def wire_keywords Let_def)

text \<open>A message of a wrong size is refused whatever follows, and the borrowed handle is given back.\<close>

lemma cmsg_refused:
  assumes "server_ok s" and "forum_of s = us @ v # ws" and "at_id v \<notin> at_id ` set us" and "awake (fsys s) v v'"
    and "29 \<le> unat sz" and "unat n < 3 \<or> 512 < unat n"
  shows "\<exists>u. cmd_lemessage_create (''THRID'' @ le64 (at_id v) @ ''TXTSZ'' @ le64 n @ rest) sz s =
      Inr (status_result (-6), u) \<and> server_ok u \<and> forum_of u = us @ v' # ws \<and> steady s u \<and> handle_of u = handle_of s"
proof -
  obtain q s1 where l: "looked_up (at_id v) s q (length us) s1" and f1: "forum_of s1 = us @ v' # ws"
    by (rule look_up[OF assms(1-4)])
  note g = looked_upD[OF l]
  obtain o1 where o1: "deref (sp_objs s1) q = Inr o1" by (rule borrowsE[OF g(2,3)]) blast
  obtain objs counts where r: "sharedptr_delete call_destructor q s1 =
      Inr (ok_status, s1\<lparr>sp_objs := objs, sp_counts := counts\<rparr>)"
    "server_ok (s1\<lparr>sp_objs := objs, sp_counts := counts\<rparr>)"
    "forum_of (s1\<lparr>sp_objs := objs, sp_counts := counts\<rparr>) = forum_of s1"
    "owned objs = (handle_of s1)(q := None)" "steady s1 (s1\<lparr>sp_objs := objs, sp_counts := counts\<rparr>)"
    by (rule release_law[OF g(2,3)])
  have n: "512 < unat n \<or> unat n < 3" using assms(6) by blast
  have "cmd_lemessage_create (''THRID'' @ le64 (at_id v) @ ''TXTSZ'' @ le64 n @ rest) sz s =
      Inr (status_result (-6), s1\<lparr>sp_objs := objs, sp_counts := counts\<rparr>)"
    using assms(5) g(1) o1 r(1) n by (simp add: cmd_lemessage_create_def wire_keywords size_limits Let_def)
  with r(2-4) f1 steady_trans[OF g(4) r(5)] g(5) show ?thesis by simp
qed

text \<open>
  C32.  A CMSG packet whose text size is below 3 or above 512 is refused, whatever follows; the
  borrowed handle is given back, so that the live handles are those from before, and the forum is as
  before but for messages that the lookup has loaded.
\<close>

theorem cmd_lemessage_create_refuses:
  assumes "server_ok s" and "forum_of s = us @ v # ws" and "at_id v \<notin> at_id ` set us" and "awake (fsys s) v v'"
    and "29 \<le> unat sz" and "unat n < 3 \<or> 512 < unat n"
  shows "\<exists>u. cmd_lemessage_create (''THRID'' @ le64 (at_id v) @ ''TXTSZ'' @ le64 n @ rest) sz s =
      Inr (status_result (-6), u) \<and> server_ok u \<and> forum_of u = us @ v' # ws \<and> steady s u \<and> handle_of u = handle_of s"
  using assms by (rule cmsg_refused)

lemma cmd_lemessage_create_refuses_witness:
  "\<exists>u. cmd_lemessage_create (''THRID'' @ le64 7 @ ''TXTSZ'' @ le64 513 @ ''TXT'') 542 sample_server =
      Inr (status_result (-6), u) \<and> forum_of u = [sample_thread] \<and> handle_of u = handle_of sample_server"
  using cmd_lemessage_create_refuses[OF sample_server_ok(1), of "[]" sample_thread "[]" sample_thread 542 513 "''TXT''"]
    sample_server_ok(2)
    awake_loaded[OF sample_thread_simps(3)]
  by auto

end
