(* ===== verification/Server_Find.thy ===== *)
theory Server_Find
  imports Server_Query_Laws
begin

text \<open>
  \<open>lethread_find\<close> and the command FTHR: a private queue of borrowed handles is built, answered from
  and deleted, which gives the handles back.
\<close>

section \<open>A private queue of handles\<close>

definition lent :: "server \<Rightarrow> ptr \<Rightarrow> ptr list \<Rightarrow> bool" where
  "lent s q ds \<longleftrightarrow> items s q = Some ds \<and> q \<notin> set (gq s) \<and>
     (\<forall>a t. cells (f_threads s) a = Some t \<longrightarrow> lt_messages t \<noteq> q) \<and>
     qkind (q_queues s) q = Some Sharedptr_delete \<and> distinct ds \<and>
     set ds \<inter> set (registered s @ waiting s) = {} \<and>
     (\<forall>d\<in>set ds. \<exists>h\<in>set (registered s). handle_of s d = handle_of s h)"

lemma lentE:
  assumes "lent s q ds" and "d \<in> set ds"
  obtains h where "h \<in> set (registered s)" and "handle_of s d = handle_of s h"
  using assms unfolding lent_def by blast

text \<open>Later states in which every handle that was live still is, and means the same thread.\<close>

definition extends :: "server \<Rightarrow> server \<Rightarrow> bool" where
  "extends s u \<longleftrightarrow> thread_at u = thread_at s \<and> steady s u \<and> f_threads u = f_threads s \<and>
     registered u = registered s \<and> waiting u = waiting s \<and> g_lethread_queue u = g_lethread_queue s \<and>
     (\<forall>h. handle_of s h \<noteq> None \<longrightarrow> handle_of u h = handle_of s h)"

lemma extendsD:
  assumes "extends s u"
  shows "thread_at u = thread_at s" and "mem_junk u = mem_junk s" and "f_threads u = f_threads s"
    and "registered u = registered s" and "waiting u = waiting s"
    and "handle_of s h \<noteq> None \<Longrightarrow> handle_of u h = handle_of s h" and "steady s u"
  using assms by (auto simp only: extends_def steady_def frame_def)

lemma extends_refl [simp]: "extends s s"
  by (simp add: extends_def)

lemma extends_trans: "extends s t \<Longrightarrow> extends t u \<Longrightarrow> extends s u"
  by (auto simp: extends_def intro: steady_trans)

lemma extends_shown: "extends s u \<Longrightarrow> handle_of s h \<noteq> None \<Longrightarrow> shown u h = shown s h"
  by (auto simp: extends_def owner_def)

text \<open>A queue that is neither global nor a thread's may change freely.\<close>

lemma server_ok_other_queue:
  assumes ok: "server_ok s" and q: "q \<notin> set (gq s)" "\<forall>a t. cells (f_threads s) a = Some t \<longrightarrow> lt_messages t \<noteq> q"
    and qok: "qok nodes qs" and I: "qitems nodes qs = (items s)(q := x)"
  shows "server_ok (s\<lparr>q_nodes := nodes, q_queues := qs\<rparr>)" (is "server_ok ?u")
    and "extends s (s\<lparr>q_nodes := nodes, q_queues := qs\<rparr>)"
    and "forum_of (s\<lparr>q_nodes := nodes, q_queues := qs\<rparr>) = forum_of s"
proof -
  note D = server_okD[OF ok]
  have "qitems nodes qs (lt_messages t) = items s (lt_messages t)" if "cells (f_threads s) a = Some t" for a t
    using q(2) that I by simp
  then have F: "fok (qitems nodes qs) (f_threads s) (f_messages s) (f_authors s)"
    "view (qitems nodes qs) (f_threads s) (f_messages s) (f_authors s) = thread_at s"
    using fok_items_frame D(1) by blast+
  have g: "gq ?u = gq s" by (simp add: gq_def)
  have "\<forall>g\<in>set (gq s). items ?u g = items s g" using q(1) I by auto
  note C = global_contents[OF g this]
  have V: "thread_at ?u = thread_at s" using F(2) by simp
  have "queues_ok (gq s) (items ?u) (f_threads s)"
    using D(3) q(1) I by (auto simp: queues_ok_def)
  then show "server_ok ?u"
    using D(1,2,4,5) F qok unfolding server_ok_def C g V by simp
  have "frame ?u = frame s" by (simp add: frame_def)
  moreover have "backlog ?u = backlog s"
    by (rule backlog_eq[OF ok _ same_ids_refl[OF V] _ g]) (use q(1) I in auto)
  ultimately have "steady s ?u" by (simp add: steady_def)
  then show "extends s ?u" unfolding extends_def C V by simp
  show "forum_of ?u = forum_of s" unfolding forum_of_def C V by simp
qed

lemma lent_frame:
  assumes "lent s q ds" and "extends s u" and "items u q = Some ds" and "gq u = gq s"
    and "qkind (q_queues u) q = Some Sharedptr_delete"
    and "server_ok s"
  shows "lent u q ds"
proof -
  note R = extendsD(4,5)[OF assms(2)]
  have live: "handle_of s h \<noteq> None" if "h \<in> set (registered s)" for h
    using registeredE[OF assms(6) that] by (metis option.distinct(1))
  have "\<exists>h\<in>set (registered s). handle_of u d = handle_of u h" if d: "d \<in> set ds" for d
  proof -
    obtain h where h: "h \<in> set (registered s)" "handle_of s d = handle_of s h"
      using assms(1) d by (rule lentE)
    with live[OF h(1)] assms(2) show ?thesis by (intro bexI[of _ h]) (simp_all add: extends_def)
  qed
  then show ?thesis
    using assms(1-5) unfolding lent_def R by (simp add: extends_def)
qed

lemma lend_law:
  assumes ok: "server_ok s" and l: "lent s q ds" and h: "h \<in> set (registered s)"
  obtains e s1 u where "sharedptr_add h s = Inr (Ptr e, s1)" and "queue_push q (Ptr e) s1 = Inr (ok_status, u)"
    and "server_ok u" and "forum_of u = forum_of s" and "extends s u" and "lent u q (ds @ [Ptr e])"
    and "handle_of u (Ptr e) = handle_of s h"
proof -
  obtain r a where H: "handle_of s h = Some (r, Ptr a, Lethread_delete)"
    by (rule registeredE[OF ok h]) blast
  obtain e objs counts where add: "sharedptr_add h s = Inr (Ptr e, s\<lparr>sp_objs := objs, sp_counts := counts\<rparr>)"
    "sp_ok objs counts" "owned objs = (handle_of s)(Ptr e \<mapsto> (r, Ptr a, Lethread_delete))" "handle_of s (Ptr e) = None"
    by (rule sharedptr_add_law[OF _ H]) (use server_okD(1)[OF ok] in auto)
  define s1 where "s1 = s\<lparr>sp_objs := objs, sp_counts := counts\<rparr>"
  have fresh: "handle_of s (Ptr e) = None \<or> Ptr e \<notin> set (registered s @ waiting s)" using add(4) by simp
  note S = server_ok_handle[OF ok add(2,3) fresh, folded s1_def]
  note new = fresh_handle[OF ok add(4)]
  have "steady s s1" unfolding s1_def by (rule steady_handles[OF ok]) (use add(3) new in auto)
  then have X1: "extends s s1" using add(3,4) by (auto simp: extends_def s1_def)
  have l1: "lent s1 q ds"
    by (rule lent_frame[OF l X1]) (use l ok in \<open>simp_all add: s1_def gq_def lent_def\<close>)
  have it: "items s1 q = Some ds" using l1 by (simp add: lent_def)
  obtain nodes qs where p: "queue_push q (Ptr e) s1 = Inr (ok_status, s1\<lparr>q_nodes := nodes, q_queues := qs\<rparr>)"
    "qok nodes qs" "qitems nodes qs = (items s1)(q \<mapsto> ds @ [Ptr e])"
    by (rule queue_push_law[OF _ it refl]) (use server_okD(1)[OF S(1)] in auto)
  define u where "u = s1\<lparr>q_nodes := nodes, q_queues := qs\<rparr>"
  have q: "q \<notin> set (gq s1)" "\<forall>a t. cells (f_threads s1) a = Some t \<longrightarrow> lt_messages t \<noteq> q"
    using l1 by (simp_all add: lent_def)
  note U = server_ok_other_queue[OF S(1) q p(2,3), folded u_def]
  have kind: "qkind (q_queues u) q = Some Sharedptr_delete"
    using qkind_push[OF p(1)] l1 by (simp add: u_def lent_def)
  note R = extendsD(4,5)[OF extends_trans[OF X1 U(2)]]
  have Hu: "handle_of u = handle_of s1" by (simp add: u_def)
  have ne: "Ptr e \<notin> set ds"
  proof
    assume "Ptr e \<in> set ds"
    with l obtain h' where "h' \<in> set (registered s)" "handle_of s (Ptr e) = handle_of s h'" by (rule lentE)
    then show False using registeredE[OF ok, of h'] add(4) by (metis option.distinct(1))
  qed
  have he: "handle_of u (Ptr e) = handle_of s h" using add(3) H by (simp add: u_def s1_def)
  have hu: "handle_of u h = handle_of s h" using X1 H Hu by (simp add: extends_def)
  have "\<exists>h\<in>set (registered u). handle_of u d = handle_of u h" if d: "d \<in> set (ds @ [Ptr e])" for d
  proof (cases "d = Ptr e")
    case True
    with h he hu show ?thesis unfolding R by (intro bexI[of _ h]) simp_all
  next
    case False
    with d have "d \<in> set ds" by simp
    with l1 obtain h' where "h' \<in> set (registered s1)" "handle_of s1 d = handle_of s1 h'" by (rule lentE)
    then show ?thesis unfolding R Hu using extendsD(4)[OF X1] by auto
  qed
  then have "\<forall>d\<in>set (ds @ [Ptr e]). \<exists>h\<in>set (registered u). handle_of u d = handle_of u h" by blast
  moreover have "items u q = Some (ds @ [Ptr e])" using p(3) by (simp add: u_def)
  moreover have "gq u = gq s1" "f_threads u = f_threads s1" by (simp_all add: u_def gq_def)
  moreover have "distinct (ds @ [Ptr e])" using l ne by (simp add: lent_def)
  moreover have "set (ds @ [Ptr e]) \<inter> set (registered u @ waiting u) = {}"
    using l new unfolding R lent_def by auto
  ultimately have "lent u q (ds @ [Ptr e])" using kind q by (simp add: lent_def)
  moreover have "forum_of u = forum_of s" using U(3) S(2) by simp
  ultimately show ?thesis
    using add(1) p(1) U(1) extends_trans[OF X1 U(2)] he by (intro that[of e s1 u]) (simp_all add: s1_def u_def)
qed

section \<open>Finding threads\<close>

lemma shown_topic:
  assumes "server_ok s" and "handle_of s d = handle_of s h" and "h \<in> set (registered s)"
  obtains o1 t where "deref (sp_objs s) d = Inr o1" and "deref (f_threads s) (sp_data o1) = Inr t"
    and "lt_topic t = Some (at_topic (shown s h))" and "lt_id t = at_id (shown s h)" and "shown s d = shown s h"
proof -
  obtain r a where h: "handle_of s h = Some (r, Ptr a, Lethread_delete)" "owner (handle_of s) h = Ptr a"
    "thread_at s (Ptr a) = Some (shown s h)"
    by (rule registeredE[OF assms(1,3)]) blast
  obtain b where b: "d = Ptr b" "cells (sp_objs s) b = Some \<lparr>sp_ref = r, sp_data = Ptr a, sp_destruct = Some Lethread_delete\<rparr>"
    using assms(2) h(1) by (metis owned_liveE)
  obtain t where t: "cells (f_threads s) a = Some t" "thread_view (items s) (f_messages s) (f_authors s) t = Some (shown s h)"
    using h(3) by (auto elim: viewE)
  have "lt_topic t = Some (at_topic (shown s h))" "lt_id t = at_id (shown s h)"
    using t(2) by (auto elim: thread_viewE)
  with b t(1) assms(2) show ?thesis
    by (intro that[of "\<lparr>sp_ref = r, sp_data = Ptr a, sp_destruct = Some Lethread_delete\<rparr>" t]) (simp_all add: owner_def)
qed

lemma lent_live: "server_ok s \<Longrightarrow> lent s q ds \<Longrightarrow> d \<in> set ds \<Longrightarrow> handle_of s d \<noteq> None"
  by (metis lentE option.distinct(1) registeredE)

lemma registered_live: "server_ok s \<Longrightarrow> h \<in> set (registered s) \<Longrightarrow> handle_of s h \<noteq> None"
  by (metis option.distinct(1) registeredE)

lemma find_loop_law:
  assumes "server_ok s" and "lent s q ds" and "set hs \<subseteq> set (registered s)"
  shows "\<exists>u es. find_loop part q hs s = Inr u \<and> server_ok u \<and> forum_of u = forum_of s \<and> extends s u \<and>
    lent u q (ds @ es) \<and> map (shown u) es = filter (\<lambda>v. strstr (at_topic v) part) (map (shown s) hs)"
  using assms
proof (induction hs arbitrary: s ds)
  case Nil
  then show ?case by (intro exI[of _ s] exI[of _ "[]"]) simp
next
  case (Cons h hs)
  note ok = Cons.prems(1) and l = Cons.prems(2)
  have h: "h \<in> set (registered s)" using Cons.prems(3) by simp
  obtain o1 t where o1: "deref (sp_objs s) h = Inr o1" "deref (f_threads s) (sp_data o1) = Inr t"
    "lt_topic t = Some (at_topic (shown s h))"
    by (rule shown_topic[OF ok refl h])
  show ?case
  proof (cases "strstr (at_topic (shown s h)) part")
    case False
    have "set hs \<subseteq> set (registered s)" using Cons.prems(3) by simp
    from Cons.IH[OF ok l this] False o1 show ?thesis by simp
  next
    case True
    obtain e s1 u where u: "sharedptr_add h s = Inr (Ptr e, s1)" "queue_push q (Ptr e) s1 = Inr (ok_status, u)"
      "server_ok u" "forum_of u = forum_of s" "extends s u" "lent u q (ds @ [Ptr e])"
      "handle_of u (Ptr e) = handle_of s h"
      by (rule lend_law[OF ok l h])
    note R = extendsD[OF u(5)]
    have "set hs \<subseteq> set (registered u)" using Cons.prems(3) R(4) by simp
    from Cons.IH[OF u(3,6) this] obtain w es where w: "find_loop part q hs u = Inr w" "server_ok w"
      "forum_of w = forum_of u" "extends u w" "lent w q ((ds @ [Ptr e]) @ es)"
      "map (shown w) es = filter (\<lambda>v. strstr (at_topic v) part) (map (shown u) hs)" by blast
    have "shown u x = shown s x" if "x \<in> set hs" for x
      by (rule extends_shown[OF u(5) registered_live[OF ok]]) (use that Cons.prems(3) in auto)
    then have same: "map (shown u) hs = map (shown s) hs" by simp
    have "handle_of u (Ptr e) \<noteq> None" using u(7) registered_live[OF ok h] by simp
    from extends_shown[OF w(4) this] have "shown w (Ptr e) = shown u (Ptr e)" .
    also have "\<dots> = shown s h" using u(7) R(1) by (simp add: owner_def)
    finally have e: "shown w (Ptr e) = shown s h" .
    have "find_loop part q (h # hs) s = Inr w" using True o1 u(1,2) w(1) by simp
    moreover have "lent w q (ds @ (Ptr e # es))" using w(5) by simp
    moreover have "map (shown w) (Ptr e # es) = filter (\<lambda>v. strstr (at_topic v) part) (map (shown s) (h # hs))"
      using True e w(6) same by simp
    ultimately show ?thesis
      using w(2,3) u(4) extends_trans[OF u(5) w(4)] by (intro exI[of _ w] exI[of _ "Ptr e # es"]) simp
  qed
qed

lemma lethread_find_law:
  assumes ok: "server_ok s"
  obtains q u hs where "lethread_find part s = Inr (q, u)" and "server_ok u" and "forum_of u = forum_of s"
    and "extends s u" and "lent u q hs"
    and "map (shown u) hs = filter (\<lambda>v. strstr (at_topic v) part) (forum_of s)"
proof -
  note D = server_okD[OF ok]
  obtain q qs where c: "queue_create Sharedptr_delete s = (ok_status, q, s\<lparr>q_queues := qs\<rparr>)"
    "qok (q_nodes s) qs" "qitems (q_nodes s) qs = (items s)(q \<mapsto> [])" "items s q = None"
    by (rule queue_create_law[of s Sharedptr_delete]) (use D(1) in auto)
  have q: "q \<notin> set (gq s)" using D(3) c(4) by (auto simp: queues_ok_def)
  have q': "\<forall>a t. cells (f_threads s) a = Some t \<longrightarrow> lt_messages t \<noteq> q"
  proof (intro allI impI notI)
    fix a t
    assume t: "cells (f_threads s) a = Some t" "lt_messages t = q"
    obtain v where "thread_view (items s) (f_messages s) (f_authors s) t = Some v"
      using fokD(4)[OF _ t(1)] D(1) by blast
    then show False using c(4) t(2) by (auto elim: thread_viewE)
  qed
  define s1 where "s1 = s\<lparr>q_queues := qs\<rparr>"
  have s1: "server_ok s1" "extends s s1" "forum_of s1 = forum_of s"
    using server_ok_other_queue[OF ok q q' c(2,3)] by (simp_all add: s1_def)
  have kind: "qkind (q_queues s1) q = Some Sharedptr_delete"
    using qkind_create[OF c(1)] by (simp add: s1_def)
  have l: "lent s1 q []"
    using c(3) q q' kind by (simp add: lent_def s1_def gq_def)
  note R = extendsD[OF s1(2)]
  obtain u es where u: "find_loop part q (registered s) s1 = Inr u" "server_ok u" "forum_of u = forum_of s1"
    "extends s1 u" "lent u q ([] @ es)"
    "map (shown u) es = filter (\<lambda>v. strstr (at_topic v) part) (map (shown s1) (registered s))"
    using find_loop_law[OF s1(1) l, of "registered s" part] R(4) by auto
  have "map (shown s1) (registered s) = forum_of s" using s1(3) by (simp add: forum_of_def R(4))
  moreover have "lethread_find part s = Inr (q, u)"
    using registered_items[OF ok] c(1) u(1) by (simp add: lethread_find_def s1_def)
  ultimately show ?thesis
    using u s1(3) extends_trans[OF s1(2) u(4)] by (intro that[of q u es]) simp_all
qed

section \<open>Giving the handles back\<close>

text \<open>What deleting the rest \<open>ds\<close> of the queue relies on, in states that differ from \<open>s\<close> by it.\<close>

definition returning :: "server \<Rightarrow> ptr list \<Rightarrow> server \<Rightarrow> bool" where
  "returning s ds u \<longleftrightarrow>
     u = s\<lparr>sp_objs := sp_objs u, sp_counts := sp_counts u, q_nodes := q_nodes u, q_queues := q_queues u\<rparr> \<and>
     sp_ok (sp_objs u) (sp_counts u) \<and> distinct ds \<and> set ds \<inter> set (registered s @ waiting s) = {} \<and>
     (\<forall>h\<in>set (registered s @ waiting s). handle_of u h = handle_of s h) \<and>
     (\<forall>d\<in>set ds. handle_of u d = handle_of s d)"

lemma returning_step:
  assumes ok: "server_ok s" and l: "lent s q es" and sub: "set (d # ds) \<subseteq> set es" and r: "returning s (d # ds) u"
  shows "\<exists>t. call_destructor Sharedptr_delete d u = Inr t \<and> q_nodes t = q_nodes u \<and> q_queues t = q_queues u \<and>
    returning s ds t"
proof -
  have "d \<in> set es" using sub by simp
  with l obtain h where h: "h \<in> set (registered s)" "handle_of s d = handle_of s h" by (rule lentE)
  obtain ref a where H: "handle_of s h = Some (ref, Ptr a, Lethread_delete)"
    by (rule registeredE[OF ok h(1)]) blast
  have u: "sp_ok (sp_objs u) (sp_counts u)" "handle_of u d = Some (ref, Ptr a, Lethread_delete)"
    "handle_of u h = Some (ref, Ptr a, Lethread_delete)"
    using r h H by (simp_all add: returning_def)
  have ne: "h \<noteq> d" using r h(1) by (auto simp: returning_def)
  obtain objs counts where del: "sharedptr_delete (destruct 2) d u = Inr (ok_status, u\<lparr>sp_objs := objs, sp_counts := counts\<rparr>)"
    "sp_ok objs counts" "owned objs = (handle_of u)(d := None)"
    by (rule sharedptr_delete_law[OF u ne])
  define t where "t = u\<lparr>sp_objs := objs, sp_counts := counts\<rparr>"
  have sel: "sp_objs t = objs" "sp_counts t = counts" "q_nodes t = q_nodes u" "q_queues t = q_queues u"
    by (simp_all add: t_def)
  have shape: "t = s\<lparr>sp_objs := sp_objs t, sp_counts := sp_counts t, q_nodes := q_nodes t, q_queues := q_queues t\<rparr>"
  proof -
    have "u = s\<lparr>sp_objs := sp_objs u, sp_counts := sp_counts u, q_nodes := q_nodes u, q_queues := q_queues u\<rparr>"
      using r by (simp add: returning_def)
    then obtain a1 a2 a3 a4 where "u = s\<lparr>sp_objs := a1, sp_counts := a2, q_nodes := a3, q_queues := a4\<rparr>" by blast
    then show ?thesis by (simp add: t_def)
  qed
  have "\<forall>x\<in>set (registered s @ waiting s). handle_of t x = handle_of s x"
    using r del(3) unfolding returning_def sel by auto
  moreover have "\<forall>x\<in>set ds. handle_of t x = handle_of s x"
    using r del(3) unfolding returning_def sel by auto
  moreover have "distinct ds" "set ds \<inter> set (registered s @ waiting s) = {}"
    using r unfolding returning_def by auto
  ultimately have "returning s ds t"
    using shape del(2) unfolding returning_def sel by blast
  moreover have "call_destructor Sharedptr_delete d u = Inr t"
    using del(1) by (simp add: call_destructor_def eval_nat_numeral t_def)
  ultimately show ?thesis using sel(3,4) by blast
qed

lemma return_law:
  assumes ok: "server_ok s" and l: "lent s q ds"
  obtains u where "queue_delete call_destructor q s = Inr (ok_status, u)" and "server_ok u"
    and "forum_of u = forum_of s" and "steady s u" and "items u = (items s)(q := None)"
proof -
  note D = server_okD[OF ok]
  let ?P = "\<lambda>xs t. set xs \<subseteq> set ds \<and> returning s xs t"
  have it: "items s q = Some ds" and kind: "qkind (q_queues s) q = Some Sharedptr_delete" and q: "q \<notin> set (gq s)"
    "\<forall>a t. cells (f_threads s) a = Some t \<longrightarrow> lt_messages t \<noteq> q"
    using l by (simp_all add: lent_def)
  have qok: "queue_ok s" using D(1) by simp
  have start: "?P ds s" using l D(1) by (simp add: lent_def returning_def)
  have step: "\<exists>t. call_destructor Sharedptr_delete d u = Inr t \<and> q_nodes t = q_nodes u \<and> q_queues t = q_queues u \<and> ?P xs t"
    if "?P (d # xs) u" for d xs u
    using returning_step[OF ok l, of d xs u] that by auto
  have frame: "?P xs (u\<lparr>q_nodes := h, q_queues := qs\<rparr>)" if P: "?P xs u" for xs u h qs
  proof -
    obtain a1 a2 a3 a4 where "u = s\<lparr>sp_objs := a1, sp_counts := a2, q_nodes := a3, q_queues := a4\<rparr>"
      using P unfolding returning_def by blast
    with P show ?thesis by (simp add: returning_def)
  qed
  obtain u where u: "queue_delete call_destructor q s = Inr (ok_status, u)" "queue_ok u"
    "items u = (items s)(q := None)" "?P [] u"
    by (rule queue_delete_rule[where P = ?P and call = call_destructor and f = Sharedptr_delete, OF step frame qok it kind start])
  define w where "w = s\<lparr>q_nodes := q_nodes u, q_queues := q_queues u\<rparr>"
  have W: "server_ok w" "extends s w" "forum_of w = forum_of s"
    using server_ok_other_queue[OF ok q, of "q_nodes u" "q_queues u" None] u(2,3) by (simp_all add: w_def)
  have shape: "u = w\<lparr>sp_objs := sp_objs u, sp_counts := sp_counts u\<rparr>"
  proof -
    obtain a1 a2 a3 a4 where "u = s\<lparr>sp_objs := a1, sp_counts := a2, q_nodes := a3, q_queues := a4\<rparr>"
      using u(4) unfolding returning_def by blast
    then show ?thesis by (simp add: w_def)
  qed
  have H: "handle_of u h = handle_of w h" if "h \<in> set (registered w @ waiting w)" for h
    using u(4) that unfolding extendsD(4,5)[OF W(2)] returning_def by (simp add: w_def)
  have sp: "sp_ok (sp_objs u) (sp_counts u)" using u(4) by (simp add: returning_def)
  have "\<forall>h\<in>set (registered w @ waiting w). owned (sp_objs u) h = handle_of w h" using H by blast
  note O = server_ok_handles[OF W(1) sp this, folded shape]
  have "steady s w" using extendsD(7)[OF W(2)] .
  moreover have "steady w u" by (subst shape, rule steady_handles[OF W(1)]) (use H in auto)
  ultimately have "steady s u" by (rule steady_trans)
  moreover have "forum_of u = forum_of s" using O(2) W(3) by simp
  ultimately show ?thesis using u(1,3) O(1) by (intro that[of u])
qed

section \<open>FTHR\<close>

definition found_entry :: "u64 \<times> bytes \<Rightarrow> bytes" where
  "found_entry e =
     ''THRID'' @ le64 (fst e) @ ''TPCSZ'' @ le64 (of_nat (length (snd e))) @ ''TPC'' @ snd e"

abbreviation entry_of :: "athread \<Rightarrow> u64 \<times> bytes" where
  "entry_of v \<equiv> (at_id v, at_topic v)"

definition fthr_response :: "athread list \<Rightarrow> bytes" where
  "fthr_response vs = (if vs = [] then ''NFND'' else concat (map (\<lambda>v. found_entry (entry_of v)) vs))"

definition fthr_packet :: "bytes \<Rightarrow> bytes \<Rightarrow> bytes" where
  "fthr_packet part rest = ''TPCPSZ'' @ le64 (of_nat (length part)) @ ''TPCP'' @ part @ rest"

lemma length_found_entry: "length (found_entry e) = 29 + length (snd e)"
  by (simp add: found_entry_def)

lemma put_entry:
  assumes "length bs + (29 + length topic) < n"
  shows "andthen (put ''THRID'' (filled junk n bs)) (\<lambda>b.
     andthen (put (le64 i) b) (\<lambda>b.
     andthen (put ''TPCSZ'' b) (\<lambda>b.
     andthen (put (le64 (of_nat (length topic))) b) (\<lambda>b.
     andthen (put ''TPC'' b) (\<lambda>b.
     andthen (put topic b) k))))) = k (filled junk n (bs @ found_entry (i, topic)))"
  using assms by (simp add: fill_simps found_entry_def add.commute)

lemma find_response_loop_law:
  assumes "server_ok s" and "\<forall>d\<in>set ds. \<exists>h\<in>set (registered s). handle_of s d = handle_of s h"
    and "0 < chunk" and "chunk \<le> n" and "n \<le> 2 * chunk" and "length bs \<le> n"
  shows "\<exists>n'. find_response_loop ds (length bs) chunk (filled (mem_junk s) n bs) s =
      Inr (filled (mem_junk s) n' (bs @ concat (map (\<lambda>d. found_entry (entry_of (shown s d))) ds))) \<and>
      length (bs @ concat (map (\<lambda>d. found_entry (entry_of (shown s d))) ds)) \<le> n'"
  using assms(2-)
proof (induction ds arbitrary: chunk n bs)
  case Nil
  then show ?case by auto
next
  case (Cons d ds)
  obtain h where h: "h \<in> set (registered s)" "handle_of s d = handle_of s h" using Cons.prems(1) by auto
  let ?v = "shown s d"
  obtain o1 t where t: "deref (sp_objs s) d = Inr o1" "deref (f_threads s) (sp_data o1) = Inr t"
    "lt_topic t = Some (at_topic ?v)" "lt_id t = at_id ?v"
    by (rule shown_topic[OF assms(1) h(2,1)]) simp
  let ?len = "29 + length (at_topic ?v)"
  obtain c n' where r: "reserve (length bs) ?len chunk (mem_junk s) (filled (mem_junk s) n bs) =
      Inr (c, filled (mem_junk s) n' bs)" "length bs + ?len < c" "0 < c" "c \<le> n'" "n' \<le> 2 * c"
    using Cons.prems(2-5) by (rule reserve_filled)
  let ?bs = "bs @ found_entry (entry_of ?v)"
  have fits: "length bs + ?len < n'" using r(2,4) by simp
  have bs: "length ?bs \<le> n'" using fits by (simp add: length_found_entry)
  have rest: "\<forall>d\<in>set ds. \<exists>h\<in>set (registered s). handle_of s d = handle_of s h" using Cons.prems(1) by simp
  obtain n'' where IH: "find_response_loop ds (length ?bs) c (filled (mem_junk s) n' ?bs) s =
      Inr (filled (mem_junk s) n'' (?bs @ concat (map (\<lambda>d. found_entry (entry_of (shown s d))) ds)))"
    "length (?bs @ concat (map (\<lambda>d. found_entry (entry_of (shown s d))) ds)) \<le> n''"
    using Cons.IH[OF rest r(3-5) bs] by blast
  have "find_response_loop (d # ds) (length bs) chunk (filled (mem_junk s) n bs) s =
      find_response_loop ds (length ?bs) c (filled (mem_junk s) n' ?bs) s"
    using t r(1) put_entry[OF fits, of "mem_junk s" "at_id ?v" "\<lambda>b. find_response_loop ds (ob_pos b) c b s"]
    by (simp add: Let_def)
  with IH show ?case by (intro exI[of _ n'']) (simp del: find_response_loop.simps)
qed

lemma fthr_law:
  assumes "server_ok s" and "3 \<le> length part" and "length part \<le> 64" and "NUL \<notin> set part"
  shows "\<exists>r u. cmd_lethread_find (fthr_packet part rest) sz s = Inr (r, u) \<and>
    answers r (fthr_response (filter (\<lambda>v. strstr (at_topic v) part) (forum_of s))) \<and>
    server_ok u \<and> forum_of u = forum_of s \<and> steady s u"
proof -
  let ?vs = "filter (\<lambda>v. strstr (at_topic v) part) (forum_of s)"
  let ?bs = "fthr_response ?vs"
  obtain q s1 hs where f: "lethread_find part s = Inr (q, s1)" "server_ok s1" "forum_of s1 = forum_of s"
    "extends s s1" "lent s1 q hs" "map (shown s1) hs = ?vs"
    by (rule lethread_find_law[OF assms(1)])
  have it: "items s1 q = Some hs" using f(5) by (simp add: lent_def)
  have items: "queue_items q s1 = Inr hs" using it by (simp add: queue_items_iff)
  have "queue_ok s1" using server_okD(1)[OF f(2)] by simp
  then have e: "queue_is_empty q s1 = Inr (if hs = [] then 1 else 0)" using it by (rule queue_is_empty_law)
  obtain u where u: "queue_delete call_destructor q s1 = Inr (ok_status, u)" "server_ok u" "forum_of u = forum_of s1"
    "steady s1 u"
    by (rule return_law[OF f(2,5)])
  have "\<forall>d\<in>set hs. \<exists>h\<in>set (registered s1). handle_of s1 d = handle_of s1 h"
    using f(5) unfolding lent_def by blast
  note loop = find_response_loop_law[OF f(2) this, of 1024 1025 "[]", simplified]
  have nil: "?vs = [] \<longleftrightarrow> hs = []" using f(6) by (metis map_is_Nil_conv)
  obtain n where n: "(if hs = [] then put ''NFND'' (malloc_buf (Suc 1024) (mem_junk s1))
      else find_response_loop hs 0 1024 (malloc_buf (Suc 1024) (mem_junk s1)) s1) = Inr (filled (mem_junk s1) n ?bs)"
    "length ?bs \<le> n"
  proof (cases "hs = []")
    case True
    then have "?bs = ''NFND''" using nil by (simp add: fthr_response_def)
    with True show ?thesis by (intro that[of 1025]) (simp_all add: fill_simps)
  next
    case False
    then have "?bs = concat (map (\<lambda>d. found_entry (entry_of (shown s1 d))) hs)"
      using nil by (simp add: fthr_response_def comp_def flip: f(6))
    with loop False show ?thesis using that by (auto simp: fill_simps comp_def)
  qed
  have cond: "((if hs = [] then 1 else 0 :: int) = 0 \<longrightarrow> hs = []) = (hs = [])" by simp
  have size: "unat (of_nat (length part) :: u64) = length part" using assms(3) by (intro unat_of_nat64) simp
  have "cmd_lethread_find (fthr_packet part rest) sz s =
      Inr (buf_result (filled (mem_junk s1) n ?bs) (length ?bs), u)"
    using assms(2,3) f(1) items e n(1) u(1) strncpy_str_exact[OF assms(4) refl, of rest]
    by (simp add: cmd_lethread_find_def fthr_packet_def wire_keywords size size_limits Let_def cond split del: if_split)
  moreover have "steady s u" using extendsD(7)[OF f(4)] u(4) by (rule steady_trans)
  ultimately show ?thesis using u(2,3) f(3) answers_buf_result[OF n(2)] by auto
qed

section \<open>Property\<close>

text \<open>
  The command FTHR answers with the ids and topics of exactly the threads whose topic contains
  the given part, in order, or with \<open>NFND\<close> when there is none; the queue it builds and every handle in
  it are given back.
\<close>

lemma cmd_lethread_find_answers:
  assumes "server_ok s" and "3 \<le> length part" and "length part \<le> 64" and "NUL \<notin> set part"
  shows "\<exists>r u. cmd_lethread_find (fthr_packet part rest) sz s = Inr (r, u) \<and>
    answers r (fthr_response (filter (\<lambda>v. strstr (at_topic v) part) (forum_of s))) \<and>
    server_ok u \<and> forum_of u = forum_of s \<and> steady s u"
  using assms by (rule fthr_law)

lemma cmd_lethread_find_answers_witness:
  "\<exists>r u. cmd_lethread_find (fthr_packet ''opi'' []) 21 sample_server = Inr (r, u) \<and>
    answers r (found_entry (7, ''topic''))"
  using cmd_lethread_find_answers[OF sample_server_ok(1), of "''opi''" "[]" 21] sample_server_ok(2)
  by (auto simp: fthr_response_def)

end
