(* ===== verification/Protocol.thy ===== *)
theory Protocol
  imports Client_Query Connection Server_Find
begin

text \<open>
  The two ends of the wire together: the packets that \<open>client/query.c\<close> generates are the ones that
  \<open>server/query.c\<close> understands, and the client's parsers read the responses back.
\<close>

section \<open>Requests\<close>

lemma gen_query_GTHR_eq:
  "gen_query_GTHR i = Inr \<lparr>ld_data = ''GTHR'' @ ''THRID'' @ le64 i, ld_size = 17\<rparr>"
  by (simp add: gen_query_GTHR_def ledata_of_def fill_simps Let_def) (simp add: filled_def)

lemma gen_query_CTHR_eq:
  assumes "NUL \<notin> set topic" and "n = length topic"
  shows "gen_query_CTHR (topic @ rest) n = Inr \<lparr>ld_data = ''CTHR'' @ ''TPCSZ'' @ le64 (of_nat n) @ ''TPC'' @ topic,
    ld_size = of_nat (20 + n)\<rparr>"
  using strncpy_out_exact[OF assms] assms(2)
  by (simp add: gen_query_CTHR_def ledata_of_def fill_simps Let_def) (simp add: filled_def)

lemma gen_query_FTHR_eq:
  assumes "NUL \<notin> set part" and "n = length part"
  shows "gen_query_FTHR (part @ rest) n = Inr \<lparr>ld_data = ''FTHR'' @ ''TPCPSZ'' @ le64 (of_nat n) @ ''TPCP'' @ part,
    ld_size = of_nat (22 + n)\<rparr>"
  using strncpy_out_exact[OF assms] assms(2)
  by (simp add: gen_query_FTHR_def ledata_of_def fill_simps Let_def) (simp add: filled_def)

definition token_part :: "bytes option \<Rightarrow> bytes" where
  "token_part token = (case token of None \<Rightarrow> [] | Some tk \<Rightarrow> ''TKN'' @ tk)"

lemma gen_query_CMSG_eq:
  assumes "NUL \<notin> set txt" and "n = length txt" and "\<forall>tk. token = Some tk \<longrightarrow> length tk = 24 \<and> NUL \<notin> set tk"
  shows "gen_query_CMSG i (txt @ rest) n (map_option (\<lambda>tk. tk @ rest') token) =
    Inr \<lparr>ld_data = ''CMSG'' @ ''THRID'' @ le64 i @ ''TXTSZ'' @ le64 (of_nat n) @ ''TXT'' @ txt @ token_part token,
      ld_size = of_nat (33 + n + length (token_part token))\<rparr>"
proof (cases token)
  case None
  then show ?thesis
    using strncpy_out_exact[OF assms(1,2)] assms(2)
    by (simp add: gen_query_CMSG_def ledata_of_def fill_simps Let_def token_part_def) (simp add: filled_def)
next
  case (Some tk)
  then have "strncpy_out (tk @ rest') 24 = Inr tk" using assms(3) by (intro strncpy_out_exact) auto
  with Some show ?thesis
    using strncpy_out_exact[OF assms(1,2)] assms(2,3)
    by (simp add: gen_query_CMSG_def ledata_of_def fill_simps Let_def token_part_def TOKEN_SIZE_def add.commute)
      (simp add: filled_def)
qed

lemma gen_query_META_eq: "gen_query_META = Inr \<lparr>ld_data = ''META'', ld_size = 4\<rparr>"
  by (simp add: gen_query_META_def ledata_of_def fill_simps Let_def) (simp add: filled_def)

lemma gen_query_LIVE_eq: "gen_query_LIVE = Inr \<lparr>ld_data = ''LIVE'', ld_size = 4\<rparr>"
  by (simp add: gen_query_LIVE_def ledata_of_def fill_simps Let_def) (simp add: filled_def)

section \<open>Responses\<close>

lemma copy_string_exact:
  assumes "NUL \<notin> set str" and "length str < 2 ^ 64 - 1"
  shows "copy_string (of_nat (length str)) (str @ p) k = k str p"
proof -
  have u: "unat (of_nat (length str) :: u64) = length str" using assms(2) by (intro unat_of_nat64) simp
  have "(of_nat (length str) :: u64) + 1 \<noteq> 0"
  proof
    assume "(of_nat (length str) :: u64) + 1 = 0"
    then have "of_nat (Suc (length str)) = (0 :: u64)" by (simp add: add.commute)
    then have "unat (of_nat (Suc (length str)) :: u64) = 0" by (simp only: unat_0)
    then show False using assms(2) by (subst (asm) unat_of_nat64) simp_all
  qed
  with u strncpy_str_exact[OF assms(1) refl, of p] show ?thesis by (simp add: copy_string_def)
qed

text \<open>What the client reads as the author flag of a message that starts at the given offset.\<close>

definition garbled :: "(nat \<Rightarrow> byte) \<Rightarrow> nat \<Rightarrow> amessage \<Rightarrow> i32" where
  "garbled junk pos m = un_le32 (char_of (unat (am_by m)) # junk_bytes junk (pos + 4) 3)"

fun garbled_posts :: "(nat \<Rightarrow> byte) \<Rightarrow> nat \<Rightarrow> amessage list \<Rightarrow> (bytes \<times> i32) list" where
  "garbled_posts junk pos [] = []"
| "garbled_posts junk pos (m # ms) =
     (am_text m, garbled junk pos m) # garbled_posts junk (pos + length (gthr_message junk pos m)) ms"

definition wire_text :: "bytes \<Rightarrow> bool" where
  "wire_text txt \<longleftrightarrow> NUL \<notin> set txt \<and> 3 \<le> length txt \<and> length txt \<le> 512"

lemma parse_message:
  assumes "wire_text (am_text m)"
  shows "parse_messages_loop (Suc n) p (gthr_message junk pos m @ rest) s =
    andthen (lemessage_create p (Some (am_text m)) (garbled junk pos m) s) (\<lambda>(st, x, s).
    parse_messages_loop n p rest s)"
proof -
  let ?by = "char_of (unat (am_by m)) # junk_bytes junk (pos + 4) 3"
  have rd: "rd32 (?by @ q) = Inr (garbled junk pos m)" "drop 4 (?by @ q) = q" for q
    by (simp_all add: rd32_def garbled_def)
  have t: "NUL \<notin> set (am_text m)" "length (am_text m) < 2 ^ 64 - 1" using assms by (simp_all add: wire_text_def)
  have msg: "gthr_message junk pos m @ rest = ''MSG'' @ ?by @ le64 (am_id m) @
      le64 (of_nat (length (am_text m))) @ am_text m @ ''MSGEND'' @ rest"
    by (simp add: gthr_message_def)
  show ?thesis
    unfolding msg parse_messages_loop.simps
    by (simp add: rd copy_string_exact[OF t] wire_keywords split: prod.split del: append_Cons)
qed

lemma parse_messages_posts:
  assumes "list_all (wire_text \<circ> am_text) ms"
  shows "parse_messages_loop (length ms) p (gthr_messages junk pos ms @ rest) s =
    andthen (post_all p (garbled_posts junk pos ms) s) (\<lambda>s. Inr (True, s))"
  using assms
proof (induction ms arbitrary: pos s)
  case Nil
  then show ?case by (simp add: post_all_def)
next
  case (Cons m ms)
  have w: "wire_text (am_text m)" using Cons.prems by simp
  have "parse_messages_loop (length (m # ms)) p (gthr_messages junk pos (m # ms) @ rest) s =
      andthen (lemessage_create p (Some (am_text m)) (garbled junk pos m) s) (\<lambda>(st, x, s).
      parse_messages_loop (length ms) p (gthr_messages junk (pos + length (gthr_message junk pos m)) ms @ rest) s)"
    using parse_message[OF w, of "length ms" p junk pos] by simp
  also have "\<dots> = andthen (post_all p (garbled_posts junk pos (m # ms)) s) (\<lambda>s. Inr (True, s))"
    using Cons by (cases "lemessage_create p (Some (am_text m)) (garbled junk pos m) s") (auto simp: post_all_def)
  finally show ?case .
qed

lemma length_garbled_posts [simp]: "length (garbled_posts junk pos ms) = length ms"
  by (induction ms arbitrary: pos) simp_all

lemma garbled_posts_texts: "map fst (garbled_posts junk pos ms) = map am_text ms"
  by (induction ms arbitrary: pos) simp_all

lemma garbled_posts_sizes:
  "list_all (wire_text \<circ> am_text) ms \<Longrightarrow> \<forall>(text, by)\<in>set (garbled_posts junk pos ms). 3 \<le> length text \<and> length text \<le> 512"
  by (induction ms arbitrary: pos) (auto simp: wire_text_def)

text \<open>The thread that the client builds: its own numbering of the messages, and no author.\<close>

lemma numbered_texts: "map am_text (numbered first posts) = map fst posts"
  by (rule nth_equalityI) (simp_all add: numbered_def split: prod.split)

lemma numbered_ids: "map am_id (numbered first posts) = map (\<lambda>i. first + of_nat i) [0..<length posts]"
  by (rule nth_equalityI) (simp_all add: numbered_def split: prod.split)

definition received :: "(nat \<Rightarrow> byte) \<Rightarrow> u64 \<Rightarrow> athread \<Rightarrow> athread" where
  "received junk first v =
     \<lparr>at_id = at_id v, at_first = first, at_next = first + of_nat (length (at_messages v)), at_topic = at_topic v,
      at_messages = numbered first (garbled_posts junk (length (gthr_header v)) (at_messages v)),
      at_author = None\<rparr>"

definition wire_thread :: "athread \<Rightarrow> bool" where
  "wire_thread v \<longleftrightarrow> NUL \<notin> set (at_topic v) \<and> length (at_topic v) < 2 ^ 64 - 1 \<and>
     list_all (wire_text \<circ> am_text) (at_messages v) \<and>
     unat (at_next v - at_first v) = length (at_messages v)"

lemma parse_response_GTHR_law:
  assumes "forum_ok s" and "rand_uint64_t (urandom s) = Inr (r, dev)" and "wire_thread v"
  shows "\<exists>p t. parse_response_GTHR (gthr_response junk v @ rest) s = Inr (0, Some p, t) \<and> forum_ok t \<and>
    thread_at s p = None \<and> thread_at t = (thread_at s)(p \<mapsto> received junk (r mod 0xffffffff) v)"
proof -
  let ?first = "r mod 0xffffffff"
  let ?posts = "garbled_posts junk (length (gthr_header v)) (at_messages v)"
  have w: "NUL \<notin> set (at_topic v)" "length (at_topic v) < 2 ^ 64 - 1"
    "list_all (wire_text \<circ> am_text) (at_messages v)" "unat (at_next v - at_first v) = length (at_messages v)"
    using assms(3) by (simp_all add: wire_thread_def)
  have src: "cstr (at_topic v @ [NUL]) = Inr (at_topic v)" using w(1) by simp
  let ?v0 = "\<lparr>at_id = at_id v, at_first = ?first, at_next = ?first, at_topic = at_topic v, at_messages = [], at_author = None\<rparr>"
  obtain a q qs threads where c: "lethread_create (Some (at_topic v @ [NUL])) (at_id v) s =
      Inr (ok_status, Ptr a, s\<lparr>urandom := dev, q_queues := qs, f_threads := threads\<rparr>)"
    "qok (q_nodes s) qs" "fok (qitems (q_nodes s) qs) threads (f_messages s) (f_authors s)"
    "thread_at s (Ptr a) = None"
    "view (qitems (q_nodes s) qs) threads (f_messages s) (f_authors s) = (thread_at s)(Ptr a \<mapsto> ?v0)"
    by (rule lethread_create_law[OF assms(1) src assms(2), where i = "at_id v"]) blast
  define s1 where "s1 = s\<lparr>urandom := dev, q_queues := qs, f_threads := threads\<rparr>"
  have s1: "forum_ok s1" "thread_at s1 = (thread_at s)(Ptr a \<mapsto> ?v0)"
    using c assms(1) by (simp_all add: s1_def)
  have "thread_at s1 (Ptr a) = Some ?v0" "at_messages ?v0 = numbered (at_first ?v0) []"
    "at_next ?v0 = at_first ?v0 + of_nat (length [])" using s1(2) by (simp_all add: numbered_def)
  from post_all_law[OF s1(1) this garbled_posts_sizes[OF w(3)]] obtain t where
    t: "post_all (Ptr a) ?posts s1 = Inr t" "forum_ok t"
    "thread_at t = (thread_at s1)(Ptr a \<mapsto> ?v0\<lparr>at_messages := numbered ?first ?posts,
       at_next := ?first + of_nat (length ?posts)\<rparr>)"
    by auto
  have "parse_messages_loop (length (at_messages v)) (Ptr a)
      (gthr_messages junk (length (gthr_header v)) (at_messages v) @ rest) s1 = Inr (True, t)"
    by (simp only: parse_messages_posts[OF w(3)] t(1) andthen_Inr)
  then have "parse_response_GTHR (gthr_response junk v @ rest) s = Inr (0, Some (Ptr a), t)"
    using c(1) w(4) unfolding s1_def
    by (simp add: parse_response_GTHR_def gthr_response_def gthr_header_def copy_string_exact[OF w(1,2)] wire_keywords
      Let_def)
  moreover have "thread_at t = (thread_at s)(Ptr a \<mapsto> received junk ?first v)"
    using t(3) s1(2) by (simp add: received_def)
  ultimately show ?thesis using t(2) c(4) by blast
qed

text \<open>The author flag survives exactly when the three bytes that the server does not write are zero.\<close>

lemma received_texts: "map am_text (at_messages (received junk first v)) = map am_text (at_messages v)"
proof -
  have "map fst (garbled_posts junk pos ms) = map am_text ms" for pos and ms :: "amessage list"
    by (induction ms arbitrary: pos) simp_all
  then show ?thesis by (simp add: received_def numbered_texts)
qed

lemma received_ids:
  "map am_id (at_messages (received junk first v)) = map (\<lambda>i. first + of_nat i) [0..<length (at_messages v)]"
proof -
  have "length (garbled_posts junk pos ms) = length ms" for pos and ms :: "amessage list"
    by (induction ms arbitrary: pos) simp_all
  then show ?thesis by (simp add: received_def numbered_ids)
qed

lemma sample_thread_wire: "wire_thread sample_thread"
  by (simp add: wire_thread_def wire_text_def) (simp add: sample_thread_def)

lemma of_le_zero: "of_le bs = 0 \<longleftrightarrow> bs = replicate (length bs) NUL"
proof (induction bs)
  case Nil
  then show ?case by simp
next
  case (Cons c bs)
  have "of_char c = (of_char NUL :: nat) \<longleftrightarrow> c = NUL" by (rule of_char_eq_iff)
  then have "of_char c = (0 :: nat) \<longleftrightarrow> c = NUL" by simp
  with Cons show ?case by simp
qed

lemma garbled_iff:
  assumes "unat (am_by m) < 256"
  shows "garbled junk pos m = am_by m \<longleftrightarrow> junk_bytes junk (pos + 4) 3 = replicate 3 NUL"
proof -
  let ?j = "junk_bytes junk (pos + 4) 3"
  let ?c = "char_of (unat (am_by m)) :: byte"
  have c: "of_char ?c = unat (am_by m)" using assms by (simp add: take_bit_nat_eq_self)
  have less: "of_le ?j < 256 ^ 3" using of_le_less[of ?j] by simp
  have "unat (garbled junk pos m) = unat (am_by m) + 256 * of_le ?j"
  proof -
    have "garbled junk pos m = of_nat (unat (am_by m) + 256 * of_le ?j)"
      by (simp only: garbled_def un_le32_def of_le.simps c)
    then show ?thesis using less assms by (simp only:) (rule unat_of_nat_less, simp)
  qed
  then have "garbled junk pos m = am_by m \<longleftrightarrow> of_le ?j = 0"
    by (metis add.right_neutral add_left_cancel mult_is_0 unsigned_word_eqI zero_neq_numeral)
  also have "\<dots> \<longleftrightarrow> ?j = replicate 3 NUL" using of_le_zero[of ?j] by simp
  finally show ?thesis .
qed

lemma parse_response_CTHR_law:
  assumes "16 \<le> capacity pointer_size" and "length token = 24" and "NUL \<notin> set token"
  shows "parse_response_CTHR capacity (cthr_response junk i token @ rest) =
    Inr (0, Some \<lparr>ct_thread_id = i, ct_token = token\<rparr>)"
proof -
  have "strncpy_str (token @ junk_bytes junk 40 2 @ rest) 24 = Inr token"
    by (rule strncpy_str_exact) (use assms in auto)
  then show ?thesis
    using assms(1)
    by (simp add: parse_response_CTHR_def cthr_response_def wire_keywords store_member_def TOKEN_SIZE_def Let_def)
qed

lemma meta_response_parsed:
  "parse_response_META capacity (meta_response n @ rest) =
    (if 56 \<le> capacity pointer_size
     then Inr (0, Some \<lparr>mt_min_message_size = 3, mt_max_message_size = 512, mt_min_topic_size = 3,
       mt_max_topic_size = 64, mt_version = ''LeForum Server v0.1'', mt_version_size = 19,
       mt_thread_count = of_nat n\<rparr>)
     else Inl OutOfBounds)"
proof -
  have v: "copy_string 19 (''LeForum Server v0.1'' @ rest) k = k ''LeForum Server v0.1'' rest"
    for k :: "bytes \<Rightarrow> bytes \<Rightarrow> 'x res"
    using copy_string_exact[of "''LeForum Server v0.1''" rest k] by simp
  show ?thesis
    by (simp add: parse_response_META_def meta_response_def wire_keywords store_member_def v[simplified] Let_def)
qed

section \<open>Found threads\<close>

definition wire_entry :: "u64 \<times> bytes \<Rightarrow> bool" where
  "wire_entry e \<longleftrightarrow> NUL \<notin> set (snd e) \<and> length (snd e) < 2 ^ 64 - 1"

text \<open>The client's queue \<open>q\<close> holds threads, none of whose queues it is, that are the given entries.\<close>

definition collected :: "'m mem_forum_scheme \<Rightarrow> ptr \<Rightarrow> (u64 \<times> bytes) list \<Rightarrow> bool" where
  "collected s q es \<longleftrightarrow> forum_ok s \<and>
     (\<forall>a t. cells (f_threads s) a = Some t \<longrightarrow> lt_messages t \<noteq> q) \<and>
     (\<exists>ds. items s q = Some ds \<and> list_all2 (\<lambda>d e. \<exists>w. thread_at s d = Some w \<and> entry_of w = e) ds es)"

lemma rand_uint64_returns: "8 \<le> length dev \<Longrightarrow> \<exists>r. rand_uint64_t dev = Inr (r, drop 8 dev)"
  by (simp add: rand_uint64_t_def)

lemma collect_one:
  assumes "collected s q es" and "NUL \<notin> set topic" and "8 \<le> length (urandom s)"
  obtains t p u where "lethread_create (Some (topic @ [NUL])) i s = Inr (ok_status, p, t)"
    and "queue_push q p t = Inr (ok_status, u)" and "collected u q (es @ [(i, topic)])"
    and "urandom u = drop 8 (urandom s)"
proof -
  obtain ds where ok: "forum_ok s" and q: "\<forall>a t. cells (f_threads s) a = Some t \<longrightarrow> lt_messages t \<noteq> q"
    and ds: "items s q = Some ds" "list_all2 (\<lambda>d e. \<exists>w. thread_at s d = Some w \<and> entry_of w = e) ds es"
    using assms(1) by (auto simp: collected_def)
  obtain r where rnd: "rand_uint64_t (urandom s) = Inr (r, drop 8 (urandom s))"
    using rand_uint64_returns[OF assms(3)] by blast
  have src: "cstr (topic @ [NUL]) = Inr topic" using assms(2) by simp
  let ?v = "\<lparr>at_id = i, at_first = r mod 0xffffffff, at_next = r mod 0xffffffff, at_topic = topic,
    at_messages = [], at_author = None\<rparr>"
  obtain a qm qs threads where c: "lethread_create (Some (topic @ [NUL])) i s =
      Inr (ok_status, Ptr a, s\<lparr>urandom := drop 8 (urandom s), q_queues := qs, f_threads := threads\<rparr>)"
    "qok (q_nodes s) qs" "items s qm = None" "qitems (q_nodes s) qs = (items s)(qm \<mapsto> [])"
    "fok (qitems (q_nodes s) qs) threads (f_messages s) (f_authors s)" "thread_at s (Ptr a) = None"
    "view (qitems (q_nodes s) qs) threads (f_messages s) (f_authors s) = (thread_at s)(Ptr a \<mapsto> ?v)"
    "\<exists>t. threads = (f_threads s)\<lparr>cells := (cells (f_threads s))(a \<mapsto> t), brk := Suc a\<rparr> \<and> lt_messages t = qm"
    by (rule lethread_create_law[OF ok src rnd, where i = i]) blast
  define t where "t = s\<lparr>urandom := drop 8 (urandom s), q_queues := qs, f_threads := threads\<rparr>"
  have t: "forum_ok t" "thread_at t = (thread_at s)(Ptr a \<mapsto> ?v)" "items t = (items s)(qm \<mapsto> [])"
    using c(2,4,5,7) ok by (simp_all add: t_def)
  have qm: "qm \<noteq> q" using c(3) ds(1) by auto
  have q': "lt_messages x \<noteq> q" if "cells (f_threads t) b = Some x" for b x
  proof -
    obtain y where y: "threads = (f_threads s)\<lparr>cells := (cells (f_threads s))(a \<mapsto> y), brk := Suc a\<rparr>" "lt_messages y = qm"
      using c(8) by blast
    show ?thesis
    proof (cases "b = a")
      case True
      with that y qm show ?thesis by (simp add: t_def)
    next
      case False
      with that y(1) have "cells (f_threads s) b = Some x" by (simp add: t_def)
      with q show ?thesis by blast
    qed
  qed
  have it: "items t q = Some ds" using t(3) ds(1) qm by simp
  obtain nodes qs' where p: "queue_push q (Ptr a) t = Inr (ok_status, t\<lparr>q_nodes := nodes, q_queues := qs'\<rparr>)"
    "qok nodes qs'" "qitems nodes qs' = (items t)(q \<mapsto> ds @ [Ptr a])"
    by (rule queue_push_law[OF _ it refl]) (use t(1) in auto)
  have same: "qitems nodes qs' (lt_messages x) = items t (lt_messages x)" if "cells (f_threads t) b = Some x" for b x
    using q'[OF that] p(3) by simp
  have "fok (items t) (f_threads t) (f_messages t) (f_authors t)" using t(1) by simp
  then have f: "fok (qitems nodes qs') (f_threads t) (f_messages t) (f_authors t)"
    "view (qitems nodes qs') (f_threads t) (f_messages t) (f_authors t) = thread_at t"
    by (rule fok_items_frame, use same in blast)+
  define u where "u = t\<lparr>q_nodes := nodes, q_queues := qs'\<rparr>"
  have V: "thread_at u = (thread_at s)(Ptr a \<mapsto> ?v)" using f(2) t(2) by (simp add: u_def)
  have "list_all2 (\<lambda>d e. \<exists>w. thread_at u d = Some w \<and> entry_of w = e) ds es"
    using ds(2) by (rule list_all2_mono) (use c(6) in \<open>auto simp: V\<close>)
  then have "list_all2 (\<lambda>d e. \<exists>w. thread_at u d = Some w \<and> entry_of w = e) (ds @ [Ptr a]) (es @ [(i, topic)])"
    by (intro list_all2_appendI) (simp_all add: V)
  moreover have "items u q = Some (ds @ [Ptr a])" using p(3) by (simp add: u_def)
  moreover have "forum_ok u" using t(1) p(2) f(1) by (simp add: u_def)
  moreover have "\<forall>b x. cells (f_threads u) b = Some x \<longrightarrow> lt_messages x \<noteq> q" using q' by (simp add: u_def)
  ultimately have "collected u q (es @ [(i, topic)])" unfolding collected_def by blast
  then show ?thesis
    using c(1) p(1) by (intro that[of "Ptr a" t u]) (simp_all add: t_def u_def)
qed

lemma parse_found_loop_law:
  assumes "collected s q es0" and "list_all wire_entry es" and "8 * length es \<le> length (urandom s)"
  shows "\<exists>u. parse_found_loop (pre @ concat (map found_entry es) @ rest)
      (length (pre @ concat (map found_entry es))) (length pre) q s = Inr (True, u) \<and> collected u q (es0 @ es)"
  using assms
proof (induction es arbitrary: s pre es0)
  case Nil
  then show ?case by (simp add: parse_found_loop.simps)
next
  case (Cons e es)
  obtain i topic where e: "e = (i, topic)" by (cases e)
  have w: "NUL \<notin> set topic" "length topic < 2 ^ 64 - 1" using Cons.prems(2) by (simp_all add: wire_entry_def e)
  obtain t p u where u: "lethread_create (Some (topic @ [NUL])) i s = Inr (ok_status, p, t)"
    "queue_push q p t = Inr (ok_status, u)" "collected u q (es0 @ [(i, topic)])" "urandom u = drop 8 (urandom s)"
    by (rule collect_one[OF Cons.prems(1) w(1)]) (use Cons.prems(3) in auto)
  have "list_all wire_entry es" "8 * length es \<le> length (urandom u)"
    using Cons.prems(2,3) u(4) by simp_all
  from Cons.IH[OF u(3) this, of "pre @ found_entry e"] obtain x where
    x: "parse_found_loop (pre @ concat (map found_entry (e # es)) @ rest)
      (length (pre @ concat (map found_entry (e # es)))) (length pre + (29 + length topic)) q u = Inr (True, x)"
    "collected x q (es0 @ e # es)"
    by (auto simp: length_found_entry e)
  have n: "unat (of_nat (length topic) :: u64) = length topic" using w(2) by (intro unat_of_nat64) simp
  have "length pre < length (pre @ concat (map found_entry (e # es)))" by (simp add: length_found_entry)
  then have "parse_found_loop (pre @ concat (map found_entry (e # es)) @ rest)
      (length (pre @ concat (map found_entry (e # es)))) (length pre) q s =
      parse_found_loop (pre @ concat (map found_entry (e # es)) @ rest)
      (length (pre @ concat (map found_entry (e # es)))) (length pre + (29 + length topic)) q u"
    using u(1,2)
    by (subst parse_found_loop.simps)
      (simp add: found_entry_def e wire_keywords copy_string_exact[OF w] n Let_def add.assoc)
  with x show ?case by auto
qed

lemma parse_response_FTHR_law:
  assumes "forum_ok s" and "list_all (wire_entry \<circ> entry_of) vs" and "8 * length vs \<le> length (urandom s)"
  shows "\<exists>q u. parse_response_FTHR (fthr_response vs @ rest) (length (fthr_response vs)) s = Inr (0, Some q, u) \<and>
    collected u q (map entry_of vs)"
proof -
  obtain q qs where c: "queue_create Lethread_delete s = (ok_status, q, s\<lparr>q_queues := qs\<rparr>)"
    "qok (q_nodes s) qs" "qitems (q_nodes s) qs = (items s)(q \<mapsto> [])" "items s q = None"
    by (rule queue_create_law[of s Lethread_delete]) (use assms(1) in auto)
  define s1 where "s1 = s\<lparr>q_queues := qs\<rparr>"
  have q: "lt_messages t \<noteq> q" if t: "cells (f_threads s) a = Some t" for a t
  proof
    assume "lt_messages t = q"
    obtain v where "thread_view (items s) (f_messages s) (f_authors s) t = Some v"
      using fokD(4)[OF _ t] assms(1) by blast
    then show False using c(4) \<open>lt_messages t = q\<close> by (auto elim: thread_viewE)
  qed
  have same: "qitems (q_nodes s) qs (lt_messages t) = items s (lt_messages t)" if "cells (f_threads s) a = Some t" for a t
    using q[OF that] c(3) by simp
  have "fok (items s) (f_threads s) (f_messages s) (f_authors s)" using assms(1) by simp
  then have "fok (qitems (q_nodes s) qs) (f_threads s) (f_messages s) (f_authors s)"
    by (rule fok_items_frame) (use same in blast)
  then have start: "collected s1 q []" using c(2,3) assms(1) q by (simp add: collected_def s1_def)
  show ?thesis
  proof (cases "vs = []")
    case True
    have "at_lit (''NFND'' @ rest) ''NFND'' = Inr True" by (rule at_lit_append) simp
    then have "parse_response_FTHR (fthr_response vs @ rest) (length (fthr_response vs)) s = Inr (0, Some q, s1)"
      using True c(1) by (simp add: parse_response_FTHR_def fthr_response_def s1_def)
    with start True show ?thesis by auto
  next
    case False
    then obtain v vs' where vs: "vs = v # vs'" by (cases vs) auto
    have resp: "fthr_response vs = concat (map found_entry (map entry_of vs))"
      using False by (simp add: fthr_response_def comp_def)
    have "list_all wire_entry (map entry_of vs)" "8 * length (map entry_of vs) \<le> length (urandom s1)"
      using assms(2,3) by (simp_all add: list_all_length s1_def)
    from parse_found_loop_law[OF start this, of "[]" rest] obtain u where
      u: "parse_found_loop (fthr_response vs @ rest) (length (fthr_response vs)) 0 q s1 = Inr (True, u)"
      "collected u q (map entry_of vs)"
      unfolding resp by auto
    have "at_lit (fthr_response vs @ rest) ''NFND'' = Inr False"
      by (simp add: fthr_response_def vs found_entry_def at_lit_def)
    with c(1) u show ?thesis by (auto simp: parse_response_FTHR_def s1_def)
  qed
qed

section \<open>Properties\<close>

text \<open>
  C21.  A thread that the client asks for arrives: the parser makes of the server's response a new
  thread with the same id, topic and texts, numbered from a random id of the client's own.
\<close>

theorem thread_fetched:
  assumes "server_ok s" and "forum_of s = us @ v # ws" and "at_id v \<notin> at_id ` set us" and "loaded v"
    and "13 \<le> unat sz" and "wire_thread v" and "forum_ok c" and "rand_uint64_t (urandom c) = Inr (r0, dev)"
  shows "\<exists>r u data p t w. cmd_lethread_get (''THRID'' @ le64 (at_id v) @ rest) sz s = Inr (r, u) \<and>
    lr_data r = Some data \<and> parse_response_GTHR data c = Inr (0, Some p, t) \<and> thread_at c p = None \<and>
    thread_at t = (thread_at c)(p \<mapsto> w) \<and> at_id w = at_id v \<and> at_topic w = at_topic v \<and>
    map am_text (at_messages w) = map am_text (at_messages v) \<and>
    map am_id (at_messages w) = map (\<lambda>i. r0 mod 0xffffffff + of_nat i) [0..<length (at_messages v)]"
proof -
  obtain r u where g: "cmd_lethread_get (''THRID'' @ le64 (at_id v) @ rest) sz s = Inr (r, u)"
    "answers r (gthr_response (mem_junk s) v)" using gthr_law[OF assms(1-3) awake_loaded[OF assms(4)] assms(5)] by blast
  obtain data more where d: "lr_data r = Some data" "data = gthr_response (mem_junk s) v @ more"
    using g(2) by (rule answersE)
  obtain p t where t: "parse_response_GTHR data c = Inr (0, Some p, t)" "thread_at c p = None"
    "thread_at t = (thread_at c)(p \<mapsto> received (mem_junk s) (r0 mod 0xffffffff) v)"
    using parse_response_GTHR_law[OF assms(7,8,6), of "mem_junk s" more, folded d(2)] by blast
  let ?w = "received (mem_junk s) (r0 mod 0xffffffff) v"
  have "at_id ?w = at_id v" "at_topic ?w = at_topic v" by (simp_all add: received_def)
  with g(1) d(1) t received_texts[of "mem_junk s" _ v] received_ids[of "mem_junk s" _ v] show ?thesis by blast
qed

lemma thread_fetched_witness:
  "\<exists>r u data p t w. cmd_lethread_get (''THRID'' @ le64 7) 13 sample_server = Inr (r, u) \<and> lr_data r = Some data \<and>
    parse_response_GTHR data (empty_forum 8) = Inr (0, Some p, t) \<and> thread_at t p = Some w \<and>
    at_topic w = ''topic'' \<and> map am_text (at_messages w) = [''hello'']"
proof -
  have "rand_uint64_t (urandom (empty_forum 8)) = Inr (un_le64 (replicate 8 (CHR ''A'')), [])"
    by (simp add: rand_uint64_t_def empty_forum_def)
  from thread_fetched[OF sample_server_ok(1), of "[]" sample_thread "[]" 13, OF _ _ _ _ sample_thread_wire
      forum_ok_empty this, of "[]"]
  show ?thesis using sample_server_ok(2) by fastforce
qed

text \<open>Where the author flag of the \<open>k\<close>-th message stands in the response for the thread \<open>v\<close>.\<close>

definition flag_offset :: "athread \<Rightarrow> nat \<Rightarrow> nat" where
  "flag_offset v k =
     46 + length (at_topic v) + sum_list (map (\<lambda>m. 29 + length (am_text m)) (take k (at_messages v)))"

lemma garbled_posts_nth:
  assumes "k < length ms"
  shows "snd (garbled_posts junk pos ms ! k) =
    garbled junk (pos + sum_list (map (\<lambda>m. 29 + length (am_text m)) (take k ms))) (ms ! k)"
  using assms
proof (induction ms arbitrary: pos k)
  case (Cons m ms)
  then show ?case by (cases k) (simp_all add: length_gthr_message add.assoc)
qed simp

lemma received_flag:
  assumes "k < length (at_messages v)" and "unat (am_by (at_messages v ! k)) < 256"
  shows "am_by (at_messages (received junk first v) ! k) = am_by (at_messages v ! k) \<longleftrightarrow>
    map junk [Suc (flag_offset v k)..<flag_offset v k + 4] = replicate 3 NUL"
proof -
  let ?pos = "length (gthr_header v) + sum_list (map (\<lambda>m. 29 + length (am_text m)) (take k (at_messages v)))"
  have "am_by (at_messages (received junk first v) ! k) = garbled junk ?pos (at_messages v ! k)"
    using assms(1) by (simp add: received_def numbered_def garbled_posts_nth[symmetric] split: prod.split)
  moreover have "junk_bytes junk (?pos + 4) 3 = map junk [Suc (flag_offset v k)..<flag_offset v k + 4]"
  proof -
    have "?pos + 4 = Suc (flag_offset v k)" "?pos + 4 + 3 = flag_offset v k + 4"
      by (simp_all add: flag_offset_def gthr_header_def)
    then show ?thesis by (simp only: junk_bytes_def)
  qed
  ultimately show ?thesis using garbled_iff[OF assms(2), of junk ?pos] by simp
qed

text \<open>
  C28.  Of the four bytes of each author flag in a GTHR response the server writes one.  The client
  reads four, so of each message that it is sent it stores the flag that the server has exactly when the
  other three bytes, which are what the server's block held before, happen to be zero.
\<close>

theorem author_flag_survives_iff:
  assumes "server_ok s" and "forum_of s = us @ v # ws" and "at_id v \<notin> at_id ` set us" and "loaded v"
    and "13 \<le> unat sz" and "wire_thread v" and "\<forall>m\<in>set (at_messages v). unat (am_by m) < 256"
    and "forum_ok c" and "rand_uint64_t (urandom c) = Inr (r0, dev)"
  shows "\<exists>r u data p t w. cmd_lethread_get (''THRID'' @ le64 (at_id v) @ rest) sz s = Inr (r, u) \<and>
    lr_data r = Some data \<and> parse_response_GTHR data c = Inr (0, Some p, t) \<and> thread_at t p = Some w \<and>
    map am_text (at_messages w) = map am_text (at_messages v) \<and>
    (\<forall>k<length (at_messages v). am_by (at_messages w ! k) = am_by (at_messages v ! k) \<longleftrightarrow>
      map (mem_junk s) [Suc (flag_offset v k)..<flag_offset v k + 4] = replicate 3 NUL)"
proof -
  obtain r u where g: "cmd_lethread_get (''THRID'' @ le64 (at_id v) @ rest) sz s = Inr (r, u)"
    "answers r (gthr_response (mem_junk s) v)" using gthr_law[OF assms(1-3) awake_loaded[OF assms(4)] assms(5)] by blast
  obtain data more where d: "lr_data r = Some data" "data = gthr_response (mem_junk s) v @ more"
    using g(2) by (rule answersE)
  let ?w = "received (mem_junk s) (r0 mod 0xffffffff) v"
  obtain p t where "parse_response_GTHR data c = Inr (0, Some p, t)" "thread_at t p = Some ?w"
    using parse_response_GTHR_law[OF assms(8,9,6), of "mem_junk s" more, folded d(2)] by auto
  moreover have "\<forall>k<length (at_messages v). am_by (at_messages ?w ! k) = am_by (at_messages v ! k) \<longleftrightarrow>
      map (mem_junk s) [Suc (flag_offset v k)..<flag_offset v k + 4] = replicate 3 NUL"
    using received_flag assms(7) nth_mem by blast
  ultimately show ?thesis using g(1) d(1) received_texts[of "mem_junk s" _ v] by blast
qed

lemma author_flag_survives_iff_witness:
  "\<exists>s r u data p t w. forum_of s = [sample_thread] \<and> cmd_lethread_get (''THRID'' @ le64 7) 13 s = Inr (r, u) \<and>
    lr_data r = Some data \<and> parse_response_GTHR data (empty_forum 8) = Inr (0, Some p, t) \<and> thread_at t p = Some w \<and>
    am_by (at_messages sample_thread ! 0) = 1 \<and> am_by (at_messages w ! 0) \<noteq> 1"
proof -
  let ?s = "sample_server\<lparr>mem_junk := \<lambda>i. CHR ''J''\<rparr>"
  have s: "server_ok ?s" "forum_of ?s = [] @ sample_thread # []"
    using sample_server_ok(1,2) by (simp_all add: server_ok_def gq_def forum_of_def)
  have rnd: "rand_uint64_t (urandom (empty_forum 8)) = Inr (un_le64 (replicate 8 (CHR ''A'')), [])"
    by (simp add: rand_uint64_t_def empty_forum_def)
  have h: "at_id sample_thread \<notin> at_id ` set []" "13 \<le> unat (13 :: u64)"
    "\<forall>m\<in>set (at_messages sample_thread). unat (am_by m) < 256" by simp_all
  obtain r u data p t w where "cmd_lethread_get (''THRID'' @ le64 7 @ []) 13 ?s = Inr (r, u)" "lr_data r = Some data"
    "parse_response_GTHR data (empty_forum 8) = Inr (0, Some p, t)" "thread_at t p = Some w"
    "am_by (at_messages w ! 0) = 1 \<longleftrightarrow> map (\<lambda>i. CHR ''J'') [Suc (flag_offset sample_thread 0)..<flag_offset sample_thread 0 + 4] = replicate 3 NUL"
    using author_flag_survives_iff[OF s h(1) sample_thread_simps(3) h(2) sample_thread_wire h(3) forum_ok_empty rnd, of "[]"] by auto
  moreover have "am_by (at_messages sample_thread ! 0) = 1" by simp
  moreover have "map (\<lambda>i. CHR ''J'') [Suc (flag_offset sample_thread 0)..<flag_offset sample_thread 0 + 4] \<noteq> replicate 3 NUL"
    by (simp add: flag_offset_def eval_nat_numeral)
  ultimately show ?thesis using s(2)
    by - (rule exI[of _ ?s], rule exI[of _ r], rule exI[of _ u], rule exI[of _ data], rule exI[of _ p], rule exI[of _ t],
      rule exI[of _ w], simp)
qed

text \<open>
  Creating a thread: the client reads from the response the id that the server gave the thread
  and the token of its author.
\<close>

lemma thread_created:
  assumes "server_ok s" and "3 \<le> unat n" and "unat n \<le> 64" and "NUL \<notin> set topic" and "16 \<le> unat sz"
    and "rand_uint64_t (urandom s) = Inr (r0, d0)" and "rand_uint64_t d0 = Inr (r1, d1)"
    and "rand_uint64_t d1 = Inr (r2, d2)" and "rand_string 24 d2 = Inr (token, d3)"
    and "16 \<le> capacity pointer_size"
  shows "\<exists>r u data v. cmd_lethread_create (cthr_packet n topic rest) sz s = Inr (r, u) \<and> lr_data r = Some data \<and>
    forum_of u = forum_of s @ [v] \<and> at_topic v = topic \<and> map_option snd (at_author v) = Some token \<and>
    parse_response_CTHR capacity data = Inr (0, Some \<lparr>ct_thread_id = at_id v, ct_token = token\<rparr>)"
proof -
  obtain r u where c: "cmd_lethread_create (cthr_packet n topic rest) sz s = Inr (r, u)"
    "answers r (cthr_response (mem_junk s) (g_next_lethread_id_value s) token)"
    "forum_of u = forum_of s @ [(new_thread (g_next_lethread_id_value s) (r1 mod 0xffffffff) topic)
      \<lparr>at_author := Some (r2 mod 0xffffffff, token)\<rparr>]"
    using cthr_law[OF assms(1-9)] by blast
  obtain data more where d: "lr_data r = Some data"
    "data = cthr_response (mem_junk s) (g_next_lethread_id_value s) token @ more" using c(2) by (rule answersE)
  have "length token = 24" "NUL \<notin> set token" using rand_string_ok[OF assms(9)] rand_string_no_NUL[OF assms(9)] by simp_all
  from parse_response_CTHR_law[where capacity = capacity and junk = "mem_junk s" and rest = more
      and i = "g_next_lethread_id_value s", OF assms(10) this, folded d(2)]
  show ?thesis using c(1,3) d(1) by (auto simp: new_thread_def)
qed

lemma thread_created_witness:
  "\<exists>r u data. cmd_lethread_create (cthr_packet 5 ''topic'' []) 21 empty_server = Inr (r, u) \<and> lr_data r = Some data \<and>
    parse_response_CTHR (\<lambda>n. n + 16) data = Inr (0, Some \<lparr>ct_thread_id = 7, ct_token = As\<rparr>)"
proof -
  have r: "rand_uint64_t (urandom empty_server) = Inr (un_le64 (replicate 8 (CHR ''A'')), replicate 192 (CHR ''A''))"
    unfolding empty_server_ok(4) by (rule rand_A[of 200, simplified])
  obtain r' u where c: "cmd_lethread_create (cthr_packet 5 ''topic'' []) 21 empty_server = Inr (r', u)"
    "forum_of u = forum_of empty_server @ [(new_thread 7 AAAA ''topic'')\<lparr>at_author := Some (AAAA, As)\<rparr>]"
    using cthr_law[OF empty_server_ok(1), of 5 "''topic''" 21, OF _ _ _ _ r
        rand_A[of 192, simplified] rand_A[of 184, simplified] token_A[of 176, simplified], of "[]"]
      empty_server_ok(5)
    by (auto simp: AAAA_def)
  from thread_created[OF empty_server_ok(1), of 5 "''topic''" 21, OF _ _ _ _ r
        rand_A[of 192, simplified] rand_A[of 184, simplified] token_A[of 176, simplified], of "\<lambda>n. n + 16" "[]"]
  obtain r u data v where t: "cmd_lethread_create (cthr_packet 5 ''topic'' []) 21 empty_server = Inr (r, u)"
    "lr_data r = Some data" "forum_of u = forum_of empty_server @ [v]"
    "parse_response_CTHR (\<lambda>n. n + 16) data = Inr (0, Some \<lparr>ct_thread_id = at_id v, ct_token = As\<rparr>)"
    by (auto simp: pointer_size_def)
  then have "at_id v = 7" using c by (simp add: new_thread_def)
  with t show ?thesis by auto
qed

text \<open>
  C27.  Looking for threads: the client's queue gets exactly the threads whose topic contains the part
  asked for, with their ids and topics, in the server's order.
\<close>

theorem threads_found:
  assumes "server_ok s" and "3 \<le> length part" and "length part \<le> 64" and "NUL \<notin> set part" and "forum_ok c"
    and "list_all (wire_entry \<circ> entry_of) (forum_of s)" and "8 * length (forum_of s) \<le> length (urandom c)"
    and "length (fthr_response (filter (\<lambda>v. strstr (at_topic v) part) (forum_of s))) < 2 ^ 64"
  shows "\<exists>r u data q t. cmd_lethread_find (fthr_packet part rest) sz s = Inr (r, u) \<and> lr_data r = Some data \<and>
    parse_response_FTHR data (unat (lr_size r)) c = Inr (0, Some q, t) \<and>
    collected t q (map entry_of (filter (\<lambda>v. strstr (at_topic v) part) (forum_of s)))"
proof -
  let ?vs = "filter (\<lambda>v. strstr (at_topic v) part) (forum_of s)"
  obtain r u where f: "cmd_lethread_find (fthr_packet part rest) sz s = Inr (r, u)" "answers r (fthr_response ?vs)"
    using fthr_law[OF assms(1-4)] by blast
  obtain data more where d: "lr_data r = Some data" "data = fthr_response ?vs @ more" using f(2) by (rule answersE)
  have "unat (lr_size r) = length (fthr_response ?vs)"
    using f(2) assms(8) by (simp add: answers_def unat_of_nat64)
  moreover have "list_all (wire_entry \<circ> entry_of) ?vs" using assms(6) by (auto simp: list_all_iff)
  moreover have "8 * length ?vs \<le> length (urandom c)" using assms(7) length_filter_le[of _ "forum_of s"] by (meson mult_le_mono2 order_trans)
  ultimately show ?thesis
    using parse_response_FTHR_law[OF assms(5), of ?vs more] f(1) d by auto
qed

lemma threads_found_witness:
  "\<exists>r u data q t. cmd_lethread_find (fthr_packet ''opi'' []) 21 sample_server = Inr (r, u) \<and> lr_data r = Some data \<and>
    parse_response_FTHR data (unat (lr_size r)) (empty_forum 8) = Inr (0, Some q, t) \<and> collected t q [(7, ''topic'')]"
proof -
  have "length (urandom (empty_forum 8)) = 8" by (simp add: empty_forum_def)
  then show ?thesis
    using threads_found[OF sample_server_ok(1), of "''opi''" "empty_forum 8" "[]" 21] forum_ok_empty
    by (simp add: sample_server_ok(2) wire_entry_def fthr_response_def length_found_entry)
qed

text \<open>
  C29.  \<open>parse_response_META\<close> writes seven members into a block of the size of a pointer: on every
  META response of the server it overruns the block unless the allocator handed out seven times as
  much.
\<close>

theorem parse_response_META_overruns:
  assumes "server_ok s" and "capacity pointer_size < 56"
  shows "\<exists>r data. cmd_meta raw sz s = Inr (r, s) \<and> lr_data r = Some data \<and>
    parse_response_META capacity data = Inl OutOfBounds"
proof -
  obtain r where m: "cmd_meta raw sz s = Inr (r, s)" "answers r (meta_response (length (forum_of s)))"
    using meta_law[OF assms(1)] by blast
  obtain data more where "lr_data r = Some data" "data = meta_response (length (forum_of s)) @ more"
    using m(2) by (rule answersE)
  with m(1) assms(2) show ?thesis by (simp add: meta_response_parsed)
qed

lemma parse_response_META_overruns_witness:
  "\<exists>r data. cmd_meta [] 0 empty_server = Inr (r, empty_server) \<and> lr_data r = Some data \<and>
    parse_response_META id data = Inl OutOfBounds"
  by (rule parse_response_META_overruns[OF empty_server_ok(1)]) (simp add: pointer_size_def)

text \<open>
  With a block that is large enough the client learns the server's limits, version and number of threads.
\<close>

lemma meta_read:
  assumes "server_ok s" and "56 \<le> capacity pointer_size"
  shows "\<exists>r data m. cmd_meta raw sz s = Inr (r, s) \<and> lr_data r = Some data \<and>
    parse_response_META capacity data = Inr (0, Some m) \<and>
    mt_thread_count m = of_nat (length (forum_of s)) \<and> mt_min_topic_size m = of_nat MIN_TOPIC_SIZE \<and>
    mt_max_topic_size m = of_nat MAX_TOPIC_SIZE \<and> mt_min_message_size m = of_nat MIN_MESSAGE_SIZE \<and>
    mt_max_message_size m = of_nat MAX_MESSAGE_SIZE \<and> mt_version m = get_version"
proof -
  obtain r where m: "cmd_meta raw sz s = Inr (r, s)" "answers r (meta_response (length (forum_of s)))"
    using meta_law[OF assms(1)] by blast
  obtain data more where "lr_data r = Some data" "data = meta_response (length (forum_of s)) @ more"
    using m(2) by (rule answersE)
  with m(1) assms(2) show ?thesis by (simp add: meta_response_parsed size_limits get_version_def)
qed

lemma meta_read_witness:
  "\<exists>r data m. cmd_meta [] 0 sample_server = Inr (r, sample_server) \<and> lr_data r = Some data \<and>
    parse_response_META (\<lambda>n. 7 * n) data = Inr (0, Some m) \<and> mt_thread_count m = 1"
  using meta_read[OF sample_server_ok(1), of "\<lambda>n. 7 * n" "[]" 0]
  by (auto simp: sample_server_ok(2) pointer_size_def)

end
