(* ===== verification/Requests.thy ===== *)
theory Requests
  imports Protocol
begin

text \<open>
  An abstract server, and the commands as an implementation of it.  \<open>respond\<close> says in a few lines what
  each request does to a list of threads and what is answered; \<open>process_request\<close> shows that
  \<open>query_process\<close>, run on the packet that the client generates for the request, does just that.
\<close>

section \<open>The abstract server\<close>

datatype request =
    Create bytes
  | Post u64 bytes "bytes option"
  | Get u64
  | Find bytes
  | Meta
  | Live

text \<open>
  The threads in the order of their creation, the id of the next one, the random device, what is
  still to be saved, and the disk.
\<close>

record aserver =
  as_threads :: "athread list"
  as_next :: u64
  as_dev :: bytes
  as_backlog :: todo
  as_disk :: filesystem

definition thread_with :: "u64 \<Rightarrow> athread list \<Rightarrow> athread option" where
  "thread_with i vs = List.find (\<lambda>v. at_id v = i) vs"

definition earned_flag :: "athread \<Rightarrow> bytes option \<Rightarrow> i32" where
  "earned_flag v token = (if token \<noteq> None \<and> map_option snd (at_author v) = token then 1 else 0)"

fun respond :: "(nat \<Rightarrow> byte) \<Rightarrow> request \<Rightarrow> aserver \<Rightarrow> (bytes \<times> aserver) res" where
  "respond junk (Create topic) a =
     andthen (rand_uint64_t (as_dev a)) (\<lambda>(r0, dev).
     andthen (rand_uint64_t dev) (\<lambda>(r1, dev).
     andthen (rand_uint64_t dev) (\<lambda>(r2, dev).
     andthen (rand_string 24 dev) (\<lambda>(token, dev).
     let v = (new_thread (as_next a) (r1 mod 0xffffffff) topic)\<lparr>at_author := Some (r2 mod 0xffffffff, token)\<rparr>
     in Inr (cthr_response junk (as_next a) token,
         a\<lparr>as_threads := as_threads a @ [v], as_next := as_next a + 1, as_dev := dev,
           as_backlog := thread_due (as_next a) (as_backlog a),
           as_disk := (as_disk a)\<lparr>fs_meta := Some (le64 (as_next a + 1))\<rparr>\<rparr>)))))"
| "respond junk (Post i txt token) a =
     (case thread_with i (as_threads a) of
        None \<Rightarrow> Inr (''NFND'', a)
      | Some v \<Rightarrow> Inr (''OK'',
          a\<lparr>as_threads := map (\<lambda>w. if at_id w = i then posted w txt (earned_flag w token) else w) (as_threads a),
            as_backlog := message_due v (earned_flag v token) txt (as_backlog a)\<rparr>))"
| "respond junk (Get i) a =
     (case thread_with i (as_threads a) of
        None \<Rightarrow> Inr (''NFND'', a)
      | Some v \<Rightarrow> Inr (gthr_response junk v, a))"
| "respond junk (Find part) a = Inr (fthr_response (filter (\<lambda>v. strstr (at_topic v) part) (as_threads a)), a)"
| "respond junk Meta a = Inr (meta_response (length (as_threads a)), a)"
| "respond junk Live a = Inr (''OK'', a)"

section \<open>Well-formed requests and their packets\<close>

definition token_ok :: "bytes \<Rightarrow> bool" where
  "token_ok tk \<longleftrightarrow> length tk = 24 \<and> NUL \<notin> set tk"

definition wire_topic :: "bytes \<Rightarrow> bool" where
  "wire_topic topic \<longleftrightarrow> NUL \<notin> set topic \<and> 3 \<le> length topic \<and> length topic \<le> 64"

fun wf_request :: "request \<Rightarrow> bool" where
  "wf_request (Create topic) = wire_topic topic"
| "wf_request (Post i txt token) = (wire_text txt \<and> pred_option token_ok token)"
| "wf_request (Find part) = wire_topic part"
| "wf_request _ = True"

text \<open>What the client generates; its strings are terminated.\<close>

fun generate :: "request \<Rightarrow> ledata res" where
  "generate (Create topic) = gen_query_CTHR (topic @ [NUL]) (length topic)"
| "generate (Post i txt token) = gen_query_CMSG i (txt @ [NUL]) (length txt) (map_option (\<lambda>tk. tk @ [NUL]) token)"
| "generate (Get i) = gen_query_GTHR i"
| "generate (Find part) = gen_query_FTHR (part @ [NUL]) (length part)"
| "generate Meta = gen_query_META"
| "generate Live = gen_query_LIVE"

fun packet :: "request \<Rightarrow> bytes" where
  "packet (Create topic) = ''CTHR'' @ ''TPCSZ'' @ le64 (of_nat (length topic)) @ ''TPC'' @ topic"
| "packet (Post i txt token) =
     ''CMSG'' @ ''THRID'' @ le64 i @ ''TXTSZ'' @ le64 (of_nat (length txt)) @ ''TXT'' @ txt @ token_part token"
| "packet (Get i) = ''GTHR'' @ ''THRID'' @ le64 i"
| "packet (Find part) = ''FTHR'' @ ''TPCPSZ'' @ le64 (of_nat (length part)) @ ''TPCP'' @ part"
| "packet Meta = ''META''"
| "packet Live = ''LIVE''"

lemma generate_packet:
  assumes "wf_request r"
  shows "generate r = Inr \<lparr>ld_data = packet r, ld_size = of_nat (length (packet r))\<rparr>"
proof (cases r)
  case (Post i tx token)
  then have "NUL \<notin> set tx" "\<forall>tk. token = Some tk \<longrightarrow> length tk = 24 \<and> NUL \<notin> set tk"
    using assms by (auto simp: wire_text_def token_ok_def)
  then show ?thesis
    using gen_query_CMSG_eq[of tx "length tx" token i "[NUL]" "[NUL]"] Post by simp
qed (use assms in \<open>auto simp: gen_query_CTHR_eq gen_query_GTHR_eq gen_query_FTHR_eq gen_query_META_eq
    gen_query_LIVE_eq wire_topic_def\<close>)

lemma packet_size: "wf_request r \<Longrightarrow> 4 \<le> length (packet r) \<and> length (packet r) \<le> 600"
  by (cases r) (auto simp: wire_topic_def wire_text_def token_ok_def token_part_def split: option.splits)

section \<open>The invariant\<close>

text \<open>Ids are distinct and below the next one; every thread is complete and has an author with a token.\<close>

definition forum_inv :: "aserver \<Rightarrow> bool" where
  "forum_inv a \<longleftrightarrow> distinct (map at_id (as_threads a)) \<and>
     (\<forall>v\<in>set (as_threads a). unat (at_id v) < unat (as_next a) \<and> loaded v \<and>
       (\<exists>ai tk. at_author v = Some (ai, tk) \<and> token_ok tk))"

lemma thread_with_Some:
  assumes "distinct (map at_id vs)" and "thread_with i vs = Some v"
  obtains us ws where "vs = us @ v # ws" and "at_id v = i" and "i \<notin> at_id ` set us" and "i \<notin> at_id ` set ws"
proof -
  obtain k where k: "k < length vs" "at_id (vs ! k) = i" "v = vs ! k"
    using assms(2) by (auto simp: thread_with_def find_Some_iff)
  define us ws where "us = take k vs" and "ws = drop (Suc k) vs"
  have vs: "vs = us @ v # ws" using k(1,3) by (simp add: us_def ws_def id_take_nth_drop)
  have v: "at_id v = i" using k(2,3) by simp
  have "distinct (map at_id (us @ v # ws))" using assms(1) unfolding vs .
  then have "i \<notin> at_id ` set us" "i \<notin> at_id ` set ws" unfolding v[symmetric] by auto
  with vs v show ?thesis by (rule that)
qed

lemma thread_with_None: "thread_with i vs = None \<longleftrightarrow> i \<notin> at_id ` set vs"
  by (auto simp: thread_with_def find_None_iff)

lemma map_one:
  assumes "vs = us @ v # ws" and "at_id v = i" and "i \<notin> at_id ` set us" and "i \<notin> at_id ` set ws"
  shows "map (\<lambda>w. if at_id w = i then f w else w) vs = us @ f v # ws"
proof -
  have "map (\<lambda>w. if at_id w = i then f w else w) us = us" "map (\<lambda>w. if at_id w = i then f w else w) ws = ws"
    using assms(3,4) by (auto intro!: map_idI)
  with assms(1,2) show ?thesis by simp
qed

lemma unat_Suc: "Suc (unat (n :: u64)) < 2 ^ 64 \<Longrightarrow> unat (n + 1) = Suc (unat n)"
  by (simp add: unat_word_ariths)

lemma respond_inv:
  assumes inv: "forum_inv a" and r: "respond junk r a = Inr (ans, a')" and n: "Suc (unat (as_next a)) < 2 ^ 64"
  shows "forum_inv a'" and "unat (as_next a') \<le> Suc (unat (as_next a))"
proof -
  have "forum_inv a' \<and> unat (as_next a') \<le> Suc (unat (as_next a))"
  proof (cases r)
    case (Create topic)
    with r obtain r1 r2 token d d' where a': "as_threads a' = as_threads a @
        [(new_thread (as_next a) (r1 mod 0xffffffff) topic)\<lparr>at_author := Some (r2 mod 0xffffffff, token)\<rparr>]"
        "as_next a' = as_next a + 1"
      and tk: "rand_string 24 d = Inr (token, d')"
      by (auto simp: Let_def)
    have "token_ok token" using tk rand_string_ok rand_string_no_NUL by (auto simp: token_ok_def)
    moreover have "unat (as_next a') = Suc (unat (as_next a))" using a'(2) unat_Suc[OF n] by simp
    ultimately show ?thesis
      using inv unfolding forum_inv_def a'(1) by (auto simp: new_thread_def loaded_def less_Suc_eq)
  next
    case (Post i tx token)
    let ?f = "\<lambda>w. if at_id w = i then posted w tx (earned_flag w token) else w"
    have "a' = a \<or> as_threads a' = map ?f (as_threads a) \<and> as_next a' = as_next a"
      using r Post by (auto split: option.splits)
    moreover have "at_id \<circ> ?f = at_id" by (auto simp: posted_def)
    ultimately show ?thesis
      using inv unfolding forum_inv_def by (auto simp: posted_def loaded_def)
  qed (use r inv in \<open>auto split: option.splits\<close>)
  then show "forum_inv a'" "unat (as_next a') \<le> Suc (unat (as_next a))" by auto
qed

section \<open>The commands implement it\<close>

text \<open>
  A thread \<open>v\<close> of the server stands for the thread \<open>w\<close>: what a lookup makes of \<open>v\<close>, with as much of the
  token as counts.  The messages of \<open>v\<close> may still be in their file, as after a restart.
\<close>

definition trimmed :: "athread \<Rightarrow> athread" where
  "trimmed v = v\<lparr>at_author := map_option (\<lambda>(ai, tk). (ai, take 24 tk)) (at_author v)\<rparr>"

definition presents :: "filesystem \<Rightarrow> athread \<Rightarrow> athread \<Rightarrow> bool" where
  "presents fs v w \<longleftrightarrow> (\<exists>v'. awake fs v v' \<and> w = trimmed v')"

definition refines :: "server \<Rightarrow> aserver \<Rightarrow> bool" where
  "refines s a \<longleftrightarrow> list_all2 (presents (fsys s)) (forum_of s) (as_threads a) \<and>
     as_next a = g_next_lethread_id_value s \<and> as_dev a = urandom s \<and> as_backlog a = backlog s \<and> as_disk a = fsys s"

definition service_ok :: "server \<Rightarrow> aserver \<Rightarrow> bool" where
  "service_ok s a \<longleftrightarrow> server_ok s \<and> forum_inv a \<and> refines s a"

lemma trimmed_simps [simp]:
  "at_id (trimmed v) = at_id v" "at_first (trimmed v) = at_first v" "at_next (trimmed v) = at_next v"
  "at_topic (trimmed v) = at_topic v" "at_messages (trimmed v) = at_messages v"
  "trimmed (posted v tx by_author) = posted (trimmed v) tx by_author"
  "gthr_response junk (trimmed v) = gthr_response junk v"
  "message_due (trimmed v) by_author tx b = message_due v by_author tx b"
  by (simp_all add: trimmed_def posted_def gthr_response_def gthr_header_def message_due_def)

lemma trimmed_id: "at_author v = Some (ai, tk) \<Longrightarrow> length tk = 24 \<Longrightarrow> trimmed v = v"
  by (simp add: trimmed_def)

lemma presentsD:
  assumes "presents fs v w"
  shows "at_id w = at_id v" and "at_topic w = at_topic v"
  using assms by (auto simp: presents_def awake_def)

lemma loaded_awake: "awake fs v v' \<Longrightarrow> loaded v'"
  by (auto simp: awake_def loaded_def)

lemma presents_awake: "awake fs v v' \<Longrightarrow> presents fs v' (trimmed v')"
  unfolding presents_def using loaded_awake awake_loaded by blast

lemma presents_meta [simp]: "presents (fs\<lparr>fs_meta := m\<rparr>) = presents fs"
  by (simp add: fun_eq_iff presents_def awake_def stored_def bytes_at_def file_at_def)

lemma presents_ids:
  assumes "list_all2 (presents fs) vs ws"
  shows "map at_id vs = map at_id ws" and "map entry_of vs = map entry_of ws" and "length vs = length ws"
  using assms by (induction rule: list_all2_induct) (auto dest: presentsD)

lemma presents_find:
  assumes "list_all2 (presents fs) vs ws"
  shows "fthr_response (filter (\<lambda>v. strstr (at_topic v) part) vs) = fthr_response (filter (\<lambda>v. strstr (at_topic v) part) ws)"
proof -
  have "map entry_of (filter (\<lambda>v. strstr (at_topic v) part) vs) = map entry_of (filter (\<lambda>v. strstr (at_topic v) part) ws)"
    using assms by (induction rule: list_all2_induct) (auto dest: presentsD)
  moreover have E: "fthr_response xs = (if map entry_of xs = [] then ''NFND'' else concat (map found_entry (map entry_of xs)))" for xs
    by (simp add: fthr_response_def comp_def)
  ultimately show ?thesis unfolding E by (simp only:)
qed

lemma refinesD:
  assumes "refines s a"
  shows "list_all2 (presents (fsys s)) (forum_of s) (as_threads a)"
    and "as_next a = g_next_lethread_id_value s" and "as_dev a = urandom s" and "as_backlog a = backlog s"
    and "as_disk a = fsys s"
  using assms by (simp_all add: refines_def)

lemma refines_steady:
  assumes "refines s a" and "steady s u" and "list_all2 (presents (fsys s)) (forum_of u) (as_threads a)"
  shows "refines u a"
  using refinesD[OF assms(1)] steadyD[OF assms(2)] frameD[of u s] assms(3) by (simp add: refines_def)

lemma refines_same: "refines s a \<Longrightarrow> steady s u \<Longrightarrow> forum_of u = forum_of s \<Longrightarrow> refines u a"
  by (rule refines_steady) (auto dest: refinesD)

text \<open>A server whose threads are all in memory stands for itself.\<close>

definition abs_server :: "server \<Rightarrow> aserver" where
  "abs_server s = \<lparr>as_threads = forum_of s, as_next = g_next_lethread_id_value s, as_dev = urandom s,
     as_backlog = backlog s, as_disk = fsys s\<rparr>"

lemma refines_abs_server:
  assumes "\<forall>v\<in>set (forum_of s). loaded v \<and> (\<exists>ai tk. at_author v = Some (ai, tk) \<and> length tk = 24)"
  shows "refines s (abs_server s)"
proof -
  have "presents (fsys s) v v" if "v \<in> set (forum_of s)" for v
    using assms that presents_awake[OF awake_loaded] trimmed_id by metis
  then show ?thesis by (simp add: refines_def abs_server_def list.rel_refl_strong)
qed

text \<open>The answer on the wire: the response, or the name of the status.\<close>

definition replies :: "lecommandresult \<Rightarrow> bytes \<Rightarrow> bool" where
  "replies r ans \<longleftrightarrow> ans \<noteq> [] \<and> answers r ans \<or>
     (\<exists>st. r = status_result st \<and> get_lestatus_string_repr st = Inr ans \<and> length ans \<le> 8)"

lemma replies_status:
  "replies (status_result 0) ''OK''" "replies (status_result (-4)) ''NFND''"
  unfolding replies_def by (rule disjI2, rule exI, rule conjI[OF refl], simp)+

lemma serviceE:
  assumes "service_ok s a"
  shows "server_ok s" and "distinct (map at_id (as_threads a))" and "refines s a"
    and "map at_id (forum_of s) = map at_id (as_threads a)"
  using assms presents_ids(1) by (auto simp: service_ok_def forum_inv_def refines_def)

lemma serviceD:
  assumes "service_ok s a" and "w \<in> set (as_threads a)"
  obtains ai tk where "loaded w" and "at_author w = Some (ai, tk)" and "token_ok tk"
    and "unat (at_id w) < unat (as_next a)"
  using assms by (auto simp: service_ok_def forum_inv_def)

text \<open>The server's thread that stands for a thread with the id \<open>i\<close>.\<close>

lemma service_thread:
  assumes s: "service_ok s a" and w: "thread_with i (as_threads a) = Some w"
  obtains us v ws us' v' ws' ai tk where "forum_of s = us @ v # ws" and "as_threads a = us' @ w # ws'"
    and "at_id v = i" and "i \<notin> at_id ` set us" and "at_id w = i" and "i \<notin> at_id ` set us'" and "i \<notin> at_id ` set ws'"
    and "awake (fsys s) v v'" and "w = trimmed v'" and "at_author v = Some (ai, tk)" and "24 \<le> length tk"
    and "at_author w = Some (ai, take 24 tk)" and "token_ok (take 24 tk)"
    and "list_all2 (presents (fsys s)) us us'" and "list_all2 (presents (fsys s)) ws ws'"
proof -
  note E = serviceE[OF s]
  obtain us' ws' where f: "as_threads a = us' @ w # ws'" "at_id w = i" "i \<notin> at_id ` set us'" "i \<notin> at_id ` set ws'"
    using E(2) w by (rule thread_with_Some)
  have "list_all2 (presents (fsys s)) (forum_of s) (us' @ w # ws')" using refinesD(1)[OF E(3)] f(1) by simp
  then obtain us v ws where g: "forum_of s = us @ v # ws" "list_all2 (presents (fsys s)) us us'"
    "presents (fsys s) v w" "list_all2 (presents (fsys s)) ws ws'"
    by (auto simp: list_all2_append2 list_all2_Cons2)
  obtain v' where v': "awake (fsys s) v v'" "w = trimmed v'" using g(3) by (auto simp: presents_def)
  obtain ai tk where v: "at_author v = Some (ai, tk)" using v'(1) by (auto simp: awake_def)
  then have aw: "at_author w = Some (ai, take 24 tk)" using v'(2) awakeD(2)[OF v'(1)] by (simp add: trimmed_def)
  have tk: "token_ok (take 24 tk)" by (rule serviceD[OF s, of w]) (use f(1) aw in auto)
  have "map at_id us = map at_id us'" by (rule presents_ids(1)[OF g(2)])
  then have us: "i \<notin> at_id ` set us" using f(3) by (metis list.set_map)
  have "at_id v = i" using presentsD(1)[OF g(3)] f(2) by simp
  moreover have "24 \<le> length tk" using tk by (simp add: token_ok_def min_def split: if_splits)
  ultimately show ?thesis using g f v' v aw tk us by (intro that)
qed

lemma cmsg_missing:
  assumes "server_ok s" and "i \<notin> at_id ` set (forum_of s)" and "29 \<le> unat sz"
  shows "cmd_lemessage_create (cmsg_packet i tx rest) sz s = Inr (status_result (-4), s)"
  using assms(3) lethread_get_by_id_missing[OF assms(1,2)]
  by (simp add: cmd_lemessage_create_def cmsg_packet_def wire_keywords Let_def)

lemma earned_flag_eq:
  assumes "pred_option token_ok token" and "at_author v = Some (ai, take 24 tk)" and "token_ok (take 24 tk)"
  shows "author_flag tk (token_part token @ NUL # old) = earned_flag v token"
proof (cases token)
  case None
  have "take 3 (NUL # old) \<noteq> ''TKN''" by (simp add: numeral_3_eq_3)
  with None show ?thesis by (simp add: author_flag_def earned_flag_def token_part_def)
next
  case (Some t)
  then have "length t = 24" using assms by (simp add: token_ok_def)
  moreover have "take 3 (''TKN'' @ t @ NUL # old) = ''TKN''" "drop 3 (''TKN'' @ t @ NUL # old) = t @ NUL # old"
    by (simp_all add: numeral_3_eq_3)
  ultimately show ?thesis
    using Some assms(2) by (auto simp: author_flag_def earned_flag_def token_part_def)
qed

text \<open>The buffer holds the packet, a terminator and what was there before.\<close>

abbreviation buffer :: "request \<Rightarrow> bytes \<Rightarrow> bytes" where
  "buffer r old \<equiv> packet r @ NUL # old"

abbreviation psize :: "request \<Rightarrow> u64" where
  "psize r \<equiv> of_nat (length (packet r))"

definition performs :: "request \<Rightarrow> bytes \<Rightarrow> server \<Rightarrow> bytes \<Rightarrow> aserver \<Rightarrow> bool" where
  "performs r old s ans a' \<longleftrightarrow>
     (\<exists>res u. query_process (Some (buffer r old)) (psize r) s = Inr (res, u) \<and> replies res ans \<and>
       refines u a' \<and> server_ok u \<and> mem_junk u = mem_junk s \<and>
       g_program_on_finish u = g_program_on_finish s)"

lemma performs_steady:
  assumes "query_process (Some (buffer r old)) (psize r) s = Inr (res, u)" and "replies res ans"
    and "server_ok u" and "refines s a" and "list_all2 (presents (fsys s)) (forum_of u) (as_threads a)" and "steady s u"
  shows "performs r old s ans a"
  using assms refines_steady[OF assms(4,6,5)] frameD[OF steadyD(1)[OF assms(6)]]
  unfolding performs_def by (intro exI[of _ res] exI[of _ u]) simp

lemma performs_same:
  assumes "query_process (Some (buffer r old)) (psize r) s = Inr (res, u)" and "replies res ans"
    and "server_ok u" and "refines s a" and "forum_of u = forum_of s" and "steady s u"
  shows "performs r old s ans a"
  using performs_steady[OF assms(1-4) _ assms(6)] refinesD(1)[OF assms(4)] assms(5) by simp

lemma unat_minus4:
  assumes "4 \<le> n" and "n \<le> 600"
  shows "unat (of_nat n - 4 :: u64) = n - 4"
proof -
  have "of_nat n - 4 = (of_nat (n - 4) :: u64)" using assms(1) by (simp add: of_nat_diff)
  then show ?thesis using assms(2) by (simp add: unat_of_nat64)
qed

lemma perform_create:
  assumes ok: "server_ok s" and sim: "refines s a" and w: "wire_topic topic"
    and r: "respond (mem_junk s) (Create topic) a = Inr (ans, a')"
  shows "performs (Create topic) old s ans a'"
proof -
  let ?p = "Create topic"
  note S = refinesD[OF sim]
  obtain r0 d0 r1 d1 r2 d2 token d3 where rnd: "rand_uint64_t (urandom s) = Inr (r0, d0)" "rand_uint64_t d0 = Inr (r1, d1)"
    "rand_uint64_t d1 = Inr (r2, d2)" "rand_string 24 d2 = Inr (token, d3)"
    and ans: "ans = cthr_response (mem_junk s) (g_next_lethread_id_value s) token"
    and a': "a' = a\<lparr>as_threads := as_threads a @ [(new_thread (g_next_lethread_id_value s)
        (r1 mod 0xffffffff) topic)\<lparr>at_author := Some (r2 mod 0xffffffff, token)\<rparr>],
      as_next := g_next_lethread_id_value s + 1, as_dev := d3,
      as_backlog := thread_due (g_next_lethread_id_value s) (backlog s),
      as_disk := (fsys s)\<lparr>fs_meta := Some (le64 (g_next_lethread_id_value s + 1))\<rparr>\<rparr>"
    using r S by (auto simp: Let_def)
  let ?n = "of_nat (length topic) :: u64"
  have n: "unat ?n = length topic" using w by (intro unat_of_nat64) (simp add: wire_topic_def)
  have sz: "unat (psize ?p - 4) = length (packet ?p) - 4"
    using packet_size[of ?p] w by (intro unat_minus4) auto
  have big: "16 \<le> unat (psize ?p - 4)" unfolding sz by simp
  have t: "3 \<le> unat ?n" "unat ?n \<le> 64" "NUL \<notin> set topic" using w n by (simp_all add: wire_topic_def)
  have buf: "buffer ?p old = ''CTHR'' @ cthr_packet ?n topic old" by (simp add: cthr_packet_def)
  let ?v = "(new_thread (g_next_lethread_id_value s) (r1 mod 0xffffffff) topic)\<lparr>at_author := Some (r2 mod 0xffffffff, token)\<rparr>"
  obtain res u where u: "cmd_lethread_create (cthr_packet ?n topic old) (psize ?p - 4) s = Inr (res, u)"
    "answers res ans" "server_ok u" "forum_of u = forum_of s @ [?v]" "g_next_lethread_id_value u = g_next_lethread_id_value s + 1"
    "urandom u = d3" "mem_junk u = mem_junk s"
    "fsys u = (fsys s)\<lparr>fs_meta := Some (le64 (g_next_lethread_id_value s + 1))\<rparr>"
    "g_program_on_finish u = g_program_on_finish s" "backlog u = thread_due (g_next_lethread_id_value s) (backlog s)"
    using cthr_law[OF ok t big rnd, of old] unfolding ans by blast
  have "length token = 24" using rand_string_ok[OF rnd(4)] by blast
  then have "trimmed ?v = ?v" by (intro trimmed_id) simp_all
  moreover have "awake (fsys s) ?v ?v" by (rule awake_loaded) (simp add: loaded_def new_thread_def)
  ultimately have "presents (fsys s) ?v ?v" by (metis presents_awake)
  then have "refines u a'" using S(1) u(4-6,8,10) by (simp add: refines_def a' list_all2_appendI)
  moreover have "ans \<noteq> []" by (simp add: ans cthr_response_def)
  ultimately show ?thesis
    using u(1-3,7,9) unfolding performs_def buf query_process_dispatch(2) replies_def by blast
qed

lemma perform_post:
  assumes s: "service_ok s a" and w: "wf_request (Post i tx token)" and old: "26 \<le> length old"
    and r: "respond (mem_junk s) (Post i tx token) a = Inr (ans, a')"
  shows "performs (Post i tx token) old s ans a'"
proof -
  let ?p = "Post i tx token"
  let ?rest = "token_part token @ NUL # old"
  note ok = serviceE[OF s]
  have tx: "NUL \<notin> set tx" "3 \<le> length tx" "length tx \<le> 512" and tk: "pred_option token_ok token"
    using w by (simp_all add: wire_text_def)
  have sz: "unat (psize ?p - 4) = length (packet ?p) - 4" using packet_size[OF w] by (intro unat_minus4) auto
  have big: "29 \<le> unat (psize ?p - 4)" unfolding sz using tx(2) by simp
  have rest: "27 \<le> length ?rest" using old by simp
  have buf: "buffer ?p old = ''CMSG'' @ cmsg_packet i tx ?rest" by (simp add: cmsg_packet_def)
  show ?thesis
  proof (cases "thread_with i (as_threads a)")
    case None
    then have "ans = ''NFND''" "a' = a" using r by simp_all
    moreover have "i \<notin> at_id ` set (forum_of s)" using None thread_with_None ok(4) by (metis list.set_map)
    then have "cmd_lemessage_create (cmsg_packet i tx ?rest) (psize ?p - 4) s = Inr (status_result (-4), s)"
      by (rule cmsg_missing[OF ok(1) _ big])
    then have "query_process (Some (buffer ?p old)) (psize ?p) s = Inr (status_result (-4), s)"
      unfolding buf query_process_dispatch(4) .
    ultimately show ?thesis using performs_same[OF _ replies_status(2) ok(1,3)] by simp
  next
    case (Some w)
    obtain us v ws us' v' ws' ai t where f: "forum_of s = us @ v # ws" "as_threads a = us' @ w # ws'"
      "at_id v = i" "i \<notin> at_id ` set us" "at_id w = i" "i \<notin> at_id ` set us'" "i \<notin> at_id ` set ws'"
      and v: "awake (fsys s) v v'" "w = trimmed v'" "at_author v = Some (ai, t)" "24 \<le> length t"
      "at_author w = Some (ai, take 24 t)" "token_ok (take 24 t)"
      and parts: "list_all2 (presents (fsys s)) us us'" "list_all2 (presents (fsys s)) ws ws'"
      by (rule service_thread[OF s Some])
    let ?by = "earned_flag w token"
    have us: "at_id v \<notin> at_id ` set us" using f(3,4) by simp
    have t: "NUL \<notin> set (take 24 t)" using v(6) by (simp add: token_ok_def)
    note flag = earned_flag_eq[OF tk v(5,6)]
    have ans: "ans = ''OK''" and a': "a' = a\<lparr>as_threads := us' @ posted w tx ?by # ws',
        as_backlog := message_due w ?by tx (as_backlog a)\<rparr>"
      using r Some map_one[OF f(2,5-7)] by simp_all
    obtain u where u: "cmd_lemessage_create (cmsg_packet i tx ?rest) (psize ?p - 4) s = Inr (status_result 0, u)"
      "server_ok u" "forum_of u = us @ posted v' tx ?by # ws" "frame u = frame s"
      "backlog u = message_due v' ?by tx (backlog s)"
      using cmsg_law[OF ok(1) f(1) us v(1,3,4) t tx(2,3,1) rest big] unfolding f(3) flag by blast
    have "at_author v' \<noteq> None" using awakeD(2)[OF v(1)] v(3) by simp
    then have "awake (fsys s) (posted v' tx ?by) (posted v' tx ?by)"
      by (intro awake_loaded) (simp add: loaded_def posted_def)
    then have "presents (fsys s) (posted v' tx ?by) (posted w tx ?by)"
      using presents_awake v(2) by (metis trimmed_simps(6))
    then have "refines u a'"
      using parts u(3,5) frameD[OF u(4)] refinesD[OF ok(3)] v(2) by (simp add: refines_def a' list_all2_appendI)
    with u(1,2) frameD[OF u(4)] show ?thesis
      unfolding performs_def buf query_process_dispatch(4) ans using replies_status(1) by blast
  qed
qed

lemma perform_get:
  assumes s: "service_ok s a" and r: "respond (mem_junk s) (Get i) a = Inr (ans, a')"
  shows "performs (Get i) old s ans a'"
proof -
  let ?p = "Get i"
  note ok = serviceE[OF s]
  have big: "13 \<le> unat (psize ?p - 4)" by simp
  have buf: "buffer ?p old = ''GTHR'' @ ''THRID'' @ le64 i @ NUL # old" by simp
  show ?thesis
  proof (cases "thread_with i (as_threads a)")
    case None
    then have "ans = ''NFND''" "a' = a" using r by simp_all
    moreover have "i \<notin> at_id ` set (forum_of s)" using None thread_with_None ok(4) by (metis list.set_map)
    then have "cmd_lethread_get (''THRID'' @ le64 i @ NUL # old) (psize ?p - 4) s = Inr (status_result (-4), s)"
      by (rule gthr_missing[OF ok(1) _ big])
    then have "query_process (Some (buffer ?p old)) (psize ?p) s = Inr (status_result (-4), s)"
      unfolding buf query_process_dispatch(1) .
    ultimately show ?thesis using performs_same[OF _ replies_status(2) ok(1,3)] by simp
  next
    case (Some w)
    obtain us v ws us' v' ws' where f: "forum_of s = us @ v # ws" "as_threads a = us' @ w # ws'"
      "at_id v = i" "i \<notin> at_id ` set us" and v: "awake (fsys s) v v'" "w = trimmed v'"
      and parts: "list_all2 (presents (fsys s)) us us'" "list_all2 (presents (fsys s)) ws ws'"
      by (rule service_thread[OF s Some])
    have us: "at_id v \<notin> at_id ` set us" using f(3,4) by simp
    have ans: "ans = gthr_response (mem_junk s) v'" "a' = a" using r Some v(2) by simp_all
    obtain res u where u: "cmd_lethread_get (''THRID'' @ le64 i @ NUL # old) (psize ?p - 4) s = Inr (res, u)"
      "answers res ans" "server_ok u" "forum_of u = us @ v' # ws" "steady s u"
      using gthr_law[OF ok(1) f(1) us v(1) big, of "NUL # old"] unfolding f(3) ans by blast
    have "replies res ans" using u(2) by (simp add: replies_def ans gthr_response_def gthr_header_def)
    moreover have "query_process (Some (buffer ?p old)) (psize ?p) s = Inr (res, u)"
      unfolding buf query_process_dispatch(1) by (rule u(1))
    moreover have "list_all2 (presents (fsys s)) (forum_of u) (as_threads a)"
      using parts presents_awake[OF v(1)] unfolding u(4) f(2) v(2) by (simp add: list_all2_appendI)
    ultimately show ?thesis using performs_steady u(3,5) ok(3) unfolding ans(2) by blast
  qed
qed

lemma fthr_response_nonempty: "fthr_response vs \<noteq> []"
  by (cases vs) (simp_all add: fthr_response_def found_entry_def)

lemma perform_find:
  assumes ok: "server_ok s" and sim: "refines s a" and w: "wire_topic part"
    and r: "respond (mem_junk s) (Find part) a = Inr (ans, a')"
  shows "performs (Find part) old s ans a'"
proof -
  let ?p = "Find part"
  have ans: "ans = fthr_response (filter (\<lambda>v. strstr (at_topic v) part) (forum_of s))" "a' = a"
    using r by (auto simp: presents_find[OF refinesD(1)[OF sim]])
  have buf: "buffer ?p old = ''FTHR'' @ fthr_packet part (NUL # old)" by (simp add: fthr_packet_def)
  obtain res u where u: "cmd_lethread_find (fthr_packet part (NUL # old)) (psize ?p - 4) s = Inr (res, u)"
    "answers res ans" "server_ok u" "forum_of u = forum_of s" "steady s u"
    using fthr_law[OF ok, of part "NUL # old" "psize ?p - 4"] w unfolding ans wire_topic_def by blast
  have "ans \<noteq> []" unfolding ans by (rule fthr_response_nonempty)
  then have "replies res ans" using u(2) by (simp add: replies_def)
  moreover have "query_process (Some (buffer ?p old)) (psize ?p) s = Inr (res, u)"
    unfolding buf query_process_dispatch(3) by (rule u(1))
  ultimately show ?thesis using performs_same u(3-5) sim unfolding ans(2) by blast
qed

lemma process_request:
  assumes s: "service_ok s a" and w: "wf_request r" and old: "26 \<le> length old"
    and r: "respond (mem_junk s) r a = Inr (ans, a')"
  shows "performs r old s ans a'"
proof (cases r)
  case (Create topic)
  with w r show ?thesis using perform_create[OF serviceE(1,3)[OF s]] by simp
next
  case (Post i tx token)
  with w r old show ?thesis using perform_post[OF s] by blast
next
  case (Get i)
  with r show ?thesis using perform_get[OF s] by blast
next
  case (Find part)
  then have "wire_topic part" using w by simp
  from perform_find[OF serviceE(1,3)[OF s] this r[unfolded Find]] show ?thesis unfolding Find .
next
  case Meta
  have m: "ans = meta_response (length (forum_of s))" "a' = a"
    using r Meta by (auto simp del: length_forum_of simp: presents_ids(3)[OF refinesD(1)[OF serviceE(3)[OF s]]])
  obtain res where u: "cmd_meta (NUL # old) (psize r - 4) s = Inr (res, s)" "answers res ans"
    using meta_law[OF serviceE(1)[OF s], of "NUL # old" "psize r - 4"] unfolding m by blast
  have buf: "buffer r old = ''META'' @ NUL # old" using Meta by simp
  have "query_process (Some (buffer r old)) (psize r) s = Inr (res, s)"
    unfolding buf query_process_dispatch(5) by (rule u(1))
  moreover have "replies res ans" using u(2) by (simp add: replies_def m meta_response_def)
  ultimately show ?thesis
    using performs_same serviceE(1,3)[OF s] steady_refl unfolding m(2) by blast
next
  case Live
  have m: "ans = ''OK''" "a' = a" using r Live by simp_all
  have buf: "buffer r old = ''LIVE'' @ NUL # old" using Live by simp
  have "query_process (Some (buffer r old)) (psize r) s = Inr (status_result 0, s)"
    unfolding buf query_process_dispatch(6) by (simp add: cmd_alive_def)
  then show ?thesis
    using performs_same replies_status(1) serviceE(1,3)[OF s] steady_refl unfolding m by blast
qed

end
