(* ===== verification/Session.thy ===== *)
theory Session
  imports Requests
begin

text \<open>
  A whole session of a client with the server, through the socket: \<open>handle_client\<close> serves the packets
  of any sequence of requests and sends back what the abstract server answers.  The network may split
  and join the packets as it likes, but for the eight bytes of a size, which \<open>handle_client\<close> takes with
  one call of \<open>recv\<close>: they have to arrive together.
\<close>

section \<open>Arrival\<close>

text \<open>The size in one piece, then the packet in pieces.\<close>

definition arrives :: "bytes list \<Rightarrow> rx_event list" where
  "arrives pieces = Rx (le64 (of_nat (length (concat pieces)))) # map Rx pieces"

fun session_rx :: "bytes list list \<Rightarrow> rx_event list" where
  "session_rx [] = [Rx_closed]"
| "session_rx (pieces # ps) = arrives pieces @ session_rx ps"

lemma recv_piece:
  assumes "sk_rx sk = Rx bs # es" and "bs \<noteq> []" and "length bs \<le> n"
  shows "recv n sk = Inr (int (length bs), bs, sk\<lparr>sk_rx := es\<rparr>)"
proof -
  obtain b bs' where "bs = b # bs'" using assms(2) by (cases bs) auto
  with assms show ?thesis by (simp add: recv_def Let_def)
qed

lemma s_recv_loop_pieces:
  assumes "sk_rx sk = map Rx pieces @ es" and "[] \<notin> set pieces"
  shows "s_recv_loop (length got + length (concat pieces)) got sk =
    Inr (got @ concat pieces, sk\<lparr>sk_rx := es\<rparr>)"
  using assms
proof (induction pieces arbitrary: got sk)
  case Nil
  then have "sk\<lparr>sk_rx := es\<rparr> = sk" by simp
  then show ?case by (simp add: s_recv_loop.simps)
next
  case (Cons bs pieces)
  let ?n = "length got + length (concat (bs # pieces))"
  have r: "recv (?n - length got) sk = Inr (int (length bs), bs, sk\<lparr>sk_rx := map Rx pieces @ es\<rparr>)"
    by (rule recv_piece) (use Cons.prems in auto)
  have "0 < length bs" "length got < ?n" using Cons.prems(2) by auto
  then have "s_recv_loop ?n got sk = s_recv_loop ?n (got @ bs) (sk\<lparr>sk_rx := map Rx pieces @ es\<rparr>)"
    using r by (subst s_recv_loop.simps) (simp only: if_True andthen_Inr split_conv, simp)
  also have "\<dots> = Inr (got @ concat (bs # pieces), sk\<lparr>sk_rx := es\<rparr>)"
    using Cons.IH[of "sk\<lparr>sk_rx := map Rx pieces @ es\<rparr>" "got @ bs"] Cons.prems by (simp add: add.assoc)
  finally show ?case .
qed

section \<open>What the network may do\<close>

text \<open>One packet as it goes over the wire.\<close>

definition framed :: "bytes \<Rightarrow> bytes" where
  "framed ans = le64 (of_nat (length ans)) @ ans"

text \<open>What has arrived when \<open>recv\<close> looks next, and what is left after \<open>n\<close> bytes.\<close>

fun ahead :: "rx_event list \<Rightarrow> nat" where
  "ahead (Rx [] # es) = ahead es"
| "ahead (Rx bs # es) = length bs"
| "ahead es = 0"

fun consume :: "nat \<Rightarrow> rx_event list \<Rightarrow> rx_event list" where
  "consume n (Rx bs # es) = (if n < length bs then Rx (drop n bs) # es else consume (n - length bs) es)"
| "consume n es = es"

text \<open>The eight bytes of each size arrive together.\<close>

fun sizes_whole :: "rx_event list \<Rightarrow> bytes list \<Rightarrow> bool" where
  "sizes_whole es [] = True"
| "sizes_whole es (p # ps) = (8 \<le> ahead es \<and> sizes_whole (consume (8 + length p) es) ps)"

text \<open>
  The packets arrive, in any pieces, before the client closes or a call fails (which is what a timeout is).
\<close>

definition delivers :: "rx_event list \<Rightarrow> bytes list \<Rightarrow> bool" where
  "delivers es ps \<longleftrightarrow> rx_stream es = concat (map framed ps) \<and> rx_after es \<noteq> [] \<and> sizes_whole es ps"

lemma ahead_ne: "bs \<noteq> [] \<Longrightarrow> ahead (Rx bs # es) = length bs"
  by (cases bs) simp_all

lemma ahead_le64 [simp]: "ahead (Rx (le64 n) # es) = 8" "ahead (Rx (le64 n @ bs) # es) = 8 + length bs"
proof -
  have "le64 n \<noteq> []" using length_le64[of n] by (metis list.size(3) zero_neq_numeral)
  then show "ahead (Rx (le64 n) # es) = 8" "ahead (Rx (le64 n @ bs) # es) = 8 + length bs" by (simp_all add: ahead_ne)
qed

lemma ahead_consume_0 [simp]: "ahead (consume 0 es) = ahead es"
  by (induction es rule: ahead.induct) auto

lemma consume_consume_0 [simp]: "consume n (consume 0 es) = consume n es"
  by (induction n es rule: consume.induct) auto

lemma sizes_whole_consume_0 [simp]: "sizes_whole (consume 0 es) ps = sizes_whole es ps"
  by (cases ps) simp_all

lemma ahead_le_stream: "ahead es \<le> length (rx_stream es)"
  by (induction es rule: ahead.induct) auto

lemma recv_events_consume:
  "recv_events n es = Inr (int j, bs, es') \<Longrightarrow> 0 < j \<Longrightarrow> consume k es' = consume (j + k) es"
  by (induction n es rule: recv_events.induct) (auto simp: Let_def min_def add.commute split: if_splits)

lemma recv_consume:
  assumes "recv n sk = Inr (int j, bs, sk')" and "0 < j"
  shows "consume k (sk_rx sk') = consume (j + k) (sk_rx sk)"
  using assms recv_events_consume[of n "sk_rx sk" j bs _ k] by (auto simp: recv_def)

lemma recv_events_ahead:
  "0 < n \<Longrightarrow> n \<le> ahead es \<Longrightarrow> \<exists>es'. recv_events n es = Inr (int n, take n (rx_stream es), es')"
  by (induction n es rule: recv_events.induct) (auto simp: Let_def min_def take_Cons' split: if_splits)

lemma recv_ahead:
  assumes "0 < n" and "n \<le> ahead (sk_rx sk)"
  obtains sk' where "recv n sk = Inr (int n, take n (incoming sk), sk')" and "incoming sk' = drop n (incoming sk)"
    and "rx_after (sk_rx sk') = rx_after (sk_rx sk)" and "sk_tx sk' = sk_tx sk" and "sk_out sk' = sk_out sk"
    and "\<And>k. consume k (sk_rx sk') = consume (n + k) (sk_rx sk)"
proof -
  have "incoming sk \<noteq> []" using assms ahead_le_stream[of "sk_rx sk"] by auto
  from recv_some[OF this assms(1)] obtain k sk' where k: "recv n sk = Inr (int k, take k (incoming sk), sk')"
    "incoming sk' = drop k (incoming sk)" "rx_after (sk_rx sk') = rx_after (sk_rx sk)" "sk_tx sk' = sk_tx sk" "sk_out sk' = sk_out sk"
    by metis
  moreover have "k = n" using recv_events_ahead[OF assms] k(1) by (auto simp: recv_def)
  ultimately show ?thesis using recv_consume[OF _ assms(1)] by (intro that[of sk']) simp_all
qed

lemma s_recv_loop_consume:
  assumes "s_recv_loop sz had sk = Inr (got, sk')" and "sz \<le> length had + length (incoming sk)" and "length had \<le> sz"
  shows "consume k (sk_rx sk') = consume (sz - length had + k) (sk_rx sk)"
  using assms
proof (induction "sz - length had" arbitrary: had sk rule: less_induct)
  case less
  show ?case
  proof (cases "length had < sz")
    case False
    with less.prems show ?thesis by (simp add: s_recv_loop.simps)
  next
    case True
    then have "incoming sk \<noteq> []" "0 < sz - length had" using less.prems by auto
    then obtain j sk1 where j: "recv (sz - length had) sk = Inr (int j, take j (incoming sk), sk1)"
      "0 < j" "j \<le> sz - length had" "j \<le> length (incoming sk)" "incoming sk1 = drop j (incoming sk)"
      by (rule recv_some)
    let ?r = "had @ take j (incoming sk)"
    have len: "length ?r = length had + j" using j(4) by simp
    have "s_recv_loop sz ?r sk1 = Inr (got, sk')"
      using less.prems(1) True j(1,2) by (simp add: s_recv_loop.simps[of sz had])
    then have "consume k (sk_rx sk') = consume (sz - length ?r + k) (sk_rx sk1)"
      by (rule less.hyps[rotated]) (use less.prems j len True in auto)
    also have "\<dots> = consume (j + (sz - length ?r + k)) (sk_rx sk)" by (rule recv_consume[OF j(1,2)])
    also have "j + (sz - length ?r + k) = sz - length had + k" using len j(3) True by simp
    finally show ?thesis .
  qed
qed

text \<open>One packet is taken off what arrives.\<close>

lemma take_packet:
  assumes d: "delivers (sk_rx sk) (p # ps)"
  obtains sk1 sk2 where "recv 8 sk = Inr (8, le64 (of_nat (length p)), sk1)" and "s_recv (length p) sk1 = Inr (p, sk2)"
    and "delivers (sk_rx sk2) ps" and "sk_tx sk2 = sk_tx sk" and "sk_out sk2 = sk_out sk"
proof -
  have str: "incoming sk = le64 (of_nat (length p)) @ p @ concat (map framed ps)" and "rx_after (sk_rx sk) \<noteq> []"
    and whole: "8 \<le> ahead (sk_rx sk)" "sizes_whole (consume (8 + length p) (sk_rx sk)) ps"
    using d by (simp_all add: delivers_def framed_def)
  have eight: "(0 :: nat) < 8" by simp
  obtain sk1 where sk1: "recv 8 sk = Inr (int 8, take 8 (incoming sk), sk1)" "incoming sk1 = drop 8 (incoming sk)"
    "rx_after (sk_rx sk1) = rx_after (sk_rx sk)" "sk_tx sk1 = sk_tx sk" "sk_out sk1 = sk_out sk"
    "\<forall>k. consume k (sk_rx sk1) = consume (8 + k) (sk_rx sk)"
    using recv_ahead[OF eight whole(1)] by metis
  have in1: "incoming sk1 = p @ concat (map framed ps)" by (simp add: sk1(2) str)
  obtain sk2 where sk2: "s_recv_loop (length p) [] sk1 = Inr ([] @ take (length p - length []) (incoming sk1), sk2)"
    "incoming sk2 = drop (length p - length []) (incoming sk1)" "rx_after (sk_rx sk2) = rx_after (sk_rx sk1)"
    "sk_tx sk2 = sk_tx sk1" "sk_out sk2 = sk_out sk1"
    using s_recv_loop_whole[of "length p" "[]" sk1] in1 by auto
  have "consume 0 (sk_rx sk2) = consume (8 + length p) (sk_rx sk)"
    using s_recv_loop_consume[OF sk2(1), of 0] in1 sk1(6) by simp
  then have "sizes_whole (consume 0 (sk_rx sk2)) ps" using whole(2) by simp
  then have "delivers (sk_rx sk2) ps"
    using sk2(2,3) sk1(3) in1 \<open>rx_after (sk_rx sk) \<noteq> []\<close> by (simp add: delivers_def)
  moreover have "recv 8 sk = Inr (8, le64 (of_nat (length p)), sk1)" using sk1(1) by (simp add: str)
  moreover have "s_recv (length p) sk1 = Inr (p, sk2)" using sk2(1) in1 by (simp add: s_recv_def)
  ultimately show ?thesis using sk2(4,5) sk1(4,5) by (intro that[of sk1 sk2]) simp_all
qed

text \<open>Each packet in pieces of its own is such an arrival.\<close>

lemma rx_stream_pieces: "rx_stream (map Rx pieces @ es) = concat pieces @ rx_stream es"
  "rx_after (map Rx pieces @ es) = rx_after es" "consume (length (concat pieces)) (map Rx pieces @ es) = consume 0 es"
  by (induction pieces) simp_all

lemma session_delivers: "delivers (session_rx ps) (map concat ps)"
proof (induction ps)
  case (Cons pieces ps)
  have "consume (8 + length (concat pieces)) (arrives pieces @ session_rx ps) = consume 0 (session_rx ps)"
    using rx_stream_pieces(3)[of pieces "session_rx ps"] by (simp add: arrives_def)
  then show ?case
    using Cons by (simp add: delivers_def arrives_def framed_def rx_stream_pieces)
qed (simp add: delivers_def)

section \<open>Answers\<close>

text \<open>
  A socket whose \<open>send\<close> takes at least eight bytes each time, for at least \<open>n\<close> calls: the size and
  the name of a status are sent by one call each, whose result is not looked at.
\<close>

definition willing :: "nat \<Rightarrow> socket \<Rightarrow> bool" where
  "willing n sk \<longleftrightarrow> n \<le> length (sk_tx sk) \<and> (\<forall>e\<in>set (sk_tx sk). \<exists>k\<ge>8. e = Tx k)"

lemma willing_room:
  assumes "\<forall>e\<in>set es. \<exists>k\<ge>8. e = Tx k"
  shows "length es \<le> tx_room es"
  using assms
proof (induction es)
  case (Cons e es)
  then obtain k where "e = Tx (Suc k)" by (metis Suc_le_D list.set_intros(1) numeral_eq_Suc)
  with Cons show ?case by simp
qed simp

lemma send_short:
  assumes "willing (Suc n) sk" and "length bs \<le> 8"
  obtains sk' where "send bs sk = Inr (int (length bs), sk')" and "willing n sk'" and "sk_out sk' = sk_out sk @ bs"
    and "sk_rx sk' = sk_rx sk"
proof -
  obtain k es where "sk_tx sk = Tx k # es" "8 \<le> k" "n \<le> length es" "\<forall>e\<in>set es. \<exists>k\<ge>8. e = Tx k"
    using assms(1) by (cases "sk_tx sk") (auto simp: willing_def)
  with assms(2) show ?thesis
    by (intro that[of "sk\<lparr>sk_tx := es, sk_out := sk_out sk @ bs\<rparr>"])
      (simp_all add: send_def Let_def min_def willing_def)
qed

lemma send_reply:
  assumes r: "replies r ans" and len: "length ans < 2 ^ 64" and w: "willing (n + length ans + 2) sk"
  obtains sk' where "send_result r sk = Inr sk'" and "willing n sk'" and "sk_out sk' = sk_out sk @ framed ans"
    and "sk_rx sk' = sk_rx sk"
proof -
  have w1: "willing (Suc (n + length ans + 1)) sk" using w by (simp add: willing_def)
  obtain sk1 where sk1: "send (le64 (of_nat (length ans))) sk = Inr (8, sk1)" "willing (n + length ans + 1) sk1"
    "sk_out sk1 = sk_out sk @ le64 (of_nat (length ans))" "sk_rx sk1 = sk_rx sk"
    by (rule send_short[OF w1, of "le64 (of_nat (length ans))"]) auto
  have n: "unat (of_nat (length ans) :: u64) = length ans" using len by (intro unat_of_nat64) simp
  from r consider (data) "ans \<noteq> []" "answers r ans"
    | (status) st where "r = status_result st" "get_lestatus_string_repr st = Inr ans" "length ans \<le> 8"
    unfolding replies_def by blast
  then show ?thesis
  proof cases
    case data
    then obtain d where d: "lr_size r = of_nat (length ans)" "lr_data r = Some d" "length ans \<le> length d"
      "take (length ans) d = ans" by (auto simp: answers_def)
    have ne: "(of_nat (length ans) :: u64) \<noteq> 0" using n data(1) by (metis length_0_conv unat_0)
    have room: "length ans - 0 \<le> tx_room (sk_tx sk1)"
      using sk1(2) willing_room[of "sk_tx sk1"] by (simp add: willing_def)
    obtain sk2 j where sk2: "s_send_loop d (length ans) 0 sk1 = Inr (length ans, sk2)"
      "sk_out sk2 = sk_out sk1 @ take (length ans - 0) (drop 0 d)" "sk_rx sk2 = sk_rx sk1"
      "j \<le> length ans - 0" "sk_tx sk2 = drop j (sk_tx sk1)"
      using s_send_loop_whole[OF d(3) _ room] by auto
    have "willing n sk2" using sk1(2) sk2(4,5) by (auto simp: willing_def dest: in_set_dropD)
    moreover have "send_result r sk = Inr sk2"
      using d(1-3) n ne sk1(1) sk2(1) by (simp add: send_result_def s_send_def)
    ultimately show ?thesis
      using sk1(3,4) sk2(2,3) d(4) by (intro that[of sk2]) (simp_all add: framed_def)
  next
    case status
    have w2: "willing (Suc n) sk1" using sk1(2) by (simp add: willing_def)
    obtain sk2 where sk2: "send ans sk1 = Inr (int (length ans), sk2)" "willing n sk2"
      "sk_out sk2 = sk_out sk1 @ ans" "sk_rx sk2 = sk_rx sk1"
      by (rule send_short[OF w2 status(3)])
    have "send_result r sk = Inr sk2"
      using status(1,2) sk1(1) sk2(1) by (simp add: send_result_def status_result_def)
    with sk1(3,4) sk2(2-4) show ?thesis by (intro that[of sk2]) (simp_all add: framed_def)
  qed
qed

section \<open>One request\<close>

lemma length_overlay [simp]: "length new \<le> length old \<Longrightarrow> length (overlay new old) = length old"
  by (simp add: overlay_def)

lemma serve_packet:
  assumes s: "service_ok s a" and w: "wf_request r" and resp: "respond (mem_junk s) r a = Inr (ans, a')"
    and rx: "delivers (sk_rx sk) (packet r # ps)"
    and cl: "length cl_data = MAX_PACKET_SIZE + 1" and tx: "willing (n + length ans + 2) sk"
    and len: "length ans < 2 ^ 64"
  obtains cl' sk' u where "handle_packet cl_data sk s = Inr (Some cl', sk', u)" and "length cl' = MAX_PACKET_SIZE + 1"
    and "delivers (sk_rx sk') ps" and "sk_out sk' = sk_out sk @ framed ans" and "willing n sk'"
    and "refines u a'" and "server_ok u" and "mem_junk u = mem_junk s"
    and "g_program_on_finish u = g_program_on_finish s"
proof -
  let ?p = "packet r"
  define cl1 where "cl1 = overlay (?p @ [NUL]) cl_data"
  have size: "4 \<le> length ?p" "length ?p \<le> 600" using packet_size[OF w] by simp_all
  have big: "length ?p + 26 < MAX_PACKET_SIZE" using size(2) by (simp add: MAX_PACKET_SIZE_def)
  have cl1: "cl1 = buffer r (drop (Suc (length ?p)) cl_data)" "length cl1 = MAX_PACKET_SIZE + 1"
    using cl big by (simp_all add: cl1_def overlay_def)
  have old: "26 \<le> length (drop (Suc (length ?p)) cl_data)" using cl big by simp
  obtain res u where q: "query_process (Some cl1) (psize r) s = Inr (res, u)" "replies res ans" "refines u a'"
    "server_ok u" "mem_junk u = mem_junk s" "g_program_on_finish u = g_program_on_finish s"
    using process_request[OF s w old resp] unfolding performs_def cl1(1) by blast
  have n: "unat (psize r) = length ?p" using size(2) by (intro unat_of_nat64) simp
  obtain sk1 sk2 where r1: "recv 8 sk = Inr (8, le64 (psize r), sk1)" and r2: "s_recv (length ?p) sk1 = Inr (?p, sk2)"
    and after: "delivers (sk_rx sk2) ps" "sk_tx sk2 = sk_tx sk" "sk_out sk2 = sk_out sk"
    by (rule take_packet[OF rx])
  have w2: "willing (n + length ans + 2) sk2" using tx after(2) by (simp add: willing_def)
  obtain sk' where sk': "send_result res sk2 = Inr sk'" "willing n sk'" "sk_out sk' = sk_out sk2 @ framed ans"
    "sk_rx sk' = sk_rx sk2"
    by (rule send_reply[OF q(2) len w2])
  define cl' where "cl' = overlay (replicate (length ?p + 1) NUL) cl1"
  have exp: "un_le64 (overlay (le64 (psize r)) (le64 0)) = psize r" by (simp add: overlay_def)
  have ne: "?p \<noteq> []" using size(1) by auto
  have cl'_simp: "overlay (NUL # replicate (length ?p) NUL) cl1 = cl'" by (simp add: cl'_def)
  have "handle_packet cl_data sk s = Inr (Some cl', sk', u)"
    using r1 r2 n exp big size(1) cl q(1) sk'(1)
    by (simp add: handle_packet_def Let_def ne cl'_simp flip: cl1_def)
  moreover have "length cl' = MAX_PACKET_SIZE + 1"
    using cl1(2) big by (simp add: cl'_def)
  ultimately show ?thesis
    using sk'(2-4) q(3-6) after by (intro that[of cl' sk' u]) simp_all
qed

section \<open>A session\<close>

fun respond_all :: "(nat \<Rightarrow> byte) \<Rightarrow> request list \<Rightarrow> aserver \<Rightarrow> (bytes list \<times> aserver) res" where
  "respond_all junk [] a = Inr ([], a)"
| "respond_all junk (r # rs) a =
     andthen (respond junk r a) (\<lambda>(ans, a).
     andthen (respond_all junk rs a) (\<lambda>(anss, a). Inr (ans # anss, a)))"

definition sends :: "request \<Rightarrow> bytes \<Rightarrow> bool" where
  "sends r p \<longleftrightarrow> wf_request r \<and> generate r = Inr \<lparr>ld_data = p, ld_size = of_nat (length p)\<rparr>"

lemma sendsD:
  assumes "sends r p"
  shows "wf_request r" and "p = packet r"
  using assms generate_packet[of r] by (auto simp: sends_def)

lemma session_law:
  assumes "service_ok s a" and "\<not> g_program_on_finish s" and "list_all2 sends rs ps"
    and "respond_all (mem_junk s) rs a = Inr (anss, a')"
    and "\<forall>ans\<in>set anss. length ans < 2 ^ 64" and "unat (as_next a) + length rs < 2 ^ 64"
    and "delivers (sk_rx sk) ps" and "willing (sum_list (map (\<lambda>ans. length ans + 2) anss)) sk"
    and "length cl_data = MAX_PACKET_SIZE + 1" and "length rs < n"
  shows "\<exists>sk' u. handle_client_loop n cl_data sk s = Inr (sk', u) \<and> sk_out sk' = sk_out sk @ concat (map framed anss) \<and>
    service_ok u a' \<and> mem_junk u = mem_junk s \<and> g_program_on_finish u = g_program_on_finish s"
  using assms
proof (induction rs arbitrary: s a sk ps anss cl_data n)
  case Nil
  then obtain m where n: "n = Suc m" by (cases n) auto
  have a: "anss = []" "a' = a" using Nil.prems(4) by simp_all
  have "ps = []" using Nil.prems(3) by simp
  then have "incoming sk = []" "rx_after (sk_rx sk) \<noteq> []" using Nil.prems(7) by (simp_all add: delivers_def)
  from recv_none[OF this] obtain r sk1 where r: "recv 8 sk = Inr (r, [], sk1)" "r \<le> 0" by blast
  have out: "sk_out sk1 = sk_out sk" using r(1) by (auto simp: recv_def)
  have z: "un_le64 (overlay [] (le64 0)) = 0" by (simp add: overlay_def)
  have "handle_packet cl_data sk s = Inr (None, sk1, s)"
    using r z by (simp add: handle_packet_def s_recv_def s_recv_loop.simps Let_def)
  then show ?case using n a out Nil.prems(1,2) by simp
next
  case (Cons r rs)
  obtain m where n: "n = Suc m" using Cons.prems(10) by (cases n) auto
  obtain p ps' where ps: "ps = p # ps'" "sends r p" "list_all2 sends rs ps'"
    using Cons.prems(3) by (auto simp: list_all2_Cons1)
  obtain ans a1 anss' where resp: "respond (mem_junk s) r a = Inr (ans, a1)"
    "respond_all (mem_junk s) rs a1 = Inr (anss', a')" "anss = ans # anss'"
    using Cons.prems(4) by auto
  note pk = sendsD[OF ps(2)]
  have rx: "delivers (sk_rx sk) (packet r # ps')" using Cons.prems(7) ps(1) pk(2) by simp
  have len: "length ans < 2 ^ 64" using Cons.prems(5) resp(3) by simp
  let ?rest = "sum_list (map (\<lambda>ans. length ans + 2) anss')"
  have tx: "willing (?rest + length ans + 2) sk" using Cons.prems(8) resp(3) by (simp add: add_ac)
  obtain cl' sk1 u where step: "handle_packet cl_data sk s = Inr (Some cl', sk1, u)" "length cl' = MAX_PACKET_SIZE + 1"
    "delivers (sk_rx sk1) ps'" "sk_out sk1 = sk_out sk @ framed ans" "willing ?rest sk1"
    "refines u a1" "server_ok u" "mem_junk u = mem_junk s" "g_program_on_finish u = g_program_on_finish s"
    by (rule serve_packet[OF Cons.prems(1) pk(1) resp(1) rx Cons.prems(9) tx len])
  have "forum_inv a" using Cons.prems(1) by (simp add: service_ok_def)
  moreover have "Suc (unat (as_next a)) < 2 ^ 64" using Cons.prems(6) by simp
  ultimately have inv: "forum_inv a1" "unat (as_next a1) \<le> Suc (unat (as_next a))"
    using respond_inv resp(1) by blast+
  have ok: "service_ok u a1" using step(6,7) inv(1) by (simp add: service_ok_def)
  have next_id: "unat (as_next a1) + length rs < 2 ^ 64" using Cons.prems(6) inv(2) by simp
  obtain sk' w where IH: "handle_client_loop m cl' sk1 u = Inr (sk', w)"
    "sk_out sk' = sk_out sk1 @ concat (map framed anss')" "service_ok w a'"
    "mem_junk w = mem_junk u" "g_program_on_finish w = g_program_on_finish u"
    using Cons.IH[OF ok _ ps(3) _ _ next_id step(3) _ step(2), of anss' m] Cons.prems(2,5,10) resp(2,3) step(5,6,8,9) n
    by auto
  then show ?case
    using n Cons.prems(2) step(1,4,8,9) resp(3) by simp
qed

section \<open>Properties\<close>

text \<open>
  C1.  A client session: for any sequence of well-formed requests, \<open>handle_client\<close> returns after the client
  has closed or timed out, has sent exactly the answers that the abstract server gives, each behind its size,
  and the forum has become what the abstract server makes of it.  The network may split and join what the
  client sent in any way that leaves the eight bytes of each size together; \<open>send\<close> may take as little as
  eight bytes at a time.
\<close>

theorem session_served:
  assumes "service_ok s a" and "\<not> g_program_on_finish s" and "list_all2 sends rs ps"
    and "respond_all (mem_junk s) rs a = Inr (anss, a')"
    and "\<forall>ans\<in>set anss. length ans < 2 ^ 64" and "unat (as_next a) + length rs < 2 ^ 64"
    and "delivers (sk_rx sk) ps" and "willing (sum_list (map (\<lambda>ans. length ans + 2) anss)) sk"
    and "length rs < n"
  shows "\<exists>sk' u. handle_client n sk s = Inr (sk', u) \<and> sk_out sk' = sk_out sk @ concat (map framed anss) \<and>
    service_ok u a'"
  using session_law[OF assms(1-8) _ assms(9), of "map (mem_junk s) [0..<MAX_PACKET_SIZE + 1]"]
  unfolding handle_client_def by auto

lemma sample_abs: "as_threads (abs_server sample_server) = [sample_thread]" "as_next (abs_server sample_server) = 8"
  "as_dev (abs_server sample_server) = urandom sample_server"
  using sample_server_ok(2,4) by (simp_all add: abs_server_def)

lemma sample_service_ok: "service_ok sample_server (abs_server sample_server)"
  using sample_server_ok(1,2) As_ok refines_abs_server[of sample_server]
  by (simp add: service_ok_def forum_inv_def sample_abs token_ok_def)

lemma sample_not_finished: "\<not> g_program_on_finish sample_server"
  by (rule sample_server_ok(5))

lemma session_served_witness:
  "\<exists>sk' u a. handle_client 3 \<lparr>sk_rx = [Rx (le64 38), Rx (''CMSG'' @ ''THR''), Rx (''ID'' @ le64 7 @ ''TXTSZ'' @ le64 5 @ ''TXTre''),
        Rx (''ply'' @ le64 4 @ ''LI''), Rx ''VE'', Rx_closed], sk_tx = replicate 8 (Tx 99), sk_out = []\<rparr> sample_server = Inr (sk', u) \<and>
    sk_out sk' = framed ''OK'' @ framed ''OK'' \<and> map at_id (forum_of u) = [7] \<and>
    refines u a \<and> as_threads a = [posted sample_thread ''reply'' 0]"
proof -
  let ?rs = "[Post 7 ''reply'' None, Live]"
  let ?ps = "[''CMSG'' @ ''THRID'' @ le64 7 @ ''TXTSZ'' @ le64 5 @ ''TXTreply'', ''LIVE'']"
  let ?sk = "\<lparr>sk_rx = [Rx (le64 38), Rx (''CMSG'' @ ''THR''), Rx (''ID'' @ le64 7 @ ''TXTSZ'' @ le64 5 @ ''TXTre''),
    Rx (''ply'' @ le64 4 @ ''LI''), Rx ''VE'', Rx_closed], sk_tx = replicate 8 (Tx 99), sk_out = []\<rparr>"
  have sends: "list_all2 sends ?rs ?ps"
    by (simp add: sends_def generate_packet wire_text_def del: generate.simps) (simp add: token_part_def)
  have d: "delivers (sk_rx ?sk) ?ps" by (simp add: delivers_def framed_def)
  obtain a' where r: "respond_all (mem_junk sample_server) ?rs (abs_server sample_server) = Inr ([''OK'', ''OK''], a')"
    "as_threads a' = [posted sample_thread ''reply'' 0]"
    by (simp add: sample_abs thread_with_def earned_flag_def)
  have n: "unat (as_next (abs_server sample_server)) + length ?rs < 2 ^ 64" by (simp add: sample_abs)
  have w: "willing (sum_list (map (\<lambda>ans. length ans + 2) [''OK'', ''OK''])) ?sk" by (simp add: willing_def)
  obtain sk' u where u: "handle_client 3 ?sk sample_server = Inr (sk', u)"
    "sk_out sk' = sk_out ?sk @ concat (map framed [''OK'', ''OK''])" "service_ok u a'"
    using session_served[OF sample_service_ok sample_not_finished sends r(1) _ n d w, of 3] by auto
  have "map at_id (forum_of u) = [7]" "refines u a'" using serviceE(3,4)[OF u(3)] r(2) by (simp_all add: posted_def)
  then show ?thesis using u(1,2) r(2) by auto
qed

lemma rand_supply:
  assumes "n + k \<le> length (filter usable dev)"
  shows "\<exists>s dev'. rand_string n dev = Inr (s, dev') \<and> k \<le> length (filter usable dev')"
  using assms
proof (induction n arbitrary: dev)
  case (Suc n)
  obtain c dev' where "rand_symbol dev = Inr (c, dev')" "n + k \<le> length (filter usable dev')"
    using rand_symbol_returns[of "n + k" dev] Suc.prems by auto
  with Suc.IH[of dev'] show ?case by auto
qed auto

lemma rand_uint64_supply:
  assumes "8 + k \<le> length (filter usable dev)"
  shows "\<exists>r dev'. rand_uint64_t dev = Inr (r, dev') \<and> k \<le> length (filter usable dev')"
proof -
  have "filter usable dev = filter usable (take 8 dev) @ filter usable (drop 8 dev)"
    by (simp flip: filter_append)
  moreover have "length (filter usable (take 8 dev)) \<le> 8" using length_filter_le[of usable "take 8 dev"] by simp
  ultimately have "k \<le> length (filter usable (drop 8 dev))" using assms by simp
  moreover have "8 \<le> length dev" using assms by (meson add_leE le_trans length_filter_le)
  ultimately show ?thesis by (simp add: rand_uint64_t_def)
qed

lemma respond_returns:
  assumes "48 \<le> length (filter usable (as_dev a))"
  shows "\<exists>ans a'. respond junk r a = Inr (ans, a')"
proof (cases r)
  case (Create topic)
  obtain r0 d0 where r0: "rand_uint64_t (as_dev a) = Inr (r0, d0)" "40 \<le> length (filter usable d0)"
    using rand_uint64_supply[of 40 "as_dev a"] assms by auto
  obtain r1 d1 where r1: "rand_uint64_t d0 = Inr (r1, d1)" "32 \<le> length (filter usable d1)"
    using rand_uint64_supply[of 32 d0] r0(2) by auto
  obtain r2 d2 where r2: "rand_uint64_t d1 = Inr (r2, d2)" "24 \<le> length (filter usable d2)"
    using rand_uint64_supply[of 24 d1] r1(2) by auto
  obtain tk d3 where "rand_string 24 d2 = Inr (tk, d3)" using rand_supply[of 24 0 d2] r2(2) by auto
  with r0(1) r1(1) r2(1) Create show ?thesis by (simp add: Let_def)
qed (auto split: option.splits)

text \<open>
  C4.  No well-formed request makes the server fault or hang: \<open>query_process\<close> returns with an answer
  and the invariant holds again, as long as the random device delivers what a new thread needs.
\<close>

theorem every_request_answered:
  assumes "service_ok s a" and "wf_request r" and "48 \<le> length (filter usable (as_dev a))"
    and "Suc (unat (as_next a)) < 2 ^ 64" and "26 \<le> length old"
  shows "\<exists>res u ans a'. query_process (Some (buffer r old)) (psize r) s = Inr (res, u) \<and> replies res ans \<and>
    service_ok u a'"
proof -
  obtain ans a' where r: "respond (mem_junk s) r a = Inr (ans, a')"
    using respond_returns[OF assms(3)] by blast
  have "forum_inv a'"
    using respond_inv(1)[OF _ r] assms(1,4) by (simp add: service_ok_def)
  then show ?thesis
    using process_request[OF assms(1,2,5) r] unfolding performs_def service_ok_def by blast
qed

lemma every_request_answered_witness:
  "\<exists>res u ans a'. query_process (Some (packet (Create ''news'') @ replicate 30 NUL)) 24 sample_server = Inr (res, u) \<and>
    replies res ans \<and> service_ok u a'"
proof -
  obtain n where n: "urandom sample_server = replicate n (CHR ''A'')" "128 \<le> n" using sample_server_ok(3) by blast
  have d: "48 \<le> length (filter usable (as_dev (abs_server sample_server)))"
    unfolding sample_abs using n by (simp add: filter_replicate MIN_SYMBOL_def)
  have o: "NUL # replicate 29 NUL = replicate 30 NUL" by (simp add: eval_nat_numeral)
  show ?thesis
    using every_request_answered[OF sample_service_ok _ d, of "Create ''news''" "replicate 29 NUL"]
    by (simp add: sample_abs wire_topic_def flip: o)
qed

end
