(* ===== verification/Client_Laws.thy ===== *)
theory Client_Laws
  imports Client_Main Client_Storage Session
begin

text \<open>
  A query of the client on a connection that works: the packet goes out, and the command goes on with
  what the parser makes of the answer.  Pings while the user types change nothing but the socket.
\<close>

section \<open>Packets on a working connection\<close>

lemma send_all:
  assumes "willing (n + length data + 1) sk"
  obtains sk' where "s_send data (length data) sk = Inr (length data, sk')" and "willing n sk'"
    and "sk_out sk' = sk_out sk @ data" and "sk_rx sk' = sk_rx sk"
proof -
  have room: "length data - 0 \<le> tx_room (sk_tx sk)"
    using assms willing_room[of "sk_tx sk"] by (simp add: willing_def)
  obtain sk' j where "s_send_loop data (length data) 0 sk = Inr (length data, sk')"
    "sk_out sk' = sk_out sk @ take (length data - 0) (drop 0 data)" "sk_rx sk' = sk_rx sk"
    "j \<le> length data - 0" "sk_tx sk' = drop j (sk_tx sk)"
    using s_send_loop_whole[OF order_refl _ room] by auto
  with assms show ?thesis
    by (intro that[of sk']) (auto simp: s_send_def willing_def dest: in_set_dropD)
qed

lemma send_packet:
  assumes "willing (n + length data + 2) sk"
  obtains sk1 sk2 where "send (le64 (of_nat (length data))) sk = Inr (8, sk1)"
    and "s_send data (length data) sk1 = Inr (length data, sk2)" and "willing n sk2"
    and "sk_out sk2 = sk_out sk @ framed data" and "sk_rx sk2 = sk_rx sk"
proof -
  have w: "willing (Suc (n + length data + 1)) sk" using assms by simp
  obtain sk1 where sk1: "send (le64 (of_nat (length data))) sk = Inr (int (length (le64 (of_nat (length data)))), sk1)"
    "willing (n + length data + 1) sk1" "sk_out sk1 = sk_out sk @ le64 (of_nat (length data))" "sk_rx sk1 = sk_rx sk"
    by (rule send_short[OF w, of "le64 (of_nat (length data))"]) simp_all
  obtain sk2 where "s_send data (length data) sk1 = Inr (length data, sk2)" "willing n sk2"
    "sk_out sk2 = sk_out sk1 @ data" "sk_rx sk2 = sk_rx sk1"
    by (rule send_all[OF sk1(2)])
  with sk1 show ?thesis by (intro that[of sk1 sk2]) (simp_all add: framed_def)
qed

lemma receive_packet:
  assumes "sk_rx sk = arrives pieces @ es" and "concat pieces = ans" and "[] \<notin> set pieces"
  shows "recv 8 sk = Inr (8, le64 (of_nat (length ans)), sk\<lparr>sk_rx := map Rx pieces @ es\<rparr>)"
    and "s_recv (length ans) (sk\<lparr>sk_rx := map Rx pieces @ es\<rparr>) = Inr (ans, sk\<lparr>sk_rx := es\<rparr>)"
proof -
  show "recv 8 sk = Inr (8, le64 (of_nat (length ans)), sk\<lparr>sk_rx := map Rx pieces @ es\<rparr>)"
    using recv_piece[of sk "le64 (of_nat (length ans))" "map Rx pieces @ es" 8] assms le64_ne
    by (simp add: arrives_def)
  show "s_recv (length ans) (sk\<lparr>sk_rx := map Rx pieces @ es\<rparr>) = Inr (ans, sk\<lparr>sk_rx := es\<rparr>)"
    using s_recv_loop_pieces[of "sk\<lparr>sk_rx := map Rx pieces @ es\<rparr>" pieces es "[]"] assms
    by (simp add: s_recv_def)
qed

lemma overlay_all: "length new = length old \<Longrightarrow> overlay new old = new"
  by (simp add: overlay_def)

section \<open>Serving a query\<close>

lemma parse_response_pending:
  "parse_response parser raw sz old (s\<lparr>c_pending := pend\<rparr>) =
    andthen (parse_response parser raw sz old s) (\<lambda>(p, u). Inr (p, u\<lparr>c_pending := pend\<rparr>))"
proof -
  have [simp]: "s\<lparr>c_pending := pend, c_infos := x\<rparr> = s\<lparr>c_infos := x, c_pending := pend\<rparr>"
    "s\<lparr>c_pending := pend, c_heap := y\<rparr> = s\<lparr>c_heap := y, c_pending := pend\<rparr>"
    "s\<lparr>c_pending := pend, c_metas := z\<rparr> = s\<lparr>c_metas := z, c_pending := pend\<rparr>" for x y z by simp_all
  show ?thesis
    by (cases parser) (auto simp: parse_response_def andthen_assoc new_obj_def split: option.splits prod.splits
      intro!: andthen_cong)
qed

text \<open>Between two commands the queue of queries is empty.\<close>

definition pending_ok :: "ptr \<Rightarrow> mem_pending \<Rightarrow> bool" where
  "pending_ok q pend \<longleftrightarrow> queue_ok pend \<and> items pend q = Some [] \<and> store_ok (p_queries pend)"

text \<open>The client after an exchange: the connection, the size variable and the queue of queries.\<close>

abbreviation exchanged :: "socket \<Rightarrow> bytes \<Rightarrow> mem_pending \<Rightarrow> client \<Rightarrow> client" where
  "exchanged sk ans pend s \<equiv>
     s\<lparr>c_pending := pend, c_response_size := le64 (of_nat (length ans)), g_server_fd := sk\<rparr>"

lemma serve_query_law:
  assumes pop: "queue_pop (g_server_queries s) (c_pending s) = Inr (query, pend)"
    and q: "deref (p_queries pend) query = Inr q" and data: "sq_raw_request_data q = Some data"
    "sq_raw_request_data_size q = of_nat (length data)" "length data \<le> MAX_PACKET_SIZE"
    and rx: "sk_rx (g_server_fd s) = arrives pieces @ es" "concat pieces = ans" "[] \<notin> set pieces"
    and len: "length ans < 2 ^ 64 - 1" "length (c_response_size s) = 8"
    and tx: "willing (n + length data + 2) (g_server_fd s)"
  obtains sk where "serve_query s =
      andthen (parse_response (sq_parse_response q) (ans @ [NUL]) (length ans) (sq_parsed_data q) (exchanged sk ans pend s))
        (\<lambda>(parsed, u). andthen (assign query (q\<lparr>sq_parsed_data := parsed, sq_completed := True\<rparr>) (p_queries (c_pending u)))
        (\<lambda>queries. Inr (u\<lparr>c_pending := (c_pending u)\<lparr>p_queries := queries\<rparr>\<rparr>)))"
    and "sk_rx sk = es" and "sk_out sk = sk_out (g_server_fd s) @ framed data" and "willing n sk"
proof -
  obtain sk1 sk2 where sk1: "send (le64 (of_nat (length data))) (g_server_fd s) = Inr (8, sk1)"
    and sk2: "s_send data (length data) sk1 = Inr (length data, sk2)" "willing n sk2"
    "sk_out sk2 = sk_out (g_server_fd s) @ framed data" "sk_rx sk2 = sk_rx (g_server_fd s)"
    by (rule send_packet[OF tx])
  define sk3 where "sk3 = sk2\<lparr>sk_rx := map Rx pieces @ es\<rparr>"
  define sk where "sk = sk2\<lparr>sk_rx := es\<rparr>"
  have r: "recv 8 sk2 = Inr (8, le64 (of_nat (length ans)), sk3)" "s_recv (length ans) sk3 = Inr (ans, sk)"
    using receive_packet[of sk2 pieces es ans] rx sk2(4) by (simp_all add: sk3_def sk_def)
  have n: "unat (of_nat (length data) :: u64) = length data" "unat (of_nat (length ans) :: u64) = length ans"
    using data(3) len(1) by (simp_all add: MAX_PACKET_SIZE_def)
  have nz: "(of_nat (length ans) :: u64) + 1 \<noteq> 0"
    using len(1) n(2) by (simp add: no_plus_overflow_unat_size word_size unat_word_ariths flip: unat_eq_0)
  have "serve_query s =
      andthen (parse_response (sq_parse_response q) (ans @ [NUL]) (length ans) (sq_parsed_data q) (exchanged sk ans pend s))
        (\<lambda>(parsed, u). andthen (assign query (q\<lparr>sq_parsed_data := parsed, sq_completed := True\<rparr>) (p_queries (c_pending u)))
        (\<lambda>queries. Inr (u\<lparr>c_pending := (c_pending u)\<lparr>p_queries := queries\<rparr>\<rparr>)))"
    using data(3) n nz len(2)
    by (simp add: serve_query_def Let_def pop q data(1,2) sk1 sk2(1) recv_size_def r overlay_all not_le)
  moreover have "willing n sk" using sk2(2) by (simp add: sk_def willing_def)
  ultimately show ?thesis by (intro that[of sk]) (assumption | simp add: sk_def sk2(3))+
qed

lemma run_query_law:
  assumes ok: "pending_ok (g_server_queries s) (c_pending s)" "g_working s" "g_server_connected s"
    and qdata: "qdata = \<lparr>ld_data = data, ld_size = of_nat (length data)\<rparr>" "length data \<le> MAX_PACKET_SIZE"
    and rx: "sk_rx (g_server_fd s) = arrives pieces @ es" "concat pieces = ans" "[] \<notin> set pieces"
    and len: "length ans < 2 ^ 64 - 1" "length (c_response_size s) = 8"
    and tx: "willing (n + length data + 2) (g_server_fd s)"
  obtains sk pend where "run_query parser qdata s =
      parse_response parser (ans @ [NUL]) (length ans) Null (exchanged sk ans pend s)"
    and "pending_ok (g_server_queries s) pend"
    and "sk_rx sk = es" and "sk_out sk = sk_out (g_server_fd s) @ framed data" and "willing n sk"
proof -
  let ?gq = "g_server_queries s" and ?b = "brk (p_queries (c_pending s))"
  define q where "q = \<lparr>sq_completed = False, sq_raw_request_data = Some data,
    sq_raw_request_data_size = of_nat (length data), sq_parse_response = parser, sq_parsed_data = Null\<rparr>"
  define queries where "queries = snd (new_obj q (p_queries (c_pending s)))"
  let ?p1 = "(c_pending s)\<lparr>p_queries := queries\<rparr>"
  have b: "cells queries ?b = Some q" by (simp add: queries_def new_obj_def)
  have ok1: "queue_ok ?p1" and it1: "items ?p1 ?gq = Some []" using ok(1) by (simp_all add: pending_ok_def)
  obtain n2 q2 where push: "queue_push ?gq (Ptr ?b) ?p1 = Inr (ok_status, ?p1\<lparr>q_nodes := n2, q_queues := q2\<rparr>)"
    and ok2: "qok n2 q2" and it2: "qitems n2 q2 = (items ?p1)(?gq \<mapsto> [Ptr ?b])"
    by (rule queue_push_law[OF ok1 it1, of "Ptr ?b" ?b]) simp_all
  let ?p2 = "?p1\<lparr>q_nodes := n2, q_queues := q2\<rparr>"
  have it2': "items ?p2 ?gq = Some ([Ptr ?b])" and ok2': "queue_ok ?p2" using it2 ok2 by simp_all
  obtain a qu where gq: "?gq = Ptr a" "cells q2 a = Some qu" by (rule qitems_live[of n2 q2 ?gq "[Ptr ?b]"]) (use it2 in simp_all)
  have size: "q_size qu = 1" using q_first_Null_iff(2)[OF ok2', of a "[Ptr ?b]" qu] it2' gq by simp
  obtain n3 q3 where pop: "queue_pop ?gq ?p2 = Inr (Ptr ?b, ?p2\<lparr>q_nodes := n3, q_queues := q3\<rparr>)"
    and ok3: "qok n3 q3" and it3: "qitems n3 q3 = (items ?p2)(?gq \<mapsto> [])"
    by (rule queue_pop_law[OF ok2' it2'])
  let ?p3 = "?p2\<lparr>q_nodes := n3, q_queues := q3\<rparr>"
  let ?s = "s\<lparr>c_pending := ?p2\<rparr>"
  obtain sk where serve: "serve_query ?s =
      andthen (parse_response (sq_parse_response q) (ans @ [NUL]) (length ans) (sq_parsed_data q) (exchanged sk ans ?p3 ?s))
        (\<lambda>(parsed, u). andthen (assign (Ptr ?b) (q\<lparr>sq_parsed_data := parsed, sq_completed := True\<rparr>) (p_queries (c_pending u)))
        (\<lambda>queries. Inr (u\<lparr>c_pending := (c_pending u)\<lparr>p_queries := queries\<rparr>\<rparr>)))"
    and sk: "sk_rx sk = es" "sk_out sk = sk_out (g_server_fd ?s) @ framed data" "willing n sk"
    by (rule serve_query_law[of ?s "Ptr ?b" ?p3 q data pieces es ans n])
      (use pop b rx len tx qdata(2) in \<open>simp_all add: q_def\<close>)
  define gone where "gone = queries\<lparr>cells := (cells queries)(?b := None)\<rparr>"
  let ?pend = "?p3\<lparr>p_queries := gone\<rparr>"
  let ?base = "s\<lparr>c_response_size := le64 (of_nat (length ans)), g_server_fd := sk\<rparr>"
  have ex: "exchanged sk ans x s = ?base\<lparr>c_pending := x\<rparr>" "exchanged sk ans x ?s = ?base\<lparr>c_pending := x\<rparr>" for x
    by simp_all
  have pass: "query_loop_pass ?s = serve_query ?s"
    using ok(2,3) gq size by (simp add: query_loop_pass_def)
  have start: "run_query parser qdata s =
      andthen (spin (Suc 0) (Ptr ?b) ?s) (\<lambda>s.
      andthen (deref (p_queries (c_pending s)) (Ptr ?b)) (\<lambda>q.
      andthen (query_delete (Ptr ?b) (p_queries (c_pending s))) (\<lambda>(st, queries).
      Inr (sq_parsed_data q, s\<lparr>c_pending := (c_pending s)\<lparr>p_queries := queries\<rparr>\<rparr>))))"
    using push gq size qdata(1)
    by (simp add: run_query_def query_create_def new_obj_def Let_def q_def queries_def)
  have spin: "spin (Suc 0) (Ptr ?b) ?s = andthen (serve_query ?s) (spin 0 (Ptr ?b))"
    using b by (subst spin.simps) (simp add: q_def pass)
  have "run_query parser qdata s =
      parse_response parser (ans @ [NUL]) (length ans) Null (?base\<lparr>c_pending := ?pend\<rparr>)"
  proof (cases "parse_response parser (ans @ [NUL]) (length ans) Null ?base")
    case (Inl f)
    then show ?thesis
      by (simp add: start spin serve ex parse_response_pending q_def)
  next
    case (Inr r)
    obtain p u where r: "r = (p, u)" by (cases r)
    let ?q = "q\<lparr>sq_parsed_data := p, sq_completed := True\<rparr>"
    let ?t = "u\<lparr>c_pending := ?p3\<lparr>p_queries := queries\<lparr>cells := (cells queries)(?b \<mapsto> ?q)\<rparr>\<rparr>\<rparr>"
    have "serve_query ?s = Inr ?t"
      using Inr b by (simp add: serve ex parse_response_pending r q_def)
    moreover have "spin 0 (Ptr ?b) ?t = Inr ?t" by (subst spin.simps) simp
    ultimately show ?thesis
      using Inr by (simp add: start spin parse_response_pending r query_delete_def gone_def q_def)
  qed
  moreover have "pending_ok ?gq ?pend"
    using ok3 it3 ok(1) by (simp add: pending_ok_def gone_def queries_def new_obj_def store_ok_def)
  ultimately show ?thesis using sk by (intro that[of sk ?pend]) (simp_all only: ex simp_thms, simp)
qed

section \<open>Pings\<close>

definition pings :: "nat \<Rightarrow> rx_event list" where
  "pings k = concat (replicate k (arrives [''OK'']))"

definition ready :: "client \<Rightarrow> bool" where
  "ready s \<longleftrightarrow> pending_ok (g_server_queries s) (c_pending s) \<and> g_working s \<and> g_server_connected s \<and>
     length (c_response_size s) = 8"

lemma keep_alive_law:
  assumes rx: "sk_rx (g_server_fd s) = arrives [''OK''] @ es" and tx: "willing (n + 2) (g_server_fd s)"
    and len: "length (c_response_size s) = 8"
  obtains sk where "keep_alive s = Inr (s\<lparr>c_response_size := le64 2, g_server_fd := sk\<rparr>)"
    and "sk_rx sk = es" and "sk_out sk = sk_out (g_server_fd s) @ framed ''LIVE''" and "willing n sk"
proof -
  have w1: "willing (Suc (Suc n)) (g_server_fd s)" using tx by simp
  obtain sk1 where sk1: "send (le64 4) (g_server_fd s) = Inr (8, sk1)" "willing (Suc n) sk1"
    "sk_out sk1 = sk_out (g_server_fd s) @ le64 4" "sk_rx sk1 = sk_rx (g_server_fd s)"
    by (rule send_short[OF w1, of "le64 4"]) auto
  obtain sk2 where sk2: "send ''LIVE'' sk1 = Inr (4, sk2)" "willing n sk2" "sk_out sk2 = sk_out sk1 @ ''LIVE''"
    "sk_rx sk2 = sk_rx sk1"
    by (rule send_short[OF sk1(2), of "''LIVE''"]) auto
  define sk3 where "sk3 = sk2\<lparr>sk_rx := Rx ''OK'' # es\<rparr>"
  define sk where "sk = sk2\<lparr>sk_rx := es\<rparr>"
  have r1: "recv 8 sk2 = Inr (8, le64 2, sk3)"
    using receive_packet(1)[of sk2 "[''OK'']" es "''OK''"] rx sk1(4) sk2(4) by (simp add: sk3_def)
  have r2: "recv 2 sk3 = Inr (2, ''OK'', sk)"
    using recv_piece[of sk3 "''OK''" es 2] by (simp add: sk3_def sk_def)
  have "at_lit (''OK'' @ [NUL]) ''OK'' = Inr True" by (rule at_lit_append) simp
  then have "keep_alive s = Inr (s\<lparr>c_response_size := le64 2, g_server_fd := sk\<rparr>)"
    using len by (simp add: keep_alive_def Let_def sk1(1) sk2(1) recv_size_def r1 r2 overlay_all MAX_PACKET_SIZE_def)
  moreover have "willing n sk" using sk2(2) by (simp add: sk_def willing_def)
  ultimately show ?thesis
    by (intro that[of sk]) (assumption | simp add: sk_def sk2(3) sk1(3) framed_def)+
qed

lemma ping_law:
  assumes "ready s" and "sk_rx (g_server_fd s) = arrives [''OK''] @ es" and "willing (n + 2) (g_server_fd s)"
  obtains sk where "query_loop_pass s = Inr (s\<lparr>c_response_size := le64 2, g_server_fd := sk\<rparr>)"
    and "sk_rx sk = es" and "sk_out sk = sk_out (g_server_fd s) @ framed ''LIVE''" and "willing n sk"
proof -
  have r: "queue_ok (c_pending s)" "items (c_pending s) (g_server_queries s) = Some []" "g_working s"
    "g_server_connected s" "length (c_response_size s) = 8"
    using assms(1) by (simp_all add: ready_def pending_ok_def)
  obtain a qu where q: "g_server_queries s = Ptr a" "cells (q_queues (c_pending s)) a = Some qu"
    using r(2) by (rule qitems_live)
  have "q_size qu = 0" using q_first_Null_iff(2)[OF r(1), of a "[]" qu] r(2) q by simp
  then have pass: "query_loop_pass s = keep_alive s" using r(3,4) q by (simp add: query_loop_pass_def)
  show ?thesis by (rule keep_alive_law[OF assms(2,3) r(5)]) (rule that, simp_all add: pass)
qed

lemma pings_law:
  assumes "ready s" and "sk_rx (g_server_fd s) = pings k @ es" and "willing (n + 2 * k) (g_server_fd s)"
  shows "\<exists>sk sz. fold_res event_step (replicate k Query_pass) s = Inr (s\<lparr>c_response_size := sz, g_server_fd := sk\<rparr>) \<and>
    length sz = 8 \<and> sk_rx sk = es \<and> sk_out sk = sk_out (g_server_fd s) @ concat (replicate k (framed ''LIVE'')) \<and>
    willing n sk"
  using assms
proof (induction k arbitrary: s)
  case 0
  then show ?case
    by (intro exI[of _ "g_server_fd s"] exI[of _ "c_response_size s"]) (simp add: pings_def ready_def)
next
  case (Suc k)
  have rx: "sk_rx (g_server_fd s) = arrives [''OK''] @ pings k @ es" using Suc.prems(2) by (simp add: pings_def)
  have w: "willing ((n + 2 * k) + 2) (g_server_fd s)" using Suc.prems(3) by simp
  obtain sk where sk: "query_loop_pass s = Inr (s\<lparr>c_response_size := le64 2, g_server_fd := sk\<rparr>)"
    "sk_rx sk = pings k @ es" "sk_out sk = sk_out (g_server_fd s) @ framed ''LIVE''" "willing (n + 2 * k) sk"
    by (rule ping_law[OF Suc.prems(1) rx w])
  let ?s = "s\<lparr>c_response_size := le64 2, g_server_fd := sk\<rparr>"
  have "ready ?s" using Suc.prems(1) by (simp add: ready_def)
  from Suc.IH[OF this] sk show ?case by (auto simp: event_step_def)
qed

text \<open>The client at a prompt: \<open>k\<close> pings go by before the line is there.\<close>

definition after_pings :: "nat \<Rightarrow> client \<Rightarrow> client \<Rightarrow> bool" where
  "after_pings k s t \<longleftrightarrow> (\<exists>sk sz. t = s\<lparr>c_events := tl (c_events s), c_response_size := sz, g_server_fd := sk\<rparr> \<and>
     length sz = 8 \<and> sk_out sk = sk_out (g_server_fd s) @ concat (replicate k (framed ''LIVE'')))"

lemma meanwhile_law:
  assumes "ready s" and "c_events s = replicate k Query_pass # ess"
    and "sk_rx (g_server_fd s) = pings k @ es" and "willing (n + 2 * k) (g_server_fd s)"
  obtains t where "meanwhile s = Inr t" and "after_pings k s t" and "sk_rx (g_server_fd t) = es"
    and "willing n (g_server_fd t)" and "ready t"
proof -
  let ?s = "s\<lparr>c_events := ess\<rparr>"
  have "ready ?s" using assms(1) by (simp add: ready_def)
  then obtain sk sz where sk: "fold_res event_step (replicate k Query_pass) ?s =
      Inr (?s\<lparr>c_response_size := sz, g_server_fd := sk\<rparr>)" "length sz = 8" "sk_rx sk = es"
    "sk_out sk = sk_out (g_server_fd s) @ concat (replicate k (framed ''LIVE''))" "willing n sk"
    using pings_law[of ?s k es n] assms(3,4) by auto
  show ?thesis
  proof (rule that)
    show "meanwhile s = Inr (?s\<lparr>c_response_size := sz, g_server_fd := sk\<rparr>)"
      using assms(2) sk(1) by (simp add: meanwhile_def)
    show "after_pings k s (?s\<lparr>c_response_size := sz, g_server_fd := sk\<rparr>)"
      unfolding after_pings_def using assms(2) sk(2,4) by auto
    show "ready (?s\<lparr>c_response_size := sz, g_server_fd := sk\<rparr>)" using assms(1) sk(2) by (simp add: ready_def)
  qed (use sk in simp_all)
qed

section \<open>Lines the user types\<close>

definition typed :: "bytes \<Rightarrow> bool" where
  "typed str \<longleftrightarrow> newline \<notin> set str \<and> NUL \<notin> set str"

lemma read_line_take:
  assumes "newline \<notin> set str"
  shows "read_line k (str @ newline # rest) =
    (if length str < k then (str @ [newline], rest) else (take k str, drop k str @ newline # rest))"
  using assms
proof (induction str arbitrary: k)
  case Nil
  then show ?case by (cases k) auto
next
  case (Cons c str)
  then show ?case by (cases k) auto
qed

lemma takeWhile_typed: "typed str \<Longrightarrow> takeWhile (\<lambda>c. c \<noteq> NUL \<and> c \<noteq> newline) (str @ r) = str @ takeWhile (\<lambda>c. c \<noteq> NUL \<and> c \<noteq> newline) r"
  by (induction str) (auto simp: typed_def)

lemma typed_take: "typed str \<Longrightarrow> typed (take k str)"
  by (auto simp: typed_def dest: in_set_takeD)

text \<open>What is typed beyond the limit stays in the input, and so does the end of a line of just that size.\<close>

lemma s_fgets_typed:
  assumes "typed str" and "1 < n" and "n < 2147483648"
  shows "s_fgets n (str @ newline # rest) = (of_nat (min (n - 1) (length str)), Some (take (n - 1) str),
    if length str < n - 1 then rest else drop (n - 1) str @ newline # rest)"
proof -
  have words: "takeWhile (\<lambda>c. c \<noteq> NUL \<and> c \<noteq> newline) (take k str) = take k str"
    "takeWhile (\<lambda>c. c \<noteq> NUL \<and> c \<noteq> newline) (str @ [newline]) = str" for k
    using takeWhile_typed[OF typed_take[OF assms(1)], of k "[]"] takeWhile_typed[OF assms(1), of "[newline]"]
    by simp_all
  have "read_line (nat (int n) - 1) (str @ newline # rest) =
      (if length str < n - 1 then (str @ [newline], rest) else (take (n - 1) str, drop (n - 1) str @ newline # rest))"
    using assms(1) by (simp add: read_line_take typed_def)
  then show ?thesis
    using assms(2,3) by (simp add: s_fgets_def sint_of_nat32 fgets_def Let_def words min_def)
qed

lemma s_fgets_range_typed:
  assumes "typed str" and "0 < mn" and "mn \<le> length str" and "mn \<le> mx" and "mx < 2147483647"
  shows "s_fgets_range mn mx (str @ newline # rest) = Inr (of_nat (min mx (length str)), take mx str,
    if length str < mx then rest else drop mx str @ newline # rest)"
proof -
  have line: "s_fgets (mx + 1) (str @ newline # rest) = (of_nat (min mx (length str)), Some (take mx str),
      if length str < mx then rest else drop mx str @ newline # rest)"
    using s_fgets_typed[OF assms(1), of "mx + 1" rest] assms(2,4,5) by simp
  have "length (if length str < mx then rest else drop mx str @ newline # rest) < length (str @ newline # rest)"
    using assms(2-4) by auto
  moreover have "mn \<le> length (take mx str)" using assms(3,4) by simp
  moreover from this have "s_fgets_range_loop (take mx str) mn mx inp = Inr (of_nat (length (take mx str)), take mx str, inp)"
    for inp by (subst s_fgets_range_loop.simps) (simp add: min_def)
  ultimately show ?thesis
    unfolding s_fgets_range_def using assms(2)
    by (subst s_fgets_range_loop.simps) (simp add: line[simplified] min.commute)
qed

definition left_over :: "nat \<Rightarrow> bytes \<Rightarrow> bytes \<Rightarrow> bytes" where
  "left_over mx str rest = (if length str < mx then rest else drop mx str @ newline # rest)"

lemma ask_range_law:
  assumes "meanwhile s = Inr t" and "c_stdin t = str @ newline # rest" and "typed str"
    and "0 < unat mn" and "unat mn \<le> length str" and "unat mn \<le> unat mx" and "unat mx < 2147483647"
  shows "ask_range mn mx s =
    Inr (of_nat (min (unat mx) (length str)), take (unat mx) str, t\<lparr>c_stdin := left_over (unat mx) str rest\<rparr>)"
  using assms s_fgets_range_typed[OF assms(3-7)]
  by (simp add: ask_range_def read_range_def left_over_def)

lemma ask_law:
  assumes "meanwhile s = Inr t" and "c_stdin t = str @ newline # rest" and "typed str"
    and "1 < n" and "n < 2147483648"
  shows "ask n s = Inr (take (n - 1) str, t\<lparr>c_stdin := left_over (n - 1) str rest\<rparr>)"
  using assms s_fgets_typed[OF assms(3-5), of rest]
  by (simp add: ask_def read_field_def read_stdin_def left_over_def)

lemma not_too_short: "n < 2 ^ 63 \<Longrightarrow> \<not> too_short (of_nat n)"
proof
  assume n: "n < 2 ^ 63" and "too_short (of_nat n)"
  then have "unat (of_nat n :: u64) = unat (of_int (err LESTATUS_IDAT) :: u64)" by (simp add: too_short_def)
  moreover have "unat (of_nat n :: u64) = n" using n by (intro unat_of_nat64) simp
  moreover have "2 ^ 63 \<le> unat (of_int (err LESTATUS_IDAT) :: u64)" by simp
  ultimately show False using n by simp
qed

declare packet.simps [simp del]

end
