(* ===== verification/Found_Threads.thy ===== *)
theory Found_Threads
  imports Client_Query
begin

text \<open>
  The queue of threads that \<open>parse_response_FTHR\<close> fills: adding a thread to it, and deleting it with
  all its threads.  Deleting a thread deletes another queue, that of the thread's messages, in the
  middle of the loop of \<open>queue_delete\<close>.
  \<open>destroying_loop\<close> is the rule for such loops, whatever the elements are.
\<close>

definition heap_ok :: "'m mem_forum_scheme \<Rightarrow> bool" where
  "heap_ok s \<longleftrightarrow> forum_ok s \<and> kinds_ok (f_threads s) (q_queues s)"

text \<open>The queue \<open>q\<close> holds the threads \<open>ds\<close>; no thread has it for its messages.\<close>

definition gathered :: "'m mem_forum_scheme \<Rightarrow> ptr \<Rightarrow> ptr list \<Rightarrow> bool" where
  "gathered s q ds \<longleftrightarrow> heap_ok s \<and> items s q = Some ds \<and> qkind (q_queues s) q = Some Lethread_delete \<and>
     distinct ds \<and> (\<forall>d\<in>set ds. thread_at s d \<noteq> None)"

lemma not_for_messages:
  "heap_ok s \<Longrightarrow> qkind (q_queues s) q \<noteq> Some Lemessage_delete \<Longrightarrow> cells (f_threads s) a = Some t \<Longrightarrow> lt_messages t \<noteq> q"
  by (auto simp: heap_ok_def kinds_ok_def)

section \<open>Threads\<close>

lemma create_thread:
  assumes ok: "heap_ok s" and src: "cstr src = Inr topic" and rnd: "rand_uint64_t (urandom s) = Inr (r, dev)"
  obtains p t w where "lethread_create (Some src) i s = Inr (ok_status, p, t)" and "heap_ok t"
    and "thread_at s p = None" and "thread_at t = (thread_at s)(p \<mapsto> w)" and "at_id w = i" and "at_topic w = topic"
    and "at_messages w = []" and "at_first w = r mod 0xffffffff" and "at_next w = r mod 0xffffffff"
    and "at_author w = None" and "urandom t = dev"
    and "\<And>q ds. items s q = Some ds \<Longrightarrow> items t q = Some ds \<and> qkind (q_queues t) q = qkind (q_queues s) q"
    and "\<exists>a. p = Ptr a"
proof -
  have f: "forum_ok s" and k: "kinds_ok (f_threads s) (q_queues s)" using ok by (simp_all add: heap_ok_def)
  let ?v = "\<lparr>at_id = i, at_first = r mod 0xffffffff, at_next = r mod 0xffffffff, at_topic = topic,
    at_messages = [], at_author = None\<rparr>"
  show ?thesis
  proof (rule lethread_create_law[OF f src rnd, where i = i])
    fix a q qs threads
    assume c: "lethread_create (Some src) i s =
        Inr (ok_status, Ptr a, s\<lparr>urandom := dev, q_queues := qs, f_threads := threads\<rparr>)"
      "qok (q_nodes s) qs" "items s q = None" "qitems (q_nodes s) qs = (items s)(q \<mapsto> [])"
      "fok (qitems (q_nodes s) qs) threads (f_messages s) (f_authors s)" "thread_at s (Ptr a) = None"
      "view (qitems (q_nodes s) qs) threads (f_messages s) (f_authors s) = (thread_at s)(Ptr a \<mapsto> ?v)"
      "\<exists>t. threads = (f_threads s)\<lparr>cells := (cells (f_threads s))(a \<mapsto> t), brk := Suc a\<rparr> \<and> lt_messages t = q"
      "qkind qs = (qkind (q_queues s))(q \<mapsto> Lemessage_delete)"
    obtain x where x: "threads = (f_threads s)\<lparr>cells := (cells (f_threads s))(a \<mapsto> x), brk := Suc a\<rparr>" "lt_messages x = q"
      using c(8) by blast
    let ?t = "s\<lparr>urandom := dev, q_queues := qs, f_threads := threads\<rparr>"
    have "forum_ok ?t" using c(2,5) f by simp
    moreover have "kinds_ok threads qs"
      using k x by (auto simp: kinds_ok_def c(9))
    ultimately have ok': "heap_ok ?t" by (simp add: heap_ok_def)
    have q: "p \<noteq> q" if "items s p = Some ds" for p ds using that c(3) by auto
    show thesis
      by (rule that[of "Ptr a" ?t ?v])
        (use c ok' q x in \<open>auto split: if_splits\<close>)
  qed
qed

lemma gather_one:
  assumes g: "gathered s q ds" and src: "cstr src = Inr topic" and rnd: "rand_uint64_t (urandom s) = Inr (r, dev)"
  obtains p t u w where "lethread_create (Some src) i s = Inr (ok_status, p, t)"
    and "queue_push q p t = Inr (ok_status, u)" and "gathered u q (ds @ [p])"
    and "thread_at s p = None" and "thread_at u = (thread_at s)(p \<mapsto> w)" and "at_id w = i" and "at_topic w = topic"
    and "urandom u = dev"
proof -
  have ok: "heap_ok s" and it: "items s q = Some ds" and kind: "qkind (q_queues s) q = Some Lethread_delete"
    and d: "distinct ds" "\<forall>d\<in>set ds. thread_at s d \<noteq> None"
    using g by (simp_all add: gathered_def)
  show ?thesis
  proof (rule create_thread[OF ok src rnd, where i = i])
    fix p t w
    assume c: "lethread_create (Some src) i s = Inr (ok_status, p, t)" "heap_ok t" "thread_at s p = None"
      "thread_at t = (thread_at s)(p \<mapsto> w)" "at_id w = i" "at_topic w = topic" "urandom t = dev" "\<exists>a. p = Ptr a"
      and frame: "\<And>q ds. items s q = Some ds \<Longrightarrow> items t q = Some ds \<and> qkind (q_queues t) q = qkind (q_queues s) q"
    have it': "items t q = Some ds" and kind': "qkind (q_queues t) q = Some Lethread_delete"
      using frame[OF it] kind by simp_all
    have q': "lt_messages x \<noteq> q" if "cells (f_threads t) b = Some x" for b x
      by (rule not_for_messages[OF c(2) _ that]) (simp add: kind')
    have f: "forum_ok t" and k: "kinds_ok (f_threads t) (q_queues t)" using c(2) by (simp_all add: heap_ok_def)
    obtain x where p: "p = Ptr x" using c(8) by blast
    obtain h qs where push: "queue_push q p t = Inr (ok_status, t\<lparr>q_nodes := h, q_queues := qs\<rparr>)"
      and qok: "qok h qs" and items: "qitems h qs = (items t)(q \<mapsto> ds @ [p])"
      by (rule queue_push_law[OF _ it' p]) (use f in auto)
    have same: "qitems h qs (lt_messages x) = items t (lt_messages x)" if "cells (f_threads t) b = Some x" for b x
      using q'[OF that] by (simp add: items)
    have fok: "fok (items t) (f_threads t) (f_messages t) (f_authors t)" using f by simp
    have f': "fok (qitems h qs) (f_threads t) (f_messages t) (f_authors t)"
      and v: "view (qitems h qs) (f_threads t) (f_messages t) (f_authors t) = thread_at t"
      by (rule fok_items_frame[OF fok], use same in blast)+
    have kq: "qkind qs = qkind (q_queues t)" using qkind_push[OF push] by simp
    let ?u = "t\<lparr>q_nodes := h, q_queues := qs\<rparr>"
    have "heap_ok ?u" using f f' qok k by (simp add: heap_ok_def kinds_ok_def kq)
    moreover have "distinct (ds @ [p])" "\<forall>d\<in>set (ds @ [p]). thread_at ?u d \<noteq> None"
      using d c(3) by (auto simp: v c(4))
    ultimately have "gathered ?u q (ds @ [p])"
      using kind' by (simp add: gathered_def items kq)
    then show thesis using c push v by (intro that[of p t ?u w]) simp_all
  qed
qed

text \<open>A queue that no thread uses does not matter to the threads.\<close>

lemma gathered_frame:
  assumes ok: "heap_ok s" and q: "\<forall>a t. cells (f_threads s) a = Some t \<longrightarrow> lt_messages t \<noteq> q" and "qok h qs" and "qitems h qs = (items s)(q := x)"
    and "\<And>p. p \<noteq> q \<Longrightarrow> qkind qs p = qkind (q_queues s) p"
  shows "heap_ok (s\<lparr>q_nodes := h, q_queues := qs\<rparr>)" and "thread_at (s\<lparr>q_nodes := h, q_queues := qs\<rparr>) = thread_at s"
proof -
  have same: "qitems h qs (lt_messages t) = items s (lt_messages t)" if "cells (f_threads s) b = Some t" for b t
    using q that by (simp add: assms(4))
  have fok: "fok (items s) (f_threads s) (f_messages s) (f_authors s)" using ok by (simp add: heap_ok_def)
  have f: "fok (qitems h qs) (f_threads s) (f_messages s) (f_authors s)"
    and v: "view (qitems h qs) (f_threads s) (f_messages s) (f_authors s) = thread_at s"
    by (rule fok_items_frame[OF fok], use same in blast)+
  show "heap_ok (s\<lparr>q_nodes := h, q_queues := qs\<rparr>)"
    using ok f assms(3,5) q by (auto simp: heap_ok_def kinds_ok_def)
  show "thread_at (s\<lparr>q_nodes := h, q_queues := qs\<rparr>) = thread_at s" using v by simp
qed

section \<open>Deleting the queue\<close>

definition put_queue :: "addr \<Rightarrow> queue \<Rightarrow> 'm mem_queue_scheme \<Rightarrow> 'm mem_queue_scheme" where
  "put_queue q x s = s\<lparr>q_queues := (q_queues s)\<lparr>cells := (cells (q_queues s))(q \<mapsto> x)\<rparr>\<rparr>"

lemma put_queue_simps [simp]:
  "q_nodes (put_queue q x s) = q_nodes s"
  "cells (q_queues (put_queue q x s)) = (cells (q_queues s))(q \<mapsto> x)"
  "put_queue q x (put_queue q y s) = put_queue q x s"
  by (simp_all add: put_queue_def)

text \<open>Deleting a queue of messages does not look at the queue \<open>q\<close>.\<close>

lemma lemessage_delete_put:
  "destruct (Suc n) Lemessage_delete p (put_queue q x s) =
    andthen (destruct (Suc n) Lemessage_delete p s) (\<lambda>t. Inr (put_queue q x t))"
  by (cases p) (simp_all add: lemessage_delete_def put_queue_def split: option.split)

lemma lemessage_delete_same:
  "destruct (Suc n) Lemessage_delete p s = Inr t \<Longrightarrow> q_nodes t = q_nodes s \<and> q_queues t = q_queues s"
  by (cases p) (auto simp: lemessage_delete_def split: option.splits)

lemma loop_put:
  fixes s :: "'m mem_forum_scheme"
  assumes "m \<noteq> q" and "cells (q_queues s) m = Some qu" and "q_destruct qu = Lemessage_delete"
  shows "queue_delete_loop fuel (destruct (Suc n)) (Ptr m) node (put_queue q x s) =
    andthen (queue_delete_loop fuel (destruct (Suc n)) (Ptr m) node s) (\<lambda>t. Inr (put_queue q x t))"
  using assms(2,3)
proof (induction fuel arbitrary: node s qu)
  case 0
  then show ?case by (cases node) simp_all
next
  case (Suc fuel)
  have tw: "(f :: addr \<Rightarrow> queue option)(q := v, m := w) = f(m := w, q := v)"
    and look: "(f(q := v)) m = f m" for f v w
    using assms(1) by (simp_all add: fun_upd_twist)
  have go: "queue_delete_loop fuel (destruct (Suc n)) (Ptr m) nx (t\<lparr>q_nodes := h,
        q_queues := qs\<lparr>cells := (cells qs)(m \<mapsto> qu\<lparr>q_size := k\<rparr>, q \<mapsto> x)\<rparr>\<rparr>) =
      andthen (queue_delete_loop fuel (destruct (Suc n)) (Ptr m) nx (t\<lparr>q_nodes := h,
        q_queues := qs\<lparr>cells := (cells qs)(m \<mapsto> qu\<lparr>q_size := k\<rparr>)\<rparr>\<rparr>)) (\<lambda>t. Inr (put_queue q x t))"
    for nx h k qs and t :: "'m mem_forum_scheme"
    using Suc.IH[of "t\<lparr>q_nodes := h, q_queues := qs\<lparr>cells := (cells qs)(m \<mapsto> qu\<lparr>q_size := k\<rparr>)\<rparr>\<rparr>"
        "qu\<lparr>q_size := k\<rparr>" nx] Suc.prems(2) by (simp add: put_queue_def)
  show ?case
  proof (cases node)
    case (Ptr a)
    show ?thesis
    proof (cases "cells (q_nodes s) a")
      case None
      with Ptr show ?thesis by simp
    next
      case (Some nd)
      show ?thesis
      proof (cases "qn_data nd = Null")
        case True
        with Ptr Some Suc.prems assms(1) show ?thesis
          by (simp add: Let_def put_queue_def[of q x s] tw look go del: fun_upd_apply)
      next
        case False
        show ?thesis
        proof (cases "destruct (Suc n) Lemessage_delete (qn_data nd) s")
          case (Inl f)
          with False Ptr Some Suc.prems assms(1) show ?thesis
            by (simp add: Let_def lemessage_delete_put del: destruct.simps)
        next
          case (Inr t)
          note same = lemessage_delete_same[OF Inr]
          with Inr False Ptr Some Suc.prems assms(1) show ?thesis
            by (simp add: Let_def lemessage_delete_put put_queue_def[of q x t] tw look go fun_upd_same del: destruct.simps fun_upd_apply)
        qed
      qed
    qed
  qed simp_all
qed

lemma queue_delete_put:
  fixes s :: "'m mem_forum_scheme"
  assumes "m \<noteq> q" and "cells (q_queues s) m = Some qu" and "q_destruct qu = Lemessage_delete"
  shows "queue_delete (destruct (Suc n)) (Ptr m) (put_queue q x s) =
    andthen (queue_delete (destruct (Suc n)) (Ptr m) s) (\<lambda>(st, t). Inr (st, put_queue q x t))"
proof -
  have first: "queue_delete (destruct (Suc n)) (Ptr m) u =
      andthen (queue_delete_loop (Suc (brk (q_nodes u))) (destruct (Suc n)) (Ptr m) (q_first qu) u) (\<lambda>s.
      andthen (free_obj (Ptr m) (q_queues s)) (\<lambda>qs. Inr (ok_status, s\<lparr>q_queues := qs\<rparr>)))"
    if "cells (q_queues u) m = Some qu" for u :: "'m mem_forum_scheme"
    using that by (simp add: queue_delete_def)
  have free: "andthen (free_obj (Ptr m) (q_queues (put_queue q x t))) (\<lambda>qs. Inr (0, (put_queue q x t)\<lparr>q_queues := qs\<rparr>)) =
      andthen (free_obj (Ptr m) (q_queues t)) (\<lambda>qs. Inr (0, put_queue q x (t\<lparr>q_queues := qs\<rparr>)))"
    for t :: "'m mem_forum_scheme"
    using assms(1) by (simp add: put_queue_def fun_upd_twist split: option.split)
  have there: "cells (q_queues (put_queue q x s)) m = Some qu" using assms(1,2) by simp
  show ?thesis
    by (simp add: first[OF there] first[OF assms(2)] loop_put[OF assms] andthen_assoc free
      del: queue_delete_loop.simps destruct.simps free_obj.simps)
qed

text \<open>So does deleting a thread, if the queue is not that of its messages.\<close>

lemma lethread_delete_put:
  fixes s :: "'m mem_forum_scheme"
  assumes "cells (f_threads s) c = Some u" and "lt_messages u = Ptr m" and "m \<noteq> q"
    and "cells (q_queues s) m = Some qu" and "q_destruct qu = Lemessage_delete"
  shows "lethread_delete (destruct (Suc n)) (Ptr c) (put_queue q x s) =
    andthen (lethread_delete (destruct (Suc n)) (Ptr c) s) (\<lambda>(st, t). Inr (st, put_queue q x t))"
proof -
  have fields: "f_threads (put_queue q x v) = f_threads v" "f_authors (put_queue q x v) = f_authors v"
    "(put_queue q x v)\<lparr>f_threads := T\<rparr> = put_queue q x (v\<lparr>f_threads := T\<rparr>)"
    "(put_queue q x v)\<lparr>f_authors := A\<rparr> = put_queue q x (v\<lparr>f_authors := A\<rparr>)" for v :: "'m mem_forum_scheme" and T A
    by (simp_all add: put_queue_def)
  have author: "leauthor_delete a (put_queue q x v) = andthen (leauthor_delete a v) (\<lambda>(st, v). Inr (st, put_queue q x v))"
    for a and v :: "'m mem_forum_scheme"
    by (cases a) (simp_all add: leauthor_delete_def fields split: option.split)
  have tail: "andthen (if lt_author u \<noteq> Null then
        andthen (leauthor_delete (lt_author u) (put_queue q x v)) (\<lambda>(st, s).
        andthen (assign (Ptr c) w (f_threads s)) (\<lambda>threads. Inr (s\<lparr>f_threads := threads\<rparr>)))
      else Inr (put_queue q x v)) (\<lambda>s.
      andthen (free_obj (Ptr c) (f_threads s)) (\<lambda>threads. Inr (0, s\<lparr>f_threads := threads\<rparr>))) =
    andthen (andthen (if lt_author u \<noteq> Null then
        andthen (leauthor_delete (lt_author u) v) (\<lambda>(st, s).
        andthen (assign (Ptr c) w (f_threads s)) (\<lambda>threads. Inr (s\<lparr>f_threads := threads\<rparr>)))
      else Inr v) (\<lambda>s.
      andthen (free_obj (Ptr c) (f_threads s)) (\<lambda>threads. Inr (0, s\<lparr>f_threads := threads\<rparr>))))
      (\<lambda>(st, t). Inr (st, put_queue q x t))" for v :: "'m mem_forum_scheme" and w
    by (cases "leauthor_delete (lt_author u) v") (auto simp: author fields split: option.split)
  show ?thesis
  proof (cases "queue_delete (destruct (Suc n)) (Ptr m) s")
    case (Inl f)
    with assms(1,2) show ?thesis by (simp add: lethread_delete_def queue_delete_put[OF assms(3-5)] fields)
  next
    case (Inr r)
    obtain st t where r: "r = (st, t)" by (cases r)
    show ?thesis
    proof (cases "assign (Ptr c) (u\<lparr>lt_messages := Null\<rparr>) (f_threads t)")
      case (Inl f)
      with Inr r assms(1,2) show ?thesis
        by (simp add: lethread_delete_def queue_delete_put[OF assms(3-5)] fields del: assign.simps)
    next
      case (Inr T)
      with \<open>queue_delete (destruct (Suc n)) (Ptr m) s = Inr r\<close> r assms(1,2) show ?thesis
        by (simp add: lethread_delete_def queue_delete_put[OF assms(3-5)] fields tail del: assign.simps free_obj.simps split del: if_split)
    qed
  qed
qed

text \<open>Deleting a thread only frees nodes.\<close>

lemma loop_nodes:
  fixes s :: "'m mem_forum_scheme"
  assumes "queue_delete_loop fuel (destruct (Suc n)) (Ptr m) node s = Inr t"
    and "cells (q_queues s) m = Some qu" and "q_destruct qu = Lemessage_delete"
  shows "cells (q_nodes t) \<subseteq>\<^sub>m cells (q_nodes s)"
  using assms
proof (induction fuel arbitrary: node s qu)
  case 0
  then show ?case by (cases node) simp_all
next
  case (Suc fuel)
  show ?case
  proof (cases node)
    case (Ptr a)
    with Suc.prems(1) obtain nd where nd: "cells (q_nodes s) a = Some nd"
      by (auto split: option.splits)
    have sub: "(cells (q_nodes s))(a := None) \<subseteq>\<^sub>m cells (q_nodes s)" by (simp add: map_le_def)
    obtain u where "queue_delete_loop fuel (destruct (Suc n)) (Ptr m) (qn_next nd) (u\<lparr>
        q_nodes := (q_nodes s)\<lparr>cells := (cells (q_nodes s))(a := None)\<rparr>,
        q_queues := (q_queues s)\<lparr>cells := (cells (q_queues s))(m \<mapsto> qu\<lparr>q_size := q_size qu - 1\<rparr>)\<rparr>\<rparr>) = Inr t"
      using Suc.prems Ptr nd
      by (cases "qn_data nd = Null")
        (auto simp: Let_def fun_upd_def simp del: destruct.simps dest!: lemessage_delete_same cong: if_cong)
    from Suc.IH[OF this, of "qu\<lparr>q_size := q_size qu - 1\<rparr>"] Suc.prems(3)
    have "cells (q_nodes t) \<subseteq>\<^sub>m (cells (q_nodes s))(a := None)" by (simp add: fun_upd_def)
    with sub show ?thesis by (rule map_le_trans[rotated])
  qed (use Suc.prems in simp_all)
qed

lemma leauthor_delete_queues: "leauthor_delete p s = Inr (st, t) \<Longrightarrow> q_nodes t = q_nodes s \<and> q_queues t = q_queues s"
  by (cases p) (auto simp: leauthor_delete_def split: option.splits)

lemma lethread_delete_nodes:
  fixes s :: "'m mem_forum_scheme"
  assumes "lethread_delete (destruct (Suc n)) (Ptr c) s = Inr (st, t)" and "cells (f_threads s) c = Some u"
    and "lt_messages u = Ptr m" and "cells (q_queues s) m = Some qu" and "q_destruct qu = Lemessage_delete"
  shows "cells (q_nodes t) \<subseteq>\<^sub>m cells (q_nodes s)"
proof -
  have "q_nodes t = q_nodes v" if "queue_delete (destruct (Suc n)) (Ptr m) s = Inr (st', v)" for st' v
    using assms(1-3) that
    by (auto simp: lethread_delete_def split: option.splits if_splits dest!: leauthor_delete_queues)
  moreover obtain st' v where v: "queue_delete (destruct (Suc n)) (Ptr m) s = Inr (st', v)"
    using assms(1-3) by (cases "queue_delete (destruct (Suc n)) (Ptr m) s") (auto simp: lethread_delete_def)
  moreover have "cells (q_nodes v) \<subseteq>\<^sub>m cells (q_nodes s)"
  proof -
    from v assms(4) obtain w where w: "queue_delete_loop (Suc (brk (q_nodes s))) (destruct (Suc n)) (Ptr m) (q_first qu) s = Inr w"
      "q_nodes v = q_nodes w"
      by (auto simp: queue_delete_def simp del: queue_delete_loop.simps destruct.simps)
    then show ?thesis using loop_nodes[OF w(1) assms(4,5)] by simp
  qed
  ultimately show ?thesis by simp
qed

text \<open>What one step of the loop does to a well-formed queue: the thread goes, then the node.\<close>

lemma pop_shape:
  assumes "queue_pop (Ptr q) s = Inr (d, t)" and "queue_ok s" and "items s (Ptr q) = Some (d # ds)"
    and "cells (q_queues s) q = Some x" and "q_first x = Ptr a" and "cells (q_nodes s) a = Some nd"
  shows "\<exists>y. t = s\<lparr>q_nodes := (q_nodes s)\<lparr>cells := (cells (q_nodes s))(a := None)\<rparr>,
      q_queues := (q_queues s)\<lparr>cells := (cells (q_queues s))(q \<mapsto> y)\<rparr>\<rparr> \<and>
    q_first y = qn_next nd \<and> q_destruct y = q_destruct x"
proof -
  have "queue_is_empty (Ptr q) s = Inr 0" using queue_is_empty_law[OF assms(2,3)] by simp
  then show ?thesis
    using assms(1,4-6)
    by (auto simp: queue_pop_def Let_def queue_is_empty_def split: if_splits)
qed

lemma first_node:
  assumes ok: "queue_ok s" and it: "items s (Ptr q) = Some (d # ds)" and x: "cells (q_queues s) q = Some x"
  obtains a nd where "q_first x = Ptr a" and "cells (q_nodes s) a = Some nd" and "qn_data nd = d"
proof -
  obtain N D where rep: "qrep (q_nodes s) (q_queues s) N D" and st: "store_ok (q_nodes s)"
    using ok by (auto simp: qok_def)
  have D: "D q = d # ds" using qrep_qitems[OF rep st, of q] it x by simp
  have "chain (q_nodes s) (q_first x) (N q) (d # ds)"
    using qrep_queue_at[OF rep x] D by (simp add: queue_at_def)
  then obtain a ns nx where "q_first x = Ptr a" "cells (q_nodes s) a = Some \<lparr>qn_data = d, qn_next = nx\<rparr>"
    by (cases "N q") auto
  then show ?thesis by (intro that) auto
qed

text \<open>Its node stays as long as its queue does, and goes when the element has been destroyed.\<close>

lemma first_live:
  assumes "queue_ok t" and "items t (Ptr q) = Some (d # ds)" and "cells (q_queues t) q = Some x" and "q_first x = Ptr a"
    and "cells (q_nodes t) \<subseteq>\<^sub>m cells h" and "cells h a = Some nd"
  shows "cells (q_nodes t) a = Some nd"
proof -
  obtain N D where rep: "qrep (q_nodes t) (q_queues t) N D" and st: "store_ok (q_nodes t)"
    using assms(1) by (auto simp: qok_def)
  have "D q = d # ds" using qrep_qitems[OF rep st, of q] assms(2,3) by simp
  then have "chain (q_nodes t) (Ptr a) (N q) (d # ds)"
    using qrep_queue_at[OF rep assms(3)] assms(4) by (simp add: queue_at_def)
  then obtain nt where "cells (q_nodes t) a = Some nt" by (cases "N q") auto
  with assms(5,6) show ?thesis by (metis map_leD option.inject)
qed

lemma first_gone:
  fixes t :: "'m mem_queue_scheme"
  assumes tq: "queue_ok t" and itt: "items t (Ptr q) = Some (d # ds)"
    and xt: "cells (q_queues t) q = Some x" "q_first x = Ptr a" and ndt: "cells (q_nodes t) a = Some nd"
  obtains y h qs where "h = (q_nodes t)\<lparr>cells := (cells (q_nodes t))(a := None)\<rparr>"
    and "qs = (q_queues t)\<lparr>cells := (cells (q_queues t))(q \<mapsto> y)\<rparr>" and "qok h qs"
    and "qitems h qs = (items t)(Ptr q \<mapsto> ds)" and "q_first y = qn_next nd" and "qkind qs = qkind (q_queues t)"
proof -
  obtain h qs where pop: "queue_pop (Ptr q) t = Inr (d, t\<lparr>q_nodes := h, q_queues := qs\<rparr>)" "qok h qs"
    "qitems h qs = (items t)(Ptr q \<mapsto> ds)"
    by (rule queue_pop_law[OF tq itt])
  let ?u = "t\<lparr>q_nodes := h, q_queues := qs\<rparr>"
  obtain y where y: "?u = t\<lparr>q_nodes := (q_nodes t)\<lparr>cells := (cells (q_nodes t))(a := None)\<rparr>,
      q_queues := (q_queues t)\<lparr>cells := (cells (q_queues t))(q \<mapsto> y)\<rparr>\<rparr>" "q_first y = qn_next nd"
      "q_destruct y = q_destruct x"
    using pop_shape[OF pop(1) tq itt xt ndt] by blast
  have hq: "h = (q_nodes t)\<lparr>cells := (cells (q_nodes t))(a := None)\<rparr>"
    "qs = (q_queues t)\<lparr>cells := (cells (q_queues t))(q \<mapsto> y)\<rparr>"
    using arg_cong[OF y(1), of q_nodes] arg_cong[OF y(1), of q_queues] by simp_all
  have "qkind qs = qkind (q_queues t)"
    using xt(1) y(3) by (auto simp: hq qkind_def fun_eq_iff split: ptr.split)
  with hq pop(2,3) y(2) show ?thesis by (rule that)
qed

lemma destroy_first:
  fixes s :: "'m mem_forum_scheme"
  assumes g: "gathered s (Ptr q) (d # ds)" and x: "cells (q_queues s) q = Some x" "q_first x = Ptr a"
    and nd: "cells (q_nodes s) a = Some nd"
  obtains t u y where "\<forall>z. destruct (Suc (Suc n)) Lethread_delete d (put_queue q z s) = Inr (put_queue q z t)"
    and "gathered u (Ptr q) ds" and "thread_at u = (thread_at s)(d := None)"
    and "q_nodes u = (q_nodes t)\<lparr>cells := (cells (q_nodes t))(a := None)\<rparr>" and "cells (q_nodes t) a = Some nd"
    and "u = t\<lparr>q_nodes := q_nodes u, q_queues := (q_queues t)\<lparr>cells := (cells (q_queues t))(q \<mapsto> y)\<rparr>\<rparr>"
    and "q_first y = qn_next nd" and "cells (q_queues u) q = Some y"
proof -
  have ok: "forum_ok s" "kinds_ok (f_threads s) (q_queues s)"
    and it: "items s (Ptr q) = Some (d # ds)" and kind: "qkind (q_queues s) (Ptr q) = Some Lethread_delete"
    and ds: "distinct (d # ds)" "\<forall>d\<in>set (d # ds). thread_at s d \<noteq> None"
    using g by (simp_all add: gathered_def heap_ok_def)
  obtain v where v: "thread_at s d = Some v" using ds(2) by auto
  obtain t c w es where del: "lethread_delete (destruct (Suc n)) d s = Inr (ok_status, t)"
    and t: "forum_ok t" "kinds_ok (f_threads t) (q_queues t)" "thread_at t = (thread_at s)(d := None)"
    and c: "d = Ptr c" "cells (f_threads s) c = Some w" "items s (lt_messages w) = Some es"
    "items t = (items s)(lt_messages w := None)" and T: "f_messages t = drop_messages (set es) (f_messages s)"
    by (rule lethread_delete_law[OF ok v])
  obtain m qu where m: "lt_messages w = Ptr m" "cells (q_queues s) m = Some qu" using c(3) by (rule qitems_live)
  have "qkind (q_queues s) (lt_messages w) = Some Lemessage_delete" using ok(2) c(2) by (auto simp: kinds_ok_def)
  then have qu: "q_destruct qu = Lemessage_delete" "m \<noteq> q" using m kind by (auto simp: qkind_def)
  have put: "destruct (Suc (Suc n)) Lethread_delete d (put_queue q z s) = Inr (put_queue q z t)" for z
    using del by (simp add: lethread_delete_put[OF c(2) m(1) qu(2) m(2) qu(1)] c(1))
  have "put_queue q x s = s" using x(1) by (simp add: put_queue_def fun_upd_idem)
  then have same: "put_queue q x t = t"
    using put[of x] del c(1) by simp
  then have xt: "cells (q_queues t) q = Some x" by (metis fun_upd_same put_queue_simps(2))
  have kt: "qkind (q_queues t) (Ptr q) = Some Lethread_delete" using kind x(1) xt by (simp add: qkind_def)
  have itt: "items t (Ptr q) = Some (d # ds)" using c(4) it m(1) qu(2) by simp
  have tq: "queue_ok t" using t(1) by simp
  have sub: "cells (q_nodes t) \<subseteq>\<^sub>m cells (q_nodes s)"
    using lethread_delete_nodes[OF _ c(2) m(1,2) qu(1)] del c(1) by simp
  note ndt = first_live[OF tq itt xt x(2) sub nd]
  obtain y h qs where hq: "h = (q_nodes t)\<lparr>cells := (cells (q_nodes t))(a := None)\<rparr>"
    "qs = (q_queues t)\<lparr>cells := (cells (q_queues t))(q \<mapsto> y)\<rparr>"
    and pop: "qok h qs" "qitems h qs = (items t)(Ptr q \<mapsto> ds)" and y: "q_first y = qn_next nd"
    and kinds: "qkind qs = qkind (q_queues t)"
    by (rule first_gone[OF tq itt xt x(2) ndt])
  let ?u = "t\<lparr>q_nodes := h, q_queues := qs\<rparr>"
  have ht: "heap_ok t" using t by (simp add: heap_ok_def)
  have frame: "heap_ok ?u" "thread_at ?u = thread_at t"
    using gathered_frame[OF ht _ pop fun_cong[OF kinds]] not_for_messages[OF ht] kt by auto
  have "gathered ?u (Ptr q) ds"
    using frame ds t(3) pop(2) kinds kt by (auto simp: gathered_def)
  then show ?thesis
    by (intro that[of t ?u y])
      (use put frame(2) t(3) hq ndt y in \<open>simp_all add: mem_forum.defs\<close>)
qed

text \<open>
  The loop, for a destructor that may delete other queues: \<open>P ds s\<close> holds when \<open>ds\<close> remain, in the
  state in which the nodes of those that were destroyed have been taken off the queue.
\<close>

definition held :: "addr \<Rightarrow> (ptr list \<Rightarrow> 'm mem_forum_scheme \<Rightarrow> bool) \<Rightarrow> bool" where
  "held q P \<longleftrightarrow> (\<forall>ds s. P ds s \<longrightarrow> queue_ok s \<and> items s (Ptr q) = Some ds \<and> Null \<notin> set ds)"

definition destroys :: "(destructor \<Rightarrow> ptr \<Rightarrow> 'm mem_forum_scheme \<Rightarrow> 'm mem_forum_scheme res) \<Rightarrow> destructor \<Rightarrow> addr \<Rightarrow>
    (ptr list \<Rightarrow> 'm mem_forum_scheme \<Rightarrow> bool) \<Rightarrow> bool" where
  "destroys call f q P \<longleftrightarrow>
     (\<forall>d ds s x a nd. P (d # ds) s \<and> cells (q_queues s) q = Some x \<and> q_first x = Ptr a \<and> cells (q_nodes s) a = Some nd \<longrightarrow>
      (\<exists>t u y. (\<forall>z. call f d (put_queue q z s) = Inr (put_queue q z t)) \<and> P ds u \<and>
        q_nodes u = (q_nodes t)\<lparr>cells := (cells (q_nodes t))(a := None)\<rparr> \<and> cells (q_nodes t) a = Some nd \<and>
        u = t\<lparr>q_nodes := q_nodes u, q_queues := (q_queues t)\<lparr>cells := (cells (q_queues t))(q \<mapsto> y)\<rparr>\<rparr> \<and>
        q_first y = qn_next nd \<and> cells (q_queues u) q = Some y))"

lemma destroying_loop:
  fixes s :: "'m mem_forum_scheme"
  assumes queue: "held q P" and step: "destroys call f q P"
    and "P ds s" and "cells (q_queues s) q = Some x" and "length ds \<le> fuel" and "q_destruct z = f"
  shows "\<exists>t y. queue_delete_loop fuel call (Ptr q) (q_first x) (put_queue q z s) = Inr (put_queue q y t) \<and> P [] t"
  using assms(3-)
proof (induction ds arbitrary: fuel s x z)
  case Nil
  then have "q_first x = Null" using q_first_Null_iff(1)[of s q "[]" x] queue Nil(1) unfolding held_def by blast
  with Nil show ?case by (cases fuel) auto
next
  case (Cons d ds)
  obtain g where fuel: "fuel = Suc g" using Cons.prems(3) by (cases fuel) auto
  have q: "queue_ok s" "items s (Ptr q) = Some (d # ds)" "d \<noteq> Null"
    using queue Cons.prems(1) unfolding held_def by force+
  obtain a nd where a: "q_first x = Ptr a" "cells (q_nodes s) a = Some nd" "qn_data nd = d"
    by (rule first_node[OF q(1,2) Cons.prems(2)])
  obtain t u y where t: "\<forall>z. call f d (put_queue q z s) = Inr (put_queue q z t)" "P ds u"
    "q_nodes u = (q_nodes t)\<lparr>cells := (cells (q_nodes t))(a := None)\<rparr>" "cells (q_nodes t) a = Some nd"
    "u = t\<lparr>q_nodes := q_nodes u, q_queues := (q_queues t)\<lparr>cells := (cells (q_queues t))(q \<mapsto> y)\<rparr>\<rparr>"
    "q_first y = qn_next nd" "cells (q_queues u) q = Some y"
    using step Cons.prems(1,2) a(1,2) unfolding destroys_def by metis
  let ?z = "z\<lparr>q_size := q_size z - 1\<rparr>"
  obtain v w where v: "queue_delete_loop g call (Ptr q) (q_first y) (put_queue q ?z u) = Inr (put_queue q w v)" "P [] v"
    using Cons.IH[OF t(2,7), of g ?z] Cons.prems(3,4) by (auto simp: fuel)
  have "put_queue q ?z u = put_queue q ?z (t\<lparr>q_nodes := q_nodes u\<rparr>)"
    by (subst t(5)) (simp add: put_queue_def)
  then have "(put_queue q z t)\<lparr>q_nodes := (q_nodes t)\<lparr>cells := (cells (q_nodes t))(a := None)\<rparr>,
      q_queues := (q_queues (put_queue q z t))\<lparr>cells := (cells (q_queues t))(q \<mapsto> ?z)\<rparr>\<rparr> = put_queue q ?z u"
    by (simp add: put_queue_def t(3))
  then have "queue_delete_loop fuel call (Ptr q) (q_first x) (put_queue q z s) =
      queue_delete_loop g call (Ptr q) (q_first y) (put_queue q ?z u)"
    using Cons.prems(4) t(1,4,6) q(3)
    by (simp add: fuel a Let_def fun_upd_def cong: if_cong)
  with v show ?case by (intro exI[of _ v] exI[of _ w]) auto
qed

lemma drop_empty_queue:
  assumes "queue_ok s" and "items s (Ptr q) = Some []" and "qs = (q_queues s)\<lparr>cells := (cells (q_queues s))(q := None)\<rparr>"
  shows "qok (q_nodes s) qs" and "qitems (q_nodes s) qs = (items s)(Ptr q := None)"
proof -
  let ?call = "\<lambda>f d s. Inr s"
  have off: "off_queues (?call f)" for f :: destructor by (simp add: off_queues_def)
  obtain x where x: "cells (q_queues s) q = Some x" using assms(2) by (auto elim: qitems_live)
  then have "q_first x = Null" using q_first_Null_iff(1)[OF assms(1,2)] by simp
  then have del: "queue_delete ?call (Ptr q) s = Inr (ok_status, s\<lparr>q_queues := qs\<rparr>)"
    using x assms(3) by (simp add: queue_delete_def fun_upd_def)
  obtain h k where "queue_delete ?call (Ptr q) s = Inr (ok_status, s\<lparr>q_nodes := h, q_queues := k\<rparr>)"
    "qok h k" "qitems h k = (items s)(Ptr q := None)"
    by (rule queue_delete_law[OF off assms(1,2)]) simp
  with del have "s\<lparr>q_queues := qs\<rparr> = s\<lparr>q_nodes := h, q_queues := k\<rparr>" by simp
  from arg_cong[OF this, of q_nodes] arg_cong[OF this, of q_queues] have "h = q_nodes s" "k = qs" by simp_all
  with \<open>qok h k\<close> \<open>qitems h k = _\<close> show "qok (q_nodes s) qs" "qitems (q_nodes s) qs = (items s)(Ptr q := None)"
    by simp_all
qed

lemma destroying_delete:
  fixes s :: "'m mem_forum_scheme"
  assumes queue: "held q P" and step: "destroys call f q P"
    and P: "P ds s" and kind: "qkind (q_queues s) (Ptr q) = Some f"
  obtains t qs where "queue_delete call (Ptr q) s = Inr (ok_status, t\<lparr>q_queues := qs\<rparr>)" and "P [] t"
    and "qok (q_nodes t) qs" and "qitems (q_nodes t) qs = (items t)(Ptr q := None)"
    and "\<And>p. p \<noteq> Ptr q \<Longrightarrow> qkind qs p = qkind (q_queues t) p"
proof -
  have ok: "queue_ok s" and it: "items s (Ptr q) = Some ds" using queue P by (auto simp: held_def)
  obtain x where b: "cells (q_queues s) q = Some x" using it by (auto elim: qitems_live)
  have x: "q_destruct x = f" using kind b by (simp add: qkind_def)
  obtain N D where rep: "qrep (q_nodes s) (q_queues s) N D" and st: "store_ok (q_nodes s)"
    using ok by (auto simp: qok_def)
  have "D q = ds" using qrep_qitems[OF rep st, of q] it b by simp
  then have "chain (q_nodes s) (q_first x) (N q) ds"
    using qrep_queue_at[OF rep b] by (simp add: queue_at_def)
  from chain_bound[OF this st] chain_length[OF this] have len: "length ds \<le> Suc (brk (q_nodes s))" by simp
  have "put_queue q x s = s" using b by (simp add: put_queue_def fun_upd_idem)
  then obtain t y where t: "queue_delete_loop (Suc (brk (q_nodes s))) call (Ptr q) (q_first x) s = Inr (put_queue q y t)" "P [] t"
    using destroying_loop[OF queue step P b len x] by auto
  define qs where "qs = (q_queues t)\<lparr>cells := (cells (q_queues t))(q := None)\<rparr>"
  have "queue_delete call (Ptr q) s = Inr (ok_status, t\<lparr>q_queues := qs\<rparr>)"
    using t(1) b by (simp add: queue_delete_def put_queue_def qs_def del: queue_delete_loop.simps)
  moreover have "qkind qs p = qkind (q_queues t) p" if "p \<noteq> Ptr q" for p
    using that by (auto simp: qs_def qkind_def split: ptr.split)
  moreover have "queue_ok t" "items t (Ptr q) = Some []" using queue t(2) by (auto simp: held_def)
  note drop_empty_queue[OF this qs_def]
  ultimately show ?thesis using t(2) by (intro that[of qs t]) auto
qed

lemma found_delete:
  fixes s :: "'m mem_forum_scheme"
  assumes g: "gathered s q ds"
  obtains t where "queue_delete call_destructor q s = Inr (ok_status, t)" and "heap_ok t"
    and "thread_at t = (\<lambda>p. if p \<in> set ds then None else thread_at s p)"
proof -
  have it: "items s q = Some ds" and kind: "qkind (q_queues s) q = Some Lethread_delete"
    using g by (simp_all add: gathered_def)
  obtain b where b: "q = Ptr b" using it by (auto elim: qitems_live)
  define P where "P es u \<longleftrightarrow> gathered u (Ptr b) es \<and>
    (\<lambda>p. if p \<in> set es then None else thread_at u p) = (\<lambda>p. if p \<in> set ds then None else thread_at s p)" for es and u :: "'m mem_forum_scheme"
  have queue: "held b P"
    by (auto simp: held_def P_def gathered_def heap_ok_def dest: bspec[of _ _ Null])
  have step: "destroys call_destructor Lethread_delete b P"
    unfolding destroys_def
  proof (intro allI impI, elim conjE)
    fix d es u x a nd
    assume p: "P (d # es) u" and a: "cells (q_queues u) b = Some x" "q_first x = Ptr a" "cells (q_nodes u) a = Some nd"
    have "gathered u (Ptr b) (d # es)" using p by (simp add: P_def)
    then show "\<exists>t v y. (\<forall>z. call_destructor Lethread_delete d (put_queue b z u) = Inr (put_queue b z t)) \<and> P es v \<and>
        q_nodes v = (q_nodes t)\<lparr>cells := (cells (q_nodes t))(a := None)\<rparr> \<and> cells (q_nodes t) a = Some nd \<and>
        v = t\<lparr>q_nodes := q_nodes v, q_queues := (q_queues t)\<lparr>cells := (cells (q_queues t))(b \<mapsto> y)\<rparr>\<rparr> \<and>
        q_first y = qn_next nd \<and> cells (q_queues v) b = Some y"
    proof (rule destroy_first[OF _ a, where n = 1])
      fix t v y
      assume t: "\<forall>z. destruct (Suc (Suc 1)) Lethread_delete d (put_queue b z u) = Inr (put_queue b z t)"
        "gathered v (Ptr b) es" "thread_at v = (thread_at u)(d := None)"
        "q_nodes v = (q_nodes t)\<lparr>cells := (cells (q_nodes t))(a := None)\<rparr>" "cells (q_nodes t) a = Some nd"
        "v = t\<lparr>q_nodes := q_nodes v, q_queues := (q_queues t)\<lparr>cells := (cells (q_queues t))(b \<mapsto> y)\<rparr>\<rparr>"
        "q_first y = qn_next nd" "cells (q_queues v) b = Some y"
      have three: "Suc (Suc 1) = (3 :: nat)" by simp
      have "(\<lambda>p. if p \<in> set es then None else thread_at v p) = (\<lambda>p. if p \<in> set (d # es) then None else thread_at u p)"
        by (auto simp: t(3) fun_eq_iff)
      then have "P es v" using p t(2) by (simp add: P_def)
      with t(1,4-) show ?thesis unfolding three call_destructor_def by (intro exI conjI)
    qed
  qed
  have "P ds s" using g b by (simp add: P_def)
  moreover have "qkind (q_queues s) (Ptr b) = Some Lethread_delete" using kind b by simp
  ultimately show ?thesis
  proof (rule destroying_delete[OF queue step])
    fix t qs
    assume t: "queue_delete call_destructor (Ptr b) s = Inr (ok_status, t\<lparr>q_queues := qs\<rparr>)" "P [] t"
      "qok (q_nodes t) qs" "qitems (q_nodes t) qs = (items t)(Ptr b := None)"
      "\<And>p. p \<noteq> Ptr b \<Longrightarrow> qkind qs p = qkind (q_queues t) p"
    have g': "heap_ok t" "qkind (q_queues t) (Ptr b) = Some Lethread_delete"
      "thread_at t = (\<lambda>p. if p \<in> set ds then None else thread_at s p)"
      using t(2) by (auto simp: P_def gathered_def)
    have "\<forall>a u. cells (f_threads t) a = Some u \<longrightarrow> lt_messages u \<noteq> Ptr b"
      using not_for_messages[OF g'(1)] g'(2) by simp
    note frame = gathered_frame[OF g'(1) this t(3-5)]
    show ?thesis
      by (rule that[of "t\<lparr>q_queues := qs\<rparr>"]) (use t(1) b frame g'(3) in simp_all)
  qed
qed

end
