(* ===== verification/Client_Heap.thy ===== *)
theory Client_Heap
  imports Found_Threads
begin

text \<open>
  What the client's parsers do to its memory when the response is anything at all: the objects stay
  well formed, and no freed memory is touched.
\<close>

section \<open>Reading a response\<close>

lemma strncmp_eq_tame: "tame (strncmp_eq p q n) (\<lambda>_. True)"
  by (induction p q n rule: strncmp_eq.induct) (auto simp: tame_def)

lemma readers_tame:
  "tame (at_lit p lit) (\<lambda>_. True)" "tame (rd64 p) (\<lambda>_. True)" "tame (rd32 p) (\<lambda>_. True)"
  "tame (strncpy_str p n) (\<lambda>str. NUL \<notin> set str)" "tame (cstr p) (\<lambda>str. NUL \<notin> set str)"
  "tame (rand_uint64_t dev) (\<lambda>_. True)"
proof -
  show "tame (at_lit p lit) (\<lambda>_. True)" unfolding at_lit_def by (rule strncmp_eq_tame)
  show "tame (rd64 p) (\<lambda>_. True)" "tame (rd32 p) (\<lambda>_. True)" "tame (rand_uint64_t dev) (\<lambda>_. True)"
    by (simp_all add: tame_def rd64_def rd32_def rand_uint64_t_def)
  show "tame (cstr p) (\<lambda>str. NUL \<notin> set str)" by (auto simp: tame_def cstr_def dest: set_takeWhileD)
  have "strncpy_str p n = Inl f \<Longrightarrow> f = OutOfBounds" for f by (simp add: strncpy_str_def Let_def split: if_splits)
  then show "tame (strncpy_str p n) (\<lambda>str. NUL \<notin> set str)"
    by (auto simp: tame_def split: sum.splits dest: strncpy_str_no_NUL)
qed

lemma keyword_tame: "tame fail P \<Longrightarrow> (\<And>p. tame (k p) P) \<Longrightarrow> tame (keyword lit p fail k) P"
  unfolding keyword_def by (rule tame_andthen[OF readers_tame(1)]) (simp split: if_split)

lemma number_tame: "(\<And>w p. tame (k w p) P) \<Longrightarrow> tame (number p k) P"
  unfolding number_def by (rule tame_andthen[OF readers_tame(2)])

lemma copy_string_tame: "(\<And>str p. NUL \<notin> set str \<Longrightarrow> tame (k str p) P) \<Longrightarrow> tame (copy_string w p k) P"
  unfolding copy_string_def by (intro tame_intros tame_Inl tame_andthen[OF readers_tame(4)]) simp_all

lemma store_member_tame: "tame k P \<Longrightarrow> tame (store_member capacity i k) P"
  unfolding store_member_def by (intro tame_intros tame_Inl) simp_all

lemmas parse_tame = keyword_tame number_tame copy_string_tame store_member_tame

section \<open>Threads and messages\<close>

lemma thread_tame:
  assumes "heap_ok s" and "NUL \<notin> set topic"
  shows "tame (lethread_create (Some (topic @ [NUL])) i s) (\<lambda>(st, p, t). heap_ok t \<and> thread_at t p \<noteq> None)"
proof (cases "rand_uint64_t (urandom s)")
  case (Inl f)
  moreover have "cstr (topic @ [NUL]) = Inr topic" using assms(2) by simp
  ultimately show ?thesis
    using readers_tame(6)[of "urandom s"] by (simp add: lethread_create_def tame_def)
next
  case (Inr rd)
  obtain r dev where rd: "rand_uint64_t (urandom s) = Inr (r, dev)" using Inr by (cases rd) simp
  have "cstr (topic @ [NUL]) = Inr topic" using assms(2) by simp
  then show ?thesis by (rule create_thread[OF assms(1) _ rd, where i = i]) (simp add: tame_def)
qed

lemma message_tame:
  assumes "heap_ok s" and "thread_at s p \<noteq> None"
  shows "tame (lemessage_create p (Some str) by_author s) (\<lambda>(st, m, t). heap_ok t \<and> thread_at t p \<noteq> None)"
proof -
  obtain v where v: "thread_at s p = Some v" using assms(2) by blast
  have ok: "forum_ok s" and kinds: "kinds_ok (f_threads s) (q_queues s)" using assms(1) by (simp_all add: heap_ok_def)
  show ?thesis
  proof (cases "MIN_MESSAGE_SIZE \<le> length str \<and> length str \<le> MAX_MESSAGE_SIZE")
    case False
    then have "lemessage_create p (Some str) by_author s = Inr (-6, Wild, s)"
      using lemessage_create_refused[OF v, of str by_author] by auto
    with assms show ?thesis by (simp add: tame_def)
  next
    case True
    then have len: "MIN_MESSAGE_SIZE \<le> length str" "length str \<le> MAX_MESSAGE_SIZE" by simp_all
    show ?thesis
    proof (rule lemessage_create_law[OF ok v len, of by_author])
      fix b q ds nodes qs threads messages
      assume run: "lemessage_create p (Some str) by_author s = Inr (ok_status, Ptr b,
          s\<lparr>f_threads := threads, f_messages := messages, q_nodes := nodes, q_queues := qs\<rparr>)"
        and new: "qok nodes qs" "fok (qitems nodes qs) threads messages (f_authors s)"
          "view (qitems nodes qs) threads messages (f_authors s) = (thread_at s)(p \<mapsto>
            v\<lparr>at_messages := at_messages v @ [\<lparr>am_id = at_next v, am_text = str, am_by = by_author\<rparr>],
              at_next := at_next v + 1\<rparr>)"
        and thread: "\<exists>c t. p = Ptr c \<and> cells (f_threads s) c = Some t \<and> lt_messages t = q \<and>
            threads = (f_threads s)\<lparr>cells := (cells (f_threads s))(c \<mapsto> t\<lparr>lt_next_message_id := at_next v + 1\<rparr>)\<rparr>"
        and k: "qkind qs = qkind (q_queues s)"
      have "kinds_ok threads qs" using thread kinds by (auto simp: kinds_ok_def k split: if_splits)
      with run new ok show ?thesis by (simp add: tame_def heap_ok_def)
    qed
  qed
qed

lemma parse_messages_tame:
  assumes "heap_ok s" and "thread_at s p \<noteq> None"
  shows "tame (parse_messages_loop n p raw s) (\<lambda>(good, t). heap_ok t \<and> thread_at t p \<noteq> None)"
  using assms
proof (induction n arbitrary: raw s)
  case 0
  then show ?case by (simp add: tame_def)
next
  case (Suc n)
  show ?case
    unfolding parse_messages_loop.simps
    by (intro parse_tame tame_intros tame_andthen[OF readers_tame(3)] tame_andthen[OF message_tame])
      (use Suc in \<open>auto\<close>)
qed

lemma thread_delete_tame:
  assumes "heap_ok s" and "thread_at s p \<noteq> None"
  shows "tame (lethread_delete call_destructor p s) (\<lambda>(st, t). heap_ok t)"
proof -
  obtain v where v: "thread_at s p = Some v" using assms(2) by blast
  have ok: "forum_ok s" "kinds_ok (f_threads s) (q_queues s)" using assms(1) by (simp_all add: heap_ok_def)
  have "\<exists>t. lethread_delete (destruct (Suc 2)) p s = Inr (ok_status, t) \<and> heap_ok t"
    by (rule lethread_delete_law[OF ok v, where n = 2]) (auto simp: heap_ok_def)
  then show ?thesis by (auto simp: tame_def call_destructor_def eval_nat_numeral)
qed

lemma parse_GTHR_tame:
  assumes "heap_ok s"
  shows "tame (parse_response_GTHR raw s) (\<lambda>(st, p, t). heap_ok t \<and> (\<forall>x. p = Some x \<longrightarrow> thread_at t x \<noteq> None))"
  unfolding parse_response_GTHR_def Let_def
  by (intro parse_tame tame_intros tame_andthen[OF thread_tame] tame_andthen[OF thread_delete_tame]
      tame_andthen[OF parse_messages_tame]) (use assms in auto)

section \<open>Lists of threads\<close>

lemma gathered_create:
  assumes "heap_ok s"
  obtains q t where "queue_create Lethread_delete s = (ok_status, q, t)" and "gathered t q []"
    and "thread_at t = thread_at s" and "urandom t = urandom s"
proof -
  have ok: "queue_ok s" and f: "fok (items s) (f_threads s) (f_messages s) (f_authors s)" using assms by (simp_all add: heap_ok_def)
  obtain q qs where c: "queue_create Lethread_delete s = (ok_status, q, s\<lparr>q_queues := qs\<rparr>)"
    "qok (q_nodes s) qs" "qitems (q_nodes s) qs = (items s)(q \<mapsto> [])" "items s q = None"
    by (rule queue_create_law[OF ok, of Lethread_delete])
  have kind: "qkind qs = (qkind (q_queues s))(q \<mapsto> Lethread_delete)" using qkind_create[OF c(1)] by simp
  have "\<forall>a t. cells (f_threads s) a = Some t \<longrightarrow> lt_messages t \<noteq> q"
  proof (intro allI impI)
    fix a t
    assume "cells (f_threads s) a = Some t"
    then obtain v where "thread_view (items s) (f_messages s) (f_authors s) t = Some v" using fokD(4)[OF f] by blast
    then show "lt_messages t \<noteq> q" using c(4) by (auto elim: thread_viewE)
  qed
  note frame = gathered_frame[OF assms this c(2,3)]
  have "heap_ok (s\<lparr>q_nodes := q_nodes s, q_queues := qs\<rparr>)" "thread_at (s\<lparr>q_nodes := q_nodes s, q_queues := qs\<rparr>) = thread_at s"
    by (rule frame; simp add: kind)+
  then show ?thesis using c(1,3) kind by (intro that[of q "s\<lparr>q_queues := qs\<rparr>"]) (simp_all add: gathered_def)
qed

lemma found_tame:
  fixes s :: "'m mem_forum_scheme"
  assumes "gathered s q ds"
  shows "tame (parse_found_loop raw sz i q s) (\<lambda>(good, t). \<exists>es. gathered t q es)"
  using assms
proof (induction "sz - i" arbitrary: i s ds rule: less_induct)
  case less
  have push: "tame (lethread_create (Some (topic @ [NUL])) j s) (\<lambda>(st, p, t).
      tame (queue_push q p t) (\<lambda>(st, u). \<exists>es. gathered u q es))" if n: "NUL \<notin> set topic" for topic j
  proof (cases "rand_uint64_t (urandom s)")
    case (Inl f)
    then show ?thesis using n readers_tame(6)[of "urandom s"] by (simp add: lethread_create_def tame_def)
  next
    case (Inr rd)
    obtain r dev where rd: "rand_uint64_t (urandom s) = Inr (r, dev)" using Inr by (cases rd) simp
    have src: "cstr (topic @ [NUL]) = Inr topic" using n by simp
    show ?thesis by (rule gather_one[OF less.prems src rd, where i = j]) (auto simp: tame_def)
  qed
  show ?case
  proof (cases "i < sz")
    case False
    with less.prems show ?thesis by (subst parse_found_loop.simps) (auto simp: tame_def)
  next
    case True
    have onward: "tame (andthen (queue_push q p t) (\<lambda>(st, u). parse_found_loop raw sz j q u)) (\<lambda>(good, t). \<exists>es. gathered t q es)"
      if "tame (queue_push q p t) (\<lambda>(st, u). \<exists>es. gathered u q es)" "i < j" for p j and t :: "'m mem_forum_scheme"
    proof (rule tame_andthen[OF that(1)], clarsimp)
      have "sz - j < sz - i" using True that(2) by arith
      then show "tame (parse_found_loop raw sz j q u) (\<lambda>(good, t). \<exists>es. gathered t q es)" if "gathered u q es"
        for u :: "'m mem_forum_scheme" and es
        using less.hyps[of j u es] that by simp
    qed
    show ?thesis
      unfolding parse_found_loop.simps[of raw sz i] if_P[OF True] Let_def
      by (intro parse_tame tame_intros tame_andthen[OF push]; (use less.prems in blast)?; clarsimp; intro onward; simp)
  qed
qed

lemma parse_FTHR_tame:
  assumes "heap_ok s"
  shows "tame (parse_response_FTHR raw sz s) (\<lambda>(st, q, t). heap_ok t \<and> (\<forall>x. q = Some x \<longrightarrow> (\<exists>ds. gathered t x ds)))"
proof -
  obtain q t where c: "queue_create Lethread_delete s = (ok_status, q, t)" and g: "gathered t q []"
    by (rule gathered_create[OF assms])
  have del: "tame (queue_delete call_destructor q u) (\<lambda>(st, v). heap_ok v)" if gu: "gathered u q es" for u es
    by (rule found_delete[OF gu]) (simp add: tame_def)
  have ok: "heap_ok u" if "gathered u q es" for u es using that by (simp add: gathered_def)
  show ?thesis
    unfolding parse_response_FTHR_def c Let_def
    by simp (intro tame_intros tame_andthen[OF readers_tame(1)] tame_andthen[OF found_tame[OF g]];
      use g ok in \<open>auto intro!: tame_intros tame_andthen[OF del]\<close>)
qed

end
