(* ===== verification/Client_Session.thy ===== *)
theory Client_Session
  imports Client_Laws Client_Heap
begin

text \<open>
  The commands of the client against the abstract server: what the user types becomes a request, and
  the server's answer to it becomes what the client knows and shows.  The answer may arrive in any
  pieces, and any number of pings may come before it.
\<close>

section \<open>One request\<close>

definition hears :: "rx_event list \<Rightarrow> bytes \<Rightarrow> rx_event list \<Rightarrow> bool" where
  "hears rx ans es \<longleftrightarrow> (\<exists>pieces. concat pieces = ans \<and> [] \<notin> set pieces \<and> length ans < 2 ^ 64 - 1 \<and>
     rx = arrives pieces @ es)"

text \<open>
  While the client waits for a line, \<open>k\<close> pings go by; then it sends \<open>r\<close>, and what it receives is the
  answer of the abstract server \<open>a\<close>.
\<close>

definition talks :: "(nat \<Rightarrow> byte) \<Rightarrow> nat \<Rightarrow> request \<Rightarrow> aserver \<Rightarrow> aserver \<Rightarrow> client \<Rightarrow> bool" where
  "talks junk k r a a' s \<longleftrightarrow> ready s \<and> wf_request r \<and>
     (k = 0 \<or> c_events s \<noteq> []) \<and> (c_events s \<noteq> [] \<longrightarrow> hd (c_events s) = replicate k Query_pass) \<and>
     willing (2 * k + length (packet r) + 2) (g_server_fd s) \<and>
     (\<exists>ans rx es. respond junk r a = Inr (ans, a') \<and> hears rx ans es \<and> sk_rx (g_server_fd s) = pings k @ rx)"

abbreviation sent :: "client \<Rightarrow> bytes" where
  "sent s \<equiv> sk_out (g_server_fd s)"

lemma client_request:
  assumes "ready s" and "wf_request r" and "hears (sk_rx (g_server_fd s)) ans es"
    and "willing (n + length (packet r) + 2) (g_server_fd s)"
  obtains sk pend where "run_query parser \<lparr>ld_data = packet r, ld_size = of_nat (length (packet r))\<rparr> s =
      parse_response parser (ans @ [NUL]) (length ans) Null (exchanged sk ans pend s)"
    and "ready (exchanged sk ans pend s)" and "sk_rx sk = es" and "sk_out sk = sent s @ framed (packet r)"
    and "willing n sk"
proof -
  obtain pieces where p: "concat pieces = ans" "[] \<notin> set pieces" "length ans < 2 ^ 64 - 1"
    "sk_rx (g_server_fd s) = arrives pieces @ es"
    using assms(3) by (auto simp: hears_def)
  have r: "pending_ok (g_server_queries s) (c_pending s)" "g_working s" "g_server_connected s"
    "length (c_response_size s) = 8"
    using assms(1) by (simp_all add: ready_def)
  have "length (packet r) \<le> MAX_PACKET_SIZE" using packet_size[OF assms(2)] by (simp add: MAX_PACKET_SIZE_def)
  then obtain sk pend where "run_query parser \<lparr>ld_data = packet r, ld_size = of_nat (length (packet r))\<rparr> s =
      parse_response parser (ans @ [NUL]) (length ans) Null (exchanged sk ans pend s)"
    "pending_ok (g_server_queries s) pend" "sk_rx sk = es" "sk_out sk = sent s @ framed (packet r)" "willing n sk"
    using run_query_law[OF r(1-3) refl _ p(4,1,2,3) r(4) assms(4)] by metis
  moreover from this have "ready (exchanged sk ans pend s)" using r by (simp add: ready_def)
  ultimately show ?thesis by (intro that)
qed

lemma ready_fields [simp]:
  "ready (s\<lparr>c_stdout := x\<rparr>) = ready s" "ready (s\<lparr>c_stdin := y\<rparr>) = ready s" "ready (s\<lparr>c_files := f\<rparr>) = ready s"
  "ready (s\<lparr>c_infos := i\<rparr>) = ready s" "ready (s\<lparr>c_heap := h\<rparr>) = ready s"
  "ready (s\<lparr>g_active_thread_exists := b\<rparr>) = ready s" "ready (s\<lparr>g_active_thread_id := t\<rparr>) = ready s"
  by (simp_all add: ready_def)

lemma talks_stdout [simp]: "talks junk k r a a' (s\<lparr>c_stdout := x\<rparr>) = talks junk k r a a' s"
  by (simp add: talks_def)

lemma talks_meanwhile:
  assumes "talks junk k r a a' s"
  obtains t ans es where "meanwhile s = Inr t" and "after_pings k s t" and "ready t" and "wf_request r"
    and "respond junk r a = Inr (ans, a')" and "hears (sk_rx (g_server_fd t)) ans es"
    and "willing (length (packet r) + 2) (g_server_fd t)"
proof -
  obtain ans rx es where r: "ready s" "wf_request r" "respond junk r a = Inr (ans, a')" "hears rx ans es"
    "sk_rx (g_server_fd s) = pings k @ rx" "willing (length (packet r) + 2 + 2 * k) (g_server_fd s)"
    and ev: "k = 0 \<or> c_events s \<noteq> []" "c_events s \<noteq> [] \<longrightarrow> hd (c_events s) = replicate k Query_pass"
    using assms by (auto simp: talks_def algebra_simps)
  show ?thesis
  proof (cases "c_events s")
    case Nil
    with ev have "k = 0" by simp
    moreover have "meanwhile s = Inr s" using Nil by (simp add: meanwhile_def)
    moreover have "after_pings 0 s s"
      unfolding after_pings_def using r(1) Nil
      by (intro exI[of _ "g_server_fd s"] exI[of _ "c_response_size s"]) (simp add: ready_def)
    ultimately show ?thesis using r by (intro that[of s ans es]) (simp_all add: pings_def)
  next
    case (Cons e ess)
    with ev have "c_events s = replicate k Query_pass # ess" by simp
    then obtain t where "meanwhile s = Inr t" "after_pings k s t" "sk_rx (g_server_fd t) = rx"
      "willing (length (packet r) + 2) (g_server_fd t)" "ready t"
      using meanwhile_law[OF r(1) _ r(5,6)] by metis
    with r show ?thesis by (intro that[of t ans es]) simp_all
  qed
qed

text \<open>The limits that \<open>META\<close> brings.\<close>

definition limits_known :: "client \<Rightarrow> bool" where
  "limits_known s \<longleftrightarrow> mt_min_topic_size (g_server_meta s) = 3 \<and> mt_max_topic_size (g_server_meta s) = 64 \<and>
     mt_min_message_size (g_server_meta s) = 3 \<and> mt_max_message_size (g_server_meta s) = 512"

lemma after_pings_fields:
  assumes "after_pings k s t"
  shows "c_stdin t = c_stdin s" "c_files t = c_files s" "c_dir t = c_dir s" "c_capacity t = c_capacity s"
    "g_server_meta t = g_server_meta s" "c_infos t = c_infos s" "c_heap t = c_heap s" "c_metas t = c_metas s"
    "g_active_thread_exists t = g_active_thread_exists s" "g_active_thread_id t = g_active_thread_id s"
    "c_stdout t = c_stdout s" "sent t = sent s @ concat (replicate k (framed ''LIVE''))"
    "length (c_response_size t) = 8" "g_server_queries t = g_server_queries s" "c_pending t = c_pending s"
  using assms by (auto simp: after_pings_def)

text \<open>What prompts, pings and exchanges leave as it is.\<close>

definition undisturbed :: "client \<Rightarrow> client \<Rightarrow> bool" where
  "undisturbed s t \<longleftrightarrow> c_files t = c_files s \<and> c_dir t = c_dir s \<and> c_capacity t = c_capacity s \<and>
     g_server_meta t = g_server_meta s \<and> c_infos t = c_infos s \<and> c_heap t = c_heap s \<and> c_metas t = c_metas s \<and>
     c_history t = c_history s \<and> g_server_addr_history t = g_server_addr_history s \<and>
     g_server_queries t = g_server_queries s \<and>
     g_active_thread_exists t = g_active_thread_exists s \<and> g_active_thread_id t = g_active_thread_id s"

lemma undisturbed_refl [simp]: "undisturbed s s"
  by (simp add: undisturbed_def)

lemma undisturbed_trans: "undisturbed s t \<Longrightarrow> undisturbed t u \<Longrightarrow> undisturbed s u"
  by (simp add: undisturbed_def)

lemma undisturbed_upd [simp]:
  "undisturbed s (t\<lparr>c_stdout := x\<rparr>) = undisturbed s t" "undisturbed s (t\<lparr>c_stdin := y\<rparr>) = undisturbed s t"
  "undisturbed s (t\<lparr>c_pending := pend\<rparr>) = undisturbed s t" "undisturbed s (t\<lparr>c_response_size := z\<rparr>) = undisturbed s t"
  "undisturbed s (t\<lparr>g_server_fd := sk\<rparr>) = undisturbed s t" "undisturbed s (t\<lparr>c_events := ess\<rparr>) = undisturbed s t"
  "undisturbed (s\<lparr>c_stdout := x\<rparr>) t = undisturbed s t"
  by (simp_all add: undisturbed_def)

lemma after_pings_undisturbed:
  assumes "after_pings k s t"
  shows "undisturbed s t" and "c_stdin t = c_stdin s" and "c_stdout t = c_stdout s"
    and "sent t = sent s @ concat (replicate k (framed ''LIVE''))" and "c_events t = tl (c_events s)"
  using assms by (auto simp: after_pings_def)

text \<open>A prompt for a text, and the query that is made of it.\<close>

lemma prompt_law:
  assumes t: "talks junk k r a a' s" and line: "c_stdin s = str @ newline # rest" "typed str"
    and len: "3 \<le> unat mn" "unat mn \<le> length str" "unat mn \<le> unat mx" "unat mx < 2147483647"
  obtains s1 ans sk pend where "ask_range mn mx s = Inr (of_nat (min (unat mx) (length str)), take (unat mx) str, s1)"
    and "respond junk r a = Inr (ans, a')" and "undisturbed s s1" and "c_stdin s1 = left_over (unat mx) str rest"
    and "c_stdout s1 = c_stdout s"
    and "run_query parser \<lparr>ld_data = packet r, ld_size = of_nat (length (packet r))\<rparr> (say_newline s1) =
      parse_response parser (ans @ [NUL]) (length ans) Null (exchanged sk ans pend (say_newline s1))"
    and "ready (exchanged sk ans pend (say_newline s1))"
    and "sk_out sk = sent s @ concat (replicate k (framed ''LIVE'')) @ framed (packet r)"
    and "c_events s1 = tl (c_events s)"
proof -
  obtain s1 ans es where m: "meanwhile s = Inr s1" and p: "after_pings k s s1" and r1: "ready s1"
    and wf: "wf_request r" and resp: "respond junk r a = Inr (ans, a')"
    and h: "hears (sk_rx (g_server_fd s1)) ans es" and w: "willing (length (packet r) + 2) (g_server_fd s1)"
    by (rule talks_meanwhile[OF t])
  note p = after_pings_undisturbed[OF p]
  let ?s1 = "s1\<lparr>c_stdin := left_over (unat mx) str rest\<rparr>"
  have ask: "ask_range mn mx s = Inr (of_nat (min (unat mx) (length str)), take (unat mx) str, ?s1)"
    using ask_range_law[OF m _ line(2), of rest mn mx] line(1) p(2) len by simp
  have s2: "ready (say_newline ?s1)" "hears (sk_rx (g_server_fd (say_newline ?s1))) ans es"
    "willing (0 + length (packet r) + 2) (g_server_fd (say_newline ?s1))"
    using r1 h w by (simp_all add: print_defs)
  obtain sk pend where "run_query parser \<lparr>ld_data = packet r, ld_size = of_nat (length (packet r))\<rparr> (say_newline ?s1) =
      parse_response parser (ans @ [NUL]) (length ans) Null (exchanged sk ans pend (say_newline ?s1))"
    "ready (exchanged sk ans pend (say_newline ?s1))" "sk_out sk = sent (say_newline ?s1) @ framed (packet r)"
    by (rule client_request[OF s2(1) wf s2(2,3)])
  then show ?thesis
    using ask resp p by (intro that[of ?s1 ans sk pend]) (assumption | simp add: print_defs)+
qed

section \<open>Creating a thread\<close>

lemma limits_knownD:
  assumes "limits_known s"
  shows "mt_min_topic_size (g_server_meta s) = 3" and "mt_max_topic_size (g_server_meta s) = 64"
    and "mt_min_message_size (g_server_meta s) = 3" and "mt_max_message_size (g_server_meta s) = 512"
  using assms by (simp_all add: limits_known_def)

lemma create_law:
  assumes t: "talks junk k (Create topic) a a' s" and l: "limits_known s" and d: "c_dir s"
    and cap: "16 \<le> c_capacity s pointer_size" and line: "c_stdin s = topic @ newline # rest" "newline \<notin> set topic"
    and i: "store_ok (c_infos s)"
  obtains u v where "cmd_thread_create s = Inr u" and "as_threads a' = as_threads a @ [v]" and "at_topic v = topic"
    and "g_active_thread_exists u" and "g_active_thread_id u = at_id v"
    and "\<exists>token. map_option snd (at_author v) = Some token \<and> c_files u = (c_files s)(show_u64 (at_id v) \<mapsto> token)"
    and "c_stdin u = left_over 64 topic rest"
    and "sent u = sent s @ concat (replicate k (framed ''LIVE'')) @ framed (packet (Create topic))"
    and "ready u" and "store_ok (c_infos u)"
proof -
  let ?r = "Create topic"
  have topic: "typed topic" "3 \<le> length topic" "length topic \<le> 64" and wf: "wf_request ?r"
    using t line(2) by (simp_all add: talks_def wire_topic_def typed_def)
  define s0 where "s0 = print_prefix_thread (say (''Thread topic '' @ limits 3 64) s)"
  have s0: "s0 = s\<lparr>c_stdout := c_stdout s0\<rparr>" by (simp add: s0_def print_defs)
  then have k0: "talks junk k ?r a a' s0" "undisturbed s s0" "c_stdin s0 = topic @ newline # rest" "sent s0 = sent s"
    using t line(1) by (simp_all add: s0_def print_defs)
  have lens: "3 \<le> unat (3 :: u64)" "unat (3 :: u64) \<le> length topic" "unat (3 :: u64) \<le> unat (64 :: u64)"
    "unat (64 :: u64) < 2147483647" using topic(2) by simp_all
  obtain s1 ans sk pend where ask: "ask_range 3 64 s0 = Inr (of_nat (min (unat (64 :: u64)) (length topic)), take (unat (64 :: u64)) topic, s1)"
    and resp: "respond junk ?r a = Inr (ans, a')" and k1: "undisturbed s0 s1" and rest: "c_stdin s1 = left_over (unat (64 :: u64)) topic rest"
    and "c_stdout s1 = c_stdout s0"
    and run: "run_query Parse_response_CTHR \<lparr>ld_data = packet ?r, ld_size = of_nat (length (packet ?r))\<rparr> (say_newline s1) =
      parse_response Parse_response_CTHR (ans @ [NUL]) (length ans) Null (exchanged sk ans pend (say_newline s1))"
    and rdy: "ready (exchanged sk ans pend (say_newline s1))"
    and out: "sk_out sk = sent s0 @ concat (replicate k (framed ''LIVE'')) @ framed (packet ?r)"
    by (rule prompt_law[OF k0(1,3) topic(1) lens])
  define s2 where "s2 = say_newline s1"
  have s2: "undisturbed s s2" "c_stdin s2 = left_over 64 topic rest"
    using undisturbed_trans[OF k0(2) k1] rest by (simp_all add: s2_def print_defs)
  have files: "c_dir s2" "c_files s2 = c_files s" "c_infos s2 = c_infos s" "c_capacity s2 = c_capacity s"
    using s2(1) d by (simp_all add: undisturbed_def)
  have n: "unat (of_nat (length topic) :: u64) = length topic" using topic(3) by (intro unat_of_nat64) simp
  obtain r0 r1 r2 token dev where a': "as_threads a' = as_threads a @
      [(new_thread (as_next a) r1 topic)\<lparr>at_author := Some (r2, token)\<rparr>]"
    and ans: "ans = cthr_response junk (as_next a) token" and tk: "rand_string 24 dev = Inr (token, r0)"
    using resp by (auto simp: Let_def)
  have tok: "length token = 24" "NUL \<notin> set token" using rand_string_ok[OF tk] rand_string_no_NUL[OF tk] by simp_all
  let ?info = "\<lparr>ct_thread_id = as_next a, ct_token = token\<rparr>" and ?b = "brk (c_infos s)"
  have parse: "parse_response Parse_response_CTHR (ans @ [NUL]) (length ans) Null (exchanged sk ans pend s2) =
      Inr (Ptr ?b, exchanged sk ans pend s2\<lparr>c_infos := snd (new_obj ?info (c_infos s))\<rparr>)"
    using parse_response_CTHR_law[OF _ tok, of "c_capacity s" junk "as_next a" "[NUL]"] cap
    by (simp add: parse_response_def files ans new_obj_def)
  have gen: "gen_query_CTHR (topic @ [NUL]) (length topic) =
      Inr \<lparr>ld_data = packet ?r, ld_size = of_nat (length (packet ?r))\<rparr>"
    using generate_packet[OF wf] by simp
  let ?u = "exchanged sk ans pend s2\<lparr>g_active_thread_exists := True, g_active_thread_id := as_next a,
    c_files := (c_files s)(show_u64 (as_next a) \<mapsto> token),
    c_infos := (snd (new_obj ?info (c_infos s)))\<lparr>cells := (cells (snd (new_obj ?info (c_infos s))))(?b := None)\<rparr>\<rparr>"
  have long: "\<not> too_short (of_nat (length topic))" using topic(3) by (intro not_too_short) simp
  have ask': "ask_range 3 64 s0 = Inr (of_nat (length topic), topic, s1)" using ask topic(3) by (simp add: min_def)
  have "cmd_thread_create s = Inr ?u"
    by (simp add: cmd_thread_create_def Let_def limits_knownD[OF l] ask' gen n long run[folded s2_def] parse files
      token_save_law new_obj_def del: append_Cons flip: s0_def s2_def)
  moreover have "store_ok (c_infos ?u)" using i by (simp add: store_ok_def new_obj_def)
  moreover have "ready ?u" using rdy by (simp add: s2_def)
  ultimately show ?thesis
    using a' s2(2) out k0(4) by (intro that[of ?u]) (assumption | simp add: new_thread_def)+
qed

section \<open>Showing a thread\<close>

text \<open>Commands that ask at once.\<close>

definition asks :: "(nat \<Rightarrow> byte) \<Rightarrow> request \<Rightarrow> aserver \<Rightarrow> aserver \<Rightarrow> client \<Rightarrow> bool" where
  "asks junk r a a' s \<longleftrightarrow> ready s \<and> wf_request r \<and> willing (length (packet r) + 2) (g_server_fd s) \<and>
     (\<exists>ans es. respond junk r a = Inr (ans, a') \<and> hears (sk_rx (g_server_fd s)) ans es)"

text \<open>The active thread is on the server, and the client has room and random numbers for it.\<close>

definition shows_thread :: "(nat \<Rightarrow> byte) \<Rightarrow> athread \<Rightarrow> aserver \<Rightarrow> client \<Rightarrow> bool" where
  "shows_thread junk v a s \<longleftrightarrow> asks junk (Get (at_id v)) a a s \<and> thread_with (at_id v) (as_threads a) = Some v \<and>
     wire_thread v \<and> g_active_thread_exists s \<and> g_active_thread_id s = at_id v \<and> heap_ok (c_heap s) \<and>
     8 \<le> length (urandom (c_heap s))"

lemma fetch_thread_law:
  assumes "shows_thread junk v a s"
  obtains p u first where "fetch_thread s = Inr (p, u)" and "heap_ok (c_heap u)"
    and "thread_at (c_heap u) = (thread_at (c_heap s))(p \<mapsto> received junk first v)" and "thread_at (c_heap s) p = None"
    and "c_stdout u = c_stdout s" and "sent u = sent s @ framed (packet (Get (at_id v)))" and "ready u"
proof -
  have asks: "asks junk (Get (at_id v)) a a s" and v: "thread_with (at_id v) (as_threads a) = Some v" "wire_thread v"
    and act: "g_active_thread_id s = at_id v" and heap: "heap_ok (c_heap s)" "8 \<le> length (urandom (c_heap s))"
    using assms by (simp_all add: shows_thread_def)
  obtain ans es where r: "ready s" "wf_request (Get (at_id v))" "respond junk (Get (at_id v)) a = Inr (ans, a)"
    "hears (sk_rx (g_server_fd s)) ans es" and w: "willing (0 + length (packet (Get (at_id v))) + 2) (g_server_fd s)"
    using asks unfolding asks_def by auto
  have ans: "ans = gthr_response junk v" using r(3) v(1) by simp
  obtain sk pend where run: "run_query Parse_response_GTHR \<lparr>ld_data = packet (Get (at_id v)), ld_size = of_nat (length (packet (Get (at_id v))))\<rparr> s =
      parse_response Parse_response_GTHR (ans @ [NUL]) (length ans) Null (exchanged sk ans pend s)"
    and rdy: "ready (exchanged sk ans pend s)" and out: "sk_out sk = sent s @ framed (packet (Get (at_id v)))"
    by (rule client_request[OF r(1,2,4) w])
  have gen: "gen_query_GTHR (at_id v) = Inr \<lparr>ld_data = packet (Get (at_id v)), ld_size = of_nat (length (packet (Get (at_id v))))\<rparr>"
    using generate_packet[OF r(2)] by simp
  obtain rr where rnd: "rand_uint64_t (urandom (c_heap s)) = Inr (rr, drop 8 (urandom (c_heap s)))"
    using rand_uint64_returns[OF heap(2)] by blast
  have "forum_ok (c_heap s)" using heap(1) by (simp add: heap_ok_def)
  from parse_response_GTHR_law[OF this rnd v(2), of junk "[NUL]"] obtain p t where
    t: "parse_response_GTHR (gthr_response junk v @ [NUL]) (c_heap s) = Inr (0, Some p, t)"
      "thread_at (c_heap s) p = None" "thread_at t = (thread_at (c_heap s))(p \<mapsto> received junk (rr mod 0xffffffff) v)"
    by blast
  have "heap_ok t" using parse_GTHR_tame[OF heap(1), of "gthr_response junk v @ [NUL]"] t(1) by (simp add: tame_def)
  moreover have "fetch_thread s = Inr (p, exchanged sk ans pend s\<lparr>c_heap := t\<rparr>)"
    using run t(1) by (simp add: fetch_thread_def act gen parse_response_def ans)
  ultimately show ?thesis
    using t(2,3) out rdy by (intro that[of p "exchanged sk ans pend s\<lparr>c_heap := t\<rparr>" "rr mod 0xffffffff"]) simp_all
qed

lemma drop_thread_law:
  assumes "heap_ok (c_heap s)" and "thread_at (c_heap s) p = Some w"
  obtains heap where "drop_thread p s = Inr (s\<lparr>c_heap := heap\<rparr>)" and "heap_ok heap"
    and "thread_at heap = (thread_at (c_heap s))(p := None)"
proof -
  have ok: "forum_ok (c_heap s)" "kinds_ok (f_threads (c_heap s)) (q_queues (c_heap s))" using assms(1) by (simp_all add: heap_ok_def)
  show ?thesis
    by (rule lethread_delete_law[OF ok assms(2), where n = 2])
      (auto simp: drop_thread_def call_destructor_def eval_nat_numeral heap_ok_def intro: that)
qed

text \<open>What is shown of a message.\<close>

definition shown_message :: "amessage \<Rightarrow> bytes" where
  "shown_message m = ''msg #'' @ show_u64 (am_id m) @ (if am_by m \<noteq> 0 then '' (OP)'' else []) @ '':'' @ [newline] @
     ''  '' @ am_text m @ [newline]"

lemma say_say: "say a (say b s) = say (b @ a) s"
  by (simp add: say_def)

lemma print_messages_law:
  assumes "list_all2 (\<lambda>p m. msg_view (f_messages (c_heap s)) p = Some m) ps ms"
  shows "print_messages ps s = Inr (say (concat (map shown_message ms)) s)"
  using assms
proof (induction ps arbitrary: ms s)
  case Nil
  then show ?case by (simp add: say_def)
next
  case (Cons p ps)
  obtain m ms' where ms: "ms = m # ms'" "msg_view (f_messages (c_heap s)) p = Some m"
    "list_all2 (\<lambda>p m. msg_view (f_messages (c_heap s)) p = Some m) ps ms'"
    using Cons.prems by (auto simp: list_all2_Cons1)
  from ms(2) obtain b x tx where x: "p = Ptr b" "cells (f_messages (c_heap s)) b = Some x" "lm_text x = Some tx"
    "m = \<lparr>am_id = lm_id x, am_text = tx, am_by = lm_by_lethread_author x\<rparr>"
    by (rule msg_viewE)
  have "print_messages ps (say str s) = Inr (say (concat (map shown_message ms')) (say str s))" for str
    by (rule Cons.IH) (use ms(3) in \<open>simp add: say_def\<close>)
  moreover have "shown_message m = ''msg #'' @ show_u64 (lm_id x) @ (if lm_by_lethread_author x \<noteq> 0 then '' (OP)'' else []) @
      '':'' @ [newline] @ ''  '' @ tx @ [newline]"
    by (simp add: shown_message_def x(4))
  ultimately show ?case by (simp add: x(1-3) ms(1) Let_def say_say printed_def)
qed

definition shown_messages :: "amessage list \<Rightarrow> bytes" where
  "shown_messages ms =
     (if ms = [] then ''No messages. Be first to post here!'' @ [newline] else concat (map shown_message ms)) @ [newline]"

lemma say_fields_kept:
  "c_heap (say str s) = c_heap s" "c_heap (puts str s) = c_heap s" "c_heap (say_newline s) = c_heap s"
  "c_stdout (say str s) = c_stdout s @ str" "c_stdout (puts str s) = c_stdout s @ str @ [newline]"
  "c_stdout (say_newline s) = c_stdout s @ [newline]"
  "sent (say str s) = sent s" "sent (puts str s) = sent s" "sent (say_newline s) = sent s"
  "ready (say str s) = ready s" "ready (puts str s) = ready s" "ready (say_newline s) = ready s"
  by (simp_all add: print_defs)

lemma message_history_law:
  assumes "shows_thread junk v a s"
  obtains u first where "cmd_thread_message_history s = Inr u"
    and "c_stdout u = c_stdout s @ shown_messages (at_messages (received junk first v))"
    and "sent u = sent s @ framed (packet (Get (at_id v)))" and "ready u" and "heap_ok (c_heap u)"
    and "thread_at (c_heap u) = thread_at (c_heap s)"
proof -
  obtain p t first where f: "fetch_thread s = Inr (p, t)" and ok: "heap_ok (c_heap t)"
    and at: "thread_at (c_heap t) = (thread_at (c_heap s))(p \<mapsto> received junk first v)" "thread_at (c_heap s) p = None"
    and out: "c_stdout t = c_stdout s" "sent t = sent s @ framed (packet (Get (at_id v)))" "ready t"
    by (rule fetch_thread_law[OF assms])
  let ?w = "received junk first v"
  have w: "thread_at (c_heap t) p = Some ?w" using at(1) by simp
  obtain c th where c: "p = Ptr c" "cells (f_threads (c_heap t)) c = Some th"
    and tv: "thread_view (items (c_heap t)) (f_messages (c_heap t)) (f_authors (c_heap t)) th = Some ?w"
    using w by (rule viewE)
  obtain ps where it: "items (c_heap t) (lt_messages th) = Some ps"
    and ms: "those (map (msg_view (f_messages (c_heap t))) ps) = Some (at_messages ?w)"
    using tv by (rule thread_viewE)
  obtain b x where q: "lt_messages th = Ptr b" "cells (q_queues (c_heap t)) b = Some x" using it by (rule qitems_live)
  have "queue_ok (c_heap t)" using ok by (simp add: heap_ok_def)
  from q_first_Null_iff(2)[OF this it[unfolded q(1)] q(2)] have n: "q_size x = length ps" .
  have ms2: "list_all2 (\<lambda>p m. msg_view (f_messages (c_heap t)) p = Some m) ps (at_messages ?w)"
    using ms unfolding those_map_Some by simp
  then have len: "length ps = length (at_messages ?w)" by (rule list_all2_lengthD)
  define body where "body = (if at_messages ?w = [] then ''No messages. Be first to post here!'' @ [newline]
    else concat (map shown_message (at_messages ?w)))"
  have list: "(if 0 < q_size x then andthen (queue_items (lt_messages th) (c_heap t)) (\<lambda>ps. print_messages ps t)
      else Inr (puts ''No messages. Be first to post here!'' t)) = Inr (say body t)"
    using print_messages_law[OF ms2] len by (simp add: n queue_items_iff[THEN iffD2, OF it] body_def puts_def del: append_Cons)
  have after: "heap_ok (c_heap (say_newline (say body t)))" "thread_at (c_heap (say_newline (say body t))) p = Some ?w"
    using ok w by (simp_all add: say_fields_kept)
  obtain heap where drop: "drop_thread p (say_newline (say body t)) = Inr (say_newline (say body t)\<lparr>c_heap := heap\<rparr>)"
    "heap_ok heap" "thread_at heap = (thread_at (c_heap (say_newline (say body t))))(p := None)"
    by (rule drop_thread_law[OF after])
  have act: "g_active_thread_exists s" using assms by (simp add: shows_thread_def)
  have "cmd_thread_message_history s = Inr (say_newline (say body t)\<lparr>c_heap := heap\<rparr>)"
    using c q drop(1) list by (simp add: cmd_thread_message_history_def act f)
  moreover have "thread_at heap = thread_at (c_heap s)" using drop(3) at by (simp add: say_fields_kept fun_upd_idem)
  ultimately show ?thesis
    using out drop(2) by (intro that[of "say_newline (say body t)\<lparr>c_heap := heap\<rparr>" first])
      (simp_all add: say_fields_kept shown_messages_def body_def)
qed

section \<open>Posting\<close>

lemma token_load_none:
  "g_active_thread_exists s \<Longrightarrow> c_files s (show_u64 (g_active_thread_id s)) = None \<Longrightarrow>
    token_load s = Inr (err LESTATUS_NSFD, None, s)"
  by (simp add: token_load_def get_leclient_file_def)

lemma parse_reply_as_thread:
  "ans = ''OK'' \<or> ans = ''NFND'' \<Longrightarrow> parse_response_GTHR (ans @ [NUL]) heap = Inr (err LESTATUS_IDAT, None, heap)"
  by (auto simp: parse_response_GTHR_def keyword_def at_lit_def)

lemma send_message_law:
  assumes t: "talks junk k (Post i (take 64 str) token) a a' s" and l: "limits_known s"
    and act: "g_active_thread_exists s" "g_active_thread_id s = i" and d: "c_dir s"
    and tok: "c_files s (show_u64 i) = token" "\<forall>tk. token = Some tk \<longrightarrow> newline \<notin> set tk"
    and line: "c_stdin s = str @ newline # rest" "typed str" and len: "3 \<le> length str"
  obtains u where "cmd_thread_send_message s = Inr u" and "undisturbed s u" and "c_stdin u = left_over 64 str rest"
    and "sent u = sent s @ concat (replicate k (framed ''LIVE'')) @ framed (packet (Post i (take 64 str) token))"
    and "ready u"
proof -
  let ?r = "Post i (take 64 str) token"
  have wf: "wf_request ?r" using t by (simp add: talks_def)
  define s0 where "s0 = say (''Type your message '' @ limits 3 512) s"
  have k0: "talks junk k ?r a a' s0" "undisturbed s s0" "c_stdin s0 = str @ newline # rest" "sent s0 = sent s"
    using t line(1) by (simp_all add: s0_def print_defs)
  have lens: "3 \<le> unat (3 :: u64)" "unat (3 :: u64) \<le> length str" "unat (3 :: u64) \<le> unat (64 :: u64)"
    "unat (64 :: u64) < 2147483647" using len by simp_all
  obtain s1 ans sk pend where ask: "ask_range 3 64 s0 = Inr (of_nat (min (unat (64 :: u64)) (length str)), take (unat (64 :: u64)) str, s1)"
    and resp: "respond junk ?r a = Inr (ans, a')" and k1: "undisturbed s0 s1" and rest: "c_stdin s1 = left_over (unat (64 :: u64)) str rest"
    and "c_stdout s1 = c_stdout s0"
    and run: "run_query Parse_response_GTHR \<lparr>ld_data = packet ?r, ld_size = of_nat (length (packet ?r))\<rparr> (say_newline s1) =
      parse_response Parse_response_GTHR (ans @ [NUL]) (length ans) Null (exchanged sk ans pend (say_newline s1))"
    and rdy: "ready (exchanged sk ans pend (say_newline s1))"
    and out: "sk_out sk = sent s0 @ concat (replicate k (framed ''LIVE'')) @ framed (packet ?r)"
    by (rule prompt_law[OF k0(1,3) line(2) lens])
  define s2 where "s2 = say_newline s1"
  have s2: "undisturbed s s2" "c_stdin s2 = left_over 64 str rest"
    using undisturbed_trans[OF k0(2) k1] rest by (simp_all add: s2_def print_defs)
  have f2: "c_dir s2" "c_files s2 = c_files s" "g_active_thread_exists s2" "g_active_thread_id s2 = i"
    using s2(1) d act by (simp_all add: undisturbed_def)
  have n: "unat (of_nat (min 64 (length str)) :: u64) = length (take 64 str)" by (subst unat_of_nat64) simp_all
  have long: "\<not> too_short (of_nat (min 64 (length str)))" by (intro not_too_short) simp
  have "ans = ''OK'' \<or> ans = ''NFND''" using resp by (auto split: option.splits)
  note reply = parse_reply_as_thread[OF this]
  obtain st where load: "token_load s2 = Inr (st, map_option (\<lambda>tk. tk @ [NUL]) token, s2)"
    and st: "st = err LESTATUS_NSFD \<or> st = err LESTATUS_IDAT \<longleftrightarrow> token = None"
  proof (cases token)
    case None
    with token_load_none[of s2] f2 tok(1) that show ?thesis by simp
  next
    case (Some tk)
    have "length tk = 24" "NUL \<notin> set tk" using wf Some by (simp_all add: token_ok_def)
    with Some f2 tok that show ?thesis
      using token_load_law[of s2 tk] by (fastforce simp: TOKEN_SIZE_def)
  qed
  have gen: "gen_query_CMSG i (take 64 str @ [NUL]) (min (length str) 64) (map_option (\<lambda>tk. tk @ [NUL]) token) =
      Inr \<lparr>ld_data = packet ?r, ld_size = of_nat (length (packet ?r))\<rparr>"
    using generate_packet[OF wf] by (simp only: generate.simps length_take)
  let ?u = "exchanged sk ans pend s2"
  have ask': "ask_range 3 64 s0 = Inr (of_nat (min 64 (length str)), take 64 str, s1)" using ask by simp
  have q: "run_query Parse_response_GTHR \<lparr>ld_data = packet ?r, ld_size = of_nat (length (packet ?r))\<rparr> s2 = Inr (Null, ?u)"
    using run by (simp add: parse_response_def reply s2_def)
  have "cmd_thread_send_message s = Inr ?u"
    using gen q st by (cases token) (simp_all add: cmd_thread_send_message_def Let_def act(1) limits_knownD[OF l] ask_block_fits ask' long load f2(4) n
      del: append_Cons flip: s0_def s2_def)
  then show ?thesis
    using s2 out rdy k0(4) by (intro that[of ?u]) (assumption | simp add: s2_def)+
qed

section \<open>Connecting\<close>

text \<open>Disconnected and idle; the next attempt to connect meets a server that behaves like \<open>a\<close>.\<close>

definition may_connect :: "aserver \<Rightarrow> socket \<Rightarrow> client \<Rightarrow> bool" where
  "may_connect a sk s \<longleftrightarrow> \<not> g_server_connected s \<and> g_working s \<and> pending_ok (g_server_queries s) (c_pending s) \<and>
     length (c_response_size s) = 8 \<and> store_ok (c_metas s) \<and>
     (\<exists>net. c_net s = Connects sk # net) \<and> willing (length (packet Meta) + 2) sk \<and>
     (\<exists>es. hears (sk_rx sk) (meta_response (length (as_threads a))) es)"

lemma server_connect_law:
  assumes m: "may_connect a sk s" and addr: "inet_pton addr \<noteq> None" "word_ok addr" and h: "history_file s aps"
  obtains (overruns) "c_capacity s pointer_size < 56" and "server_connect addr port s = Inl OutOfBounds"
  | (connects) u where "56 \<le> c_capacity s pointer_size" and "server_connect addr port s = Inr (ok_status, u)" and "ready u" and "limits_known u"
    and "mt_version (g_server_meta u) = get_version" and "mt_thread_count (g_server_meta u) = of_nat (length (as_threads a))"
    and "g_server_haddr u = \<lparr>ha_addr = addr, ha_port = port\<rparr>" and "history_file u (add_new (addr, port) aps)"
    and "sent u = sk_out sk @ framed (packet Meta)" and "c_stdin u = c_stdin s" and "c_stdout u = c_stdout s"
    and "g_active_thread_exists u = g_active_thread_exists s"
proof -
  have s: "\<not> g_server_connected s" "g_working s" "pending_ok (g_server_queries s) (c_pending s)"
    "length (c_response_size s) = 8" "store_ok (c_metas s)" "willing (length (packet Meta) + 2) sk"
    using m by (simp_all add: may_connect_def)
  obtain net es where net: "c_net s = Connects sk # net" and hr: "hears (sk_rx sk) (meta_response (length (as_threads a))) es"
    using m by (auto simp: may_connect_def)
  obtain octets where oct: "inet_pton addr = Some octets" using addr(1) by blast
  let ?ans = "meta_response (length (as_threads a))"
  define s1 where "s1 = s\<lparr>g_server_addr := (g_server_addr s)\<lparr>sin_port := port, sin_addr := octets\<rparr>, c_net := net, g_server_fd := sk\<rparr>"
  have "history_file s1 aps" using h by (simp add: s1_def history_file_def)
  from server_addr_save_law[OF this addr(2), of port] obtain st t where
    save: "server_addr_save addr port s1 = Inr (st, t)" "history_file t (add_new (addr, port) aps)"
      "t = s1\<lparr>c_files := (c_files s1)(FILE_SERVER_HISTORY := c_files t FILE_SERVER_HISTORY)\<rparr>"
    by blast
  define s2 where "s2 = t\<lparr>g_server_connected := True\<rparr>"
  obtain F where F: "t = s1\<lparr>c_files := F\<rparr>" using save(3) by blast
  then have s2: "s2 = s1\<lparr>c_files := F, g_server_connected := True\<rparr>" by (simp add: s2_def)
  have r2: "ready s2" "hears (sk_rx (g_server_fd s2)) ?ans es" "willing (0 + length (packet Meta) + 2) (g_server_fd s2)"
    using s hr by (simp_all add: s2 s1_def ready_def)
  obtain sk' pend where run: "run_query Parse_response_META \<lparr>ld_data = packet Meta, ld_size = of_nat (length (packet Meta))\<rparr> s2 =
      parse_response Parse_response_META (?ans @ [NUL]) (length ?ans) Null (exchanged sk' ?ans pend s2)"
    and rdy: "ready (exchanged sk' ?ans pend s2)" and out: "sk_out sk' = sent s2 @ framed (packet Meta)"
    by (rule client_request[OF r2(1) _ r2(2,3)]) simp_all
  have gen: "gen_query_META = Inr \<lparr>ld_data = packet Meta, ld_size = of_nat (length (packet Meta))\<rparr>"
    using generate_packet[of Meta] by simp
  have fields: "c_metas s2 = c_metas s" "c_capacity s2 = c_capacity s" by (simp_all add: s2 s1_def)
  note parsed = meta_response_parsed[of "c_capacity s" "length (as_threads a)" "[NUL]"]
  show ?thesis
  proof (cases "56 \<le> c_capacity s pointer_size")
    case False
    then have "server_connect addr port s = Inl OutOfBounds"
      using s(1) net oct save(1)[unfolded F] run parsed fields
      by (simp add: server_connect_def gen parse_response_def s2 s1_def)
    with False show ?thesis by (intro overruns) simp_all
  next
    case True
    let ?b = "brk (c_metas s)"
    obtain x where x: "parse_response_META (c_capacity s) (?ans @ [NUL]) = Inr (0, Some x)"
      "mt_min_topic_size x = 3" "mt_max_topic_size x = 64" "mt_min_message_size x = 3" "mt_max_message_size x = 512"
      "mt_version x = get_version" "mt_thread_count x = of_nat (length (as_threads a))"
      using parsed True by (simp add: get_version_def)
    let ?u = "exchanged sk' ?ans pend s2\<lparr>c_metas := (snd (new_obj x (c_metas s)))\<lparr>cells := (cells (snd (new_obj x (c_metas s))))(?b := None)\<rparr>,
      g_server_haddr := \<lparr>ha_addr = addr, ha_port = port\<rparr>, g_server_meta := x\<lparr>mt_version_size := mt_version_size (g_server_meta s)\<rparr>\<rparr>"
    have "server_connect addr port s = Inr (ok_status, ?u)"
      using s(1) net oct save(1)[unfolded F] run x(1) fields
      by (simp add: server_connect_def gen parse_response_def new_obj_def s2 s1_def)
    moreover have "history_file ?u (add_new (addr, port) aps)" using save(2) by (simp add: history_file_def F s2)
    moreover have "ready ?u" using rdy by (simp add: ready_def)
    ultimately show ?thesis
      using True out x(2-) by (intro connects[of ?u]) (simp_all add: limits_known_def s2 s1_def)
  qed
qed

end
