(* ===== verification/Client_Find.thy ===== *)
theory Client_Find
  imports Client_Session
begin

text \<open>
  Searching from the client: the threads whose topic contains what was typed are listed, and the
  number that is typed then makes one of them the active thread.
\<close>

section \<open>The list\<close>

lemma parse_found:
  assumes "heap_ok s" and "list_all (wire_entry \<circ> entry_of) vs" and "8 * length vs \<le> length (urandom s)"
  obtains q t ds where "parse_response_FTHR (fthr_response vs @ rest) (length (fthr_response vs)) s = Inr (0, Some q, t)"
    and "gathered t q ds" and "list_all2 (\<lambda>d v. \<exists>w. thread_at t d = Some w \<and> at_id w = at_id v \<and> at_topic w = at_topic v) ds vs"
proof -
  have "forum_ok s" using assms(1) by (simp add: heap_ok_def)
  from parse_response_FTHR_law[OF this assms(2,3), of rest] obtain q t where
    p: "parse_response_FTHR (fthr_response vs @ rest) (length (fthr_response vs)) s = Inr (0, Some q, t)"
      "collected t q (map entry_of vs)" by blast
  from parse_FTHR_tame[OF assms(1), of "fthr_response vs @ rest" "length (fthr_response vs)"] p(1)
  obtain ds where g: "gathered t q ds" by (auto simp: tame_def)
  then have "list_all2 (\<lambda>d e. \<exists>w. thread_at t d = Some w \<and> entry_of w = e) ds (map entry_of vs)"
    using p(2) by (auto simp: collected_def gathered_def)
  then have "list_all2 (\<lambda>d v. \<exists>w. thread_at t d = Some w \<and> at_id w = at_id v \<and> at_topic w = at_topic v) ds vs"
    by (simp add: list_all2_map2)
  with p(1) g show ?thesis by (rule that)
qed

fun shown_topics :: "nat \<Rightarrow> athread list \<Rightarrow> bytes" where
  "shown_topics i [] = []"
| "shown_topics i (v # vs) = decimal i @ ''. '' @ at_topic v @ [newline] @ shown_topics (Suc i) vs"

abbreviation listed :: "mem_forum \<Rightarrow> ptr list \<Rightarrow> athread list \<Rightarrow> bool" where
  "listed h \<equiv> list_all2 (\<lambda>d v. \<exists>w. thread_at h d = Some w \<and> at_id w = at_id v \<and> at_topic w = at_topic v)"

lemma thread_fields:
  assumes "thread_at h p = Some w"
  obtains t where "deref (f_threads h) p = Inr t" and "lt_topic t = Some (at_topic w)" and "lt_id t = at_id w"
  using assms by (auto elim!: viewE thread_viewE)

lemma print_threads_law:
  assumes "listed (c_heap s) ds vs"
  shows "print_threads i ds s = Inr (say (shown_topics i vs) s)"
  using assms
proof (induction ds arbitrary: i vs s)
  case Nil
  then show ?case by (simp add: say_def)
next
  case (Cons d ds)
  obtain v vs' w where vs: "vs = v # vs'" "thread_at (c_heap s) d = Some w" "at_topic w = at_topic v" "listed (c_heap s) ds vs'"
    using Cons.prems by (auto simp: list_all2_Cons1)
  obtain t where t: "deref (f_threads (c_heap s)) d = Inr t" "lt_topic t = Some (at_topic w)"
    using vs(2) by (rule thread_fields)
  have "print_threads (Suc i) ds (say str s) = Inr (say (shown_topics (Suc i) vs') (say str s))" for str
    by (rule Cons.IH) (use vs(4) in \<open>simp add: say_def\<close>)
  then show ?case by (simp add: t vs(1,3) say_say printed_def del: deref.simps decimal.simps)
qed

section \<open>The choice\<close>

text \<open>What is asked when something was found, and the list above it.\<close>

definition found_text :: "bytes \<Rightarrow> athread list \<Rightarrow> bytes" where
  "found_text part vs = ''Here are the threads that match '' @ [QUOTE] @ part @ [QUOTE] @ '':'' @ [newline] @
     shown_topics 1 vs @ ''Choose the thread number (1-'' @ decimal (length vs) @
     ''). Type 'r' or any other number if you want to return:'' @ [newline] @ [newline] @ ''[Thread] > ''"

lemma choose_thread_law:
  assumes g: "gathered (c_heap s) q ds" and vs: "listed (c_heap s) ds vs" and quiet: "c_events s = []"
    and line: "c_stdin s = choice @ newline # rest" "typed choice" "length choice < 31"
  shows "choose_thread q (length ds) part s =
    (let t = s\<lparr>c_stdout := c_stdout s @ found_text part vs, c_stdin := rest\<rparr>; n = unat (strtoull choice) in
     if n < 1 \<or> length vs < n then Inr t
     else Inr (t\<lparr>g_active_thread_id := at_id (vs ! (n - 1)), g_active_thread_exists := True\<rparr>))"
proof -
  let ?n = "unat (strtoull choice)"
  have len: "length ds = length vs" using vs by (rule list_all2_lengthD)
  have nodes: "queue_items q (c_heap (say str s)) = Inr ds" for str using g by (simp add: gathered_def queue_items_iff say_def)
  have print: "print_threads (Suc 0) ds (say str s) = Inr (say (str @ shown_topics (Suc 0) vs) s)" for str
    using print_threads_law[of "say str s" ds vs "Suc 0"] vs by (simp add: say_say) (simp add: say_def)
  have ask: "ask 32 (print_prefix_thread (say str s)) =
      Inr (choice, s\<lparr>c_stdout := c_stdout s @ str @ [newline] @ ''[Thread] > '', c_stdin := rest\<rparr>)" for str
    using ask_law[of "print_prefix_thread (say str s)" "print_prefix_thread (say str s)" choice rest 32] line quiet
    by (simp add: meanwhile_def print_defs left_over_def)
  have pick: "\<exists>p ps t. drop (?n - 1) ds = p # ps \<and> deref (f_threads (c_heap s)) p = Inr t \<and> lt_id t = at_id (vs ! (?n - 1))"
    if "1 \<le> ?n" "?n \<le> length vs"
  proof -
    have i: "?n - 1 < length ds" using that len by simp
    obtain w where w: "thread_at (c_heap s) (ds ! (?n - 1)) = Some w" "at_id w = at_id (vs ! (?n - 1))"
      using list_all2_nthD[OF vs i] by blast
    obtain t where "deref (f_threads (c_heap s)) (ds ! (?n - 1)) = Inr t" "lt_id t = at_id w"
      using w(1) by (rule thread_fields)
    with w(2) i show ?thesis by (simp add: Cons_nth_drop_Suc[symmetric])
  qed
  show ?thesis
  proof (cases "?n < 1 \<or> length vs < ?n")
    case True
    then show ?thesis
      by (simp add: choose_thread_def nodes print ask say_say len found_text_def del: append_Cons decimal.simps)
  next
    case False
    then obtain p ps t where "drop (?n - 1) ds = p # ps" "deref (f_threads (c_heap s)) p = Inr t" "lt_id t = at_id (vs ! (?n - 1))"
      using pick by auto
    with False show ?thesis
      by (simp add: choose_thread_def nodes print ask say_say len found_text_def del: append_Cons decimal.simps deref.simps)
  qed
qed

section \<open>The command\<close>

definition matches :: "bytes \<Rightarrow> aserver \<Rightarrow> athread list" where
  "matches part a = filter (\<lambda>v. strstr (at_topic v) part) (as_threads a)"

text \<open>The client has random numbers for the threads it receives, and nothing happens during the second prompt.\<close>

definition finds :: "(nat \<Rightarrow> byte) \<Rightarrow> nat \<Rightarrow> bytes \<Rightarrow> aserver \<Rightarrow> client \<Rightarrow> bool" where
  "finds junk k part a s \<longleftrightarrow> talks junk k (Find part) a a s \<and> limits_known s \<and> tl (c_events s) = [] \<and> heap_ok (c_heap s) \<and>
     length part < 64 \<and> newline \<notin> set part \<and>
     list_all (wire_entry \<circ> entry_of) (matches part a) \<and> 8 * length (matches part a) \<le> length (urandom (c_heap s))"

lemma find_query_law:
  assumes f: "finds junk k part a s" and line: "c_stdin s = part @ newline # rest"
  obtains s1 s2 q ds where "ask_range 3 64 (print_prefix_thread (say (''Type part of the topic to find '' @ limits 3 64) s)) =
      Inr (of_nat (length part), part, s1)"
    and "run_query Parse_response_FTHR \<lparr>ld_data = packet (Find part), ld_size = of_nat (length (packet (Find part)))\<rparr> (say_newline s1) = Inr (q, s2)"
    and "gathered (c_heap s2) q ds" and "listed (c_heap s2) ds (matches part a)" and "c_events s2 = []"
    and "c_stdin s2 = rest" and "ready s2" and "undisturbed s (s2\<lparr>c_heap := c_heap s\<rparr>)"
    and "sent s2 = sent s @ concat (replicate k (framed ''LIVE'')) @ framed (packet (Find part))"
    and "c_stdout s2 = c_stdout s @ ''Type part of the topic to find '' @ limits 3 64 @ [newline] @ ''[Thread] > '' @ [newline]"
proof -
  let ?r = "Find part"
  have t: "talks junk k ?r a a s" and ev: "tl (c_events s) = []" and heap: "heap_ok (c_heap s)"
    and part: "length part < 64" "newline \<notin> set part"
    and wire: "list_all (wire_entry \<circ> entry_of) (matches part a)" "8 * length (matches part a) \<le> length (urandom (c_heap s))"
    using f by (simp_all add: finds_def)
  have wf: "3 \<le> length part" "typed part" using t part(2) by (simp_all add: talks_def wire_topic_def typed_def)
  define s0 where "s0 = print_prefix_thread (say (''Type part of the topic to find '' @ limits 3 64) s)"
  have k0: "talks junk k ?r a a s0" "undisturbed s s0" "c_stdin s0 = part @ newline # rest" "sent s0 = sent s" "c_events s0 = c_events s"
    "c_stdout s0 = c_stdout s @ ''Type part of the topic to find '' @ limits 3 64 @ [newline] @ ''[Thread] > ''"
    using t line by (simp_all add: s0_def print_defs)
  have lens: "3 \<le> unat (3 :: u64)" "unat (3 :: u64) \<le> length part" "unat (3 :: u64) \<le> unat (64 :: u64)"
    "unat (64 :: u64) < 2147483647" using wf by simp_all
  obtain s1 ans sk pend where ask: "ask_range 3 64 s0 = Inr (of_nat (min (unat (64 :: u64)) (length part)), take (unat (64 :: u64)) part, s1)"
    and resp: "respond junk ?r a = Inr (ans, a)" and k1: "undisturbed s0 s1" and inp: "c_stdin s1 = left_over (unat (64 :: u64)) part rest"
    and out1: "c_stdout s1 = c_stdout s0"
    and run: "run_query Parse_response_FTHR \<lparr>ld_data = packet ?r, ld_size = of_nat (length (packet ?r))\<rparr> (say_newline s1) =
      parse_response Parse_response_FTHR (ans @ [NUL]) (length ans) Null (exchanged sk ans pend (say_newline s1))"
    and rdy: "ready (exchanged sk ans pend (say_newline s1))"
    and out: "sk_out sk = sent s0 @ concat (replicate k (framed ''LIVE'')) @ framed (packet ?r)"
    and ev1: "c_events s1 = tl (c_events s0)"
    by (rule prompt_law[OF k0(1,3) wf(2) lens])
  have ans: "ans = fthr_response (matches part a)" using resp by (simp add: matches_def)
  have heap1: "c_heap s1 = c_heap s" using k0(2) k1 by (simp add: undisturbed_def)
  obtain q h ds where p: "parse_response_FTHR (ans @ [NUL]) (length ans) (c_heap s) = Inr (0, Some q, h)" "gathered h q ds"
    "listed h ds (matches part a)"
    unfolding ans by (rule parse_found[OF heap wire, of "[NUL]"])
  let ?s2 = "exchanged sk ans pend (say_newline s1)\<lparr>c_heap := h\<rparr>"
  have "run_query Parse_response_FTHR \<lparr>ld_data = packet ?r, ld_size = of_nat (length (packet ?r))\<rparr> (say_newline s1) = Inr (q, ?s2)"
    using run p(1) heap1 by (simp add: parse_response_def say_fields_kept)
  moreover have "ask_range 3 64 s0 = Inr (of_nat (length part), part, s1)" using ask part(1) by simp
  moreover have "c_stdin s1 = rest" using inp part(1) by (simp add: left_over_def)
  moreover have "undisturbed s s1" by (rule undisturbed_trans[OF k0(2) k1])
  ultimately show ?thesis
    using p(2,3) rdy out out1 ev ev1 k0(4,5,6) heap1
    by (intro that[of s1 q ?s2 ds]) (simp_all add: s0_def say_fields_kept undisturbed_def say_newline_def say_def)
qed

definition search_text :: "bytes \<Rightarrow> athread list \<Rightarrow> bytes" where
  "search_text part vs = ''Type part of the topic to find '' @ limits 3 64 @ [newline] @ ''[Thread] > '' @ [newline] @
     (if vs = [] then ''Nothing found.'' @ [newline] else found_text part vs) @ [newline]"

end
