(* ===== verification/Client_Safety.thy ===== *)
theory Client_Safety
  imports Client_Laws Client_Heap
begin

text \<open>
  The client whatever the server answers, whatever is typed and whenever a signal comes: its objects
  stay well formed, and no freed memory is used or freed again.
\<close>

section \<open>The invariant\<close>

definition objects_ok :: "client \<Rightarrow> bool" where
  "objects_ok s \<longleftrightarrow> heap_ok (c_heap s) \<and> history_ok (g_server_addr_history s) (c_history s) \<and>
     store_ok (c_infos s) \<and> store_ok (c_metas s)"

definition client_ok :: "client \<Rightarrow> bool" where
  "client_ok s \<longleftrightarrow> objects_ok s \<and> pending_ok (g_server_queries s) (c_pending s)"

text \<open>
  Every operation keeps that, and frees whatever it allocates for its query: the queues of the query thread,
  and the queries, are the ones \<open>F\<close> from before.
\<close>

type_synonym footprint = "(ptr \<Rightarrow> ptr list option) \<times> (addr \<Rightarrow> server_query option)"

definition keeps :: "footprint \<Rightarrow> client \<Rightarrow> bool" where
  "keeps F s \<longleftrightarrow> objects_ok s \<and> pending_ok (g_server_queries s) (c_pending s) \<and>
     items (c_pending s) = fst F \<and> cells (p_queries (c_pending s)) = snd F"

lemma keeps_ok: "keeps F s \<Longrightarrow> client_ok s"
  by (simp add: client_ok_def keeps_def)

lemma client_ok_keeps:
  assumes "client_ok s"
  obtains F where "keeps F s"
  using assms that[of "(items (c_pending s), cells (p_queries (c_pending s)))"] by (simp add: client_ok_def keeps_def)

lemma objects_ok_fields [simp]:
  "objects_ok (s\<lparr>g_server_fd := sk\<rparr>) = objects_ok s" "objects_ok (s\<lparr>c_response_size := bs\<rparr>) = objects_ok s"
  "objects_ok (s\<lparr>c_pending := pend\<rparr>) = objects_ok s" "objects_ok (s\<lparr>c_stdout := out\<rparr>) = objects_ok s"
  "objects_ok (s\<lparr>c_stdin := inp\<rparr>) = objects_ok s" "objects_ok (s\<lparr>c_files := fs\<rparr>) = objects_ok s"
  "objects_ok (s\<lparr>g_server_connected := b\<rparr>) = objects_ok s" "objects_ok (s\<lparr>g_active_thread_exists := b\<rparr>) = objects_ok s"
  "objects_ok (s\<lparr>g_active_thread_id := i\<rparr>) = objects_ok s" "objects_ok (s\<lparr>g_working := b\<rparr>) = objects_ok s"
  "objects_ok (s\<lparr>c_events := es\<rparr>) = objects_ok s" "objects_ok (s\<lparr>c_net := net\<rparr>) = objects_ok s"
  "objects_ok (s\<lparr>g_server_addr := a\<rparr>) = objects_ok s" "objects_ok (s\<lparr>g_server_haddr := ha\<rparr>) = objects_ok s"
  "objects_ok (s\<lparr>g_server_meta := m\<rparr>) = objects_ok s" "objects_ok (s\<lparr>g_home_dir := home\<rparr>) = objects_ok s"
  "objects_ok (s\<lparr>c_dir := b\<rparr>) = objects_ok s" "objects_ok (s\<lparr>g_server_queries := q\<rparr>) = objects_ok s"
  by (simp_all add: objects_ok_def)

lemma keeps_fields [simp]:
  "keeps F (s\<lparr>g_server_fd := sk\<rparr>) = keeps F s" "keeps F (s\<lparr>c_response_size := bs\<rparr>) = keeps F s"
  "keeps F (s\<lparr>c_stdout := out\<rparr>) = keeps F s"
  "keeps F (s\<lparr>c_stdin := inp\<rparr>) = keeps F s" "keeps F (s\<lparr>c_files := fs\<rparr>) = keeps F s"
  "keeps F (s\<lparr>g_server_connected := b\<rparr>) = keeps F s" "keeps F (s\<lparr>g_active_thread_exists := b\<rparr>) = keeps F s"
  "keeps F (s\<lparr>g_active_thread_id := i\<rparr>) = keeps F s" "keeps F (s\<lparr>g_working := b\<rparr>) = keeps F s"
  "keeps F (s\<lparr>c_events := es\<rparr>) = keeps F s" "keeps F (s\<lparr>c_net := net\<rparr>) = keeps F s"
  "keeps F (s\<lparr>g_server_addr := a\<rparr>) = keeps F s" "keeps F (s\<lparr>g_server_haddr := ha\<rparr>) = keeps F s"
  "keeps F (s\<lparr>g_server_meta := m\<rparr>) = keeps F s" "keeps F (s\<lparr>g_home_dir := home\<rparr>) = keeps F s"
  "keeps F (s\<lparr>c_dir := b\<rparr>) = keeps F s"
  by (simp_all add: keeps_def)

lemma keeps_say [simp]:
  "keeps F (say str s) = keeps F s" "keeps F (puts str s) = keeps F s" "keeps F (say_newline s) = keeps F s"
  "objects_ok (say str s) = objects_ok s" "objects_ok (puts str s) = objects_ok s" "objects_ok (say_newline s) = objects_ok s"
  by (simp_all add: print_defs)

section \<open>The connection\<close>

lemma recv_tame: "tame (recv n sk) (\<lambda>_. True)"
proof -
  have "tame (recv_events n es) (\<lambda>_. True)" for es
    by (induction n es rule: recv_events.induct) (auto simp: tame_def Let_def)
  then show ?thesis unfolding recv_def by (intro tame_andthen tame_intros) auto
qed

lemma send_tame: "tame (send bs sk) (\<lambda>_. True)"
  by (auto simp: send_def tame_def Let_def split: list.split tx_event.split)

lemma s_recv_tame: "tame (s_recv n sk) (\<lambda>_. True)"
proof -
  have "tame (s_recv_loop n got sk) (\<lambda>_. True)" for got
  proof (induction n got sk rule: s_recv_loop.induct)
    case (1 n got sk)
    show ?case
      by (subst s_recv_loop.simps) (intro tame_intros tame_andthen[OF recv_tame]; (rule "1.IH")?; simp)
  qed
  then show ?thesis by (simp add: s_recv_def)
qed

lemma s_send_tame: "tame (s_send bs n sk) (\<lambda>_. True)"
proof -
  have "tame (s_send_loop bs n i sk) (\<lambda>_. True)" for i
  proof (induction bs n i sk rule: s_send_loop.induct)
    case (1 bs n i sk)
    show ?case
      by (subst s_send_loop.simps) (intro tame_intros tame_andthen[OF send_tame]; (rule "1.IH")?; simp)
  qed
  then show ?thesis by (simp add: s_send_def)
qed

lemma disconnect_ok [simp]: "keeps F (snd (server_disconnect s)) = keeps F s"
  by (simp add: server_disconnect_def)

text \<open>An answer to \<open>LIVE\<close> reaches no object.\<close>

definition same_objects :: "client \<Rightarrow> client \<Rightarrow> bool" where
  "same_objects s t \<longleftrightarrow> c_heap t = c_heap s \<and> c_pending t = c_pending s \<and> c_history t = c_history s \<and>
     c_infos t = c_infos s \<and> c_metas t = c_metas s \<and> g_server_queries t = g_server_queries s \<and>
     g_server_addr_history t = g_server_addr_history s"

lemma same_objects_ok: "same_objects s t \<Longrightarrow> keeps F s \<Longrightarrow> keeps F t"
  by (simp add: same_objects_def keeps_def objects_ok_def)

lemma recv_size_tame: "tame (recv_size s) (\<lambda>(r, t). same_objects s t)"
  unfolding recv_size_def by (intro tame_andthen[OF recv_tame] tame_intros) (simp add: same_objects_def)

lemma keep_alive_tame: "tame (keep_alive s) (same_objects s)"
proof -
  have fail: "tame (live_failure str t) (same_objects s)" if "same_objects s t" for str t
    using that by (simp add: live_failure_def tame_def same_objects_def server_disconnect_def print_defs)
  show ?thesis
    unfolding keep_alive_def Let_def
    by (intro tame_intros tame_andthen[OF send_tame] tame_andthen[OF recv_size_tame] tame_andthen[OF recv_tame]
        tame_andthen[OF readers_tame(1)] fail tame_andthen[of "if _ then _ else _" "\<lambda>_. True"]; (rule recv_tame)?;
        simp add: same_objects_def)
qed

section \<open>Queries\<close>

text \<open>What \<open>parsed_data\<close> may point to, by the parser.\<close>

definition parsed :: "parser \<Rightarrow> ptr \<Rightarrow> client \<Rightarrow> bool" where
  "parsed parser p s \<longleftrightarrow> p = Null \<or>
     (case parser of
        Parse_response_CTHR \<Rightarrow> live (c_infos s) p
      | Parse_response_GTHR \<Rightarrow> thread_at (c_heap s) p \<noteq> None
      | Parse_response_FTHR \<Rightarrow> \<exists>ds. gathered (c_heap s) p ds
      | Parse_response_META \<Rightarrow> live (c_metas s) p
      | _ \<Rightarrow> False)"

lemma parsed_fields [simp]:
  "parsed parser p (s\<lparr>g_server_fd := sk\<rparr>) = parsed parser p s" "parsed parser p (s\<lparr>c_response_size := bs\<rparr>) = parsed parser p s"
  "parsed parser p (s\<lparr>c_pending := pend\<rparr>) = parsed parser p s" "parsed parser p (s\<lparr>c_stdout := out\<rparr>) = parsed parser p s"
  by (simp_all add: parsed_def split: parser.split)

lemma CTHR_tame: "tame (parse_response_CTHR capacity raw) (\<lambda>_. True)"
  unfolding parse_response_CTHR_def Let_def by (intro parse_tame tame_intros tame_andthen[OF readers_tame(4)]) simp_all

lemma META_tame: "tame (parse_response_META capacity raw) (\<lambda>_. True)"
  unfolding parse_response_META_def Let_def by (intro parse_tame tame_intros) simp_all

lemma OK_tame: "tame (parse_response_CMSG raw) (\<lambda>_. True)" "tame (parse_response_LIVE raw) (\<lambda>_. True)"
  unfolding parse_response_CMSG_def parse_response_LIVE_def by (intro parse_tame tame_intros; simp)+

lemma live_new_obj: "store_ok h \<Longrightarrow> new_obj x h = (p, h') \<Longrightarrow> live h' p \<and> store_ok h'"
  by (auto simp: new_obj_def live_def store_ok_def)

lemma parse_response_tame:
  assumes "objects_ok s"
  shows "tame (parse_response parser raw n Null s) (\<lambda>(p, t). objects_ok t \<and> parsed parser p t \<and>
    c_pending t = c_pending s \<and> g_server_queries t = g_server_queries s \<and> g_server_fd t = g_server_fd s)"
proof (cases parser)
  case Parse_response_CTHR
  with assms show ?thesis
    by (simp add: parse_response_def, intro tame_andthen[OF CTHR_tame] tame_intros)
      (auto simp: parsed_def tame_def objects_ok_def dest: live_new_obj split: option.split prod.split)
next
  case Parse_response_META
  with assms show ?thesis
    by (simp add: parse_response_def, intro tame_andthen[OF META_tame] tame_intros)
      (auto simp: parsed_def tame_def objects_ok_def dest: live_new_obj split: option.split prod.split)
next
  case Parse_response_GTHR
  have "heap_ok (c_heap s)" using assms by (simp add: objects_ok_def)
  with Parse_response_GTHR show ?thesis using assms
    by (auto intro!: tame_andthen[OF parse_GTHR_tame] tame_intros simp: parse_response_def parsed_def objects_ok_def split: option.split)
next
  case Parse_response_FTHR
  have "heap_ok (c_heap s)" using assms by (simp add: objects_ok_def)
  with Parse_response_FTHR show ?thesis using assms
    by (auto intro!: tame_andthen[OF parse_FTHR_tame] tame_intros simp: parse_response_def parsed_def objects_ok_def split: option.split)
qed (use assms in \<open>auto intro!: tame_andthen[OF OK_tame(1)] tame_andthen[OF OK_tame(2)] tame_intros simp: parse_response_def parsed_def\<close>)

text \<open>One query is pending and not yet served.\<close>

definition awaits :: "footprint \<Rightarrow> parser \<Rightarrow> addr \<Rightarrow> client \<Rightarrow> bool" where
  "awaits F parser b s \<longleftrightarrow> objects_ok s \<and> queue_ok (c_pending s) \<and> store_ok (p_queries (c_pending s)) \<and>
     fst F (g_server_queries s) = Some [] \<and> items (c_pending s) = (fst F)(g_server_queries s \<mapsto> [Ptr b]) \<and> snd F b = None \<and>
     (\<exists>q. cells (p_queries (c_pending s)) = (snd F)(b \<mapsto> q) \<and> \<not> sq_completed q \<and>
       sq_parse_response q = parser \<and> sq_parsed_data q = Null)"

definition answered :: "footprint \<Rightarrow> parser \<Rightarrow> addr \<Rightarrow> client \<Rightarrow> bool" where
  "answered F parser b s \<longleftrightarrow> objects_ok s \<and> pending_ok (g_server_queries s) (c_pending s) \<and>
     items (c_pending s) = fst F \<and> snd F b = None \<and>
     (\<exists>q. cells (p_queries (c_pending s)) = (snd F)(b \<mapsto> q) \<and> sq_completed q \<and> parsed parser (sq_parsed_data q) s)"

lemma recv_size_objects:
  "tame (recv_size s) (\<lambda>(r, t). (objects_ok t \<longleftrightarrow> objects_ok s) \<and> c_pending t = c_pending s \<and> g_server_queries t = g_server_queries s)"
  by (rule tame_mono[OF recv_size_tame]) (auto simp: same_objects_def objects_ok_def)

lemma serve_query_tame:
  assumes "awaits F parser b s"
  shows "tame (serve_query s) (answered F parser b)"
proof -
  obtain q where o: "objects_ok s" and pend: "queue_ok (c_pending s)" "items (c_pending s) (g_server_queries s) = Some [Ptr b]"
    and st: "store_ok (p_queries (c_pending s))"
    and q: "cells (p_queries (c_pending s)) b = Some q" "\<not> sq_completed q" "sq_parse_response q = parser" "sq_parsed_data q = Null"
    and F: "(items (c_pending s))(g_server_queries s \<mapsto> []) = fst F" "fst F (g_server_queries s) = Some []"
      "snd F b = None" "cells (p_queries (c_pending s)) = (snd F)(b \<mapsto> q)"
    using assms by (auto simp: awaits_def fun_upd_idem)
  obtain h qs where pop: "queue_pop (g_server_queries s) (c_pending s) =
      Inr (Ptr b, (c_pending s)\<lparr>q_nodes := h, q_queues := qs\<rparr>)"
    and new: "qok h qs" "qitems h qs = (items (c_pending s))(g_server_queries s \<mapsto> [])"
    by (rule queue_pop_law[OF pend])
  define pend' where "pend' = (c_pending s)\<lparr>q_nodes := h, q_queues := qs\<rparr>"
  define ready where "ready = (\<lambda>t. objects_ok t \<and> c_pending t = pend' \<and> g_server_queries t = g_server_queries s)"
  have parse: "tame (parse_response (sq_parse_response q) raw n (sq_parsed_data q) t)
      (\<lambda>(p, u). ready u \<and> parsed parser p u)" if "ready t" for raw n t
    unfolding q(3,4) by (rule tame_mono[OF parse_response_tame]) (use that in \<open>auto simp: ready_def\<close>)
  have size: "tame (recv_size t) (\<lambda>(r, u). ready u)" if "ready t" for t
    by (rule tame_mono[OF recv_size_objects]) (use that in \<open>auto simp: ready_def\<close>)
  have b: "b < brk (p_queries (c_pending s))" using st q(1) by (auto simp: store_ok_def not_le[symmetric])
  have fin: "tame (andthen (assign (Ptr b) (q\<lparr>sq_parsed_data := p, sq_completed := True\<rparr>) (p_queries (c_pending t)))
      (\<lambda>queries. Inr (t\<lparr>c_pending := (c_pending t)\<lparr>p_queries := queries\<rparr>\<rparr>))) (answered F parser b)"
    if "ready t" "parsed parser p t" for p t
  proof -
    let ?q = "q\<lparr>sq_parsed_data := p, sq_completed := True\<rparr>"
    let ?st = "(p_queries pend')\<lparr>cells := (snd F)(b \<mapsto> ?q)\<rparr>"
    have t: "objects_ok t" "c_pending t = pend'" "g_server_queries t = g_server_queries s" using that(1) by (simp_all add: ready_def)
    have "store_ok ?st" using st b unfolding store_ok_def by (simp add: pend'_def F(4))
    then have "answered F parser b (t\<lparr>c_pending := pend'\<lparr>p_queries := ?st\<rparr>\<rparr>)"
      unfolding answered_def pending_ok_def using t(1,3) new F that(2)
      by (intro conjI exI[of _ ?q]) (simp_all add: pend'_def)
    then show ?thesis using q(1) by (simp add: tame_def t(2)) (simp add: pend'_def F(4))
  qed
  have upd: "ready (t\<lparr>g_server_fd := sk\<rparr>) = ready t" for t sk by (simp add: ready_def)
  have start: "ready (s\<lparr>c_pending := pend'\<rparr>)" "ready (puts SUSPICIOUS (say_newline (s\<lparr>c_pending := pend'\<rparr>)))"
    using o by (simp_all add: ready_def print_defs)
  have "deref (p_queries pend') (Ptr b) = Inr q" using q(1) by (simp add: pend'_def)
  then show ?thesis
    unfolding serve_query_def pop pend'_def[symmetric] Let_def andthen_Inr prod.case
    by (simp only: andthen_Inr)
      (intro tame_intros tame_Inl tame_andthen[OF send_tame] tame_andthen[OF s_send_tame] tame_andthen[OF size]
        tame_andthen[OF s_recv_tame] tame_andthen[OF parse]; (simp add: upd start; fail)?; intro fin; simp)
qed

lemma pass_tame:
  assumes "awaits F parser b s"
  shows "tame (query_loop_pass s) (\<lambda>t. t = s \<or> answered F parser b t)"
proof -
  have q: "queue_ok (c_pending s)" "items (c_pending s) (g_server_queries s) = Some [Ptr b]"
    using assms by (simp_all add: awaits_def)
  obtain a x where a: "g_server_queries s = Ptr a" "cells (q_queues (c_pending s)) a = Some x"
    using q(2) by (rule qitems_live)
  have "q_size x \<noteq> 0" using q_first_Null_iff(2)[OF q(1) q(2)[unfolded a(1)] a(2)] by simp
  with a serve_query_tame[OF assms] show ?thesis
    by (auto simp: query_loop_pass_def tame_def split: sum.splits)
qed

lemma spin_tame:
  assumes "awaits F parser b s"
  shows "tame (spin (Suc 0) (Ptr b) s) (answered F parser b)"
proof -
  obtain q where "cells (p_queries (c_pending s)) b = Some q" "\<not> sq_completed q"
    using assms by (auto simp: awaits_def)
  then have once: "spin n (Ptr b) s = (case n of 0 \<Rightarrow> Inl Diverges | Suc n \<Rightarrow> andthen (query_loop_pass s) (spin n (Ptr b)))" for n
    by (subst spin.simps) (simp split: nat.split)
  have stop: "spin 0 (Ptr b) t = Inr t" if "answered F parser b t" for t
    using that by (subst spin.simps) (auto simp: answered_def)
  show ?thesis
    unfolding once[of "Suc 0"] nat.case
    by (rule tame_andthen[OF pass_tame[OF assms]]) (auto simp: once stop tame_def)
qed

text \<open>The answer is taken and the query freed.\<close>

lemma answered_freed:
  assumes "answered F parser b s"
  obtains q st queries where "deref (p_queries (c_pending s)) (Ptr b) = Inr q" and "parsed parser (sq_parsed_data q) s"
    and "query_delete (Ptr b) (p_queries (c_pending s)) = Inr (st, queries)"
    and "keeps F (s\<lparr>c_pending := (c_pending s)\<lparr>p_queries := queries\<rparr>\<rparr>)"
proof -
  obtain q where o: "objects_ok s" and p: "queue_ok (c_pending s)" "items (c_pending s) (g_server_queries s) = Some []"
    "store_ok (p_queries (c_pending s))" and F: "items (c_pending s) = fst F" "snd F b = None"
    and q: "cells (p_queries (c_pending s)) = (snd F)(b \<mapsto> q)" "parsed parser (sq_parsed_data q) s"
    using assms unfolding answered_def pending_ok_def by blast
  let ?st = "(p_queries (c_pending s))\<lparr>cells := snd F\<rparr>"
  have "\<forall>a\<ge>brk (p_queries (c_pending s)). snd F a = None"
    using p(3) unfolding store_ok_def q(1) by (metis fun_upd_apply option.distinct(1))
  then have st: "store_ok ?st" by (simp add: store_ok_def)
  have "keeps F (s\<lparr>c_pending := (c_pending s)\<lparr>p_queries := ?st\<rparr>\<rparr>)"
    unfolding keeps_def pending_ok_def using o p(1,2) st F(1) by simp
  moreover have "(snd F)(b := None) = snd F" using F(2) by (simp add: fun_upd_idem)
  then have "query_delete (Ptr b) (p_queries (c_pending s)) = Inr (ok_status, ?st)"
    using q(1) by (auto simp: query_delete_def)
  ultimately show ?thesis using q by (intro that[of q ok_status ?st]) simp_all
qed

lemma run_query_tame:
  assumes "keeps F s"
  shows "tame (run_query parser qdata s) (\<lambda>(p, t). keeps F t \<and> parsed parser p t)"
proof -
  have o: "objects_ok s" and pend: "pending_ok (g_server_queries s) (c_pending s)"
    and F: "items (c_pending s) = fst F" "cells (p_queries (c_pending s)) = snd F" using assms by (simp_all add: keeps_def)
  let ?gq = "g_server_queries s" and ?b = "brk (p_queries (c_pending s))"
  define q where "q = \<lparr>sq_completed = False, sq_raw_request_data = Some (ld_data qdata),
    sq_raw_request_data_size = ld_size qdata, sq_parse_response = parser, sq_parsed_data = Null\<rparr>"
  define p1 where "p1 = (c_pending s)\<lparr>p_queries := snd (new_obj q (p_queries (c_pending s)))\<rparr>"
  have fresh: "snd F ?b = None" using pend F(2) by (simp add: pending_ok_def store_ok_def)
  have p1: "queue_ok p1" "items p1 ?gq = Some []" "cells (p_queries p1) ?b = Some q" "store_ok (p_queries p1)"
    using pend by (simp_all add: pending_ok_def p1_def new_obj_def store_ok_def)
  obtain n2 q2 where push: "queue_push ?gq (Ptr ?b) p1 = Inr (ok_status, p1\<lparr>q_nodes := n2, q_queues := q2\<rparr>)"
    and ok2: "qok n2 q2" and it2: "qitems n2 q2 = (items p1)(?gq \<mapsto> [Ptr ?b])"
    by (rule queue_push_law[OF p1(1,2), of "Ptr ?b" ?b]) simp_all
  let ?p2 = "p1\<lparr>q_nodes := n2, q_queues := q2\<rparr>"
  have aw: "awaits F parser ?b (s\<lparr>c_pending := ?p2\<rparr>)"
    unfolding awaits_def using o ok2 it2 p1 pend F fresh
    by (intro conjI exI[of _ q]) (simp_all add: q_def pending_ok_def p1_def new_obj_def)
  obtain a x where a: "?gq = Ptr a" "cells q2 a = Some x" by (rule qitems_live[of n2 q2 ?gq "[Ptr ?b]"]) (use it2 in simp_all)
  have size: "q_size x = 1" using q_first_Null_iff(2)[of ?p2 a "[Ptr ?b]" x] ok2 it2 a by simp
  have start: "run_query parser qdata s =
      andthen (spin (Suc 0) (Ptr ?b) (s\<lparr>c_pending := ?p2\<rparr>)) (\<lambda>s.
      andthen (deref (p_queries (c_pending s)) (Ptr ?b)) (\<lambda>q.
      andthen (query_delete (Ptr ?b) (p_queries (c_pending s))) (\<lambda>(st, queries).
      Inr (sq_parsed_data q, s\<lparr>c_pending := (c_pending s)\<lparr>p_queries := queries\<rparr>\<rparr>))))"
    using push a size by (simp add: run_query_def query_create_def new_obj_def Let_def q_def p1_def)
  show ?thesis
    unfolding start
  proof (rule tame_andthen[OF spin_tame[OF aw]])
    fix t
    assume t: "answered F parser ?b t"
    obtain q st queries where "deref (p_queries (c_pending t)) (Ptr ?b) = Inr q" "parsed parser (sq_parsed_data q) t"
      "query_delete (Ptr ?b) (p_queries (c_pending t)) = Inr (st, queries)"
      "keeps F (t\<lparr>c_pending := (c_pending t)\<lparr>p_queries := queries\<rparr>\<rparr>)"
      by (rule answered_freed[OF t])
    then show "tame (andthen (deref (p_queries (c_pending t)) (Ptr ?b)) (\<lambda>q.
      andthen (query_delete (Ptr ?b) (p_queries (c_pending t))) (\<lambda>(st, queries).
      Inr (sq_parsed_data q, t\<lparr>c_pending := (c_pending t)\<lparr>p_queries := queries\<rparr>\<rparr>)))) (\<lambda>(p, t). keeps F t \<and> parsed parser p t)"
      by (simp add: tame_def del: deref.simps)
  qed
qed

lemma run_query_live:
  assumes "keeps F s"
  shows "tame (run_query Parse_response_CTHR qdata s) (\<lambda>(p, t). keeps F t \<and> (p = Null \<or> live (c_infos t) p))"
    and "tame (run_query Parse_response_META qdata s) (\<lambda>(p, t). keeps F t \<and> (p = Null \<or> live (c_metas t) p))"
    and "tame (run_query Parse_response_GTHR qdata s) (\<lambda>(p, t). keeps F t \<and> (p = Null \<or> thread_at (c_heap t) p \<noteq> None))"
    and "tame (run_query Parse_response_FTHR qdata s) (\<lambda>(p, t). keeps F t \<and> (p = Null \<or> (\<exists>ds. gathered (c_heap t) p ds)))"
  by (rule tame_mono[OF run_query_tame[OF assms]]; auto simp: parsed_def)+

section \<open>While the client waits\<close>

lemma same_objects_refl [simp]: "same_objects s s"
  by (simp add: same_objects_def)

lemma same_objects_trans: "same_objects s t \<Longrightarrow> same_objects t u \<Longrightarrow> same_objects s u"
  by (simp add: same_objects_def)

lemma idle_tame:
  assumes "keeps F s"
  shows "tame (query_loop_pass s) (same_objects s)"
proof -
  have q: "queue_ok (c_pending s)" "items (c_pending s) (g_server_queries s) = Some []"
    using assms unfolding keeps_def pending_ok_def by blast+
  obtain a x where a: "g_server_queries s = Ptr a" "cells (q_queues (c_pending s)) a = Some x"
    using q(2) by (rule qitems_live)
  have "q_size x = 0" using q_first_Null_iff(2)[OF q(1) q(2)[unfolded a(1)] a(2)] by simp
  then show ?thesis
    using a by (auto simp: query_loop_pass_def tame_intros intro!: keep_alive_tame)
qed

lemma fold_res_tame:
  assumes "\<And>x s. P s \<Longrightarrow> tame (f x s) P" and "P s"
  shows "tame (fold_res f xs s) P"
  using assms(2) by (induction xs arbitrary: s) (auto intro: tame_intros tame_andthen[OF assms(1)])

lemma meanwhile_tame:
  assumes "keeps F s"
  shows "tame (meanwhile s) (same_objects s)"
proof -
  have "tame (event_step e t) (same_objects s)" if "same_objects s t" for e t
  proof (cases e)
    case Query_pass
    then show ?thesis
      using tame_mono[OF idle_tame[OF same_objects_ok[OF that assms]] same_objects_trans[OF that]] by (simp add: event_step_def)
  next
    case Signal
    with that show ?thesis by (simp add: event_step_def stop_program_handle_def same_objects_def tame_def)
  qed
  then show ?thesis
    unfolding meanwhile_def by (intro tame_intros fold_res_tame) (auto simp: same_objects_def)
qed

lemma ask_objects: "keeps F s \<Longrightarrow> tame (ask n s) (\<lambda>(str, t). same_objects s t)"
  unfolding ask_def
  by (rule tame_andthen[OF meanwhile_tame])
    (auto simp: read_field_def read_stdin_def Let_def tame_def same_objects_def split: prod.split option.split)

lemma ask_tame: "keeps F s \<Longrightarrow> tame (ask n s) (\<lambda>(str, t). keeps F t)"
  by (rule tame_mono[OF ask_objects]) (auto dest: same_objects_ok)

lemma s_fgets_range_tame: "tame (s_fgets_range mn mx inp) (\<lambda>_. True)"
proof -
  have "tame (s_fgets_range_loop acc mn mx inp) (\<lambda>_. True)" for acc
  proof (induction acc mn mx inp rule: s_fgets_range_loop.induct)
    case (1 acc mn mx inp)
    show ?case
      by (subst s_fgets_range_loop.simps) (intro tame_intros tame_Inl; (rule "1.IH")?; simp)
  qed
  then show ?thesis by (simp add: s_fgets_range_def)
qed

lemma ask_range_tame: "keeps F s \<Longrightarrow> tame (ask_range mn mx s) (\<lambda>(sz, str, t). keeps F t)"
  unfolding ask_range_def
  by (rule tame_andthen[OF meanwhile_tame])
    (auto simp: read_range_def dest: same_objects_ok intro!: tame_andthen[OF s_fgets_range_tame] tame_intros)

lemma ask_block_tame: "keeps F s \<Longrightarrow> tame (ask_block b mn mx s) (\<lambda>(sz, str, t). keeps F t)"
  unfolding ask_block_def
  by (rule tame_andthen[OF meanwhile_tame])
    (auto simp: read_range_def dest: same_objects_ok intro!: tame_andthen[OF s_fgets_range_tame] tame_intros tame_Inl)

lemma menu_tame:
  assumes "keeps F s" and "\<And>t. keeps F (menu t) = keeps F t" and "\<And>t. keeps F (prefix t) = keeps F t"
  shows "tame (leclient_loop_process menu prefix s) (\<lambda>(cmd_id, t). keeps F t)"
  unfolding leclient_loop_process_def
  by (rule tame_andthen[OF meanwhile_tame[where F = F]])
    (auto simp: assms Let_def tame_def dest: same_objects_ok[where F = F] split: option.split)

section \<open>Requests and files\<close>

lemma put_tame: "tame (put bs b) (\<lambda>_. True)"
  by (simp add: put_def tame_def)

lemma strncpy_out_tame: "tame (strncpy_out p n) (\<lambda>_. True)"
  unfolding strncpy_out_def by (intro tame_andthen[OF readers_tame(4)] tame_intros) simp

lemma gen_query_tame:
  "tame (gen_query_CTHR topic n) (\<lambda>_. True)" "tame (gen_query_GTHR i) (\<lambda>_. True)" "tame (gen_query_FTHR part n) (\<lambda>_. True)"
  "tame gen_query_META (\<lambda>_. True)"
  unfolding gen_query_CTHR_def gen_query_GTHR_def gen_query_FTHR_def gen_query_META_def Let_def
  by (intro tame_andthen[OF put_tame] tame_andthen[OF strncpy_out_tame] tame_intros TrueI)+

lemma gen_query_CMSG_tame: "tame (gen_query_CMSG i str n token) (\<lambda>_. True)"
proof -
  have tkn: "tame (case token of None \<Rightarrow> Inr b | Some token \<Rightarrow>
      andthen (put ''TKN'' b) (\<lambda>b. andthen (strncpy_out token TOKEN_SIZE) (\<lambda>tkn. put tkn b))) (\<lambda>_. True)" for b
    by (intro tame_intros tame_andthen[OF put_tame] tame_andthen[OF strncpy_out_tame] put_tame TrueI)
  show ?thesis
    unfolding gen_query_CMSG_def Let_def
    by (intro tame_andthen[OF put_tame] tame_andthen[OF strncpy_out_tame] tame_andthen[OF tkn] tame_intros TrueI)
qed

lemma file_ok: "get_leclient_file f mode create s = (st, file, t) \<Longrightarrow> keeps F t = keeps F s"
  by (auto simp: get_leclient_file_def fopen_client_def Let_def split: if_splits cmode.splits option.splits)

lemma fputs_tame: "keeps F s \<Longrightarrow> tame (fputs_client str file s) (keeps F)"
  by (auto simp: fputs_client_def tame_def split: option.split)

lemma server_addr_save_tame: "keeps F s \<Longrightarrow> tame (server_addr_save addr port s) (\<lambda>(st, t). keeps F t)"
  unfolding server_addr_save_def Let_def
  by (intro tame_intros tame_Inl tame_andthen[OF fputs_tame] tame_andthen[of "if _ then _ else _" "\<lambda>_. True"])
    (auto simp: file_ok intro!: tame_intros tame_Inl)

lemma file_infos: "get_leclient_file f m c s = (st, strm, t) \<Longrightarrow> c_infos t = c_infos s"
  by (auto simp: get_leclient_file_def fopen_client_def Let_def split: if_splits cmode.splits option.splits)

lemma fputs_infos: "fputs_client str strm s = Inr t \<Longrightarrow> c_infos t = c_infos s"
  by (auto simp: fputs_client_def split: option.splits)

lemma token_save_tame: "keeps F s \<Longrightarrow> tame (token_save token s) (\<lambda>(st, t). keeps F t \<and> c_infos t = c_infos s)"
  unfolding token_save_def Let_def
  by (intro tame_intros tame_andthen[OF fputs_tame]) (auto simp: file_ok file_infos fputs_infos)

lemma token_load_tame: "keeps F s \<Longrightarrow> tame (token_load s) (\<lambda>(st, token, t). keeps F t)"
  unfolding token_load_def Let_def by (intro tame_intros tame_Inl) (auto simp: file_ok)

lemma history_loop_tame:
  assumes "addresses q h aps" and "queue_ok h" and "store_ok (h_haddrs h)"
  shows "tame (history_loop hp inp q h) (\<lambda>h'. \<exists>aps'. addresses q h' aps' \<and> queue_ok h' \<and> store_ok (h_haddrs h'))"
  using assms
proof (induction hp inp q h arbitrary: aps rule: history_loop.induct)
  case (1 hp inp q h)
  let ?good = "\<lambda>h'. \<exists>aps'. addresses q h' aps' \<and> queue_ok h' \<and> store_ok (h_haddrs h')"
  obtain n str rest where line: "s_fgets 64 inp = (n, str, rest)" by (metis prod_cases3)
  have scan: "tame (scan_address l hp) (\<lambda>_. True)" for l by (simp add: scan_address_def tame_def Let_def)
  show ?case
  proof (cases str)
    case None
    with "1.prems" show ?thesis by (subst history_loop.simps) (auto simp: line tame_def)
  next
    case (Some l)
    show ?thesis
    proof (cases "0 <s n")
      case False
      with "1.prems" Some show ?thesis by (subst history_loop.simps) (auto simp: line tame_def)
    next
      case True
      have more: "tame (let (p, haddrs) = new_obj \<lparr>ha_addr = a, ha_port = po\<rparr> (h_haddrs h) in
          andthen (queue_push q p (h\<lparr>h_haddrs := haddrs\<rparr>)) (\<lambda>(st, h). history_loop (Some a, Some po) rest q h))
          ?good" if read: "scan_address l hp = Inr (Some a, Some po)" for a po
      proof -
        obtain h' where step: "\<forall>k :: status_t \<times> mem_history \<Rightarrow> mem_history res.
            (let (p, haddrs) = new_obj \<lparr>ha_addr = a, ha_port = po\<rparr> (h_haddrs h) in
            andthen (queue_push q p (h\<lparr>h_haddrs := haddrs\<rparr>)) k) = k (ok_status, h')"
          and h': "addresses q h' (aps @ [(a, po)])" "queue_ok h'" "store_ok (h_haddrs h')"
          by (rule history_push[OF "1.prems"])
        obtain p haddrs where new: "new_obj \<lparr>ha_addr = a, ha_port = po\<rparr> (h_haddrs h) = (p, haddrs)" by (metis surj_pair)
        have push: "queue_push q p (h\<lparr>h_haddrs := haddrs\<rparr>) = Inr (ok_status, h')"
          using step[rule_format, of "\<lambda>(st, h). Inr h"] step[rule_format, of "\<lambda>(st, h). if st = ok_status then Inr h else Inl NullDeref"]
          by (cases "queue_push q p (h\<lparr>h_haddrs := haddrs\<rparr>)") (auto simp: new split: if_splits)
        show ?thesis
          using "1.IH"[OF line[symmetric] refl Some True read refl refl refl new[symmetric] refl push refl h'] new push by simp
      qed
      show ?thesis
        unfolding history_loop.simps[of hp inp] line Some prod.case option.case if_P[OF True]
        by (intro tame_andthen[OF scan] tame_Inl tame_intros(3,4); (clarify, rule more, assumption)?; simp)
    qed
  qed
qed

text \<open>The history is there, and consists of live addresses, when it was loaded.\<close>

definition loaded_history :: "footprint \<Rightarrow> client \<Rightarrow> bool" where
  "loaded_history F s \<longleftrightarrow> keeps F s \<and> (\<exists>ps. items (c_history s) (g_server_addr_history s) = Some ps \<and> owns (c_history s) ps)"

lemma server_addr_history_load_tame:
  assumes "keeps F s"
  shows "tame (server_addr_history_load s) (\<lambda>(st, t). if st = ok_status then loaded_history F t else keeps F t)"
proof -
  obtain st strm t where f: "get_leclient_file FILE_SERVER_HISTORY Mode_r False s = (st, strm, t)" by (metis prod_cases3)
  have t: "keeps F t" using file_ok[OF f] assms by simp
  then have "history_ok (g_server_addr_history t) (c_history t)" by (simp add: keeps_def objects_ok_def)
  then obtain h1 q qs where old: "(if g_server_addr_history t \<noteq> Null
      then queue_delete free_haddress (g_server_addr_history t) (c_history t) else Inr (ok_status, c_history t)) = Inr (ok_status, h1)"
    and new: "queue_create Libc_free h1 = (ok_status, q, h1\<lparr>q_queues := qs\<rparr>)"
    and h1: "addresses q (h1\<lparr>q_queues := qs\<rparr>) []" "qok (q_nodes h1) qs" "store_ok (h_haddrs h1)"
    by (rule history_reset)
  have h: "queue_ok (h1\<lparr>q_queues := qs\<rparr>)" "store_ok (h_haddrs (h1\<lparr>q_queues := qs\<rparr>))" using h1 by simp_all
  show ?thesis
    unfolding server_addr_history_load_def f Let_def prod.case old andthen_Inr new
    by (intro tame_intros tame_Inl tame_andthen[OF history_loop_tame[OF h1(1) h]])
      (use t in \<open>auto simp: loaded_history_def keeps_def objects_ok_def addresses_def intro: addresses_ok\<close>)
qed

section \<open>Commands\<close>

lemma deref_tame: "p = Null \<or> live h p \<Longrightarrow> tame (deref h p) (\<lambda>_. live h p)"
  by (auto simp: tame_def live_def)

lemma free_tame: "live h p \<Longrightarrow> store_ok h \<Longrightarrow> tame (free_obj p h) store_ok"
  by (auto simp: tame_def live_def store_ok_def)

lemma keeps_stores:
  "keeps F s \<Longrightarrow> store_ok h \<Longrightarrow> keeps F (s\<lparr>c_infos := h\<rparr>)" "keeps F s \<Longrightarrow> store_ok k \<Longrightarrow> keeps F (s\<lparr>c_metas := k\<rparr>)"
  "keeps F s \<Longrightarrow> heap_ok heap \<Longrightarrow> keeps F (s\<lparr>c_heap := heap\<rparr>)"
  "keeps F s \<Longrightarrow> store_ok (c_infos s)" "keeps F s \<Longrightarrow> store_ok (c_metas s)"
  by (simp_all add: keeps_def objects_ok_def)

lemma server_connect_tame: "keeps F s \<Longrightarrow> tame (server_connect addr port s) (\<lambda>(st, t). keeps F t)"
  unfolding server_connect_def Let_def
  by (cases "c_net s"; cases "hd (c_net s)") (auto intro!: tame_intros tame_Inl tame_andthen[OF server_addr_save_tame] tame_andthen[OF gen_query_tame(4)]
      tame_andthen[OF run_query_live(2)] tame_andthen[OF deref_tame] tame_andthen[OF free_tame] keeps_stores
      simp del: deref.simps free_obj.simps split: option.split)

lemma cmd_server_connect_tame: "keeps F s \<Longrightarrow> tame (cmd_server_connect s) (keeps F)"
  unfolding cmd_server_connect_def Let_def
  by (intro tame_intros tame_andthen[OF ask_tame] tame_andthen[OF server_connect_tame]) (auto simp: print_defs)

lemma cmd_server_info_ok [simp]: "keeps F (cmd_server_info s) = keeps F s" "keeps F (cmd_server_disconnect s) = keeps F s"
  by (simp_all add: cmd_server_info_def cmd_server_disconnect_def Let_def)

lemma print_history_tame:
  assumes "loaded_history F s" and "items (c_history s) (g_server_addr_history s) = Some qs" and "set ps \<subseteq> set qs"
  shows "tame (print_history i ps s) (\<lambda>t. loaded_history F t \<and> items (c_history t) (g_server_addr_history t) = Some qs)"
  using assms
proof (induction ps arbitrary: i s)
  case Nil
  then show ?case by (simp add: tame_def)
next
  case (Cons p ps)
  have "live (h_haddrs (c_history s)) p" using Cons.prems by (auto simp: loaded_history_def owns_def)
  then show ?case
    using Cons by (auto intro!: tame_andthen[OF deref_tame] Cons.IH simp: loaded_history_def print_defs simp del: deref.simps)
qed

lemma cmd_server_history_tame:
  assumes "keeps F s"
  shows "tame (cmd_server_history s) (keeps F)"
proof -
  have list: "tame (andthen (deref (q_queues (c_history t)) (g_server_addr_history t)) (\<lambda>q.
      andthen (queue_items (g_server_addr_history t) (c_history t)) (k q))) (keeps F)"
    if t: "loaded_history F t"
      and k: "\<And>q ps. items (c_history t) (g_server_addr_history t) = Some ps \<Longrightarrow> tame (k q ps) (keeps F)" for t k
  proof -
    obtain ps where it: "items (c_history t) (g_server_addr_history t) = Some ps" using t by (auto simp: loaded_history_def)
    then obtain a x where "g_server_addr_history t = Ptr a" "cells (q_queues (c_history t)) a = Some x" by (rule qitems_live)
    moreover have "queue_items (g_server_addr_history t) (c_history t) = Inr ps" by (simp add: queue_items_iff it)
    ultimately show ?thesis using k[OF it] by simp
  qed
  have choice: "tame (ask 32 (print_prefix_thread (say str (say_newline t)))) (\<lambda>(str, u). keeps F u \<and>
      (\<forall>p\<in>set ps. live (h_haddrs (c_history u)) p))"
    if "loaded_history F t" "items (c_history t) (g_server_addr_history t) = Some ps" for t ps str
    by (rule tame_mono[OF ask_objects])
      (use that in \<open>auto simp: loaded_history_def owns_def print_defs same_objects_def keeps_def objects_ok_def\<close>)
  have at: "p \<in> set ps" if "drop k ps = p # rs" for k ps p and rs :: "ptr list"
    by (metis in_set_dropD list.set_intros(1) that)
  show ?thesis
    unfolding cmd_server_history_def Let_def
    by (intro tame_intros tame_Inl tame_andthen[OF server_addr_history_load_tame[OF assms]] list tame_andthen[OF print_history_tame]
        tame_andthen[OF choice] tame_andthen[OF deref_tame] tame_andthen[OF server_connect_tame])
      (auto dest: at split: if_splits simp: server_disconnect_def print_defs)
qed

lemma cmd_thread_create_tame: "keeps F s \<Longrightarrow> tame (cmd_thread_create s) (keeps F)"
  unfolding cmd_thread_create_def Let_def
  by (intro tame_intros tame_andthen[OF ask_range_tame] tame_andthen[OF gen_query_tame(1)] tame_andthen[OF run_query_live(1)]
      tame_andthen[OF deref_tame] tame_andthen[OF token_save_tame] tame_andthen[OF free_tame])
    (auto intro: keeps_stores simp: print_prefix_thread_def)

lemma thread_live: "thread_at h p \<noteq> None \<Longrightarrow> live (f_threads h) p"
  by (cases p) (auto simp: view_Ptr live_def split: option.splits)

lemma print_threads_tame:
  assumes "keeps F s" and "gathered (c_heap s) q ds" and "set ps \<subseteq> set ds"
  shows "tame (print_threads i ps s) (\<lambda>t. keeps F t \<and> gathered (c_heap t) q ds)"
  using assms
proof (induction ps arbitrary: i s)
  case Nil
  then show ?case by (simp add: tame_def)
next
  case (Cons p ps)
  have "live (f_threads (c_heap s)) p" using Cons.prems by (intro thread_live) (auto simp: gathered_def)
  then show ?case
    using Cons by (auto intro!: tame_andthen[OF deref_tame] Cons.IH simp: print_defs simp del: deref.simps)
qed

lemma choose_thread_tame:
  assumes "keeps F s" and g: "gathered (c_heap s) q ds"
  shows "tame (choose_thread q n str s) (\<lambda>t. keeps F t \<and> gathered (c_heap t) q ds)"
proof -
  have "items (c_heap u) q = Some ds" if "gathered (c_heap u) q ds" for u using that by (simp add: gathered_def)
  then have nodes: "queue_items q (c_heap u) = Inr ds" if "gathered (c_heap u) q ds" for u using that by (simp add: queue_items_iff)
  have choice: "tame (ask 32 (print_prefix_thread (say out u))) (\<lambda>(str, v). keeps F v \<and> gathered (c_heap v) q ds)"
    if "keeps F u" "gathered (c_heap u) q ds" for u out
    by (rule tame_mono[OF ask_objects]) (use that in \<open>auto simp: print_defs same_objects_def keeps_def objects_ok_def\<close>)
  have live: "live (f_threads (c_heap u)) p" if "gathered (c_heap u) q ds" "drop k ds = p # rs" for u k p rs
  proof -
    have "p \<in> set ds" by (metis in_set_dropD list.set_intros(1) that(2))
    with that(1) show ?thesis by (intro thread_live) (auto simp: gathered_def)
  qed
  have s: "keeps F (say out s)" "gathered (c_heap (say out s)) q ds" for out using assms by (simp_all add: print_defs)
  show ?thesis
    unfolding choose_thread_def Let_def nodes[OF s(2)] andthen_Inr
    by (intro tame_intros tame_Inl tame_andthen[OF print_threads_tame[OF s order_refl]] tame_andthen[OF choice] tame_andthen[OF deref_tame])
      (auto intro: live)
qed

lemma cmd_thread_find_tame: "keeps F s \<Longrightarrow> tame (cmd_thread_find s) (keeps F)"
proof -
  assume s: "keeps F s"
  have list: "tame (andthen (deref (q_queues (c_heap t)) q) k) (keeps F)"
    if q: "q = Null \<or> (\<exists>ds. gathered (c_heap t) q ds)" and k: "\<And>ds x. gathered (c_heap t) q ds \<Longrightarrow> tame (k x) (keeps F)"
    for t q k
    using q
  proof
    assume "\<exists>ds. gathered (c_heap t) q ds"
    then obtain ds where g: "gathered (c_heap t) q ds" by blast
    then have "items (c_heap t) q = Some ds" by (simp add: gathered_def)
    then obtain a x where "q = Ptr a" "cells (q_queues (c_heap t)) a = Some x" by (rule qitems_live)
    with k[OF g] show ?thesis by simp
  qed (simp add: tame_def)
  have tail: "tame (andthen (queue_delete call_destructor q (c_heap (say_newline t))) (\<lambda>(st, heap).
      Inr (say_newline t\<lparr>c_heap := heap\<rparr>))) (keeps F)"
    if "keeps F t" "gathered (c_heap t) q ds" for t q ds
    by (rule found_delete[of "c_heap (say_newline t)" q ds])
      (use that in \<open>auto simp: print_defs tame_def keeps_stores(3)\<close>)
  have show_found: "tame (andthen (if n = 0 then Inr (puts ''Nothing found.'' t)
        else if mn = 0 then Inl Uninitialised else choose_thread q n str t) (\<lambda>s.
      andthen (queue_delete call_destructor q (c_heap (say_newline s))) (\<lambda>(st, heap).
      Inr (say_newline s\<lparr>c_heap := heap\<rparr>)))) (keeps F)"
    if "keeps F t" "gathered (c_heap t) q ds" for t q n str ds and mn :: u64
    by (rule tame_andthen[of _ "\<lambda>t. keeps F t \<and> gathered (c_heap t) q ds"])
      (use that in \<open>auto intro!: tame_intros tame_Inl choose_thread_tame tail simp del: keeps_fields\<close>,
       simp_all add: print_defs)
  show ?thesis
    unfolding cmd_thread_find_def Let_def
    by (intro tame_intros tame_andthen[OF ask_range_tame] tame_andthen[OF gen_query_tame(3)] tame_andthen[OF run_query_live(4)]
        list show_found) (auto simp: s print_prefix_thread_def)
qed

lemma fetch_thread_tame:
  "keeps F s \<Longrightarrow> tame (fetch_thread s) (\<lambda>(p, t). keeps F t \<and> (p = Null \<or> thread_at (c_heap t) p \<noteq> None))"
  unfolding fetch_thread_def by (intro tame_andthen[OF gen_query_tame(2)] run_query_live(3))

lemma drop_thread_tame:
  assumes "keeps F s" and "thread_at (c_heap s) p \<noteq> None"
  shows "tame (drop_thread p s) (keeps F)"
proof -
  have "heap_ok (c_heap s)" using assms(1) by (simp add: keeps_def objects_ok_def)
  then show ?thesis
    unfolding drop_thread_def
    by (intro tame_andthen[OF thread_delete_tame] tame_intros) (use assms in \<open>auto intro: keeps_stores\<close>)
qed

lemma thread_deref_tame:
  assumes "p = Null \<or> thread_at h p \<noteq> None"
  shows "tame (deref (f_threads h) p) (\<lambda>t. deref (f_threads h) p = Inr t \<and> thread_at h p \<noteq> None)"
  using assms
proof
  assume p: "thread_at h p \<noteq> None"
  then obtain t where "deref (f_threads h) p = Inr t" using thread_live[OF p] by (auto simp: live_def)
  with p show ?thesis by (simp add: tame_def)
qed (simp add: tame_def)

lemma cmd_thread_info_tame: "keeps F s \<Longrightarrow> tame (cmd_thread_info s) (keeps F)"
proof -
  assume s: "keeps F s"
  have count: "tame (lethread_message_count p (c_heap t)) (\<lambda>_. True)" if "thread_at (c_heap t) p \<noteq> None" for t p
    using that by (auto simp: lethread_message_count_def tame_def elim!: viewE)
  show ?thesis
    unfolding cmd_thread_info_def Let_def
    by (intro tame_intros tame_andthen[OF fetch_thread_tame] tame_andthen[OF thread_deref_tame] tame_andthen[OF count] drop_thread_tame)
      (auto simp: s print_defs)
qed

lemma print_messages_tame:
  assumes "keeps F s" and "\<forall>p\<in>set ps. live (f_messages (c_heap s)) p"
  shows "tame (print_messages ps s) (\<lambda>t. keeps F t \<and> c_heap t = c_heap s)"
  using assms
proof (induction ps arbitrary: s)
  case Nil
  then show ?case by (simp add: tame_def)
next
  case (Cons p ps)
  have "tame (print_messages ps t) (\<lambda>u. keeps F u \<and> c_heap u = c_heap s)" if "keeps F t" "c_heap t = c_heap s" for t
    using Cons.IH[OF that(1)] Cons.prems(2) that(2) by simp
  with Cons.prems show ?case
    unfolding print_messages.simps Let_def
    by (intro tame_andthen[OF deref_tame]) (auto simp: print_defs)
qed

lemma cmd_thread_message_history_tame: "keeps F s \<Longrightarrow> tame (cmd_thread_message_history s) (keeps F)"
proof -
  assume s: "keeps F s"
  have list: "tame (andthen (deref (q_queues (c_heap t)) (lt_messages th)) (\<lambda>q.
      andthen (if 0 < q_size q then andthen (queue_items (lt_messages th) (c_heap t)) (\<lambda>ps. print_messages ps t)
           else Inr (puts str t)) (\<lambda>s. drop_thread p (say_newline s)))) (keeps F)"
    if t: "keeps F t" and p: "thread_at (c_heap t) p \<noteq> None" "deref (f_threads (c_heap t)) p = Inr th" for t p th str
  proof -
    obtain v where "thread_at (c_heap t) p = Some v" using p(1) by blast
    then have tv: "thread_view (items (c_heap t)) (f_messages (c_heap t)) (f_authors (c_heap t)) th = Some v"
      using p(2) by (simp add: view_def)
    obtain ps where it: "items (c_heap t) (lt_messages th) = Some ps"
      and ms: "those (map (msg_view (f_messages (c_heap t))) ps) = Some (at_messages v)"
      using tv by (rule thread_viewE)
    obtain a x where q: "lt_messages th = Ptr a" "cells (q_queues (c_heap t)) a = Some x" using it by (rule qitems_live)
    have "live (f_messages (c_heap t)) m" if "m \<in> set ps" for m
      using those_map_SomeD[OF ms that] by (auto simp: live_def elim!: msg_viewE)
    then have live: "\<forall>m\<in>set ps. live (f_messages (c_heap t)) m" by blast
    have items: "queue_items (lt_messages th) (c_heap t) = Inr ps" by (simp add: queue_items_iff it)
    have "tame (if 0 < q_size x then andthen (queue_items (lt_messages th) (c_heap t)) (\<lambda>ps. print_messages ps t)
        else Inr (puts str t)) (\<lambda>u. keeps F u \<and> c_heap u = c_heap t)"
      using print_messages_tame[OF t live] t by (auto simp: items tame_def print_defs)
    moreover have "deref (q_queues (c_heap t)) (lt_messages th) = Inr x" using q by simp
    ultimately show ?thesis
      by (simp only: andthen_Inr) (erule tame_andthen, use p in \<open>auto intro!: drop_thread_tame simp: print_defs\<close>)
  qed
  show ?thesis
    unfolding cmd_thread_message_history_def Let_def
    by (intro tame_intros tame_andthen[OF fetch_thread_tame] tame_andthen[OF thread_deref_tame] list) (auto simp: s)
qed

lemma cmd_thread_send_message_tame: "keeps F s \<Longrightarrow> tame (cmd_thread_send_message s) (keeps F)"
  unfolding cmd_thread_send_message_def Let_def
  by (intro tame_intros tame_Inl tame_andthen[OF ask_block_tame] tame_andthen[OF token_load_tame] tame_andthen[OF gen_query_CMSG_tame]
      tame_andthen[OF run_query_tame]) auto

section \<open>The program\<close>

lemma prints_ok [simp]:
  "keeps F (print_menu_server s) = keeps F s" "keeps F (print_prefix_server s) = keeps F s"
  "keeps F (print_menu_thread s) = keeps F s" "keeps F (print_prefix_thread s) = keeps F s"
  "keeps F (print_menu_settings s) = keeps F s" "keeps F (print_prefix_settings s) = keeps F s"
  "keeps F (print_menu_main s) = keeps F s" "keeps F (print_prefix_main s) = keeps F s"
proof -
  have "keeps F (fold (\<lambda>i. say (g i)) is u) = keeps F u" for g and "is" :: "nat list" and u
    by (induction "is" arbitrary: u) auto
  then have cmds: "keeps F (print_cmds cmds repr u) = keeps F u" for cmds :: "'c list" and repr u
    by (simp add: print_cmds_def)
  show "keeps F (print_menu_server s) = keeps F s" "keeps F (print_prefix_server s) = keeps F s"
    "keeps F (print_menu_thread s) = keeps F s" "keeps F (print_prefix_thread s) = keeps F s"
    "keeps F (print_menu_settings s) = keeps F s" "keeps F (print_prefix_settings s) = keeps F s"
    "keeps F (print_menu_main s) = keeps F s" "keeps F (print_prefix_main s) = keeps F s"
    by (simp_all add: print_menu_server_def print_menu_thread_def print_menu_settings_def print_menu_main_def cmds
      print_prefix_server_def print_prefix_thread_def print_prefix_settings_def print_prefix_main_def)
qed

lemma server_cmd_tame: "keeps F s \<Longrightarrow> tame (server_cmd_step cmd s) (keeps F)"
  by (cases cmd) (auto intro: tame_intros cmd_server_connect_tame cmd_server_history_tame)

lemma thread_cmd_tame: "keeps F s \<Longrightarrow> tame (thread_cmd_step cmd s) (keeps F)"
  by (cases cmd) (auto intro: tame_intros cmd_thread_create_tame cmd_thread_find_tame cmd_thread_info_tame
    cmd_thread_message_history_tame cmd_thread_send_message_tame)

lemma cmd_server_tame: "keeps F s \<Longrightarrow> tame (cmd_server s) (keeps F)"
proof (induction s rule: measure_induct_rule[of "\<lambda>s. length (c_stdin s)"])
  case (less s)
  have again: "tame (cmd_server t) (keeps F)" if "keeps F t" "length (c_stdin t) < length (c_stdin s)" for t
    using less.IH[OF that(2,1)] .
  show ?case
    by (subst cmd_server.simps)
      (intro tame_intros tame_andthen[OF menu_tame[OF less.prems]] tame_andthen[OF server_cmd_tame] again;
        auto dest!: loop_stdin server_cmd_step_stdin)
qed

lemma thread_loop_tame: "keeps F s \<Longrightarrow> tame (thread_loop s) (keeps F)"
proof (induction s rule: measure_induct_rule[of "\<lambda>s. length (c_stdin s)"])
  case (less s)
  have again: "tame (thread_loop t) (keeps F)" if "keeps F t" "length (c_stdin t) < length (c_stdin s)" for t
    using less.IH[OF that(2,1)] .
  show ?case
    by (subst thread_loop.simps)
      (intro tame_intros tame_andthen[OF menu_tame[OF less.prems]] tame_andthen[OF thread_cmd_tame] again;
        auto dest!: loop_stdin thread_cmd_step_stdin)
qed

lemma cmd_settings_tame: "keeps F s \<Longrightarrow> tame (cmd_settings s) (keeps F)"
proof (induction s rule: measure_induct_rule[of "\<lambda>s. length (c_stdin s)"])
  case (less s)
  have again: "tame (cmd_settings t) (keeps F)" if "keeps F t" "length (c_stdin t) < length (c_stdin s)" for t
    using less.IH[OF that(2,1)] .
  show ?case
    by (subst cmd_settings.simps)
      (intro tame_intros tame_andthen[OF menu_tame[OF less.prems]] again;
        auto dest!: loop_stdin intro: tame_intros split: settings_cmd.split)
qed

text \<open>The end of the program: no query, and nothing of a queue of queries, is left.\<close>

definition nothing_pending :: "mem_pending \<Rightarrow> bool" where
  "nothing_pending h \<longleftrightarrow> cells (q_queues h) = Map.empty \<and> cells (q_nodes h) = Map.empty \<and> cells (p_queries h) = Map.empty"

definition ended :: "client \<Rightarrow> bool" where
  "ended s \<longleftrightarrow> objects_ok s \<and> g_server_queries s = Null \<and> queue_ok (c_pending s) \<and> nothing_pending (c_pending s) \<and>
     \<not> g_server_connected s"

text \<open>The queue of queries is the only one.\<close>

definition one_queue :: "ptr \<Rightarrow> footprint" where
  "one_queue q = ([q \<mapsto> []], Map.empty)"

lemma no_queues:
  assumes "qok h qs" and "qitems h qs = Map.empty"
  shows "cells qs = Map.empty" and "cells h = Map.empty"
proof -
  obtain N D where rep: "qrep h qs N D" and ok: "store_ok h" using assms(1) by (auto simp: qok_def)
  have "cells qs a = None" for a using qrep_qitems[OF rep ok, of a] assms(2) by (simp split: if_splits)
  then show "cells qs = Map.empty" by blast
  with assms(1) show "cells h = Map.empty" by (auto simp: qok_def qrep_def)
qed

lemma off_queues_free_query [simp]: "off_queues (free_query f)"
proof -
  have *: "h\<lparr>q_nodes := n, q_queues := qs, p_queries := x\<rparr> = h\<lparr>p_queries := x, q_nodes := n, q_queues := qs\<rparr>"
    for h :: mem_pending and n qs x by (cases h) simp
  show ?thesis unfolding off_queues_def free_query_def by (simp add: andthen_assoc) (simp only: * simp_thms)
qed

lemma client_cleanup_tame:
  assumes "keeps (one_queue q) s"
  shows "tame (client_cleanup s) (\<lambda>(st, t). ended t)"
proof -
  let ?s = "if g_server_connected s then snd (server_disconnect s) else s"
  have s: "keeps (one_queue q) ?s" "\<not> g_server_connected ?s" using assms by (simp_all add: server_disconnect_def)
  have it: "items (c_pending ?s) = [q \<mapsto> []]" "cells (p_queries (c_pending ?s)) = Map.empty"
    and gq: "items (c_pending ?s) (g_server_queries ?s) = Some []" and ok: "queue_ok (c_pending ?s)"
    using s(1) unfolding keeps_def pending_ok_def one_queue_def fst_conv snd_conv by blast+
  have q: "g_server_queries ?s = q" using gq unfolding it(1) by (simp split: if_splits)
  show ?thesis
  proof (rule queue_delete_law[of free_query, OF off_queues_free_query ok gq])
    fix a qu h qs
    assume "g_server_queries ?s = Ptr a" and "queue_delete free_query (g_server_queries ?s) (c_pending ?s) =
        andthen (fold_res (free_query (q_destruct qu)) [] (c_pending ?s)) (\<lambda>t. Inr (ok_status, t\<lparr>q_nodes := h, q_queues := qs\<rparr>))"
      and h: "qok h qs" and "qitems h qs = (items (c_pending ?s))(g_server_queries ?s := None)"
    moreover from this have "qitems h qs = Map.empty" unfolding q it(1) by simp
    note no_queues[OF h this]
    ultimately show ?thesis
      using s it(2) unfolding client_cleanup_def Let_def by (auto simp: tame_def ended_def nothing_pending_def keeps_def)
  qed
qed

lemma cmd_exit_tame: "keeps (one_queue q) s \<Longrightarrow> tame (cmd_exit s) ended"
  unfolding cmd_exit_def
  by (intro tame_andthen[OF client_cleanup_tame] tame_intros) (auto simp: ended_def print_defs)

lemma main_cmd_tame: "keeps F s \<Longrightarrow> cmd \<noteq> MCID_EXIT \<Longrightarrow> tame (main_cmd_step cmd s) (keeps F)"
  by (cases cmd) (auto simp: cmd_thread_def intro: tame_intros cmd_server_tame thread_loop_tame cmd_settings_tame)

lemma main_loop_tame: "keeps (one_queue q) s \<Longrightarrow> tame (main_loop s) ended"
proof (induction s rule: measure_induct_rule[of "\<lambda>s. length (c_stdin s)"])
  case (less s)
  have again: "tame (main_loop t) ended" if "keeps (one_queue q) t" "length (c_stdin t) < length (c_stdin s)" for t
    using less.IH[OF that(2,1)] .
  show ?case
    by (subst main_loop.simps)
      (intro tame_intros tame_andthen[OF menu_tame[OF less.prems]] tame_andthen[OF main_cmd_tame] again
        tame_andthen[OF client_cleanup_tame[OF less.prems]];
        auto dest!: loop_stdin main_cmd_step_stdin intro: cmd_exit_tame)
qed

definition unstarted :: "client \<Rightarrow> bool" where
  "unstarted s \<longleftrightarrow> objects_ok s \<and> queue_ok (c_pending s) \<and> store_ok (p_queries (c_pending s)) \<and> nothing_pending (c_pending s)"

lemma no_items: "cells qs = Map.empty \<Longrightarrow> qitems h qs = Map.empty"
proof (rule ext, rule ccontr)
  fix p
  assume e: "cells qs = Map.empty" and "qitems h qs p \<noteq> None"
  then obtain ds where "qitems h qs p = Some ds" by blast
  then obtain a qu where "cells qs a = Some qu" by (rule qitems_live)
  with e show False by simp
qed

lemma client_startup_tame:
  assumes "unstarted s"
  shows "tame (client_startup home s) (\<lambda>(st, t). \<exists>q. keeps (one_queue q) t)"
proof -
  have "tame (strcat_copy d src) (\<lambda>_. True)" for d src
    by (induction d src rule: strcat_copy.induct) (auto intro!: tame_intros tame_Inl tame_andthen)
  then have le: "tame (le_strcat d src) (\<lambda>_. True)" for d src
    by (induction d src rule: le_strcat.induct) (auto intro!: tame_intros tame_Inl tame_andthen)
  obtain q qs where c: "queue_create Libc_free (c_pending s) = (ok_status, q, (c_pending s)\<lparr>q_queues := qs\<rparr>)"
    "qok (q_nodes (c_pending s)) qs" "qitems (q_nodes (c_pending s)) qs = (items (c_pending s))(q \<mapsto> [])"
    by (rule queue_create_law[of "c_pending s" Libc_free]) (use assms in \<open>auto simp: unstarted_def\<close>)
  have "cells (q_queues (c_pending s)) = Map.empty" using assms by (simp add: unstarted_def nothing_pending_def)
  then have none: "items (c_pending s) = Map.empty" by (rule no_items)
  note c = c(1,2) c(3)[unfolded none]
  have started: "keeps (one_queue q) (t\<lparr>g_server_queries := q, c_pending := (c_pending s)\<lparr>q_queues := qs\<rparr>\<rparr>)" if "objects_ok t" for t
    using that assms c(2,3) by (simp add: keeps_def one_queue_def pending_ok_def unstarted_def nothing_pending_def)
  have o: "objects_ok s" using assms by (simp add: unstarted_def)
  show ?thesis
  proof (cases home)
    case None
    then show ?thesis by (simp add: client_startup_def tame_def)
  next
    case (Some h)
    let ?t = "if \<not> c_dir s then s\<lparr>g_home_dir := h, c_dir := True, c_files := (\<lambda>_. None)\<rparr> else s\<lparr>g_home_dir := h\<rparr>"
    have "keeps (one_queue q) (?t\<lparr>g_server_queries := q, c_pending := (c_pending s)\<lparr>q_queues := qs\<rparr>\<rparr>)"
      by (rule started) (use o in simp)
    then have "tame (Inr (ok_status, ?t\<lparr>g_server_queries := q, c_pending := (c_pending s)\<lparr>q_queues := qs\<rparr>\<rparr>))
        (\<lambda>(st, t). \<exists>q. keeps (one_queue q) t)" by (auto simp: tame_def)
    then show ?thesis
      unfolding client_startup_def Some option.case Let_def
      by (intro tame_andthen[OF le]) (cases "c_dir s"; simp add: c(1) split: prod.split)
  qed
qed

text \<open>
  C7.  Whatever the server answers, in whatever pieces, whatever is typed and whenever a signal or a lost
  connection comes in between: the client never uses memory it has freed, never frees memory twice and
  never follows a pointer that was not set.  If it comes to its end, every query that it made has been
  freed, and so have the queue of the query thread and all of its nodes; the client is disconnected, and the
  other objects that are left are well formed.
\<close>

theorem client_memory_safe:
  assumes "unstarted s"
  shows "client_main home s \<notin> {Inl UseAfterFree, Inl DoubleFree, Inl WildPointer} \<and>
    (\<forall>t. client_main home s = Inr t \<longrightarrow> ended t)"
proof -
  have "tame (client_main home s) ended"
    unfolding client_main_def
    by (rule tame_andthen[OF client_startup_tame[OF assms]]) (auto intro: main_loop_tame)
  then show ?thesis by (auto simp: tame_def)
qed

lemma new_unstarted: "unstarted (new_client\<lparr>c_stdin := inp\<rparr>)"
proof -
  have "c_heap new_client = empty_forum 40" "c_infos new_client = empty_store" "c_metas new_client = empty_store"
    "c_pending new_client = mem_queue.extend empty_queues \<lparr>p_queries = empty_store\<rparr>"
    by (simp_all add: new_client_def)
  moreover have "heap_ok (empty_forum 40)"
    using forum_ok_empty[of 40] by (simp add: heap_ok_def kinds_ok_def) (simp add: empty_forum_def empty_store_def)
  ultimately show ?thesis
    using new_history_ok
    by (simp add: unstarted_def objects_ok_def nothing_pending_def empty_queues_def mem_queue.defs) (simp add: empty_store_def)
qed

lemma client_memory_safe_witness:
  "\<exists>t. client_main (Some ''/root'') (new_client\<lparr>c_stdin := ''4'' @ [newline]\<rparr>) = Inr t \<and> ended t"
proof -
  have "isl (client_main (Some ''/root'') (new_client\<lparr>c_stdin := ''4'' @ [newline]\<rparr>)) = False" by code_simp
  then obtain t where "client_main (Some ''/root'') (new_client\<lparr>c_stdin := ''4'' @ [newline]\<rparr>) = Inr t"
    by (cases "client_main (Some ''/root'') (new_client\<lparr>c_stdin := ''4'' @ [newline]\<rparr>)") simp_all
  with client_memory_safe[OF new_unstarted] show ?thesis by blast
qed

end
