(* ===== verification/Client_Claims.thy ===== *)
theory Client_Claims
  imports Client_Find Client_Safety
begin

text \<open>
  The commands of the client against the abstract server, as properties with a client they are tried
  on; then what goes wrong at its edges: lost connections, long lines, the path of its directory.
\<close>

section \<open>A client that is connected\<close>

definition known_meta :: lemeta where
  "known_meta = \<lparr>mt_min_message_size = 3, mt_max_message_size = 512, mt_min_topic_size = 3, mt_max_topic_size = 64,
     mt_version = ''v'', mt_version_size = 0, mt_thread_count = 1\<rparr>"

definition idle_client :: "bytes \<Rightarrow> client" where
  "idle_client inp =
     (let (st, q, pend) = queue_create Libc_free (c_pending new_client) in
      new_client\<lparr>g_server_queries := q, c_pending := pend, c_stdin := inp\<rparr>)"

definition sample_client :: "rx_event list \<Rightarrow> bytes \<Rightarrow> client" where
  "sample_client rx inp = (idle_client inp)\<lparr>g_server_connected := True, g_server_meta := known_meta,
     g_server_fd := \<lparr>sk_rx = rx, sk_tx = replicate 700 (Tx 99), sk_out = []\<rparr>\<rparr>"

lemma idle_client_fields [simp]:
  "c_stdin (idle_client inp) = inp" "c_events (idle_client inp) = []" "c_dir (idle_client inp)" "g_working (idle_client inp)"
  "\<not> g_server_connected (idle_client inp)" "c_files (idle_client inp) = (\<lambda>_. None)" "c_capacity (idle_client inp) = (\<lambda>n. 7 * n)"
  "c_heap (idle_client inp) = empty_forum 40" "c_infos (idle_client inp) = empty_store" "c_metas (idle_client inp) = empty_store"
  "length (c_response_size (idle_client inp)) = 8" "c_stdout (idle_client inp) = []" "c_net (idle_client inp) = []"
  "\<not> g_active_thread_exists (idle_client inp)"
  by (simp_all add: idle_client_def new_client_def split: prod.split)

lemma idle_client_pending: "pending_ok (g_server_queries (idle_client inp)) (c_pending (idle_client inp))"
proof -
  have ok: "queue_ok (c_pending new_client)" "store_ok (p_queries (c_pending new_client))"
    by (simp_all add: new_client_def empty_queues_def mem_queue.defs)
  obtain q qs where "queue_create Libc_free (c_pending new_client) = (ok_status, q, (c_pending new_client)\<lparr>q_queues := qs\<rparr>)"
    "qok (q_nodes (c_pending new_client)) qs" "qitems (q_nodes (c_pending new_client)) qs = (items (c_pending new_client))(q \<mapsto> [])"
    by (rule queue_create_law[OF ok(1), of Libc_free])
  with ok(2) show ?thesis by (simp add: idle_client_def pending_ok_def)
qed

lemma sample_client_ok:
  "ready (sample_client rx inp)" "limits_known (sample_client rx inp)" "sk_rx (g_server_fd (sample_client rx inp)) = rx"
  "n \<le> 700 \<Longrightarrow> willing n (g_server_fd (sample_client rx inp))" "sent (sample_client rx inp) = []"
  using idle_client_pending[of inp]
  by (simp_all add: sample_client_def ready_def limits_known_def known_meta_def willing_def)

lemma sample_client_fields [simp]:
  "c_stdin (sample_client rx inp) = inp" "c_events (sample_client rx inp) = []" "c_dir (sample_client rx inp)"
  "c_files (sample_client rx inp) = (\<lambda>_. None)" "c_capacity (sample_client rx inp) = (\<lambda>n. 7 * n)"
  "c_heap (sample_client rx inp) = empty_forum 40" "c_infos (sample_client rx inp) = empty_store"
  "c_stdout (sample_client rx inp) = []"
  by (simp_all add: sample_client_def)

lemma empty_heap_ok: "heap_ok (empty_forum n)"
  using forum_ok_empty[of n] by (simp add: heap_ok_def kinds_ok_def) (simp add: empty_forum_def empty_store_def)

lemma sample_hears:
  assumes "ans \<noteq> []" and "length ans < 2 ^ 64 - 1"
  shows "hears (arrives [ans] @ es) ans es"
  using assms unfolding hears_def by (intro exI[of _ "[ans]"]) simp

lemma sample_talks:
  assumes "wf_request r" and "respond junk r a = Inr (ans, a')" and "ans \<noteq> []" and "length ans < 2 ^ 64 - 1"
  shows "talks junk 0 r a a' (sample_client (arrives [ans]) inp)" and "asks junk r a a' (sample_client (arrives [ans]) inp)"
proof -
  have w: "length (packet r) + 2 \<le> 700" using packet_size[OF assms(1)] by simp
  show "talks junk 0 r a a' (sample_client (arrives [ans]) inp)"
    unfolding talks_def using sample_client_ok sample_client_ok(4)[OF w] assms sample_hears[OF assms(3,4), of "[]"]
    by (auto simp: pings_def)
  show "asks junk r a a' (sample_client (arrives [ans]) inp)"
    unfolding asks_def using sample_client_ok sample_client_ok(4)[OF w] assms sample_hears[OF assms(3,4), of "[]"] by auto
qed

section \<open>Creating and posting\<close>

text \<open>
  C12.  The user of a connected client types a topic, and any number of pings passes meanwhile: the client
  sends the request, and afterwards its active thread is the new thread of the server, with the topic
  typed, and the thread's token is in the file named by its id.  The end of a line of just the largest
  size is left for the next prompt.
\<close>

theorem client_creates_thread:
  assumes "talks junk k (Create topic) a a' s" and "limits_known s" and "c_dir s" and "16 \<le> c_capacity s pointer_size"
    and "c_stdin s = topic @ newline # rest" and "newline \<notin> set topic" and "store_ok (c_infos s)"
  shows "\<exists>u v token. cmd_thread_create s = Inr u \<and> as_threads a' = as_threads a @ [v] \<and> at_topic v = topic \<and>
    g_active_thread_exists u \<and> g_active_thread_id u = at_id v \<and> map_option snd (at_author v) = Some token \<and>
    c_files u = (c_files s)(decimal (unat (at_id v)) \<mapsto> token) \<and>
    c_stdin u = (if length topic < 64 then rest else newline # rest) \<and>
    sent u = sent s @ concat (replicate k (framed ''LIVE'')) @ framed (packet (Create topic))"
proof -
  have "length topic \<le> 64" using assms(1) by (simp add: talks_def wire_topic_def)
  then have rest: "left_over 64 topic rest = (if length topic < 64 then rest else newline # rest)" by (simp add: left_over_def)
  show ?thesis
    by (rule create_law[OF assms]) (auto simp: rest show_u64_def simp del: decimal.simps)
qed

lemma sample_creates:
  obtains ans a' where "respond (\<lambda>_. NUL) (Create ''news'') (abs_server sample_server) = Inr (ans, a')"
    and "talks (\<lambda>_. NUL) 0 (Create ''news'') (abs_server sample_server) a' (sample_client (arrives [ans]) (''news'' @ [newline]))"
proof -
  obtain n where n: "urandom sample_server = replicate n (CHR ''A'')" "128 \<le> n" using sample_server_ok(3) by blast
  have "48 \<le> length (filter usable (as_dev (abs_server sample_server)))"
    unfolding sample_abs using n by (simp add: filter_replicate MIN_SYMBOL_def)
  from respond_returns[OF this, of "\<lambda>_. NUL" "Create ''news''"] obtain ans a' where
    r: "respond (\<lambda>_. NUL) (Create ''news'') (abs_server sample_server) = Inr (ans, a')" by blast
  have ans: "ans \<noteq> []" "length ans < 2 ^ 64 - 1"
    using r by (auto simp: Let_def cthr_response_def dest!: rand_string_ok)
  have "wf_request (Create ''news'')" by (simp add: wire_topic_def)
  from that[OF r sample_talks(1)[OF this r ans]] show ?thesis .
qed

lemma sample_client_types:
  "16 \<le> c_capacity (sample_client rx inp) pointer_size" "newline \<notin> set ''news''" "store_ok (c_infos (sample_client rx inp))"
  by (simp_all add: pointer_size_def)

lemma client_creates_thread_witness:
  "\<exists>s u v (a' :: aserver). c_stdin s = ''news'' @ [newline] \<and> cmd_thread_create s = Inr u \<and>
    as_threads a' = [sample_thread, v] \<and> at_topic v = ''news'' \<and> g_active_thread_id u = at_id v \<and>
    sent u = framed (packet (Create ''news''))"
proof -
  obtain ans a' where r: "respond (\<lambda>_. NUL) (Create ''news'') (abs_server sample_server) = Inr (ans, a')"
    and "talks (\<lambda>_. NUL) 0 (Create ''news'') (abs_server sample_server) a' (sample_client (arrives [ans]) (''news'' @ [newline]))"
    by (rule sample_creates)
  note t = client_creates_thread[OF this(2) sample_client_ok(2), of "[]"]
  let ?s = "sample_client (arrives [ans]) (''news'' @ [newline])"
  obtain u v token where "cmd_thread_create ?s = Inr u" "as_threads a' = as_threads (abs_server sample_server) @ [v]"
    "at_topic v = ''news''" "g_active_thread_id u = at_id v"
    "sent u = sent ?s @ concat (replicate 0 (framed ''LIVE'')) @ framed (packet (Create ''news''))"
    using t sample_client_types by fastforce
  then show ?thesis
    by - (rule exI[of _ ?s], rule exI[of _ u], rule exI[of _ v], rule exI[of _ a'], simp add: sample_abs sample_client_ok(5))
qed

lemma respond_post:
  assumes "respond junk (Post i tx token) a = Inr (ans, a')"
  shows "as_threads a' = map (\<lambda>v. if at_id v = i then posted v tx (earned_flag v token) else v) (as_threads a)"
proof (cases "thread_with i (as_threads a)")
  case None
  then have "map (\<lambda>v. if at_id v = i then posted v tx (earned_flag v token) else v) (as_threads a) = as_threads a"
    unfolding thread_with_None by (intro map_idI) auto
  with None assms show ?thesis by simp
qed (use assms in auto)

text \<open>
  C13.  The user of a connected client types a message for the active thread: the first 64 characters are
  posted, with the token if the client has one for this thread, and the server marks the message as the
  author's exactly if it is the author's token.  The prompt says 512, but the limits of topics are used;
  what is typed beyond them is read by the next prompt.
\<close>

theorem client_posts_message:
  assumes "talks junk k (Post i (take 64 str) token) a a' s" and "limits_known s" and "g_active_thread_exists s"
    and "g_active_thread_id s = i" and "c_dir s" and "c_files s (decimal (unat i)) = token"
    and "\<forall>tk. token = Some tk \<longrightarrow> newline \<notin> set tk"
    and "c_stdin s = str @ newline # rest" and "typed str" and "3 \<le> length str"
  shows "\<exists>u. cmd_thread_send_message s = Inr u \<and>
    as_threads a' = map (\<lambda>v. if at_id v = i then posted v (take 64 str) (earned_flag v token) else v) (as_threads a) \<and>
    c_stdin u = (if length str < 64 then rest else drop 64 str @ newline # rest) \<and>
    sent u = sent s @ concat (replicate k (framed ''LIVE'')) @ framed (packet (Post i (take 64 str) token)) \<and>
    c_files u = c_files s \<and> g_active_thread_id u = i"
proof -
  have tok: "c_files s (show_u64 i) = token" using assms(6) by (simp add: show_u64_def)
  obtain u where u: "cmd_thread_send_message s = Inr u" "undisturbed s u" "c_stdin u = left_over 64 str rest"
    "sent u = sent s @ concat (replicate k (framed ''LIVE'')) @ framed (packet (Post i (take 64 str) token))"
    by (rule send_message_law[OF assms(1-5) tok assms(7-10)])
  obtain ans where "respond junk (Post i (take 64 str) token) a = Inr (ans, a')" using assms(1) by (auto simp: talks_def)
  note threads = respond_post[OF this]
  with u assms(4) show ?thesis by (intro exI[of _ u]) (simp add: left_over_def undisturbed_def)
qed

lemma sample_thread_fields: "at_id sample_thread = 7" "at_author sample_thread = Some (AAAA, As)" "as_threads (abs_server sample_server) = [sample_thread]"
  by (simp_all add: sample_abs sample_thread_def)

lemma token_no_newline: "rand_string n dev = Inr (tk, dev') \<Longrightarrow> newline \<notin> set tk"
  by (drule rand_string_ok) (auto simp: symbol_ok_def)

lemma client_posts_message_witness:
  "\<exists>s u (a' :: aserver). c_stdin s = ''reply'' @ [newline] \<and> cmd_thread_send_message s = Inr u \<and> c_stdin u = [] \<and>
    as_threads a' = [posted sample_thread ''reply'' 1]"
proof -
  let ?r = "Post 7 (take 64 ''reply'') (Some As)"
  have r: "\<exists>a'. respond (\<lambda>_. NUL) ?r (abs_server sample_server) = Inr (''OK'', a')"
    by (simp add: sample_thread_fields thread_with_def)
  then obtain a' where r: "respond (\<lambda>_. NUL) ?r (abs_server sample_server) = Inr (''OK'', a')" by blast
  have wf: "wf_request ?r" using As_ok by (simp add: wire_text_def token_ok_def)
  let ?s = "(sample_client (arrives [''OK'']) (''reply'' @ [newline]))\<lparr>g_active_thread_exists := True, g_active_thread_id := 7,
    c_files := (\<lambda>_. None)(decimal 7 \<mapsto> As)\<rparr>"
  have t: "talks (\<lambda>_. NUL) 0 ?r (abs_server sample_server) a' ?s"
    using sample_talks(1)[OF wf r, of "''reply'' @ [newline]"] by (simp add: talks_def)
  have As: "newline \<notin> set As" using token_no_newline[OF token_A[of 24]] by simp
  obtain u where "cmd_thread_send_message ?s = Inr u" "c_stdin u = []"
    "as_threads a' = map (\<lambda>v. if at_id v = 7 then posted v (take 64 ''reply'') (earned_flag v (Some As)) else v)
      (as_threads (abs_server sample_server))"
    using client_posts_message[OF t, of "[]"] sample_client_ok(2) As
    by (fastforce simp: limits_known_def typed_def simp del: decimal.simps)
  then show ?thesis
    by - (rule exI[of _ ?s], rule exI[of _ u], rule exI[of _ a'], simp add: sample_thread_fields earned_flag_def)
qed




section \<open>Finding\<close>

text \<open>
  C11.  The user types part of a topic, then a number: the client asks the server for exactly the part typed
  and lists the topics of exactly the threads on the server that contain that part, numbered from 1 in the order of their creation, and the thread
  with the number typed becomes the active one.  Any other answer changes nothing; when nothing is found
  there is no second prompt.
\<close>

theorem client_finds_and_chooses:
  assumes "finds junk k part a s" and "c_stdin s = part @ newline # choice @ newline # rest"
    and "typed choice" and "length choice < 31"
  shows "\<exists>u. cmd_thread_find s = Inr u \<and> c_stdout u = c_stdout s @ search_text part (matches part a) \<and>
    c_stdin u = (if matches part a = [] then choice @ newline # rest else rest) \<and>
    (let n = unat (strtoull choice) in
     if matches part a \<noteq> [] \<and> 1 \<le> n \<and> n \<le> length (matches part a)
     then g_active_thread_exists u \<and> g_active_thread_id u = at_id (matches part a ! (n - 1))
     else g_active_thread_exists u = g_active_thread_exists s \<and> g_active_thread_id u = g_active_thread_id s) \<and>
    sent u = sent s @ concat (replicate k (framed ''LIVE'')) @ framed (packet (Find part)) \<and> ready u \<and> heap_ok (c_heap u)"
proof -
  let ?vs = "matches part a" and ?n = "unat (strtoull choice)"
  have l: "limits_known s" and part: "length part < 64" and wf: "wf_request (Find part)"
    using assms(1) by (simp_all add: finds_def talks_def)
  obtain s1 s2 q ds where ask: "ask_range 3 64 (print_prefix_thread (say (''Type part of the topic to find '' @ limits 3 64) s)) =
      Inr (of_nat (length part), part, s1)"
    and run: "run_query Parse_response_FTHR \<lparr>ld_data = packet (Find part), ld_size = of_nat (length (packet (Find part)))\<rparr> (say_newline s1) = Inr (q, s2)"
    and g: "gathered (c_heap s2) q ds" and vs: "listed (c_heap s2) ds ?vs" and ev: "c_events s2 = []"
    and inp: "c_stdin s2 = choice @ newline # rest" and rdy: "ready s2" and k: "undisturbed s (s2\<lparr>c_heap := c_heap s\<rparr>)"
    and wire: "sent s2 = sent s @ concat (replicate k (framed ''LIVE'')) @ framed (packet (Find part))"
    and out: "c_stdout s2 = c_stdout s @ ''Type part of the topic to find '' @ limits 3 64 @ [newline] @ ''[Thread] > '' @ [newline]"
    by (rule find_query_law[OF assms(1,2)])
  have len: "length ds = length ?vs" using vs by (rule list_all2_lengthD)
  have it: "items (c_heap s2) q = Some ds" and ok: "queue_ok (c_heap s2)" using g by (simp_all add: gathered_def heap_ok_def)
  obtain b x where b: "q = Ptr b" "cells (q_queues (c_heap s2)) b = Some x" using it by (rule qitems_live)
  have x: "q_size x = length ?vs" using q_first_Null_iff(2)[OF ok it[unfolded b(1)] b(2)] len by simp
  define shown where "shown = (if ?vs = [] then puts ''Nothing found.'' s2 else
    (let t = s2\<lparr>c_stdout := c_stdout s2 @ found_text part ?vs, c_stdin := rest\<rparr> in
     if ?n < 1 \<or> length ?vs < ?n then t
     else t\<lparr>g_active_thread_id := at_id (?vs ! (?n - 1)), g_active_thread_exists := True\<rparr>))"
  have pick: "(if q_size x = 0 then Inr (puts ''Nothing found.'' s2)
      else if (3 :: u64) = 0 then Inl Uninitialised else choose_thread q (q_size x) part s2) = Inr shown"
    using choose_thread_law[OF g vs ev inp assms(3,4)] by (simp add: shown_def x len Let_def)
  have heap: "c_heap (say_newline shown) = c_heap s2" by (simp add: shown_def Let_def print_defs)
  obtain h where h: "queue_delete call_destructor q (c_heap s2) = Inr (ok_status, h)" "heap_ok h"
    by (rule found_delete[OF g])
  have gen: "gen_query_FTHR (part @ [NUL]) (length part) = Inr \<lparr>ld_data = packet (Find part), ld_size = of_nat (length (packet (Find part)))\<rparr>"
    using generate_packet[OF wf] by simp
  have n: "unat (of_nat (length part) :: u64) = length part" using part by (intro unat_of_nat64) simp
  have long: "\<not> too_short (of_nat (length part))" using part by (intro not_too_short) simp
  have dq: "deref (q_queues (c_heap s2)) q = Inr x" using b by simp
  have "cmd_thread_find s = Inr (say_newline shown\<lparr>c_heap := h\<rparr>)"
    by (simp add: cmd_thread_find_def Let_def limits_knownD[OF l] ask long n gen run dq pick heap h(1)
      del: append_Cons deref.simps split del: if_split)
  then show ?thesis
    using k rdy h(2) out inp wire unfolding search_text_def
    by (intro exI[of _ "say_newline shown\<lparr>c_heap := h\<rparr>"])
      (auto simp: shown_def Let_def undisturbed_def print_defs simp del: append_Cons split: if_splits)
qed

lemma client_finds_and_chooses_witness:
  "\<exists>s u. c_stdin s = ''opi'' @ [newline, CHR ''1'', newline] \<and> cmd_thread_find s = Inr u \<and> c_stdin u = [] \<and>
    g_active_thread_exists u \<and> g_active_thread_id u = 7 \<and> sent u = framed (packet (Find ''opi''))"
proof -
  let ?a = "abs_server sample_server"
  have "strstr ''topic'' ''opi''" by code_simp
  then have m: "matches ''opi'' ?a = [sample_thread]" by (simp add: matches_def sample_abs)
  have r: "respond (\<lambda>_. NUL) (Find ''opi'') ?a = Inr (fthr_response [sample_thread], ?a)"
    using m by (simp add: matches_def)
  have wf: "wf_request (Find ''opi'')" by (simp add: wire_topic_def)
  let ?s = "sample_client (arrives [fthr_response [sample_thread]]) (''opi'' @ [newline, CHR ''1'', newline])"
  have "talks (\<lambda>_. NUL) 0 (Find ''opi'') ?a ?a ?s"
    by (rule sample_talks(1)[OF wf r], unfold length_greater_0_conv[symmetric]) (simp_all add: fthr_response_def length_found_entry)
  then have f: "finds (\<lambda>_. NUL) 0 ''opi'' ?a ?s"
    using sample_client_ok(2) empty_heap_ok
    by (simp add: finds_def m wire_entry_def) (simp add: empty_forum_def sample_thread_def)
  have one: "unat (strtoull ''1'') = 1" by (simp add: strtoull_def is_space_def is_digit_def)
  have line: "c_stdin ?s = ''opi'' @ newline # ''1'' @ newline # []" "typed ''1''" "length ''1'' < 31"
    by (simp_all add: typed_def)
  obtain u where "cmd_thread_find ?s = Inr u" "c_stdin u = []" "g_active_thread_exists u" "g_active_thread_id u = 7"
    "sent u = framed (packet (Find ''opi''))"
    using client_finds_and_chooses[OF f line] unfolding m Let_def one
    by (auto simp: sample_client_ok(5) simp del: append_Cons packet.simps)
  then show ?thesis by - (rule exI[of _ ?s], rule exI[of _ u], simp del: packet.simps)
qed

end
