(* ===== verification/Client_Edges.thy ===== *)
theory Client_Edges
  imports Client_Claims
begin

text \<open>
  What the client shows of a thread and what it keeps of a connection; then its edges: a connection
  that is lost while the user types, lines longer than their block, the path of its directory.
\<close>

section \<open>Showing messages\<close>

text \<open>
  C16.  The message history of the active thread, as far as the texts go, is the one on the server: what
  is printed is the rendering of a list of messages with the server's texts in the server's order.  Their
  numbers are consecutive, but start at a random one of the client's.  The thread that was received is
  deleted again, and no other one is touched.
\<close>

theorem client_shows_messages:
  assumes "shows_thread junk v a s"
  shows "\<exists>u ms first. cmd_thread_message_history s = Inr u \<and> c_stdout u = c_stdout s @ shown_messages ms \<and>
    map am_text ms = map am_text (at_messages v) \<and> map am_id ms = map (\<lambda>i. first + of_nat i) [0..<length (at_messages v)] \<and>
    sent u = sent s @ framed (packet (Get (at_id v))) \<and> thread_at (c_heap u) = thread_at (c_heap s) \<and> heap_ok (c_heap u)"
proof -
  obtain u first where "cmd_thread_message_history s = Inr u"
    "c_stdout u = c_stdout s @ shown_messages (at_messages (received junk first v))"
    "sent u = sent s @ framed (packet (Get (at_id v)))" "heap_ok (c_heap u)" "thread_at (c_heap u) = thread_at (c_heap s)"
    by (rule message_history_law[OF assms])
  then show ?thesis
    using received_texts[of junk first v] received_ids[of junk first v] by blast
qed

lemma sample_shows:
  "shows_thread (\<lambda>_. NUL) sample_thread (abs_server sample_server)
    ((sample_client (arrives [gthr_response (\<lambda>_. NUL) sample_thread]) [])\<lparr>g_active_thread_exists := True, g_active_thread_id := 7\<rparr>)"
proof -
  let ?a = "abs_server sample_server" and ?g = "gthr_response (\<lambda>_. NUL) sample_thread"
  have v: "thread_with 7 (as_threads ?a) = Some sample_thread"
    by (simp add: sample_thread_fields thread_with_def)
  have r: "respond (\<lambda>_. NUL) (Get 7) ?a = Inr (?g, ?a)" using v by simp
  have "asks (\<lambda>_. NUL) (Get 7) ?a ?a (sample_client (arrives [?g]) [])"
    by (rule sample_talks(2)[OF _ r]) (simp_all add: gthr_response_def gthr_header_def gthr_message_def)
  then show ?thesis
    using v empty_heap_ok[of 40]
    by (simp add: shows_thread_def asks_def wire_thread_def wire_text_def empty_forum_def) (simp add: sample_thread_def)
qed

lemma client_shows_messages_witness:
  "\<exists>s u ms. cmd_thread_message_history s = Inr u \<and> c_stdout u = shown_messages ms \<and> map am_text ms = [''hello'']"
proof -
  let ?s = "(sample_client (arrives [gthr_response (\<lambda>_. NUL) sample_thread]) [])\<lparr>g_active_thread_exists := True, g_active_thread_id := 7\<rparr>"
  obtain u ms where "cmd_thread_message_history ?s = Inr u" "c_stdout u = c_stdout ?s @ shown_messages ms"
    "map am_text ms = map am_text (at_messages sample_thread)"
    using client_shows_messages[OF sample_shows] by blast
  then show ?thesis by - (rule exI[of _ ?s], rule exI[of _ u], rule exI[of _ ms], simp)
qed

section \<open>Connecting\<close>

text \<open>
  C17.  A client that is not connected and not disturbed asks for address and port, which is the number
  typed modulo 65536, and asks the server for its limits.  For the answer it allocates the size of a pointer
  only.  Where \<open>malloc\<close> happens to give 56 bytes for that, the client is connected: it says so, knows the
  limits, the version and the number of threads of the server, and the server is in the history that will
  be offered, once.  With a smaller block, such as the 24 bytes of glibc, connecting always writes behind it.
\<close>

theorem client_connects:
  assumes "may_connect a sk s" and "c_events s = []" and "history_file s aps"
    and "c_stdin s = addr @ newline # port @ newline # rest" and "typed addr" and "typed port"
    and "length addr < 31" and "length port < 31" and "inet_pton addr \<noteq> None" and "word_ok addr"
  shows "if 56 \<le> c_capacity s pointer_size
    then \<exists>u. cmd_server_connect s = Inr u \<and> g_server_connected u \<and> limits_known u \<and>
      mt_version (g_server_meta u) = get_version \<and> mt_thread_count (g_server_meta u) = of_nat (length (as_threads a)) \<and>
      history_file u (add_new (addr, ucast (atoi port)) aps) \<and> c_stdin u = rest \<and>
      sent u = sk_out sk @ framed (packet Meta) \<and>
      c_stdout u = c_stdout s @ ''Enter addr of the server.'' @ [newline, newline] @ ''[Server] > '' @ [newline] @
        ''Enter port of the server.'' @ [newline, newline] @ ''[Server] > '' @ [newline] @ ''Connected.'' @ [newline, newline]
    else cmd_server_connect s = Inl OutOfBounds"
proof -
  define s1 where "s1 = print_prefix_server (puts ''Enter addr of the server.'' s)"
  have ask1: "ask 32 s1 = Inr (addr, s1\<lparr>c_stdin := port @ newline # rest\<rparr>)"
    using ask_law[of s1 s1 addr "port @ newline # rest" 32] assms(2,4,5,7)
    by (simp add: s1_def meanwhile_def print_defs left_over_def)
  define s2 where "s2 = print_prefix_server (puts ''Enter port of the server.'' (say_newline (s1\<lparr>c_stdin := port @ newline # rest\<rparr>)))"
  have ask2: "ask 32 s2 = Inr (port, s2\<lparr>c_stdin := rest\<rparr>)"
    using ask_law[of s2 s2 port rest 32] assms(2,6,8)
    by (simp add: s1_def s2_def meanwhile_def print_defs left_over_def)
  define s3 where "s3 = say_newline (s2\<lparr>c_stdin := rest\<rparr>)"
  have out: "c_stdout s3 = c_stdout s @ ''Enter addr of the server.'' @ [newline, newline] @ ''[Server] > '' @ [newline] @
      ''Enter port of the server.'' @ [newline, newline] @ ''[Server] > '' @ [newline]"
    by (simp add: s1_def s2_def s3_def print_defs)
  have s3: "may_connect a sk s3" "history_file s3 aps" "c_stdin s3 = rest"
    using assms(1,3) by (simp_all add: s1_def s2_def s3_def print_defs may_connect_def history_file_def)
  have cap: "c_capacity s3 = c_capacity s" by (simp add: s1_def s2_def s3_def print_defs)
  show ?thesis
  proof (cases rule: server_connect_law[OF s3(1) assms(9,10) s3(2), where port = "ucast (atoi port)", case_names overruns connects])
    case overruns
    then show ?thesis
      by (simp add: cap cmd_server_connect_def ask1 ask2 flip: s1_def s2_def s3_def del: append_Cons)
  next
    case (connects u)
    have "cmd_server_connect s = Inr (say_newline (puts ''Connected.'' u))"
      by (simp add: cmd_server_connect_def ask1 ask2 connects(2) flip: s1_def s2_def s3_def del: append_Cons)
    then show ?thesis
      using connects s3(3) unfolding out by (simp add: cap print_defs ready_def limits_known_def history_file_def)
  qed
qed

lemma client_connects_witness:
  "(\<exists>s u. c_stdin s = ''127.0.0.1'' @ [newline] @ ''6969'' @ [newline] \<and> cmd_server_connect s = Inr u \<and> g_server_connected u \<and>
    mt_thread_count (g_server_meta u) = 1 \<and> history_file u [(''127.0.0.1'', 6969)]) \<and>
   (\<exists>s. c_stdin s = ''127.0.0.1'' @ [newline] @ ''6969'' @ [newline] \<and> c_capacity s 8 = 24 \<and>
    cmd_server_connect s = Inl OutOfBounds)"
proof -
  let ?a = "abs_server sample_server"
  let ?sk = "\<lparr>sk_rx = arrives [meta_response 1], sk_tx = replicate 700 (Tx 99), sk_out = []\<rparr>"
  let ?s = "(idle_client (''127.0.0.1'' @ newline # ''6969'' @ newline # []))\<lparr>c_net := [Connects ?sk]\<rparr>"
  have "\<exists>es. hears (sk_rx ?sk) (meta_response (length (as_threads ?a))) es"
    using sample_hears[of "meta_response 1" "[]"] by (auto simp: sample_abs meta_response_def)
  then have m: "may_connect ?a ?sk ?s"
    using idle_client_pending by (simp add: may_connect_def willing_def pointer_size_def packet.simps)
  have h: "history_file ?s []" by (simp add: history_file_def)
  have line: "c_stdin ?s = ''127.0.0.1'' @ newline # ''6969'' @ newline # []" "typed ''127.0.0.1''" "typed ''6969''"
    "length ''127.0.0.1'' < 31" "length ''6969'' < 31" "word_ok ''127.0.0.1''"
    by (simp_all add: typed_def word_ok_def is_space_def)
  have ip: "inet_pton ''127.0.0.1'' \<noteq> None" by (simp add: inet_pton_def octet_def is_digit_def)
  have port: "ucast (atoi ''6969'') = (6969 :: u16)" by (simp add: atoi_def strtol_def is_space_def is_digit_def)
  obtain u where "cmd_server_connect ?s = Inr u" "g_server_connected u" "mt_thread_count (g_server_meta u) = of_nat (length (as_threads ?a))"
    "history_file u (add_new (''127.0.0.1'', ucast (atoi ''6969'')) [])"
    using client_connects[OF m _ h line(1-5) ip line(6)] by (auto simp: pointer_size_def)
  then have "\<exists>s u. c_stdin s = ''127.0.0.1'' @ [newline] @ ''6969'' @ [newline] \<and> cmd_server_connect s = Inr u \<and>
      g_server_connected u \<and> mt_thread_count (g_server_meta u) = 1 \<and> history_file u [(''127.0.0.1'', 6969)]"
    unfolding port by - (rule exI[of _ ?s], rule exI[of _ u], simp add: sample_abs add_new_def)
  moreover have "cmd_server_connect (?s\<lparr>c_capacity := \<lambda>n. 24\<rparr>) = Inl OutOfBounds"
    using client_connects[of ?a ?sk "?s\<lparr>c_capacity := \<lambda>n. 24\<rparr>", OF _ _ _ _ line(2-5) ip line(6), of "[]" "[]"] m h
    by (simp add: may_connect_def history_file_def)
  then have "\<exists>s. c_stdin s = ''127.0.0.1'' @ [newline] @ ''6969'' @ [newline] \<and> c_capacity s 8 = 24 \<and>
      cmd_server_connect s = Inl OutOfBounds"
    by - (rule exI[of _ "?s\<lparr>c_capacity := \<lambda>n. 24\<rparr>"], simp)
  ultimately show ?thesis by blast
qed

section \<open>Pings that go wrong\<close>

lemma differs:
  assumes "NUL \<in> set raw" and "take 2 raw \<noteq> ''OK''"
  shows "at_lit raw ''OK'' = Inr False"
proof -
  obtain b where b: "at_lit raw ''OK'' = Inr b"
    using strncmp_eq_no_fault[OF assms(1), of "''OK''" "[NUL]"] by (auto simp: at_lit_def)
  show ?thesis
  proof (cases b)
    case True
    then obtain r where "raw = ''OK'' @ r" using b by (auto elim: at_lit_True)
    with assms(2) show ?thesis by simp
  qed (use b in simp)
qed

text \<open>The connection is closed or broken, or the answer is too large, or not \<open>OK\<close>.\<close>

definition bad_answer :: "rx_event list \<Rightarrow> bool" where
  "bad_answer rx \<longleftrightarrow> (\<exists>es. rx = Rx_closed # es \<or> rx = Rx_failed # es \<or> (\<exists>n. rx = Rx (le64 n) # es \<and> MAX_PACKET_SIZE < unat n) \<or>
     (\<exists>ans. rx = arrives [ans] @ es \<and> ans \<noteq> [] \<and> length ans \<le> MAX_PACKET_SIZE \<and> take 2 ans \<noteq> ''OK''))"

text \<open>What is left after a failure: the message, and a client that is disconnected.\<close>

definition gave_up :: "client \<Rightarrow> client \<Rightarrow> bool" where
  "gave_up s u \<longleftrightarrow> \<not> g_server_connected u \<and> \<not> g_active_thread_exists u \<and> g_active_thread_id u = 0 \<and> g_working u = g_working s \<and>
     (\<exists>str\<in>{LOST, SUSPICIOUS}. c_stdout u = c_stdout s @ [newline] @ str @ [newline]) \<and> c_files u = c_files s \<and> c_heap u = c_heap s \<and>
     g_server_queries u = g_server_queries s \<and> c_pending u = c_pending s \<and> c_stdin u = c_stdin s"

lemma gave_upI:
  assumes "g_server_connected s" and "str = LOST \<or> str = SUSPICIOUS"
  shows "\<exists>u. live_failure str (s\<lparr>g_server_fd := sk, c_response_size := sz\<rparr>) = Inr u \<and> gave_up s u"
    and "\<exists>u. live_failure str (s\<lparr>g_server_fd := sk\<rparr>) = Inr u \<and> gave_up s u"
    and "\<exists>u. live_failure str (s\<lparr>c_response_size := sz, g_server_fd := sk\<rparr>) = Inr u \<and> gave_up s u"
  using assms by (auto simp: live_failure_def server_disconnect_def gave_up_def print_defs)

lemma bad_answer_law:
  assumes c: "g_server_connected s" "length (c_response_size s) = 8" and tx: "willing 2 (g_server_fd s)"
    and rx: "bad_answer (sk_rx (g_server_fd s))"
  shows "\<exists>u. keep_alive s = Inr u \<and> gave_up s u"
proof -
  have w1: "willing (Suc (Suc 0)) (g_server_fd s)" using tx by (simp add: eval_nat_numeral)
  obtain sk1 where sk1: "send (le64 4) (g_server_fd s) = Inr (8, sk1)" "willing (Suc 0) sk1" "sk_rx sk1 = sk_rx (g_server_fd s)"
    by (rule send_short[OF w1, of "le64 4"]) auto
  obtain sk2 where sk2: "send ''LIVE'' sk1 = Inr (4, sk2)" "sk_rx sk2 = sk_rx sk1"
    by (rule send_short[OF sk1(2), of "''LIVE''"]) auto
  have big: "length (le64 n) = 8" "overlay (le64 n) (c_response_size s) = le64 n" for n using c(2) by (simp_all add: overlay_all)
  note go = keep_alive_def Let_def sk1(1) sk2(1) recv_size_def
  obtain es where "sk_rx sk2 = Rx_closed # es \<or> sk_rx sk2 = Rx_failed # es \<or> (\<exists>n. sk_rx sk2 = Rx (le64 n) # es \<and> MAX_PACKET_SIZE < unat n) \<or>
     (\<exists>ans. sk_rx sk2 = arrives [ans] @ es \<and> ans \<noteq> [] \<and> length ans \<le> MAX_PACKET_SIZE \<and> take 2 ans \<noteq> ''OK'')"
    using rx sk1(3) sk2(2) unfolding bad_answer_def by auto
  then show ?thesis
  proof (elim disjE exE conjE)
    assume rx: "sk_rx sk2 = Rx_closed # es"
    then have r: "recv n sk2 = Inr (0, [], sk2)" for n by (simp add: recv_def)
    have "at_lit (replicate (Suc n) NUL) ''OK'' = Inr False" for n by (rule differs) (cases n; simp)+
    then show ?thesis
      using gave_upI[OF c(1), of SUSPICIOUS] by (auto simp: go r overlay_def simp del: replicate_Suc)
  next
    assume "sk_rx sk2 = Rx_failed # es"
    then have "recv 8 sk2 = Inr (-1, [], sk2\<lparr>sk_rx := es\<rparr>)" by (simp add: recv_def)
    then show ?thesis using gave_upI[OF c(1), of LOST] by (auto simp: go overlay_def)
  next
    fix n assume n: "sk_rx sk2 = Rx (le64 n) # es" "MAX_PACKET_SIZE < unat n"
    have "recv 8 sk2 = Inr (8, le64 n, sk2\<lparr>sk_rx := es\<rparr>)" using recv_piece[OF n(1) le64_ne, of 8] by (simp add: big)
    then show ?thesis using gave_upI[OF c(1), of SUSPICIOUS] n(2) by (auto simp: go big)
  next
    fix ans assume a: "sk_rx sk2 = arrives [ans] @ es" "ans \<noteq> []" "length ans \<le> MAX_PACKET_SIZE" "take 2 ans \<noteq> ''OK''"
    define sk3 where "sk3 = sk2\<lparr>sk_rx := Rx ans # es\<rparr>"
    have n: "unat (of_nat (length ans) :: u64) = length ans" using a(3) by (intro unat_of_nat64) (simp add: MAX_PACKET_SIZE_def)
    have r1: "recv 8 sk2 = Inr (8, le64 (of_nat (length ans)), sk3)"
      using receive_packet(1)[of sk2 "[ans]" es ans] a(1,2) by (simp add: sk3_def)
    have r2: "recv (length ans) sk3 = Inr (int (length ans), ans, sk3\<lparr>sk_rx := es\<rparr>)"
      using recv_piece[of sk3 ans es "length ans"] a(2) by (simp add: sk3_def)
    have "take 2 (ans @ [NUL]) \<noteq> ''OK''" using a(2,4) by (cases ans; cases "tl ans") auto
    then have "at_lit (ans @ [NUL]) ''OK'' = Inr False" by (intro differs) simp
    then show ?thesis using gave_upI[OF c(1), of SUSPICIOUS] a(2,3) by (auto simp: go r1 r2 n big)
  qed
qed

text \<open>
  C15.  A ping that fails, because it cannot be sent, the server is gone, or what it answers is too large
  or not \<open>OK\<close>, ends the connection: the client says so, is disconnected and has no active thread any more;
  its files, threads and pending queries are as before.
\<close>

theorem ping_failure_disconnects:
  assumes "ready s" and "(\<exists>es. sk_tx (g_server_fd s) = Tx_failed # es) \<or> willing 2 (g_server_fd s) \<and> bad_answer (sk_rx (g_server_fd s))"
  shows "\<exists>u. query_loop_pass s = Inr u \<and> gave_up s u"
proof -
  have r: "pending_ok (g_server_queries s) (c_pending s)" "g_working s" "g_server_connected s" "length (c_response_size s) = 8"
    using assms(1) by (simp_all add: ready_def)
  then have q: "queue_ok (c_pending s)" "items (c_pending s) (g_server_queries s) = Some []" by (simp_all add: pending_ok_def)
  obtain a x where gq: "g_server_queries s = Ptr a" "cells (q_queues (c_pending s)) a = Some x"
    using q(2) by (rule qitems_live)
  from q_first_Null_iff(2)[OF q(1) q(2)[unfolded gq(1)] gq(2)] have "q_size x = 0" by simp
  then have pass: "query_loop_pass s = keep_alive s" using r gq by (simp add: query_loop_pass_def)
  show ?thesis using assms(2)
  proof
    assume "\<exists>es. sk_tx (g_server_fd s) = Tx_failed # es"
    then show ?thesis using gave_upI(2)[OF r(3), of LOST] unfolding pass by (auto simp: keep_alive_def send_def)
  next
    assume "willing 2 (g_server_fd s) \<and> bad_answer (sk_rx (g_server_fd s))"
    then show ?thesis using bad_answer_law[OF r(3,4)] unfolding pass by blast
  qed
qed

lemma ping_failure_disconnects_witness:
  "\<exists>s u. sk_rx (g_server_fd s) = arrives [''NO''] \<and> query_loop_pass s = Inr u \<and> \<not> g_server_connected u"
proof -
  let ?s = "sample_client (arrives [''NO'']) []"
  have "bad_answer (sk_rx (g_server_fd ?s))"
    unfolding bad_answer_def sample_client_ok(3) by (rule exI[of _ "[]"]) (auto simp: MAX_PACKET_SIZE_def intro!: exI[of _ "''NO''"])
  then obtain u where "query_loop_pass ?s = Inr u" "gave_up ?s u"
    using ping_failure_disconnects[OF sample_client_ok(1), of "arrives [''NO'']" "[]"] sample_client_ok(4)[of 2 "arrives [''NO'']" "[]"] by auto
  then show ?thesis by (intro exI[of _ ?s] exI[of _ u]) (simp add: gave_up_def sample_client_ok(3))
qed

section \<open>Losing the connection\<close>

text \<open>A query that is pushed while there is no connection is never completed.\<close>

lemma spin_disconnected:
  assumes "\<not> g_server_connected s" and "deref (p_queries (c_pending s)) query = Inr q" and "\<not> sq_completed q"
  shows "spin n query s = Inl Diverges"
proof (induction n)
  case 0
  show ?case using assms by (subst spin.simps) (simp del: deref.simps)
next
  case (Suc n)
  have "query_loop_pass s = Inr s" using assms(1) by (simp add: query_loop_pass_def)
  with Suc assms show ?case by (subst spin.simps) (simp del: deref.simps)
qed

lemma run_query_disconnected:
  assumes "pending_ok (g_server_queries s) (c_pending s)" and "\<not> g_server_connected s"
  shows "run_query parser qdata s = Inl Diverges"
proof -
  let ?gq = "g_server_queries s" and ?b = "brk (p_queries (c_pending s))"
  define q where "q = \<lparr>sq_completed = False, sq_raw_request_data = Some (ld_data qdata),
    sq_raw_request_data_size = ld_size qdata, sq_parse_response = parser, sq_parsed_data = Null\<rparr>"
  define queries where "queries = snd (new_obj q (p_queries (c_pending s)))"
  let ?p1 = "(c_pending s)\<lparr>p_queries := queries\<rparr>"
  have b: "cells queries ?b = Some q" by (simp add: queries_def new_obj_def)
  have ok1: "queue_ok ?p1" and it1: "items ?p1 ?gq = Some []" using assms(1) by (simp_all add: pending_ok_def)
  obtain n2 q2 where push: "queue_push ?gq (Ptr ?b) ?p1 = Inr (ok_status, ?p1\<lparr>q_nodes := n2, q_queues := q2\<rparr>)"
    and it2: "qitems n2 q2 = (items ?p1)(?gq \<mapsto> [Ptr ?b])"
    by (rule queue_push_law[OF ok1 it1, of "Ptr ?b" ?b]) simp_all
  obtain a qu where gq: "?gq = Ptr a" "cells q2 a = Some qu" by (rule qitems_live[of n2 q2 ?gq "[Ptr ?b]"]) (use it2 in simp_all)
  have "spin n (Ptr ?b) (s\<lparr>c_pending := ?p1\<lparr>q_nodes := n2, q_queues := q2\<rparr>\<rparr>) = Inl Diverges" for n
    by (rule spin_disconnected[of _ _ q]) (use assms(2) b in \<open>simp_all add: q_def\<close>)
  moreover have "query_create parser (Some (ld_data qdata)) (ld_size qdata) (p_queries (c_pending s)) = (Ptr ?b, queries)"
    by (simp add: query_create_def q_def queries_def new_obj_def)
  ultimately show ?thesis
    using push gq by (simp add: run_query_def)
qed

text \<open>The next ping fails: what the client is left with.\<close>

definition loses :: "client \<Rightarrow> bool" where
  "loses s \<longleftrightarrow> ready s \<and> limits_known s \<and> (\<exists>ess. c_events s = [Query_pass] # ess) \<and> (\<exists>es. sk_tx (g_server_fd s) = Tx_failed # es)"

lemma loses_law:
  assumes "loses s"
  obtains t where "meanwhile s = Inr t" and "\<not> g_server_connected t" and "\<not> g_active_thread_exists t" and "c_stdin t = c_stdin s"
    and "pending_ok (g_server_queries t) (c_pending t)"
proof -
  obtain ess es where ev: "c_events s = [Query_pass] # ess" "sk_tx (g_server_fd s) = Tx_failed # es" and r: "ready s"
    using assms by (auto simp: loses_def)
  then have ok: "pending_ok (g_server_queries s) (c_pending s)" "g_working s" "g_server_connected s" by (simp_all add: ready_def)
  then have q: "queue_ok (c_pending s)" "items (c_pending s) (g_server_queries s) = Some []" by (simp_all add: pending_ok_def)
  obtain a x where gq: "g_server_queries s = Ptr a" "cells (q_queues (c_pending s)) a = Some x"
    using q(2) by (rule qitems_live)
  from q_first_Null_iff(2)[OF q(1) q(2)[unfolded gq(1)] gq(2)] have "q_size x = 0" by simp
  then show ?thesis
    using ev ok gq that by (simp add: meanwhile_def event_step_def query_loop_pass_def keep_alive_def send_def
      live_failure_def server_disconnect_def print_defs)
qed

lemma loses_prompt:
  assumes "loses s" and "c_stdin s = str @ newline # rest" and "typed str" and "3 \<le> length str"
  obtains t where "ask_range 3 64 s = Inr (of_nat (min 64 (length str)), take 64 str, t)"
    and "\<not> g_server_connected t" and "\<not> g_active_thread_exists t" and "pending_ok (g_server_queries t) (c_pending t)"
proof -
  obtain t where t: "meanwhile s = Inr t" "\<not> g_server_connected t" "\<not> g_active_thread_exists t" "c_stdin t = c_stdin s"
    "pending_ok (g_server_queries t) (c_pending t)"
    by (rule loses_law[OF assms(1)])
  show ?thesis
    using ask_range_law[OF t(1) _ assms(3), of rest 3 64] assms(2,4) t(2-)
    by (intro that[of "t\<lparr>c_stdin := left_over 64 str rest\<rparr>"]) simp_all
qed

text \<open>
  C14.  The connection is lost while the user types the topic of a thread, or what to search for, or a
  message: the client notices it, says so and disconnects, and then waits for the answer to a query that
  nobody will ever send.  The command never returns.
\<close>

theorem lost_connection_hangs:
  assumes "loses s" and "c_stdin s = str @ newline # rest" and "typed str" and "3 \<le> length str"
  shows "cmd_thread_create s = Inl Diverges \<and> cmd_thread_find s = Inl Diverges \<and>
    (g_active_thread_exists s \<longrightarrow> cmd_thread_send_message s = Inl Diverges)"
proof -
  have l: "limits_known s" using assms(1) by (simp add: loses_def)
  have ask: "\<exists>t. ask_range 3 64 s' = Inr (of_nat (min 64 (length str)), take 64 str, t) \<and>
      (\<forall>parser qdata. run_query parser qdata (say_newline t) = Inl Diverges) \<and>
      token_load (say_newline t) = Inr (err LESTATUS_IDAT, None, say_newline t)" if same: "s' = s\<lparr>c_stdout := c_stdout s'\<rparr>" for s'
  proof -
    have "loses (s\<lparr>c_stdout := c_stdout s'\<rparr>)" "c_stdin (s\<lparr>c_stdout := c_stdout s'\<rparr>) = str @ newline # rest"
      using assms(1,2) by (simp_all add: loses_def ready_def limits_known_def)
    then obtain t where t: "ask_range 3 64 s' = Inr (of_nat (min 64 (length str)), take 64 str, t)"
      "\<not> g_server_connected t" "\<not> g_active_thread_exists t" "pending_ok (g_server_queries t) (c_pending t)"
      using assms(3,4) unfolding same[symmetric] by (rule loses_prompt)
    have "run_query parser qdata (say_newline t) = Inl Diverges" for parser qdata
      by (rule run_query_disconnected) (use t in \<open>simp_all add: print_defs\<close>)
    with t show ?thesis by (auto simp: token_load_def print_defs)
  qed
  have wf: "wf_request (Create (take 64 str))" "wf_request (Find (take 64 str))" "wf_request (Post i (take 64 str) None)" for i
    using assms(3,4) by (auto simp: wire_topic_def wire_text_def typed_def dest: in_set_takeD)
  have n: "unat (of_nat (min 64 (length str)) :: u64) = length (take 64 str)" by (subst unat_of_nat64) simp_all
  have long: "\<not> too_short (of_nat (min 64 (length str)))" by (intro not_too_short) simp
  note gen = generate_packet[OF wf(1)] generate_packet[OF wf(2)] generate_packet[OF wf(3)]
  note gen = gen[unfolded generate.simps length_take option.map]
  note facts = Let_def limits_knownD[OF l] n long gen
  have same: "print_prefix_thread (say t s) = s\<lparr>c_stdout := c_stdout (print_prefix_thread (say t s))\<rparr>"
    "say t s = s\<lparr>c_stdout := c_stdout (say t s)\<rparr>" for t by (simp_all add: print_defs)
  have "cmd_thread_create s = Inl Diverges"
    using ask[OF same(1), of "''Thread topic '' @ limits 3 64"] by (auto simp: cmd_thread_create_def facts simp del: append_Cons)
  moreover have "cmd_thread_find s = Inl Diverges"
    using ask[OF same(1), of "''Type part of the topic to find '' @ limits 3 64"]
    by (auto simp: cmd_thread_find_def facts simp del: append_Cons)
  moreover have "cmd_thread_send_message s = Inl Diverges" if "g_active_thread_exists s"
    using ask[OF same(2), of "''Type your message '' @ limits 3 512"] that
    by (auto simp: cmd_thread_send_message_def facts ask_block_fits simp del: append_Cons)
  ultimately show ?thesis by blast
qed

lemma lost_connection_hangs_witness:
  "\<exists>s. c_stdin s = ''news'' @ [newline] \<and> cmd_thread_create s = Inl Diverges"
proof -
  let ?s = "(sample_client [] (''news'' @ newline # []))\<lparr>c_events := [[Query_pass]],
    g_server_fd := \<lparr>sk_rx = [], sk_tx = [Tx_failed], sk_out = []\<rparr>\<rparr>"
  have l: "loses ?s" using sample_client_ok(1,2)[of "[]"] by (simp add: loses_def ready_def limits_known_def)
  have line: "c_stdin ?s = ''news'' @ newline # []" "typed ''news''" "3 \<le> length ''news''" by (simp_all add: typed_def)
  show ?thesis using lost_connection_hangs[OF l line] by (intro exI[of _ ?s]) simp
qed

section \<open>Lines and paths\<close>

lemma fold_say: "fold (\<lambda>i. say (g i)) is s = say (concat (map g is)) s"
  by (induction "is" arbitrary: s) (simp_all add: say_say, simp add: say_def)

text \<open>What the menus and prompts do: they print.\<close>

lemma menus_print:
  "print_cmds cmds repr s = say (concat (map (\<lambda>i. decimal i @ '' - '' @ printed (repr (of_nat i)) @ [newline]) [1..<Suc (length cmds)])) s"
  unfolding print_cmds_def by (rule fold_say)

lemma menu_line_law:
  assumes "\<And>t. \<exists>out. prefix (menu t) = t\<lparr>c_stdout := out\<rparr>" and "c_events s = []" and "c_stdin s = line @ newline # rest"
    and "typed line"
  shows "if length line < 63 then \<exists>out. leclient_loop_process menu prefix s = Inr (atoi line, s\<lparr>c_stdin := rest, c_stdout := out\<rparr>)
    else leclient_loop_process menu prefix s = Inl OutOfBounds"
proof -
  obtain out where out: "prefix (menu s) = s\<lparr>c_stdout := out\<rparr>" using assms(1) by blast
  have "fgets 128 (line @ newline # rest) = Some (if length line < 127 then (line @ [newline], rest)
      else (take 127 line, drop 127 line @ newline # rest))"
    using assms(4) by (simp add: fgets_def read_line_take typed_def)
  then show ?thesis
    using assms(2-4) takeWhile_typed[OF assms(4), of "[newline]"]
    by (auto simp: leclient_loop_process_def out meanwhile_def print_defs)
qed

text \<open>
  C35.  At each of the four menus a line of fewer than 63 characters is read as its number and consumed;
  any longer one is stored behind the end of the 64 bytes there are for it.
\<close>

theorem menu_line_overruns:
  assumes "(menu, prefix) \<in> {(print_menu_main, print_prefix_main), (print_menu_server, print_prefix_server),
      (print_menu_thread, print_prefix_thread), (print_menu_settings, print_prefix_settings)}"
    and "c_events s = []" and "c_stdin s = line @ newline # rest" and "typed line"
  shows "if length line < 63 then \<exists>out. leclient_loop_process menu prefix s = Inr (atoi line, s\<lparr>c_stdin := rest, c_stdout := out\<rparr>)
    else leclient_loop_process menu prefix s = Inl OutOfBounds"
proof (rule menu_line_law[OF _ assms(2-4)])
  fix t
  show "\<exists>out. prefix (menu t) = t\<lparr>c_stdout := out\<rparr>"
    using assms(1) by (auto simp: print_menu_main_def print_menu_server_def print_menu_thread_def print_menu_settings_def
      menus_print print_defs simp del: append_Cons)
qed

lemma menu_line_overruns_witness:
  "leclient_loop_process print_menu_main print_prefix_main (idle_client (replicate 63 (CHR ''1'') @ [newline])) = Inl OutOfBounds"
  using menu_line_overruns[of print_menu_main print_prefix_main "idle_client (replicate 63 (CHR ''1'') @ [newline])" "replicate 63 (CHR ''1'')" "[]"]
  by (simp add: typed_def)

lemma strcat_copy_short:
  assumes "length d \<le> length t" and "NUL \<notin> set t"
  shows "strcat_copy d (t @ p) = Inl OutOfBounds"
  using assms
proof (induction d arbitrary: t)
  case (Cons x d)
  then show ?case by (cases t) auto
qed simp

lemma le_strcat_short:
  assumes "length d < length t" and "NUL \<notin> set s" and "NUL \<notin> set t"
  shows "le_strcat (s @ NUL # d) (t @ p) = Inl OutOfBounds"
  using assms(2)
proof (induction s)
  case Nil
  show ?case using strcat_copy_short[of "NUL # d" t p] assms(1,3) by simp
qed auto

text \<open>
  C36.  \<open>startup\<close> writes behind the block that it allocates for the path of the client's directory, unless
  the allocator gives more than was asked for; with one byte more the path is there and the queue of
  queries is ready.
\<close>

theorem client_startup_overruns:
  assumes "NUL \<notin> set home" and "\<forall>n. n \<le> c_capacity s n"
  shows "client_startup (Some home) s = Inl OutOfBounds \<longleftrightarrow>
    c_capacity s (length home + length DIR_CLIENT + 1) = length home + length DIR_CLIENT + 1"
proof -
  let ?n = "length home + length DIR_CLIENT + 1" and ?m = "c_capacity s (length home + length DIR_CLIENT + 1)"
  have m: "?n \<le> ?m" using assms(2) by blast
  define d where "d = replicate (?m - length home - 1) NUL"
  have "?m - length home = Suc (?m - length home - 1)" using m by simp
  then have block: "overlay home (replicate ?m NUL) = home @ NUL # d"
    using m by (simp add: overlay_def d_def del: replicate_Suc flip: replicate_Suc)
  have d: "length d = ?m - length home - 1" by (simp add: d_def)
  have path: "NUL \<notin> set (''/'' @ DIR_CLIENT)" "length (''/'' @ DIR_CLIENT) = length DIR_CLIENT + 1" by (simp_all add: DIR_CLIENT_def)
  show ?thesis
  proof (cases "?m = ?n")
    case True
    then have "length d < length (''/'' @ DIR_CLIENT)" using d path(2) by simp
    from le_strcat_short[OF this assms(1) path(1), of "[NUL]"] True show ?thesis
      unfolding client_startup_def option.case Let_def block by (simp del: append_Cons)
  next
    case False
    then have "length (''/'' @ DIR_CLIENT) \<le> length d" using d path(2) m by simp
    from le_strcat_eq[OF assms(1) path(1) this, of "[]"] False show ?thesis
      unfolding client_startup_def option.case Let_def block by (simp del: append_Cons split: prod.split)
  qed
qed

lemma client_startup_overruns_witness:
  "client_startup (Some ''/root'') (new_client\<lparr>c_capacity := \<lambda>n. n\<rparr>) = Inl OutOfBounds"
  using client_startup_overruns[of "''/root''" "new_client\<lparr>c_capacity := \<lambda>n. n\<rparr>"] by simp

section \<open>Well-formed objects\<close>

text \<open>
  C18.  The client's objects stay well formed: after every command of both menus, every pass of the query
  thread and every signal, its queue of queries is empty and its threads, addresses and answers hang
  together as before, whatever was typed and received.
\<close>

theorem client_stays_well_formed:
  assumes "client_ok s"
  shows "(\<forall>cmd t. server_cmd_step cmd s = Inr t \<longrightarrow> client_ok t) \<and> (\<forall>cmd t. thread_cmd_step cmd s = Inr t \<longrightarrow> client_ok t) \<and>
    (\<forall>e t. event_step e s = Inr t \<longrightarrow> client_ok t)"
proof -
  obtain F where F: "keeps F s" using assms by (rule client_ok_keeps)
  show ?thesis
  proof (intro conjI allI impI)
    show "client_ok t" if "server_cmd_step cmd s = Inr t" for cmd t
      using server_cmd_tame[OF F, of cmd] that by (auto simp: tame_def intro: keeps_ok)
    show "client_ok t" if "thread_cmd_step cmd s = Inr t" for cmd t
      using thread_cmd_tame[OF F, of cmd] that by (auto simp: tame_def intro: keeps_ok)
    show "client_ok t" if "event_step e s = Inr t" for e t
    proof (cases e)
      case Query_pass
      then have "same_objects s t" using idle_tame[OF F] that by (auto simp: tame_def event_step_def)
      from keeps_ok[OF same_objects_ok[OF this F]] show ?thesis .
    next
      case Signal
      then have "keeps F t" using that F by (auto simp: event_step_def stop_program_handle_def)
      then show ?thesis by (rule keeps_ok)
    qed
  qed
qed

lemma sample_objects_ok: "client_ok (sample_client rx inp)"
proof -
  have "objects_ok (new_client\<lparr>c_stdin := inp\<rparr>)" using new_unstarted[of inp] by (simp add: unstarted_def)
  then have "objects_ok (idle_client inp)" by (auto simp: idle_client_def objects_ok_def split: prod.split)
  then show ?thesis using idle_client_pending[of inp] by (simp add: client_ok_def sample_client_def)
qed

lemma client_stays_well_formed_witness:
  "\<exists>s u. c_stdin s = ''news'' @ [newline] \<and> thread_cmd_step TCID_CREATE s = Inr u \<and> client_ok u"
proof -
  obtain ans a' where t: "talks (\<lambda>_. NUL) 0 (Create ''news'') (abs_server sample_server) a' (sample_client (arrives [ans]) (''news'' @ [newline]))"
    by (rule sample_creates)
  let ?s = "sample_client (arrives [ans]) (''news'' @ [newline])"
  have line: "c_stdin ?s = ''news'' @ newline # []" and dir: "c_dir ?s" by simp_all
  obtain u where u: "cmd_thread_create ?s = Inr u"
    by (rule create_law[OF t sample_client_ok(2) dir sample_client_types(1) line sample_client_types(2,3)])
  then have "client_ok u" using client_stays_well_formed[OF sample_objects_ok, of "arrives [ans]" "''news'' @ [newline]"] by (metis thread_cmd_step.simps(1))
  with u show ?thesis by - (rule exI[of _ ?s], rule exI[of _ u], simp)
qed

end
