(* ===== verification/Server_Managers.thy ===== *)
theory Server_Managers
  imports Lookup
begin

text \<open>
  The manager threads: taking requests off their queues and writing the files.  A drained queue has
  left behind the files of everything that was waiting in it.
\<close>

section \<open>Taking a request\<close>

lemma pop_global_law:
  assumes ok: "server_ok s" and g: "g \<in> set (gq s)" and h: "cont (items s) g = h # hs"
  obtains nodes qs u where "queue_pop g s = Inr (h, u)" and "u = s\<lparr>q_nodes := nodes, q_queues := qs\<rparr>"
    and "forum_ok u" and "items u = (items s)(g \<mapsto> hs)" and "thread_at u = thread_at s"
    and "gq u = gq s" and "queues_ok (gq u) (items u) (f_threads u)"
proof -
  note D = server_okD[OF ok]
  have it: "items s g = Some (h # hs)" using queues_ok_items[OF D(3) g] h by simp
  obtain nodes qs where p: "queue_pop g s = Inr (h, s\<lparr>q_nodes := nodes, q_queues := qs\<rparr>)"
    "qok nodes qs" "qitems nodes qs = (items s)(g \<mapsto> hs)"
    by (rule queue_pop_law[OF _ it]) (use D(1) in auto)
  define u where "u = s\<lparr>q_nodes := nodes, q_queues := qs\<rparr>"
  note F = forum_ok_upd_global[OF D(1,3) g p(2,3)]
  have I: "items u = (items s)(g \<mapsto> hs)" and G: "gq u = gq s" and T: "f_threads u = f_threads s"
    using p(3) by (simp_all add: u_def gq_def)
  have "queues_ok (gq u) (items u) (f_threads u)" unfolding I G T by (rule queues_ok_upd[OF D(3)])
  then show ?thesis
    using p(1,2) F D(1) I G by (intro that[of u qs nodes]) (simp_all add: u_def)
qed

lemma pop_request_law:
  assumes ok: "server_ok s" and g: "g \<in> request_queues s" and h: "cont (items s) g = h # hs"
  obtains nodes qs u i where "queue_pop g s = Inr (h, u)" and "u = s\<lparr>q_nodes := nodes, q_queues := qs\<rparr>"
    and "server_ok u" and "forum_of u = forum_of s" and "borrows u h i" and "items u = (items s)(g \<mapsto> hs)"
    and "registered u = registered s" and "forum_of s ! i = shown s h"
proof -
  note D = server_okD[OF ok]
  have gm: "g \<in> set (gq s)" using g by auto
  obtain nodes qs u where p: "queue_pop g s = Inr (h, u)" "u = s\<lparr>q_nodes := nodes, q_queues := qs\<rparr>" "forum_ok u"
    "items u = (items s)(g \<mapsto> hs)" "thread_at u = thread_at s" "gq u = gq s"
    "queues_ok (gq u) (items u) (f_threads u)"
    by (rule pop_global_law[OF ok gm h])
  have sel: "gq u = gq s" "handle_of u = handle_of s" "f_threads u = f_threads s" "f_messages u = f_messages s"
    "thread_at u = thread_at s" "items u = (items s)(g \<mapsto> hs)" "sp_ok (sp_objs u) (sp_counts u)"
    using p(4-6) D(1) by (simp_all add: p(2))
  note G = gq_eqD[OF sel(1)]
  have dist: "distinct (gq s)" using D(3) by (simp add: queues_ok_def)
  have R: "registered u = registered s" "pending u = pending s"
    using dist g unfolding G sel(6) by (auto simp: gq_distinct)
  have dw: "distinct (registered s @ waiting s)" using D(4) by (simp add: handles_ok_def)
  have W: "set (waiting s) = insert h (set (waiting u))" "h \<notin> set (waiting u)" "distinct (waiting u)"
    using dist g h dw unfolding G sel(6) by (auto simp: gq_distinct)
  have "handles_ok (handle_of u) (thread_at u) (registered u) (waiting u)"
    unfolding R sel(2,5) by (rule handles_ok_unwait[OF D(4)]) (use W in auto)
  then have ok': "server_ok u"
    using p(3,7) D(2,5) unfolding server_ok_def R sel(3,4) by (simp add: p(2))
  have hw: "h \<in> set (waiting s)" using W(1) by simp
  then obtain h' where h': "h' \<in> set (registered s)" "handle_of s h = handle_of s h'"
    using D(4) unfolding handles_ok_def by blast
  then obtain i where i: "i < length (registered s)" "registered s ! i = h'" by (auto simp: in_set_conv_nth)
  have "h \<notin> set (registered s)" using dw hw by auto
  then have "borrows u h i" using W(2) i h'(2) unfolding borrows_def R sel(2) by simp
  moreover have "forum_of u = forum_of s" unfolding forum_of_def R sel(2,5) ..
  moreover have "forum_of s ! i = shown s h" using i h'(2) by (simp add: forum_of_nth owner_def)
  ultimately show ?thesis
    using p(1,2) ok' sel(6) R(1) by (intro that[where u = u and i = i])
qed

text \<open>What is left of the backlog once the first request of the queue \<open>g\<close> is served.\<close>

definition served :: "ptr \<Rightarrow> server \<Rightarrow> todo" where
  "served g s =
     (backlog s)\<lparr>td_threads := (if g = g_lethread_query_queue s then tl else id) (td_threads (backlog s)),
       td_authors := (if g = g_leauthor_query_queue s then tl else id) (td_authors (backlog s))\<rparr>"

lemma served_law:
  assumes ok: "server_ok s" and g: "g \<in> request_queues s" and h: "cont (items s) g = h # hs"
    and I: "items u = (items s)(g \<mapsto> hs)" and G: "gq u = gq s" and V: "thread_at u = thread_at s"
    and H: "\<forall>x. x \<noteq> h \<longrightarrow> handle_of u x = handle_of s x" and M: "msg_line u = msg_line s"
  shows "backlog u = served g s"
proof -
  have dist: "distinct (gq s)" using server_okD(3)[OF ok] by (simp add: queues_ok_def)
  have "distinct (waiting s)" using server_okD(4)[OF ok] by (simp add: handles_ok_def)
  then have fresh: "h \<notin> set (if g' = g then hs else cont (items s) g')" if "g' \<in> request_queues s" for g'
    using g that dist h by (auto simp: gq_distinct)
  have cont: "cont (items u) g' = (if g' = g then hs else cont (items s) g')" for g' using I by (simp add: cont_def)
  have due: "due u g' = (if g' = g then tl else id) (due s g')" if "g' \<in> request_queues s" for g'
  proof -
    have "at_id (shown u x) = at_id (shown s x)" if "x \<in> set (cont (items u) g')" for x
    proof -
      have "x \<noteq> h" using fresh[OF \<open>g' \<in> _\<close>] that unfolding cont by metis
      with H have "handle_of u x = handle_of s x" by blast
      then show ?thesis by (simp only: V owner_def)
    qed
    then have "due u g' = map (\<lambda>x. at_id (shown s x)) (cont (items u) g')" by (intro map_cong[OF refl])
    then show ?thesis using h by (simp add: cont)
  qed
  have "pending u = pending s" using g dist by (auto simp: gq_eqD[OF G] cont gq_distinct)
  moreover have "due u (g_lethread_query_queue s) = (if g_lethread_query_queue s = g then tl else id) (due s (g_lethread_query_queue s))"
    "due u (g_leauthor_query_queue s) = (if g_leauthor_query_queue s = g then tl else id) (due s (g_leauthor_query_queue s))"
    by (rule due, simp)+
  ultimately show ?thesis
    using gq_eqD[OF G] M by (simp add: backlog_def served_def eq_commute[of g])
qed

text \<open>Files do not matter to the invariant.\<close>

lemma server_ok_fsys:
  assumes "server_ok s" and "fs_root fs"
  shows "server_ok (s\<lparr>fsys := fs\<rparr>)" and "forum_of (s\<lparr>fsys := fs\<rparr>) = forum_of s"
    and "borrows (s\<lparr>fsys := fs\<rparr>) h i = borrows s h i"
  using assms by (simp_all add: server_ok_def gq_def forum_of_def borrows_def)

section \<open>Saving one message\<close>

lemma message_step_law:
  assumes ok: "server_ok s" and m: "pending s = m # ms"
  obtains u where "lemessage_query_step s = Inr u" and "server_ok u" and "forum_of u = forum_of s"
    and "writes (fsys s) (decimal (unat (fst (msg_line s m)))) FILE_LEMESSAGES
      (bytes_at (fsys s) (fst (msg_line s m)) @ snd (msg_line s m)) (fsys u)"
    and "frame u = (urandom s, fsys u, mem_junk s, g_next_lethread_id_value s, g_program_on_finish s)"
    and "backlog u = (backlog s)\<lparr>td_messages := map (msg_line s) ms\<rparr>"
proof -
  note D = server_okD[OF ok]
  let ?g = "g_lemessage_query_queue s"
  obtain nodes qs s1 where p: "queue_pop ?g s = Inr (m, s1)" "s1 = s\<lparr>q_nodes := nodes, q_queues := qs\<rparr>" "forum_ok s1"
    "items s1 = (items s)(?g \<mapsto> ms)" "thread_at s1 = thread_at s" "gq s1 = gq s"
    "queues_ok (gq s1) (items s1) (f_threads s1)"
    by (rule pop_global_law[OF ok _ m]) simp
  note G = gq_eqD[OF p(6)]
  have dist: "distinct (gq s)" using D(3) by (simp add: queues_ok_def)
  have R: "registered s1 = registered s" "waiting s1 = waiting s" "pending s1 = ms"
    using dist unfolding G p(4) by (auto simp: gq_distinct)
  have sel: "handle_of s1 = handle_of s" "f_threads s1 = f_threads s" "f_messages s1 = f_messages s"
    "fsys s1 = fsys s" by (simp_all add: p(2))
  have "saves_ok (f_threads s1) (f_messages s1) ms" using D(5) m by (simp add: saves_ok_def sel)
  then have ok1: "server_ok s1" and f1: "forum_of s1 = forum_of s"
    using p(3,7) D(2,4) unfolding server_ok_def forum_of_def R p(5) unfolding sel by simp_all
  obtain x y where x: "deref (f_messages s) m = Inr x" "lm_text x \<noteq> None" "deref (f_threads s) (lm_lethread x) = Inr y"
    using D(5) m by (fastforce simp: saves_ok_def)
  then obtain tx where tx: "lm_text x = Some tx" by auto
  have line: "msg_line s m = (lt_id y, enc_message (lm_id x, lm_by_lethread_author x, tx))"
    using x tx by (simp add: msg_line_def)
  obtain fs where sv: "lemessage_save m s1 = Inr (ok_status, s1\<lparr>fsys := fs\<rparr>)"
    "writes (fsys s1) (decimal (unat (lt_id y))) FILE_LEMESSAGES
      ((case file_at (fsys s1) (decimal (unat (lt_id y))) FILE_LEMESSAGES of None \<Rightarrow> [] | Some c \<Rightarrow> c) @
       enc_message (lm_id x, lm_by_lethread_author x, tx)) fs"
    by (rule lemessage_save_law[of s1 m x tx y]) (use x(1,3) tx D(2) in \<open>simp_all add: sel\<close>)
  define u where "u = s1\<lparr>fsys := fs\<rparr>"
  have "fs_root fs" using sv(2) D(2) by (simp add: writes_def sel)
  note U = server_ok_fsys[OF ok1 this, folded u_def]
  have "backlog u = (backlog s)\<lparr>td_messages := map (msg_line s) ms\<rparr>"
  proof -
    have M: "msg_line u = msg_line s" by (rule msg_line_cong) (simp_all add: u_def sel)
    have V: "thread_at u = thread_at s" using p(5) by (simp add: u_def)
    have I: "items u = (items s)(?g \<mapsto> ms)" "gq u = gq s" "handle_of u = handle_of s"
      using p(4,6) by (simp_all add: u_def sel gq_def)
    have contents: "pending u = ms" "cont (items u) (g_lethread_query_queue s) = cont (items s) (g_lethread_query_queue s)"
      "cont (items u) (g_leauthor_query_queue s) = cont (items s) (g_leauthor_query_queue s)"
      using dist by (auto simp: gq_eqD[OF I(2)] I(1) gq_distinct)
    show ?thesis
      using contents unfolding backlog_def M V I(3) gq_eqD[OF I(2)] by simp
  qed
  moreover have "frame u = (urandom s, fsys u, mem_junk s, g_next_lethread_id_value s, g_program_on_finish s)"
    by (simp add: u_def p(2) frame_def)
  moreover have "lemessage_query_step s = Inr u" using p(1) sv(1) by (simp add: lemessage_query_step_def u_def)
  ultimately show ?thesis
    using U(1,2) f1 sv(2) by (intro that[of u]) (simp_all add: line bytes_at_def sel u_def)
qed

section \<open>What the files hold\<close>

definition thread_file :: "athread \<Rightarrow> bytes" where
  "thread_file v = enc_thread v (fst (the (at_author v)))"

abbreviation dir_of :: "athread \<Rightarrow> bytes" where
  "dir_of v \<equiv> decimal (unat (at_id v))"

lemma waiting_in_forum:
  assumes "server_ok s" and "h \<in> set (registered s @ waiting s)"
  shows "shown s h \<in> set (forum_of s)"
proof -
  have "h \<in> set (registered s) \<or> h \<in> set (waiting s)" using assms(2) by (simp only: set_append Un_iff)
  then obtain h' where "h' \<in> set (registered s)" "handle_of s h = handle_of s h'"
    using server_okD(4)[OF assms(1)] unfolding handles_ok_def by blast
  then show ?thesis by (auto simp: forum_of_def owner_def)
qed

lemma same_dir_same_thread:
  assumes "distinct (map at_id vs)" and "v \<in> set vs" and "w \<in> set vs" and "dir_of v = dir_of w"
  shows "v = w"
proof -
  have "at_id v = at_id w" using assms(4) by (simp add: decimal_inj word_unat_eq_iff)
  with assms(1-3) show ?thesis by (auto simp: distinct_map inj_on_def)
qed

lemma drain_step:
  assumes "queue_ok s" and "items s (q s) = Some (h # hs)" and "\<not> g_program_on_finish s"
  shows "drain (Suc n) q step s = andthen (step s) (drain n q step)"
  using queue_is_empty_law[OF assms(1,2)] assms(3) by simp

lemma drain_stop:
  assumes "queue_ok s" and "items s (q s) = Some []"
  shows "drain (Suc n) q step s = Inr s"
  using queue_is_empty_law[OF assms] by simp

section \<open>A manager\<close>

text \<open>
  The three managers that work on handles differ in their queue, in the function that saves and in the
  file it writes.  What they have in common is the shape of the step and a save that writes the one
  file with contents that only depend on the thread.
\<close>

locale manager =
  fixes queue_of :: "server \<Rightarrow> ptr"
    and save :: "ptr \<Rightarrow> server \<Rightarrow> (status_t \<times> server) res"
    and step :: "server \<Rightarrow> server res"
    and fname :: bytes
    and content :: "athread \<Rightarrow> bytes"
    and fit :: "athread \<Rightarrow> bool"
  assumes request: "queue_of s \<in> request_queues s"
    and gq_queue: "gq u = gq s \<Longrightarrow> queue_of u = queue_of s"
    and step_eq: "step s = andthen (queue_pop (queue_of s) s) (\<lambda>(h, s).
      andthen (deref (sp_objs s) h) (\<lambda>o1.
      andthen (save (sp_data o1) s) (\<lambda>(st, s).
      andthen (sharedptr_delete call_destructor h s) (\<lambda>(st, s). Inr s))))"
    and save_law: "thread_at s p = Some v \<Longrightarrow> fs_root (fsys s) \<Longrightarrow> fit v \<Longrightarrow>
      \<exists>fs. save p s = Inr (ok_status, s\<lparr>fsys := fs\<rparr>) \<and> writes (fsys s) (dir_of v) fname (content v) fs"
begin

lemma step_law:
  assumes ok: "server_ok s" and h: "cont (items s) (queue_of s) = h # hs"
    and fit: "fit (shown s h)"
  obtains u where "step s = Inr u" and "server_ok u" and "forum_of u = forum_of s"
    and "items u = (items s)(queue_of s \<mapsto> hs)" and "gq u = gq s"
    and "writes (fsys s) (dir_of (shown s h)) fname (content (shown s h)) (fsys u)"
    and "\<forall>x. x \<noteq> h \<longrightarrow> handle_of u x = handle_of s x" and "thread_at u = thread_at s"
    and "frame u = (urandom s, fsys u, mem_junk s, g_next_lethread_id_value s, g_program_on_finish s)"
    and "backlog u = served (queue_of s) s"
proof -
  let ?g = "queue_of s"
  have g: "?g \<in> request_queues s" by (rule request)
  obtain nodes qs s1 i where p: "queue_pop ?g s = Inr (h, s1)" "s1 = s\<lparr>q_nodes := nodes, q_queues := qs\<rparr>"
    "server_ok s1" "forum_of s1 = forum_of s" "borrows s1 h i" "items s1 = (items s)(?g \<mapsto> hs)"
    "registered s1 = registered s" "forum_of s ! i = shown s h"
    by (rule pop_request_law[OF ok g h])
  obtain r a o1 where o1: "deref (sp_objs s1) h = Inr o1" "sp_data o1 = Ptr a" "thread_at s1 (Ptr a) = Some (shown s h)"
    "handle_of s1 h = Some (r, Ptr a, Lethread_delete)"
    by (rule borrowsE[OF p(3,5)]) (use p(4,8) in auto)
  have root: "fs_root (fsys s1)" using server_okD(2)[OF p(3)] .
  obtain fs where sv: "save (Ptr a) s1 = Inr (ok_status, s1\<lparr>fsys := fs\<rparr>)"
    "writes (fsys s1) (dir_of (shown s h)) fname (content (shown s h)) fs"
    using save_law[OF o1(3) root fit] by blast
  define s2 where "s2 = s1\<lparr>fsys := fs\<rparr>"
  have "fs_root fs" using sv(2) root by (simp add: writes_def)
  note S2 = server_ok_fsys[OF p(3) this, folded s2_def]
  have b2: "borrows s2 h i" using p(5) by (simp add: S2(3))
  obtain objs counts where d: "sharedptr_delete call_destructor h s2 =
      Inr (ok_status, s2\<lparr>sp_objs := objs, sp_counts := counts\<rparr>)"
    "server_ok (s2\<lparr>sp_objs := objs, sp_counts := counts\<rparr>)"
    "forum_of (s2\<lparr>sp_objs := objs, sp_counts := counts\<rparr>) = forum_of s2" "owned objs = (handle_of s2)(h := None)"
    by (rule release_law[OF S2(1) b2])
  define u where "u = s2\<lparr>sp_objs := objs, sp_counts := counts\<rparr>"
  note d = d[folded u_def]
  have "?g \<in> set (gq s)" using g by auto
  then have V: "thread_at s1 = thread_at s"
    using forum_ok_upd_global(2)[OF server_okD(1,3)[OF ok], of ?g nodes qs hs] p(2,6) server_okD(1)[OF p(3)] by simp
  show ?thesis
  proof (rule that[of u])
    show "step s = Inr u"
      using p(1) o1(1,2) sv(1) d(1) by (simp add: step_eq s2_def)
    show "server_ok u" by (rule d(2))
    show "forum_of u = forum_of s" using d(3) S2(2) p(4) by simp
    show I: "items u = (items s)(?g \<mapsto> hs)" "gq u = gq s"
      using p(6) by (simp_all add: u_def s2_def p(2) gq_def)
    show "frame u = (urandom s, fsys u, mem_junk s, g_next_lethread_id_value s, g_program_on_finish s)"
      by (simp add: u_def s2_def p(2) frame_def)
    show "writes (fsys s) (dir_of (shown s h)) fname (content (shown s h)) (fsys u)"
      using sv(2) by (simp add: u_def s2_def p(2))
    show H: "\<forall>x. x \<noteq> h \<longrightarrow> handle_of u x = handle_of s x" using d(4) by (simp add: u_def s2_def p(2))
    show V': "thread_at u = thread_at s" using V by (simp add: u_def s2_def)
    have "msg_line u = msg_line s" by (rule msg_line_cong) (simp_all add: u_def s2_def p(2))
    then show "backlog u = served ?g s" by (rule served_law[OF ok g h I V' H])
  qed
qed

lemma drain_writes:
  assumes "server_ok s" and "cont (items s) (queue_of s) = hs" and "length hs < n"
    and "\<not> g_program_on_finish s" and "\<forall>h\<in>set hs. fit (shown s h)"
    and "distinct (map at_id (forum_of s))"
  shows "\<exists>u. drain n queue_of step s = Inr u \<and> server_ok u \<and> forum_of u = forum_of s \<and> gq u = gq s \<and>
    items u = (items s)(queue_of s \<mapsto> []) \<and> thread_at u = thread_at s \<and>
    (\<forall>h\<in>set hs. file_at (fsys u) (dir_of (shown s h)) fname = Some (content (shown s h))) \<and>
    (\<forall>d f. f \<noteq> fname \<or> d \<notin> dir_of ` shown s ` set hs \<longrightarrow> file_at (fsys u) d f = file_at (fsys s) d f)"
  using assms
proof (induction hs arbitrary: s n)
  case Nil
  let ?g = "queue_of s"
  have "?g \<in> set (gq s)" using request[of s] by auto
  then have it: "items s ?g = Some []"
    using queues_ok_items[OF server_okD(3)[OF Nil.prems(1)], of ?g] Nil.prems(2) by simp
  have "queue_ok s" using server_okD(1)[OF Nil.prems(1)] by simp
  then have "drain n queue_of step s = Inr s"
    using drain_stop[where q = queue_of, OF _ it] Nil.prems(3) by (cases n) simp_all
  moreover have "(items s)(?g \<mapsto> []) = items s" using it by auto
  ultimately show ?case using Nil.prems(1) by auto
next
  case (Cons h hs)
  let ?g = "queue_of s"
  let ?v = "shown s h"
  note ok = Cons.prems(1)
  have "?g \<in> set (gq s)" using request[of s] by auto
  then have it: "items s ?g = Some (h # hs)"
    using queues_ok_items[OF server_okD(3)[OF ok], of ?g] Cons.prems(2) by simp
  have q: "queue_ok s" using server_okD(1)[OF ok] by simp
  have fit: "fit ?v" using Cons.prems(5) by simp
  obtain u where u: "step s = Inr u" "server_ok u" "forum_of u = forum_of s"
    "items u = (items s)(?g \<mapsto> hs)" "gq u = gq s"
    "writes (fsys s) (dir_of ?v) fname (content ?v) (fsys u)"
    "\<forall>x. x \<noteq> h \<longrightarrow> handle_of u x = handle_of s x" "thread_at u = thread_at s"
    and fr: "frame u = (urandom s, fsys u, mem_junk s, g_next_lethread_id_value s, g_program_on_finish s)"
    by (rule step_law[OF ok Cons.prems(2) fit])
  note G = gq_queue[OF u(5)]
  have wait: "set (h # hs) \<subseteq> set (waiting s)"
    using Cons.prems(2) request[of s] by auto
  have "distinct (waiting s)" using server_okD(4)[OF ok] by (simp add: handles_ok_def)
  then have hh: "h \<notin> set hs" using Cons.prems(2) request[of s] by auto
  have same: "shown u x = shown s x" if "x \<in> set hs" for x
  proof -
    have "x \<noteq> h" using that hh by auto
    with u(7) have "handle_of u x = handle_of s x" by blast
    then show ?thesis by (simp only: u(8) owner_def)
  qed
  obtain n' where n: "n = Suc n'" "length hs < n'" using Cons.prems(3) by (cases n) auto
  have "cont (items u) (queue_of u) = hs" by (simp add: G u(4))
  moreover have "\<forall>x\<in>set hs. fit (shown u x)" using Cons.prems(5) same by simp
  moreover have "\<not> g_program_on_finish u" using Cons.prems(4) fr by (simp add: frame_def)
  moreover have "distinct (map at_id (forum_of u))" using Cons.prems(6) u(3) by simp
  ultimately obtain w where w: "drain n' queue_of step u = Inr w" "server_ok w" "forum_of w = forum_of u" "gq w = gq u"
    "items w = (items u)(queue_of u \<mapsto> [])" "thread_at w = thread_at u"
    "\<forall>x\<in>set hs. file_at (fsys w) (dir_of (shown u x)) fname = Some (content (shown u x))"
    "\<forall>d f. f \<noteq> fname \<or> d \<notin> dir_of ` shown u ` set hs \<longrightarrow> file_at (fsys w) d f = file_at (fsys u) d f"
    using Cons.IH[OF u(2) _ n(2)] by blast
  have img: "shown u ` set hs = shown s ` set hs" using same by (rule image_cong[OF refl])
  have written: "file_at (fsys w) (dir_of ?v) fname = Some (content ?v)"
  proof (cases "dir_of ?v \<in> dir_of ` shown u ` set hs")
    case True
    then obtain x where x: "x \<in> set hs" "dir_of ?v = dir_of (shown s x)" unfolding img by auto
    have "?v = shown s x"
      by (rule same_dir_same_thread[OF Cons.prems(6) _ _ x(2)]; rule waiting_in_forum[OF ok])
        (use wait x(1) in auto)
    with w(7) x(1) same[OF x(1)] show ?thesis by metis
  next
    case False
    then have "file_at (fsys w) (dir_of ?v) fname = file_at (fsys u) (dir_of ?v) fname"
      using w(8) by blast
    then show ?thesis using writes_file[OF u(6)] by simp
  qed
  have frame: "file_at (fsys w) d f = file_at (fsys s) d f"
    if d: "f \<noteq> fname \<or> d \<notin> dir_of ` shown s ` set (h # hs)" for d f
  proof -
    have "file_at (fsys w) d f = file_at (fsys u) d f" using w(8) d img by auto
    also have "\<dots> = file_at (fsys s) d f" by (rule writes_other[OF u(6)]) (use d in auto)
    finally show ?thesis .
  qed
  have "drain n queue_of step s = Inr w"
    using drain_step[where q = queue_of, OF q it Cons.prems(4)] u(1) w(1) by (simp add: n(1))
  moreover have "items w = (items s)(?g \<mapsto> [])" using w(5) u(4) G by simp
  moreover have "\<forall>x\<in>set (h # hs). file_at (fsys w) (dir_of (shown s x)) fname = Some (content (shown s x))"
    using written w(7) same by auto
  moreover have "forum_of w = forum_of s" "gq w = gq s" using w(3,4) u(3,5) by simp_all
  moreover have "thread_at w = thread_at s" using w(6) u(8) by (rule trans)
  ultimately show ?case using w(2) frame by blast
qed

end

definition author_file :: "athread \<Rightarrow> bytes" where
  "author_file v = (case the (at_author v) of (ai, tk) \<Rightarrow> le64 ai @ take TOKEN_SIZE tk)"

interpretation threads_mgr: manager g_lethread_query_queue lethread_save lethread_query_step FILE_LETHREAD
  thread_file "\<lambda>v. at_author v \<noteq> None"
proof
  fix s :: server and p v
  assume v: "thread_at s p = Some v" "fs_root (fsys s)" "at_author v \<noteq> None"
  then obtain ai tk where au: "at_author v = Some (ai, tk)" by auto
  then show "\<exists>fs. lethread_save p s = Inr (ok_status, s\<lparr>fsys := fs\<rparr>) \<and>
      writes (fsys s) (dir_of v) FILE_LETHREAD (thread_file v) fs"
    using lethread_save_law[OF v(1) au v(2)] by (metis fst_conv option.sel thread_file_def)
qed (simp, rule gq_eqD(2), assumption, simp only: lethread_query_step_def)

interpretation authors_mgr: manager g_leauthor_query_queue leauthor_save leauthor_query_step FILE_LEAUTHOR
  author_file "\<lambda>v. \<exists>ai tk. at_author v = Some (ai, tk) \<and> TOKEN_SIZE \<le> length tk"
proof
  fix s :: server and p v
  assume v: "thread_at s p = Some v" "fs_root (fsys s)"
    and "\<exists>ai tk. at_author v = Some (ai, tk) \<and> TOKEN_SIZE \<le> length tk"
  then obtain ai tk where au: "at_author v = Some (ai, tk)" "TOKEN_SIZE \<le> length tk" by auto
  obtain fs where "leauthor_save p s = Inr (ok_status, s\<lparr>fsys := fs\<rparr>)"
    "writes (fsys s) (dir_of v) FILE_LEAUTHOR (le64 ai @ take TOKEN_SIZE tk) fs"
    by (rule leauthor_save_law[OF v(1) au v(2)])
  then show "\<exists>fs. leauthor_save p s = Inr (ok_status, s\<lparr>fsys := fs\<rparr>) \<and>
      writes (fsys s) (dir_of v) FILE_LEAUTHOR (author_file v) fs"
    using au(1) by (auto simp: author_file_def)
qed (simp, rule gq_eqD(3), assumption, simp only: leauthor_query_step_def)

interpretation messages_mgr: manager g_lemessages_query_queue lemessages_save lemessages_query_step FILE_LEMESSAGES
  "\<lambda>v. enc_messages (at_messages v)" "\<lambda>v. True"
proof
  fix s :: server and p v
  assume v: "thread_at s p = Some v" "fs_root (fsys s)"
  obtain fs where "lemessages_save p s = Inr (ok_status, s\<lparr>fsys := fs\<rparr>)"
    "writes (fsys s) (dir_of v) FILE_LEMESSAGES (enc_messages (at_messages v)) fs"
    by (rule lemessages_save_law[OF v])
  then show "\<exists>fs. lemessages_save p s = Inr (ok_status, s\<lparr>fsys := fs\<rparr>) \<and>
      writes (fsys s) (dir_of v) FILE_LEMESSAGES (enc_messages (at_messages v)) fs" by blast
qed (simp, rule gq_eqD(4), assumption, simp only: lemessages_query_step_def)

end
