(* ===== verification/Durable.thy ===== *)
theory Durable
  imports Session Server_Managers
begin

text \<open>
  Nothing is lost: the disk and what is still to be saved always make up the whole forum.  The steps
  are the well-formed requests of the clients and the passes of the three managers at work, in any order.
\<close>

section \<open>Disk and backlog\<close>

definition due_bytes :: "todo \<Rightarrow> u64 \<Rightarrow> bytes" where
  "due_bytes b i = concat (map snd (filter (\<lambda>e. fst e = i) (td_messages b)))"

text \<open>A thread that the disk \<open>fs\<close> holds but for what the backlog \<open>b\<close> will still write.\<close>

definition kept :: "filesystem \<Rightarrow> todo \<Rightarrow> athread \<Rightarrow> bool" where
  "kept fs b v \<longleftrightarrow> wire_topic (at_topic v) \<and> list_all text_ok (map am_text (at_messages v)) \<and>
     at_next v = at_first v + of_nat (length (at_messages v)) \<and>
     bytes_at fs (at_id v) @ due_bytes b (at_id v) = enc_messages (at_messages v) \<and>
     (at_id v \<in> set (td_threads b) \<or> file_at fs (dir_of v) FILE_LETHREAD = Some (thread_file v)) \<and>
     (at_id v \<in> set (td_authors b) \<or> file_at fs (dir_of v) FILE_LEAUTHOR = Some (author_file v))"

definition tidy :: "filesystem \<Rightarrow> athread list \<Rightarrow> bool" where
  "tidy fs vs \<longleftrightarrow> distinct (map fst (fs_dirs fs)) \<and> set (map fst (fs_dirs fs)) \<subseteq> dir_of ` set vs"

definition durable :: "aserver \<Rightarrow> bool" where
  "durable a \<longleftrightarrow>
     (fs_meta (as_disk a) = Some (le64 (as_next a)) \<or> as_threads a = [] \<and> as_next a = 0 \<and> fs_meta (as_disk a) = None) \<and>
     tidy (as_disk a) (as_threads a) \<and>
     fst ` set (td_messages (as_backlog a)) \<subseteq> at_id ` set (as_threads a) \<and>
     [] \<notin> snd ` set (td_messages (as_backlog a)) \<and>
     (\<forall>v\<in>set (as_threads a). kept (as_disk a) (as_backlog a) v)"

lemma file_at_meta [simp]:
  "file_at (fs\<lparr>fs_meta := m\<rparr>) d f = file_at fs d f" "bytes_at (fs\<lparr>fs_meta := m\<rparr>) i = bytes_at fs i"
  "tidy (fs\<lparr>fs_meta := m\<rparr>) vs = tidy fs vs"
  by (simp_all add: file_at_def bytes_at_def tidy_def)

lemma kept_meta [simp]: "kept (fs\<lparr>fs_meta := m\<rparr>) b v = kept fs b v"
  by (simp add: kept_def)

lemma bytes_at_unknown:
  assumes "tidy fs vs" and "i \<notin> at_id ` set vs"
  shows "bytes_at fs i = []"
proof -
  have "decimal (unat i) \<notin> dir_of ` set vs" using assms(2) by (auto simp: decimal_inj word_unat_eq_iff)
  then have "map_of (fs_dirs fs) (decimal (unat i)) = None"
    using assms(1) by (auto simp: tidy_def map_of_eq_None_iff)
  then show ?thesis by (simp add: bytes_at_def file_at_def)
qed

section \<open>Requests\<close>

lemma enc_message_ne: "enc_message m \<noteq> []"
  by (cases m) (simp add: enc_message_def le64_ne)

lemma kept_created:
  assumes "kept fs b v" and "at_id v \<noteq> i"
  shows "kept fs (thread_due i b) v"
  using assms by (auto simp: kept_def thread_due_def due_bytes_def)

lemma kept_new:
  assumes "tidy fs vs" and "i \<notin> at_id ` set vs" and "fst ` set (td_messages b) \<subseteq> at_id ` set vs" and "wire_topic topic"
  shows "kept fs (thread_due i b) ((new_thread i first topic)\<lparr>at_author := au\<rparr>)"
proof -
  have "due_bytes b i = []" using assms(2,3) by (auto simp: due_bytes_def filter_empty_conv)
  then show ?thesis
    using bytes_at_unknown[OF assms(1,2)] assms(4)
    by (simp add: kept_def thread_due_def new_thread_def due_bytes_def enc_messages_def)
qed

lemma kept_posted:
  assumes "kept fs b v" and "wire_text tx"
  shows "kept fs (message_due v by_author tx b) (posted v tx by_author)"
  using assms
  by (simp add: kept_def message_due_def posted_def due_bytes_def enc_messages_def author_file_def
    wire_text_def text_ok_def size_limits)

lemma kept_other_posted:
  assumes "kept fs b w" and "at_id v \<noteq> at_id w"
  shows "kept fs (message_due v by_author tx b) w"
  using assms by (auto simp: kept_def message_due_def due_bytes_def)

lemma durable_respond:
  assumes a: "forum_inv a" and d: "durable a" and w: "wf_request r" and r: "respond junk r a = Inr (ans, a')"
  shows "durable a'"
proof (cases r)
  case (Create topic)
  with r obtain first au dev where a': "a' = a\<lparr>as_threads := as_threads a @
      [(new_thread (as_next a) first topic)\<lparr>at_author := au\<rparr>], as_next := as_next a + 1, as_dev := dev,
      as_backlog := thread_due (as_next a) (as_backlog a),
      as_disk := (as_disk a)\<lparr>fs_meta := Some (le64 (as_next a + 1))\<rparr>\<rparr>"
    by (auto simp: Let_def)
  have new: "as_next a \<notin> at_id ` set (as_threads a)" using a by (auto simp: forum_inv_def)
  then have "kept (as_disk a) (thread_due (as_next a) (as_backlog a)) v" if "v \<in> set (as_threads a)" for v
    using d new that by (intro kept_created) (auto simp: durable_def image_iff)
  moreover have "kept (as_disk a) (thread_due (as_next a) (as_backlog a))
      ((new_thread (as_next a) first topic)\<lparr>at_author := au\<rparr>)"
    using d w Create by (intro kept_new[OF _ new]) (auto simp: durable_def)
  ultimately show ?thesis
    using d by (auto simp: durable_def a' tidy_def thread_due_def)
next
  case (Post i tx token)
  show ?thesis
  proof (cases "thread_with i (as_threads a)")
    case None
    with r Post d show ?thesis by simp
  next
    case (Some v)
    let ?by = "earned_flag v token"
    obtain us ws where f: "as_threads a = us @ v # ws" "at_id v = i" "i \<notin> at_id ` set us" "i \<notin> at_id ` set ws"
      using Some a by (auto simp: forum_inv_def elim: thread_with_Some)
    have a': "a' = a\<lparr>as_threads := us @ posted v tx ?by # ws, as_backlog := message_due v ?by tx (as_backlog a)\<rparr>"
      using r Post Some map_one[OF f, of "\<lambda>w. posted w tx (earned_flag w token)"] by simp
    have k: "kept (as_disk a) (as_backlog a) u" if "u \<in> set (us @ v # ws)" for u
      using d that by (auto simp: durable_def f(1))
    have "kept (as_disk a) (message_due v ?by tx (as_backlog a)) u" if "u \<in> set (us @ ws)" for u
      using f(2-4) that by (intro kept_other_posted k) auto
    moreover have "kept (as_disk a) (message_due v ?by tx (as_backlog a)) (posted v tx ?by)"
      using w Post by (intro kept_posted k) simp_all
    ultimately show ?thesis
      using d by (auto simp: durable_def a' f(1) tidy_def message_due_def posted_def enc_message_ne enc_message_ne[symmetric])
  qed
qed (use r d in \<open>auto split: option.splits\<close>)

section \<open>Saving\<close>

lemma file_written:
  assumes "distinct (map at_id vs)" and "v \<in> set vs" and "w \<in> set vs" and "writes fs (dir_of v) f c fs'"
  shows "file_at fs' (dir_of w) g = (if w = v \<and> g = f then Some c else file_at fs (dir_of w) g)"
proof (cases "dir_of w = dir_of v")
  case True
  then have "w = v" using same_dir_same_thread[OF assms(1,3,2)] by simp
  with assms(4) show ?thesis by (simp add: writes_def)
next
  case False
  with assms(4) show ?thesis by (auto simp: writes_def)
qed

lemma tidy_written:
  assumes "tidy fs vs" and "v \<in> set vs" and "writes fs (dir_of v) f c fs'"
  shows "tidy fs' vs"
  using assms by (auto simp: tidy_def writes_def image_iff)

text \<open>
  A step of a manager, on the abstract server: the file of one thread and the backlog change, so that
  what the disk and the backlog make up is the same for every thread.
\<close>

lemma durable_saved:
  assumes a: "forum_inv a" and d: "durable a" and v: "v \<in> set (as_threads a)"
    and w: "writes (as_disk a) (dir_of v) f c fs"
    and b: "set (td_messages b) \<subseteq> set (td_messages (as_backlog a))"
    and k: "\<And>u. kept (as_disk a) (as_backlog a) u \<Longrightarrow> (at_id v = at_id u) = (u = v) \<Longrightarrow>
      (\<And>g. file_at fs (dir_of u) g = (if u = v \<and> g = f then Some c else file_at (as_disk a) (dir_of u) g)) \<Longrightarrow>
      kept fs b u"
  shows "durable (a\<lparr>as_backlog := b, as_disk := fs\<rparr>)"
proof -
  have ids: "distinct (map at_id (as_threads a))" using a by (simp add: forum_inv_def)
  have "kept fs b u" if u: "u \<in> set (as_threads a)" for u
  proof (rule k)
    show "kept (as_disk a) (as_backlog a) u" using d u by (simp add: durable_def)
    show "(at_id v = at_id u) = (u = v)" using ids u v by (auto simp: distinct_map inj_on_def)
  qed (rule file_written[OF ids v u w])
  moreover have "fs_meta fs = fs_meta (as_disk a)" using w by (simp add: writes_def)
  moreover have "fst ` set (td_messages b) \<subseteq> at_id ` set (as_threads a)" "[] \<notin> snd ` set (td_messages b)"
    using b d unfolding durable_def by blast+
  ultimately show ?thesis
    using d tidy_written[OF _ v w] by (simp add: durable_def)
qed

lemma durable_thread_saved:
  assumes "forum_inv a" and "durable a" and "v \<in> set (as_threads a)"
    and "writes (as_disk a) (dir_of v) FILE_LETHREAD (thread_file v) fs"
    and b: "td_threads (as_backlog a) = at_id v # is"
  shows "durable (a\<lparr>as_backlog := (as_backlog a)\<lparr>td_threads := is\<rparr>, as_disk := fs\<rparr>)"
  by (rule durable_saved[OF assms(1-4)]) (use b in \<open>auto simp: kept_def bytes_at_def due_bytes_def file_names\<close>)

lemma durable_author_saved:
  assumes "forum_inv a" and "durable a" and "v \<in> set (as_threads a)"
    and "writes (as_disk a) (dir_of v) FILE_LEAUTHOR (author_file v) fs"
    and b: "td_authors (as_backlog a) = at_id v # is"
  shows "durable (a\<lparr>as_backlog := (as_backlog a)\<lparr>td_authors := is\<rparr>, as_disk := fs\<rparr>)"
  by (rule durable_saved[OF assms(1-4)]) (use b in \<open>auto simp: kept_def bytes_at_def due_bytes_def file_names\<close>)

lemma durable_message_saved:
  assumes "forum_inv a" and "durable a" and "v \<in> set (as_threads a)"
    and "writes (as_disk a) (dir_of v) FILE_LEMESSAGES (bytes_at (as_disk a) (at_id v) @ bs) fs"
    and b: "td_messages (as_backlog a) = (at_id v, bs) # es"
  shows "durable (a\<lparr>as_backlog := (as_backlog a)\<lparr>td_messages := es\<rparr>, as_disk := fs\<rparr>)"
proof (rule durable_saved[OF assms(1-4)])
  fix u
  assume "kept (as_disk a) (as_backlog a) u" "(at_id v = at_id u) = (u = v)"
    "\<And>g. file_at fs (dir_of u) g = (if u = v \<and> g = FILE_LEMESSAGES then Some (bytes_at (as_disk a) (at_id v) @ bs)
      else file_at (as_disk a) (dir_of u) g)"
  then show "kept fs ((as_backlog a)\<lparr>td_messages := es\<rparr>) u"
    using b by (cases "u = v") (simp_all add: kept_def bytes_at_def due_bytes_def file_names)
qed (use b in auto)

section \<open>Steps of the managers\<close>

definition sound :: "server \<Rightarrow> aserver \<Rightarrow> bool" where
  "sound s a \<longleftrightarrow> service_ok s a \<and> durable a"

lemma soundD:
  assumes "sound s a"
  shows "server_ok s" and "forum_inv a" and "refines s a" and "durable a" and "service_ok s a"
  using assms by (simp_all add: sound_def service_ok_def)

text \<open>What a manager leaves behind: the same forum, with the files and the backlog of the state \<open>u\<close>.\<close>

definition after_save :: "aserver \<Rightarrow> server \<Rightarrow> aserver" where
  "after_save a u = a\<lparr>as_backlog := backlog u, as_disk := fsys u\<rparr>"

lemma after_save_simps [simp]:
  "as_threads (after_save a u) = as_threads a" "as_next (after_save a u) = as_next a"
  "as_dev (after_save a u) = as_dev a"
  by (simp_all add: after_save_def)

lemma saved_step_sound:
  assumes s: "sound s a" and u: "server_ok u" "forum_of u = forum_of s"
    and fr: "frame u = (urandom s, fsys u, mem_junk s, g_next_lethread_id_value s, g_program_on_finish s)"
    and p: "\<And>v w. v \<in> set (forum_of s) \<Longrightarrow> w \<in> set (as_threads a) \<Longrightarrow> presents (fsys s) v w \<Longrightarrow> presents (fsys u) v w"
    and d: "durable (after_save a u)"
  shows "sound u (after_save a u)"
proof -
  note S = soundD[OF s]
  have "list_all2 (presents (fsys u)) (forum_of u) (as_threads a)"
    using refinesD(1)[OF S(3)] p unfolding u(2) by (rule list.rel_mono_strong)
  then have "refines u (after_save a u)"
    using refinesD(2,3)[OF S(3)] fr by (simp add: refines_def after_save_def frame_def)
  moreover have "forum_inv (after_save a u)" using S(2) by (simp add: forum_inv_def)
  ultimately show ?thesis using u(1) d by (simp add: sound_def service_ok_def)
qed

lemma presents_bytes:
  assumes "presents fs v w" and "bytes_at fs' (at_id v) = bytes_at fs (at_id v)"
  shows "presents fs' v w"
  using assms by (simp add: presents_def awake_def stored_def)

lemma awake_loaded_same:
  assumes "awake fs v v'" and "loaded v"
  shows "v' = v"
proof (rule ccontr)
  assume "v' \<noteq> v"
  then obtain ms :: "amessage list" where ms: "at_messages v = []" "ms \<noteq> []" "at_next v = at_first v + of_nat (length ms)" "length ms < 2 ^ 64"
    using assms(1) unfolding awake_def stored_def by blast
  then have "(of_nat (length ms) :: u64) = 0" using assms(2) by (simp add: loaded_def)
  then have "length ms = 0" using unat_of_nat64[of "length ms"] ms(4) by simp
  with ms(2) show False by simp
qed

lemma presents_loaded: "presents fs v w \<Longrightarrow> loaded v \<Longrightarrow> presents fs' v w"
  unfolding presents_def using awake_loaded_same awake_loaded by blast

lemma presentsE:
  assumes "presents fs v w"
  obtains ai tk where "at_author v = Some (ai, tk)" and "at_author w = Some (ai, take 24 tk)"
    and "at_id w = at_id v" and "at_first w = at_first v" and "at_next w = at_next v" and "at_topic w = at_topic v"
proof -
  obtain v' where v': "awake fs v v'" "w = trimmed v'" using assms by (auto simp: presents_def)
  then obtain ai tk where "at_author v = Some (ai, tk)" by (auto simp: awake_def)
  moreover have "at_author v' = at_author v" "at_first v' = at_first v" "at_next v' = at_next v" "at_topic v' = at_topic v"
    "at_id v' = at_id v" using v'(1) by (auto simp: awake_def)
  ultimately show ?thesis using v'(2) by (intro that[of ai tk]) (simp_all add: trimmed_def)
qed

lemma presents_files:
  assumes "presents fs v w"
  shows "thread_file w = thread_file v" and "author_file w = author_file v" and "dir_of w = dir_of v"
proof -
  obtain ai tk where e: "at_author v = Some (ai, tk)" "at_author w = Some (ai, take 24 tk)"
    "at_id w = at_id v" "at_first w = at_first v" "at_next w = at_next v" "at_topic w = at_topic v"
    using assms by (rule presentsE)
  show "thread_file w = thread_file v" unfolding thread_file_def enc_thread_def e by simp
  show "author_file w = author_file v" unfolding author_file_def e by (simp add: TOKEN_SIZE_def)
  show "dir_of w = dir_of v" unfolding e ..
qed

lemma writes_bytes:
  assumes "writes fs d f c fs'" and "f \<noteq> FILE_LEMESSAGES \<or> decimal (unat i) \<noteq> d"
  shows "bytes_at fs' i = bytes_at fs i"
  using assms by (auto simp: bytes_at_def writes_def)

lemma served_queue:
  assumes "server_ok s"
  shows "served (g_lethread_query_queue s) s = (backlog s)\<lparr>td_threads := tl (td_threads (backlog s))\<rparr>"
    and "served (g_leauthor_query_queue s) s = (backlog s)\<lparr>td_authors := tl (td_authors (backlog s))\<rparr>"
proof -
  have "distinct (gq s)" using server_okD(3)[OF assms] by (simp add: queues_ok_def)
  then show "served (g_lethread_query_queue s) s = (backlog s)\<lparr>td_threads := tl (td_threads (backlog s))\<rparr>"
    "served (g_leauthor_query_queue s) s = (backlog s)\<lparr>td_authors := tl (td_authors (backlog s))\<rparr>"
    by (cases "backlog s"; auto simp: served_def gq_distinct)+
qed

lemma list_all2_partner:
  assumes "x \<in> set xs" and "list_all2 P xs ys"
  obtains y where "y \<in> set ys" and "P x y"
  using assms(2,1) by (induction rule: list_all2_induct) auto

text \<open>The thread that a waiting handle means, on both sides.\<close>

lemma waiting_presents:
  assumes s: "sound s a" and h: "h \<in> set (waiting s)"
  obtains w ai tk where "w \<in> set (as_threads a)" and "presents (fsys s) (shown s h) w"
    and "at_author (shown s h) = Some (ai, tk)" and "TOKEN_SIZE \<le> length tk"
proof -
  note S = soundD[OF s]
  have "shown s h \<in> set (forum_of s)" by (rule waiting_in_forum[OF S(1)]) (use h in simp)
  then obtain w where w: "w \<in> set (as_threads a)" "presents (fsys s) (shown s h) w"
    using refinesD(1)[OF S(3)] by (rule list_all2_partner)
  obtain ai tk where v: "at_author (shown s h) = Some (ai, tk)" "at_author w = Some (ai, take 24 tk)"
    using w(2) by (rule presentsE)
  obtain ai' tk' where "at_author w = Some (ai', tk')" "token_ok tk'" using S(2) w(1) by (auto simp: forum_inv_def)
  then have "length (take 24 tk) = 24" using v(2) by (simp add: token_ok_def)
  then have "TOKEN_SIZE \<le> length tk" by (simp add: TOKEN_SIZE_def min_def split: if_splits)
  with w v(1) show ?thesis by (rule that)
qed

lemma thread_step_sound:
  assumes s: "sound s a" and b: "td_threads (backlog s) = i # is"
  obtains u where "lethread_query_step s = Inr u" and "sound u (after_save a u)" and "mem_junk u = mem_junk s"
    and "backlog u = (backlog s)\<lparr>td_threads := is\<rparr>"
proof -
  note S = soundD[OF s] and R = refinesD[OF soundD(3)[OF s]]
  obtain h hs where h: "cont (items s) (g_lethread_query_queue s) = h # hs" "at_id (shown s h) = i"
    using b by (auto simp: backlog_def)
  have hw: "h \<in> set (waiting s)" by (simp add: h(1))
  obtain w ai tk where w: "w \<in> set (as_threads a)" "presents (fsys s) (shown s h) w"
    "at_author (shown s h) = Some (ai, tk)" "TOKEN_SIZE \<le> length tk"
    by (rule waiting_presents[OF s hw])
  have fit: "at_author (shown s h) \<noteq> None" using w(3) by simp
  obtain u where u: "lethread_query_step s = Inr u" "server_ok u" "forum_of u = forum_of s"
    "writes (fsys s) (dir_of (shown s h)) FILE_LETHREAD (thread_file (shown s h)) (fsys u)"
    "frame u = (urandom s, fsys u, mem_junk s, g_next_lethread_id_value s, g_program_on_finish s)"
    "backlog u = served (g_lethread_query_queue s) s"
    by (rule threads_mgr.step_law[OF S(1) h(1) fit])
  have bl: "backlog u = (backlog s)\<lparr>td_threads := is\<rparr>" using u(6) b by (simp add: served_queue(1)[OF S(1)])
  have "durable (a\<lparr>as_backlog := (as_backlog a)\<lparr>td_threads := is\<rparr>, as_disk := fsys u\<rparr>)"
    by (rule durable_thread_saved[OF S(2,4) w(1)])
      (use u(4) presents_files[OF w(2)] presentsD(1)[OF w(2)] R(4,5) b h(2) in simp_all)
  then have "durable (after_save a u)" by (simp add: after_save_def bl R(4))
  moreover have "presents (fsys u) v w" if "presents (fsys s) v w" for v w
    using presents_bytes[OF that writes_bytes[OF u(4)]] by (simp add: file_names)
  ultimately have "sound u (after_save a u)" by (intro saved_step_sound[OF s u(2,3,5)])
  then show ?thesis using u(1,5) bl by (intro that) (simp_all add: frame_def)
qed

lemma author_step_sound:
  assumes s: "sound s a" and b: "td_authors (backlog s) = i # is"
  obtains u where "leauthor_query_step s = Inr u" and "sound u (after_save a u)" and "mem_junk u = mem_junk s"
    and "backlog u = (backlog s)\<lparr>td_authors := is\<rparr>"
proof -
  note S = soundD[OF s] and R = refinesD[OF soundD(3)[OF s]]
  obtain h hs where h: "cont (items s) (g_leauthor_query_queue s) = h # hs" "at_id (shown s h) = i"
    using b by (auto simp: backlog_def)
  have hw: "h \<in> set (waiting s)" by (simp add: h(1))
  obtain w ai tk where w: "w \<in> set (as_threads a)" "presents (fsys s) (shown s h) w"
    "at_author (shown s h) = Some (ai, tk)" "TOKEN_SIZE \<le> length tk"
    by (rule waiting_presents[OF s hw])
  have fit: "\<exists>ai tk. at_author (shown s h) = Some (ai, tk) \<and> TOKEN_SIZE \<le> length tk" using w(3,4) by blast
  obtain u where u: "leauthor_query_step s = Inr u" "server_ok u" "forum_of u = forum_of s"
    "writes (fsys s) (dir_of (shown s h)) FILE_LEAUTHOR (author_file (shown s h)) (fsys u)"
    "frame u = (urandom s, fsys u, mem_junk s, g_next_lethread_id_value s, g_program_on_finish s)"
    "backlog u = served (g_leauthor_query_queue s) s"
    by (rule authors_mgr.step_law[OF S(1) h(1) fit])
  have bl: "backlog u = (backlog s)\<lparr>td_authors := is\<rparr>" using u(6) b by (simp add: served_queue(2)[OF S(1)])
  have "durable (a\<lparr>as_backlog := (as_backlog a)\<lparr>td_authors := is\<rparr>, as_disk := fsys u\<rparr>)"
    by (rule durable_author_saved[OF S(2,4) w(1)])
      (use u(4) presents_files[OF w(2)] presentsD(1)[OF w(2)] R(4,5) b h(2) in simp_all)
  then have "durable (after_save a u)" by (simp add: after_save_def bl R(4))
  moreover have "presents (fsys u) v w" if "presents (fsys s) v w" for v w
    using presents_bytes[OF that writes_bytes[OF u(4)]] by (simp add: file_names)
  ultimately have "sound u (after_save a u)" by (intro saved_step_sound[OF s u(2,3,5)])
  then show ?thesis using u(1,5) bl by (intro that) (simp_all add: frame_def)
qed

text \<open>A thread with a message due is in memory: the disk does not hold all of it.\<close>

lemma due_loaded:
  assumes d: "durable a" and w: "w \<in> set (as_threads a)" and p: "presents (as_disk a) v w"
    and e: "e \<in> set (td_messages (as_backlog a))" "fst e = at_id w"
  shows "loaded v"
proof (rule ccontr)
  assume n: "\<not> loaded v"
  have "bytes_at (as_disk a) (at_id w) = enc_messages (at_messages w)"
    using p n by (auto simp: presents_def awake_def stored_def)
  moreover have "bytes_at (as_disk a) (at_id w) @ due_bytes (as_backlog a) (at_id w) = enc_messages (at_messages w)"
    using d w by (simp add: durable_def kept_def)
  ultimately have "due_bytes (as_backlog a) (at_id w) = []" by simp
  then have "snd e = []" using e by (cases e) (auto simp: due_bytes_def)
  then show False using d e(1) unfolding durable_def by (metis image_eqI)
qed

lemma message_step_sound:
  assumes s: "sound s a" and b: "td_messages (backlog s) = e # es"
  obtains u where "lemessage_query_step s = Inr u" and "sound u (after_save a u)" and "mem_junk u = mem_junk s"
    and "backlog u = (backlog s)\<lparr>td_messages := es\<rparr>"
proof -
  note S = soundD[OF s] and R = refinesD[OF soundD(3)[OF s]]
  obtain m ms where m: "pending s = m # ms" "msg_line s m = e" "map (msg_line s) ms = es"
    using b by (auto simp: backlog_def)
  have "fst e \<in> at_id ` set (as_threads a)" using S(4) b R(4) by (simp add: durable_def)
  then obtain w where w: "w \<in> set (as_threads a)" "at_id w = fst e" by auto
  obtain u where u: "lemessage_query_step s = Inr u" "server_ok u" "forum_of u = forum_of s"
    "writes (fsys s) (decimal (unat (fst e))) FILE_LEMESSAGES (bytes_at (fsys s) (fst e) @ snd e) (fsys u)"
    "frame u = (urandom s, fsys u, mem_junk s, g_next_lethread_id_value s, g_program_on_finish s)"
    "backlog u = (backlog s)\<lparr>td_messages := es\<rparr>"
    by (rule message_step_law[OF S(1) m(1), unfolded m(2,3)])
  have "durable (a\<lparr>as_backlog := (as_backlog a)\<lparr>td_messages := es\<rparr>, as_disk := fsys u\<rparr>)"
    by (rule durable_message_saved[OF S(2,4) w(1), of "snd e"]) (use u(4) w(2) b R(4,5) in simp_all)
  then have d: "durable (after_save a u)" by (simp add: after_save_def u(6) R(4))
  have "presents (fsys u) v w'" if v: "w' \<in> set (as_threads a)" "presents (fsys s) v w'" for v w'
  proof (cases "at_id w' = fst e")
    case True
    then have "loaded v" using due_loaded[OF S(4) v(1), of v e] v(2) b R(4,5) by simp
    with v(2) show ?thesis by (rule presents_loaded)
  next
    case False
    then have "decimal (unat (at_id v)) \<noteq> decimal (unat (fst e))"
      using presentsD(1)[OF v(2)] by (simp add: decimal_inj word_unat_eq_iff)
    then show ?thesis using presents_bytes[OF v(2) writes_bytes[OF u(4)]] by blast
  qed
  then have "sound u (after_save a u)" using saved_step_sound[OF s u(2,3,5) _ d] by blast
  then show ?thesis using u(1,5,6) by (intro that) (simp_all add: frame_def)
qed

section \<open>Runs\<close>

text \<open>
  \<open>runs s rs u\<close>: from \<open>s\<close> to \<open>u\<close> the commands \<open>rs\<close> are executed in this order, with enough random bytes
  and ids left for each, and in between the managers work, in any order, each when its queue is not
  empty.
\<close>

inductive runs :: "server \<Rightarrow> request list \<Rightarrow> server \<Rightarrow> bool" where
  stop: "runs s [] s"
| command: "runs s (r # rs) u"
    if "wf_request r" and "26 \<le> length old" and "48 \<le> length (filter usable (urandom s))"
      and "Suc (unat (g_next_lethread_id_value s)) < 2 ^ 64"
      and "query_process (Some (buffer r old)) (psize r) s = Inr (res, t)" and "runs t rs u"
| save_thread: "runs s rs u"
    if "queue_is_empty (g_lethread_query_queue s) s = Inr 0" and "lethread_query_step s = Inr t" and "runs t rs u"
| save_author: "runs s rs u"
    if "queue_is_empty (g_leauthor_query_queue s) s = Inr 0" and "leauthor_query_step s = Inr t" and "runs t rs u"
| save_message: "runs s rs u"
    if "queue_is_empty (g_lemessage_query_queue s) s = Inr 0" and "lemessage_query_step s = Inr t" and "runs t rs u"

lemma not_empty_iff:
  assumes "server_ok s" and "g \<in> set (gq s)"
  shows "queue_is_empty g s = Inr 0 \<longleftrightarrow> cont (items s) g \<noteq> []"
proof -
  have "queue_ok s" using server_okD(1)[OF assms(1)] by simp
  from queue_is_empty_law[OF this queues_ok_items[OF server_okD(3)[OF assms(1)] assms(2)]] show ?thesis by simp
qed

lemma queue_due:
  assumes "server_ok s"
  shows "queue_is_empty (g_lethread_query_queue s) s = Inr 0 \<longleftrightarrow> td_threads (backlog s) \<noteq> []"
    and "queue_is_empty (g_leauthor_query_queue s) s = Inr 0 \<longleftrightarrow> td_authors (backlog s) \<noteq> []"
    and "queue_is_empty (g_lemessage_query_queue s) s = Inr 0 \<longleftrightarrow> td_messages (backlog s) \<noteq> []"
  by (simp_all add: not_empty_iff[OF assms] backlog_def)

lemma command_sound:
  assumes s: "sound s a" and c: "wf_request r" "26 \<le> length old" "48 \<le> length (filter usable (urandom s))"
    "Suc (unat (g_next_lethread_id_value s)) < 2 ^ 64"
    and u: "query_process (Some (buffer r old)) (psize r) s = Inr (res, u)"
  obtains ans a' where "respond (mem_junk s) r a = Inr (ans, a')" and "replies res ans" and "sound u a'"
    and "mem_junk u = mem_junk s"
proof -
  note S = soundD[OF s] and R = refinesD[OF soundD(3)[OF s]]
  obtain ans a' where r: "respond (mem_junk s) r a = Inr (ans, a')"
    using respond_returns[of a "mem_junk s" r] c(3) R(3) by auto
  have p: "performs r old s ans a'" by (rule process_request[OF S(5) c(1,2) r])
  have q: "refines u a'" "server_ok u" "replies res ans" "mem_junk u = mem_junk s" using p u by (auto simp: performs_def)
  moreover have "forum_inv a'" by (rule respond_inv(1)[OF S(2) r]) (use c(4) R(2) in simp)
  moreover have "durable a'" by (rule durable_respond[OF S(2,4) c(1) r])
  ultimately show ?thesis using r by (intro that) (simp_all add: sound_def service_ok_def)
qed

text \<open>
  What an observer of the forum sees of the abstract server; the backlog and the disk do not influence
  it.
\<close>

definition same_forum :: "aserver \<Rightarrow> aserver \<Rightarrow> bool" where
  "same_forum a b \<longleftrightarrow> as_threads b = as_threads a \<and> as_next b = as_next a \<and> as_dev b = as_dev a"

lemma respond_same:
  assumes "same_forum a b" and "respond junk r a = Inr (ans, a')"
  shows "\<exists>b'. respond junk r b = Inr (ans, b') \<and> same_forum a' b'"
proof (cases r)
  case (Create topic)
  with assms show ?thesis by (auto simp: same_forum_def Let_def)
qed (use assms in \<open>auto simp: same_forum_def split: option.splits\<close>)

lemma respond_all_same:
  assumes "same_forum a b" and "respond_all junk rs a = Inr (anss, a')"
  shows "\<exists>b'. respond_all junk rs b = Inr (anss, b') \<and> same_forum a' b'"
  using assms
proof (induction rs arbitrary: a b anss)
  case (Cons r rs)
  obtain ans a1 anss' where r: "respond junk r a = Inr (ans, a1)" "respond_all junk rs a1 = Inr (anss', a')"
    "anss = ans # anss'" using Cons.prems(2) by auto
  obtain b1 where b1: "respond junk r b = Inr (ans, b1)" "same_forum a1 b1"
    using respond_same[OF Cons.prems(1) r(1)] by blast
  with Cons.IH[OF b1(2) r(2)] r(3) show ?case by auto
qed simp

lemma same_forum_refl: "same_forum a a" "same_forum (after_save a u) a"
  by (simp_all add: same_forum_def)

lemma same_forum_trans: "same_forum a b \<Longrightarrow> same_forum b c \<Longrightarrow> same_forum a c"
  by (simp add: same_forum_def)

lemma runs_after_save:
  assumes w: "sound w (after_save a w)" and j: "mem_junk w = junk"
    and IH: "\<And>a. sound w a \<Longrightarrow> \<exists>anss b a'. respond_all (mem_junk w) rs a = Inr (anss, b) \<and> sound u a' \<and> same_forum b a'"
  shows "\<exists>anss b a'. respond_all junk rs a = Inr (anss, b) \<and> sound u a' \<and> same_forum b a'"
proof -
  obtain anss b a' where r: "respond_all junk rs (after_save a w) = Inr (anss, b)" "sound u a'" "same_forum b a'"
    using IH[OF w] unfolding j by blast
  obtain b' where b': "respond_all junk rs a = Inr (anss, b')" "same_forum b b'"
    using respond_all_same[OF same_forum_refl(2) r(1)] by blast
  then have "same_forum b' a'" using r(3) by (simp add: same_forum_def)
  with b'(1) r(2) show ?thesis by blast
qed

lemma runs_sound:
  assumes "runs s rs u" and "sound s a"
  shows "\<exists>anss b a'. respond_all (mem_junk s) rs a = Inr (anss, b) \<and> sound u a' \<and> same_forum b a'"
  using assms
proof (induction arbitrary: a rule: runs.induct)
  case (stop s)
  then show ?case using same_forum_refl(1) by auto
next
  case (command r old s res t rs u)
  obtain ans a1 where c: "respond (mem_junk s) r a = Inr (ans, a1)" "sound t a1" "mem_junk t = mem_junk s"
    by (rule command_sound[OF command.prems command.hyps(1-5)])
  then show ?case using command.IH[OF c(2)] by auto
next
  case (save_thread s t rs u)
  then obtain i "is" where "td_threads (backlog s) = i # is"
    by (auto simp: queue_due[OF soundD(1)[OF save_thread.prems]] neq_Nil_conv)
  then obtain w where "lethread_query_step s = Inr w" "sound w (after_save a w)" "mem_junk w = mem_junk s"
    by (rule thread_step_sound[OF save_thread.prems])
  then have "sound t (after_save a t)" "mem_junk t = mem_junk s" using save_thread.hyps(2) by simp_all
  then show ?case by (rule runs_after_save) (rule save_thread.IH)
next
  case (save_author s t rs u)
  then obtain i "is" where "td_authors (backlog s) = i # is"
    by (auto simp: queue_due[OF soundD(1)[OF save_author.prems]] neq_Nil_conv)
  then obtain w where "leauthor_query_step s = Inr w" "sound w (after_save a w)" "mem_junk w = mem_junk s"
    by (rule author_step_sound[OF save_author.prems])
  then have "sound t (after_save a t)" "mem_junk t = mem_junk s" using save_author.hyps(2) by simp_all
  then show ?case by (rule runs_after_save) (rule save_author.IH)
next
  case (save_message s t rs u)
  then obtain e es where "td_messages (backlog s) = e # es"
    by (auto simp: queue_due[OF soundD(1)[OF save_message.prems]] neq_Nil_conv)
  then obtain w where "lemessage_query_step s = Inr w" "sound w (after_save a w)" "mem_junk w = mem_junk s"
    by (rule message_step_sound[OF save_message.prems])
  then have "sound t (after_save a t)" "mem_junk t = mem_junk s" using save_message.hyps(2) by simp_all
  then show ?case by (rule runs_after_save) (rule save_message.IH)
qed

text \<open>As long as something is due, a manager can work, and then less is due.\<close>

definition workload :: "todo \<Rightarrow> nat" where
  "workload b = length (td_messages b) + length (td_threads b) + length (td_authors b)"

lemma manager_works:
  assumes s: "sound s a" and b: "backlog s \<noteq> nothing_due"
  obtains u where "\<And>rs w. runs u rs w \<Longrightarrow> runs s rs w" and "sound u (after_save a u)"
    and "workload (backlog u) < workload (backlog s)"
proof -
  note q = queue_due[OF soundD(1)[OF s]]
  consider (threads) i "is" where "td_threads (backlog s) = i # is" | (authors) i "is" where "td_authors (backlog s) = i # is" |
    (messages) e es where "td_messages (backlog s) = e # es"
    using b by (cases "backlog s") (auto simp: neq_Nil_conv)
  then show ?thesis
  proof cases
    case threads
    obtain u where u: "lethread_query_step s = Inr u" "sound u (after_save a u)"
      "backlog u = (backlog s)\<lparr>td_threads := is\<rparr>"
      by (rule thread_step_sound[OF s threads])
    then show ?thesis using runs.save_thread[OF _ u(1)] q(1) threads by (intro that[of u]) (simp_all add: workload_def)
  next
    case authors
    obtain u where u: "leauthor_query_step s = Inr u" "sound u (after_save a u)"
      "backlog u = (backlog s)\<lparr>td_authors := is\<rparr>"
      by (rule author_step_sound[OF s authors])
    then show ?thesis using runs.save_author[OF _ u(1)] q(2) authors by (intro that[of u]) (simp_all add: workload_def)
  next
    case messages
    obtain u where u: "lemessage_query_step s = Inr u" "sound u (after_save a u)"
      "backlog u = (backlog s)\<lparr>td_messages := es\<rparr>"
      by (rule message_step_sound[OF s messages])
    then show ?thesis using runs.save_message[OF _ u(1)] q(3) messages by (intro that[of u]) (simp_all add: workload_def)
  qed
qed

lemma catches_up:
  assumes "sound s a"
  shows "\<exists>u. runs s [] u \<and> sound u (after_save a u) \<and> backlog u = nothing_due"
  using assms
proof (induction "workload (backlog s)" arbitrary: s a rule: less_induct)
  case less
  show ?case
  proof (cases "backlog s = nothing_due")
    case True
    have "after_save a s = a"
      using refinesD(4,5)[OF soundD(3)[OF less.prems]] by (simp add: after_save_def)
    with True less.prems show ?thesis by (intro exI[of _ s]) (simp add: runs.stop)
  next
    case False
    obtain w where w: "\<And>rs u. runs w rs u \<Longrightarrow> runs s rs u" "sound w (after_save a w)"
      "workload (backlog w) < workload (backlog s)"
      using manager_works[OF less.prems False] by blast
    obtain u where "runs w [] u" "sound u (after_save (after_save a w) u)" "backlog u = nothing_due"
      using less.hyps[OF w(3,2)] by blast
    moreover have "after_save (after_save a w) u = after_save a u" by (simp add: after_save_def)
    ultimately show ?thesis using w(1) by (intro exI[of _ u]) simp
  qed
qed

section \<open>The disk\<close>

definition on_disk :: "filesystem \<Rightarrow> athread \<Rightarrow> bool" where
  "on_disk fs v \<longleftrightarrow> file_at fs (dir_of v) FILE_LETHREAD = Some (thread_file v) \<and>
     file_at fs (dir_of v) FILE_LEAUTHOR = Some (author_file v) \<and>
     bytes_at fs (at_id v) = enc_messages (at_messages v)"

lemma sound_on_disk:
  assumes "sound s a" and "backlog s = nothing_due" and "v \<in> set (as_threads a)"
  shows "on_disk (fsys s) v"
  using soundD(4)[OF assms(1)] refinesD(4,5)[OF soundD(3)[OF assms(1)]] assms(2,3)
  by (auto simp: durable_def kept_def due_bytes_def on_disk_def)

section \<open>The first start\<close>

lemma server_ok_next:
  assumes "server_ok s"
  shows "server_ok (s\<lparr>g_next_lethread_id_value := n\<rparr>)" and "forum_of (s\<lparr>g_next_lethread_id_value := n\<rparr>) = forum_of s"
    and "backlog (s\<lparr>g_next_lethread_id_value := n\<rparr>) = backlog s"
proof -
  let ?u = "s\<lparr>g_next_lethread_id_value := n\<rparr>"
  show "server_ok ?u" "forum_of ?u = forum_of s" using assms by (simp_all add: server_ok_def gq_def forum_of_def)
  show "backlog ?u = backlog s" by (rule backlog_eq[OF assms _ same_ids_refl]) (simp_all add: gq_def)
qed

definition blank_forum :: "bytes \<Rightarrow> aserver" where
  "blank_forum dev = \<lparr>as_threads = [], as_next = 0, as_dev = dev, as_backlog = nothing_due,
     as_disk = \<lparr>fs_root = True, fs_dirs = [], fs_meta = None\<rparr>\<rparr>"

lemma first_start:
  assumes "forum_ok s" and "no_threads s" and "\<not> fs_root (fsys s)"
  shows "\<exists>u. startup s = Inr (0, u) \<and> sound u (blank_forum (urandom s)) \<and> forum_of u = [] \<and>
    mem_junk u = mem_junk s \<and> g_program_on_finish u = g_program_on_finish s"
proof -
  define s0 where "s0 = s\<lparr>fsys := \<lparr>fs_root = True, fs_dirs = [], fs_meta = None\<rparr>\<rparr>"
  have s0: "forum_ok s0" "no_threads s0" "fs_root (fsys s0)" using assms by (simp_all add: s0_def no_threads_def)
  note C = create_queues_law[OF this]
  define u where "u = (create_queues s0)\<lparr>g_next_lethread_id_value := 0\<rparr>"
  note U = server_ok_next[OF C(1), of 0, folded u_def]
  have fs: "fsys (create_queues s0) = \<lparr>fs_root = True, fs_dirs = [], fs_meta = None\<rparr>" using C(3) by (simp add: s0_def)
  have "startup s = Inr (0, u)"
    using assms(3) fs by (simp add: startup_def lemeta_load_def u_def flip: s0_def)
  moreover have f: "forum_of u = []" using U(2) C(2) by simp
  moreover have "refines u (blank_forum (urandom s))"
    using f U(3) C(4,7) fs by (simp add: refines_def blank_forum_def) (simp add: u_def s0_def)
  then have "sound u (blank_forum (urandom s))"
    using U(1) by (simp add: sound_def service_ok_def forum_inv_def durable_def tidy_def blank_forum_def)
  moreover have "mem_junk u = mem_junk s" "g_program_on_finish u = g_program_on_finish s"
    using C(6,8) by (simp_all add: u_def s0_def)
  ultimately show ?thesis by blast
qed

end
