(* ===== verification/Restart.thy ===== *)
theory Restart
  imports Durable "HOL-Library.Multiset"
begin

text \<open>
  \<open>startup\<close> on the files of an earlier run: the forum is as it was, and the invariant of \<open>Durable\<close>, with
  everything that is proved of commands and managers under it, holds again.
\<close>

section \<open>A thread comes back\<close>

lemma on_disk_saved:
  assumes d: "on_disk fs w" and k: "kept fs b w" and t: "at_author w = Some (ai, tk)" "token_ok tk"
  shows "saved fs w"
proof -
  have "thread_file w = enc_thread w ai" "author_file w = le64 ai @ tk" "length tk = TOKEN_SIZE"
    using t by (simp_all add: thread_file_def author_file_def token_ok_def TOKEN_SIZE_def)
  moreover have "length (at_topic w) < 2 ^ 64" "NUL \<notin> set (at_topic w)" using k by (simp_all add: kept_def wire_topic_def)
  ultimately show ?thesis using d t(1) unfolding on_disk_def saved_def by metis
qed

lemma restored_presents:
  assumes d: "on_disk fs w" and k: "kept fs b w" and t: "at_author w = Some (ai, tk)" "token_ok tk"
    and n: "length (at_messages w) < 2 ^ 64"
  shows "presents fs (restored w) w"
proof -
  have topic: "take MAX_TOPIC_SIZE (at_topic w) = at_topic w" using k by (simp add: kept_def wire_topic_def size_limits)
  let ?v' = "(restored w)\<lparr>at_messages := at_messages w\<rparr>"
  have "trimmed ?v' = w"
    using t topic by (cases w) (simp add: trimmed_def restored_def token_ok_def)
  moreover have "awake fs (restored w) ?v'"
  proof (cases "at_messages w = []")
    case True
    then have "loaded (restored w)" using k t(1) by (simp add: loaded_def restored_def kept_def)
    moreover have "?v' = restored w" using True by (simp add: restored_def)
    ultimately show ?thesis by (simp add: awake_loaded)
  next
    case False
    have "stored fs (restored w) (at_messages w)"
      using d k n by (simp add: stored_def restored_def on_disk_def kept_def)
    then show ?thesis using False t(1) by (auto simp: awake_def restored_def)
  qed
  ultimately show ?thesis unfolding presents_def by metis
qed

section \<open>The directories\<close>

lemma map_inv_into: "set ys \<subseteq> f ` A \<Longrightarrow> map f (map (inv_into A f) ys) = ys"
  by (induction ys) (auto simp: f_inv_into_f)

lemma directories:
  assumes "distinct (map at_id vs)" and t: "tidy fs vs" and d: "\<forall>v\<in>set vs. on_disk fs v"
  obtains vs' where "map dir_of vs' = map fst (fs_dirs fs)" and "mset vs' = mset vs"
proof -
  have inj: "inj_on dir_of (set vs)" using same_dir_same_thread[OF assms(1)] by (auto simp: inj_on_def)
  let ?ds = "map fst (fs_dirs fs)"
  have dirs: "set ?ds = dir_of ` set vs"
  proof
    show "set ?ds \<subseteq> dir_of ` set vs" using t by (simp add: tidy_def)
    have "dir_of v \<in> set ?ds" if "v \<in> set vs" for v
    proof (rule ccontr)
      assume "dir_of v \<notin> set ?ds"
      then have "map_of (fs_dirs fs) (dir_of v) = None" by (simp add: map_of_eq_None_iff)
      moreover have "file_at fs (dir_of v) FILE_LETHREAD = Some (thread_file v)" using d that by (simp add: on_disk_def)
      ultimately show False by (simp add: file_at_def)
    qed
    then show "dir_of ` set vs \<subseteq> set ?ds" by blast
  qed
  let ?vs = "map (inv_into (set vs) dir_of) ?ds"
  have m: "map dir_of ?vs = ?ds" by (rule map_inv_into) (use dirs in blast)
  have "distinct ?ds" using t by (simp add: tidy_def)
  then have "distinct (map dir_of ?vs)" unfolding m .
  then have "distinct ?vs" by (simp only: distinct_map)
  moreover have "set ?vs = set vs"
  proof -
    have "set ?vs = inv_into (set vs) dir_of ` dir_of ` set vs" using dirs by (simp only: set_map)
    then show ?thesis using inj by simp
  qed
  moreover have "distinct vs" using assms(1) by (simp only: distinct_map)
  ultimately have "mset ?vs = mset vs" using set_eq_iff_mset_eq_distinct by blast
  with m show ?thesis by (rule that)
qed

section \<open>Startup\<close>

lemma restart_law:
  assumes s: "sound s a" and idle: "backlog s = nothing_due" and b: "forum_ok b" "no_threads b" "fsys b = fsys s"
    and rnd: "8 * length (as_threads a) \<le> length (urandom b)"
    and n: "\<forall>w\<in>set (as_threads a). length (at_messages w) < 2 ^ 64"
  shows "\<exists>u a'. startup b = Inr (length (as_threads a), u) \<and> sound u a' \<and>
    mset (as_threads a') = mset (as_threads a) \<and> as_next a' = as_next a \<and> fsys u = fsys s \<and>
    as_dev a' = drop (8 * length (as_threads a)) (urandom b) \<and> mem_junk u = mem_junk b \<and>
    g_program_on_finish u = g_program_on_finish b"
proof -
  note S = soundD[OF s] and R = refinesD[OF soundD(3)[OF s]]
  have root: "fs_root (fsys b)" using server_okD(2)[OF S(1)] b(3) by simp
  note C = create_queues_law[OF b(1,2) root]
  have disk: "\<forall>w\<in>set (as_threads a). on_disk (fsys s) w" using sound_on_disk[OF s idle] by blast
  have kept: "kept (fsys s) nothing_due w" if "w \<in> set (as_threads a)" for w
    using S(4) R(4,5) idle that by (simp add: durable_def)
  have token: "\<exists>ai tk. at_author w = Some (ai, tk) \<and> token_ok tk" if "w \<in> set (as_threads a)" for w
    using S(2) that by (auto simp: forum_inv_def)
  have ids: "distinct (map at_id (as_threads a))" "tidy (fsys s) (as_threads a)"
    using S(2,4) R(5) by (auto simp: forum_inv_def durable_def)
  obtain vs where vs: "map dir_of vs = map fst (fs_dirs (fsys s))" "mset vs = mset (as_threads a)"
    by (rule directories[OF ids disk])
  have set_vs: "set vs = set (as_threads a)" and len: "length vs = length (as_threads a)"
    using mset_eq_setD[OF vs(2)] mset_eq_length[OF vs(2)] .
  have sv: "\<forall>v\<in>set vs. saved (fsys (create_queues b)) v"
    unfolding C(3) b(3) set_vs using on_disk_saved[OF _ kept] disk token by blast
  have "8 * length vs \<le> length (urandom (create_queues b))" using rnd by (simp add: C(4) len)
  from startup_loop_law[OF C(1) sv this, of 0] obtain t where t: "startup_loop (map dir_of vs) 0 (create_queues b) = Inr (length vs, t)"
    "server_ok t" "forum_of t = map restored vs" "fsys t = fsys s" "backlog t = nothing_due"
    "urandom t = drop (8 * length vs) (urandom b)" "mem_junk t = mem_junk b" "g_program_on_finish t = g_program_on_finish b"
    using C(2-4,6-8) b(3) by auto
  define u where "u = t\<lparr>g_next_lethread_id_value := as_next a\<rparr>"
  note U = server_ok_next[OF t(2), of "as_next a", folded u_def]
  have sel: "urandom u = urandom t" "fsys u = fsys s" using t(4) by (simp_all add: u_def)
  have meta: "fs_meta (fsys s) = Some (le64 (as_next a)) \<or> fs_meta (fsys s) = None \<and> as_next a = 0"
    using S(4) R(5) by (auto simp: durable_def)
  have root': "fs_root (fsys t)" using root b(3) t(4) by simp
  have "lemeta_load t = u"
    using meta root' by (auto simp: lemeta_load_def u_def t(4) overlay_full)
  then have started: "startup b = Inr (length (as_threads a), u)"
    using root t(1) C(3) b(3) vs(1) len by (simp add: startup_def)
  define a' where "a' = a\<lparr>as_threads := vs, as_dev := urandom t\<rparr>"
  have "presents (fsys s) (restored w) w" if "w \<in> set vs" for w
    using restored_presents[OF _ kept] disk token n that unfolding set_vs by blast
  then have "list_all2 (presents (fsys u)) (forum_of u) vs"
    unfolding U(2) t(3) sel(2) by (simp add: list_all2_map1 list.rel_refl_strong)
  then have "refines u a'"
    using sel R(4,5) idle U(3) t(5) by (simp add: refines_def a'_def) (simp add: u_def)
  moreover have "forum_inv a'"
  proof -
    have "mset (map at_id vs) = mset (map at_id (as_threads a))" using vs(2) by simp
    then have "distinct (map at_id vs)" using ids(1) by (metis mset_eq_imp_distinct_iff)
    then show ?thesis using S(2) by (simp add: forum_inv_def a'_def set_vs)
  qed
  moreover have "durable a'"
  proof -
    have "vs = [] \<longleftrightarrow> as_threads a = []" using len by (metis length_0_conv)
    then show ?thesis using S(4) by (simp add: durable_def a'_def set_vs tidy_def)
  qed
  ultimately have "sound u a'" using U(1) by (simp add: sound_def service_ok_def)
  moreover have "mem_junk u = mem_junk b" "g_program_on_finish u = g_program_on_finish b"
    using t(7,8) by (simp_all add: u_def)
  ultimately show ?thesis using started vs(2) sel(2) t(6) len by (intro exI[of _ u] exI[of _ a']) (simp add: a'_def)
qed

text \<open>
  What an earlier run has left: with nothing more to save its disk, or, before the first run, no data
  directory.
\<close>

definition left_by :: "filesystem \<Rightarrow> aserver \<Rightarrow> bool" where
  "left_by fs a \<longleftrightarrow>
     (if fs_root fs then \<exists>s. sound s a \<and> backlog s = nothing_due \<and> fsys s = fs else as_threads a = [] \<and> as_next a = 0)"

lemma starts_up:
  assumes "forum_ok b" and "no_threads b" and "left_by (fsys b) a" and "8 * length (as_threads a) \<le> length (urandom b)"
    and "\<forall>w\<in>set (as_threads a). length (at_messages w) < 2 ^ 64"
  shows "\<exists>cnt u a0. startup b = Inr (cnt, u) \<and> sound u a0 \<and> mset (as_threads a0) = mset (as_threads a) \<and>
    as_next a0 = as_next a \<and> as_dev a0 = drop (8 * length (as_threads a)) (urandom b) \<and> mem_junk u = mem_junk b \<and>
    g_program_on_finish u = g_program_on_finish b"
proof (cases "fs_root (fsys b)")
  case True
  then obtain s where "sound s a" "backlog s = nothing_due" "fsys b = fsys s"
    using assms(3) by (auto simp: left_by_def)
  from restart_law[OF this(1,2) assms(1,2) this(3) assms(4,5)] show ?thesis by blast
next
  case False
  then have "as_threads a = []" "as_next a = 0" using assms(3) by (simp_all add: left_by_def)
  with first_start[OF assms(1,2) False] show ?thesis by (force simp: blank_forum_def)
qed

section \<open>A run\<close>

lemma runs_append: "runs s rs t \<Longrightarrow> runs t qs u \<Longrightarrow> runs s (rs @ qs) u"
  by (induction rule: runs.induct) (auto intro: runs.intros)

text \<open>A server is started for the first time, a thread is created and a message posted to it.\<close>

definition new_machine :: server where
  "new_machine = blank_server\<lparr>fsys := \<lparr>fs_root = False, fs_dirs = [], fs_meta = None\<rparr>\<rparr>"

lemma new_machine_ok: "forum_ok new_machine" "no_threads new_machine" "\<not> fs_root (fsys new_machine)"
  "urandom new_machine = replicate 200 (CHR ''A'')"
  using blank_server_ok by (simp_all add: new_machine_def no_threads_def) (simp add: blank_server_def)

lemma run_request:
  assumes s: "sound s a" and w: "wf_request r" and d: "48 \<le> length (filter usable (as_dev a))"
    and n: "Suc (unat (as_next a)) < 2 ^ 64" and r: "respond (mem_junk s) r a = Inr (ans, a')"
  obtains u where "\<forall>rs w. runs u rs w \<longrightarrow> runs s (r # rs) w" and "sound u a'" and "mem_junk u = mem_junk s"
proof -
  note S = soundD[OF s] and R = refinesD[OF soundD(3)[OF s]]
  have d': "48 \<le> length (filter usable (urandom s))" "Suc (unat (g_next_lethread_id_value s)) < 2 ^ 64"
    using d n R(2,3) by simp_all
  from process_request[OF S(5) w _ r, of "replicate 26 NUL"] obtain res u where
    u: "query_process (Some (buffer r (replicate 26 NUL))) (psize r) s = Inr (res, u)"
    unfolding performs_def by (metis le_refl length_replicate)
  have old: "26 \<le> length (replicate 26 NUL)" by simp
  obtain ans' a'' where c: "respond (mem_junk s) r a = Inr (ans', a'')" "sound u a''" "mem_junk u = mem_junk s"
    by (rule command_sound[OF s w old d' u])
  have "a'' = a'" using c(1) r by simp
  with c(2,3) show ?thesis using runs.command[OF w old d' u] by (intro that[of u]) simp_all
qed

definition first_requests :: "request list" where
  "first_requests = [Create ''news'', Post 0 ''hello'' None]"

definition first_thread :: athread where
  "first_thread = posted ((new_thread 0 AAAA ''news'')\<lparr>at_author := Some (AAAA, As)\<rparr>) ''hello'' 0"

lemma first_run:
  obtains s u a where "startup new_machine = Inr (0, s)" and "sound s (blank_forum (urandom new_machine))"
    and "runs s first_requests u" and "sound u a" and "as_threads a = [first_thread]" and "as_next a = 1"
    and "\<exists>anss. respond_all (mem_junk s) first_requests (blank_forum (urandom new_machine)) = Inr (anss, a)"
proof -
  obtain s where s: "startup new_machine = Inr (0, s)" "sound s (blank_forum (urandom new_machine))"
    using first_start[OF new_machine_ok(1-3)] by blast
  let ?r1 = "un_le64 (replicate 8 (CHR ''A''))"
  have dev: "rand_uint64_t (replicate 200 (CHR ''A'')) = Inr (?r1, replicate 192 (CHR ''A''))"
    "rand_uint64_t (replicate 192 (CHR ''A'')) = Inr (?r1, replicate 184 (CHR ''A''))"
    "rand_uint64_t (replicate 184 (CHR ''A'')) = Inr (?r1, replicate 176 (CHR ''A''))"
    "rand_string 24 (replicate 176 (CHR ''A'')) = Inr (As, replicate 152 (CHR ''A''))"
    using rand_A[of 200] rand_A[of 192] rand_A[of 184] token_A[of 176] by simp_all
  let ?v = "(new_thread 0 AAAA ''news'')\<lparr>at_author := Some (AAAA, As)\<rparr>"
  let ?a = "blank_forum (urandom new_machine)"
  obtain ans a1 where r1: "respond (mem_junk s) (Create ''news'') ?a = Inr (ans, a1)"
    "as_threads a1 = [?v]" "as_next a1 = 1" "as_dev a1 = replicate 152 (CHR ''A'')"
    using dev by (simp add: Let_def AAAA_def blank_forum_def new_machine_ok(4))
  obtain u1 where u1: "\<forall>rs w. runs u1 rs w \<longrightarrow> runs s (Create ''news'' # rs) w" "sound u1 a1" "mem_junk u1 = mem_junk s"
    by (rule run_request[OF s(2) _ _ _ r1(1)])
      (simp_all add: blank_forum_def new_machine_ok(4) wire_topic_def filter_replicate MIN_SYMBOL_def)
  obtain ans2 a2 where r2: "respond (mem_junk u1) (Post 0 ''hello'' None) a1 = Inr (ans2, a2)"
    "as_threads a2 = [posted ?v ''hello'' 0]" "as_next a2 = 1"
    by (simp add: r1(2,3) thread_with_def earned_flag_def new_thread_def)
  obtain u where u: "\<forall>rs w. runs u rs w \<longrightarrow> runs u1 (Post 0 ''hello'' None # rs) w" "sound u a2"
    by (rule run_request[OF u1(2) _ _ _ r2(1)])
      (simp_all add: r1(3,4) wire_text_def filter_replicate MIN_SYMBOL_def)
  have "runs s first_requests u" unfolding first_requests_def using u1(1) u(1) runs.stop by blast
  moreover have "respond_all (mem_junk s) first_requests ?a = Inr ([ans, ans2], a2)"
    using r1(1) r2(1) u1(3) by (simp add: first_requests_def del: respond.simps)
  then have "\<exists>anss. respond_all (mem_junk s) first_requests ?a = Inr (anss, a2)" by blast
  ultimately show ?thesis using s u(2) r2(2,3) by (intro that[of s u a2]) (simp_all add: first_thread_def)
qed

lemma first_thread_texts: "map am_text (at_messages first_thread) = [''hello'']" "length (at_messages first_thread) < 2 ^ 64"
  "at_topic first_thread = ''news''"
  by (simp_all add: first_thread_def posted_def new_thread_def)

section \<open>Properties\<close>

text \<open>
  C5.  Nothing is lost: whatever well-formed requests arrive (\<open>wf_request\<close>) and however the managers are
  scheduled, the forum is what the requests alone make of it, and once nothing is due the disk holds every
  thread with its author and all of its messages, in order.
\<close>

theorem nothing_lost:
  assumes "runs s rs u" and "sound s a"
  shows "\<exists>anss b a'. respond_all (mem_junk s) rs a = Inr (anss, b) \<and> sound u a' \<and> same_forum b a' \<and>
    (backlog u = nothing_due \<longrightarrow> (\<forall>v\<in>set (as_threads b). on_disk (fsys u) v))"
proof -
  obtain anss b a' where r: "respond_all (mem_junk s) rs a = Inr (anss, b)" "sound u a'" "same_forum b a'"
    using runs_sound[OF assms] by blast
  moreover have "as_threads b = as_threads a'" using r(3) by (simp add: same_forum_def)
  ultimately show ?thesis using sound_on_disk[OF r(2)] by metis
qed

lemma nothing_lost_witness:
  "\<exists>s u. startup new_machine = Inr (0, s) \<and> runs s first_requests u \<and> backlog u = nothing_due \<and>
    on_disk (fsys u) first_thread"
proof -
  obtain s t a where s: "startup new_machine = Inr (0, s)" "sound s (blank_forum (urandom new_machine))"
    "runs s first_requests t" "sound t a" and a: "as_threads a = [first_thread]"
    "\<exists>anss. respond_all (mem_junk s) first_requests (blank_forum (urandom new_machine)) = Inr (anss, a)"
    by (rule first_run)
  obtain u where u: "runs t [] u" "backlog u = nothing_due" using catches_up[OF s(4)] by blast
  have r: "runs s first_requests u" using runs_append[OF s(3) u(1)] by simp
  have "\<forall>v\<in>set (as_threads a). on_disk (fsys u) v" using nothing_lost[OF r s(2)] a(2) u(2) by auto
  then show ?thesis using s(1) r u(2) a(1) by auto
qed

text \<open>
  C19.  The managers never get stuck: from every reachable state, working alone, they bring the whole
  forum to the disk.
\<close>

theorem managers_catch_up:
  assumes "sound s a"
  shows "\<exists>u. runs s [] u \<and> sound u (after_save a u) \<and> backlog u = nothing_due \<and>
    (\<forall>v\<in>set (as_threads a). on_disk (fsys u) v)"
proof -
  obtain u where "runs s [] u" "sound u (after_save a u)" "backlog u = nothing_due" using catches_up[OF assms] by blast
  then show ?thesis using sound_on_disk[of u "after_save a u"] by auto
qed

lemma managers_catch_up_witness: "\<exists>s u. runs s [] u \<and> on_disk (fsys u) first_thread"
proof -
  obtain t a where "sound t a" "as_threads a = [first_thread]" by (rule first_run)
  with managers_catch_up[OF this(1)] show ?thesis by auto
qed

text \<open>
  C6.  A restart restores the forum: started on the files of a run that had nothing left to save, the
  server has the same threads, with their authors and, once they are asked for, their messages, and
  goes on with the same next id; only the order of the threads is that of the directories.
\<close>

theorem startup_restores:
  assumes "sound s a" and "backlog s = nothing_due" and "forum_ok b" and "no_threads b" and "fsys b = fsys s"
    and "8 * length (as_threads a) \<le> length (urandom b)"
    and "\<forall>w\<in>set (as_threads a). length (at_messages w) < 2 ^ 64"
  shows "\<exists>u a'. startup b = Inr (length (as_threads a), u) \<and> sound u a' \<and>
    mset (as_threads a') = mset (as_threads a) \<and> as_next a' = as_next a \<and> fsys u = fsys s"
  using restart_law[OF assms] by blast

lemma startup_restores_witness:
  "\<exists>s b u a'. runs s [] s \<and> fsys b = fsys s \<and> startup b = Inr (1, u) \<and> sound u a' \<and> as_threads a' = [first_thread]"
proof -
  obtain t a where t: "sound t a" "as_threads a = [first_thread]" by (rule first_run)
  obtain s where s: "sound s (after_save a s)" "backlog s = nothing_due" using catches_up[OF t(1)] by blast
  define b where "b = blank_server\<lparr>fsys := fsys s\<rparr>"
  have b: "forum_ok b" "no_threads b" "fsys b = fsys s" "length (urandom b) = 200"
    using blank_server_ok by (simp_all add: b_def no_threads_def) (simp add: blank_server_def)
  obtain u a' where "startup b = Inr (1, u)" "sound u a'" "mset (as_threads a') = mset [first_thread]"
    using startup_restores[OF s b(1-3)] b(4) t(2) first_thread_texts(2) by auto
  then show ?thesis using b(3) runs.stop by (metis mset_single_iff_right mset.simps(1,2))
qed

end
