(* ===== verification/Server_Main.thy ===== *)
theory Server_Main
  imports Util Restart
begin

text \<open>
  \<open>main\<close> of \<open>server/server.c\<close> and the arguments of \<open>server/arg.c\<close>.  The argp library is left out: it finds
  the options on the command line and calls \<open>parse_opt\<close> for each.  What the operating system answers is
  given beforehand, the outcome of each \<open>accept\<close> included.  A client is handled by a thread of its own;
  here these threads run one after the other, each when its client has been accepted.
\<close>

section \<open>Arguments\<close>

record arguments =
  ar_host :: bytes
  ar_port :: i32
  ar_hello_message :: "bytes option"
  ar_timeout_sec :: int
  ar_timeout_usec :: int
  ar_max_connections :: i32

text \<open>The table: name, key, and the name of the argument.\<close>

definition options :: "(bytes \<times> byte \<times> bytes) list" where
  "options =
     [(''host'', CHR ''h'', ''ADDR''),
      (''port'', CHR ''p'', ''NUM''),
      (''hello-message'', CHR ''m'', ''TEXT''),
      (''timeout'', CHR ''t'', ''NUM''),
      (''max-connections'', CHR ''c'', ''NUM'')]"

text \<open>\<open>None\<close> is \<open>ARGP_ERR_UNKNOWN\<close>.\<close>

definition parse_opt :: "byte \<Rightarrow> bytes \<Rightarrow> arguments \<Rightarrow> arguments option" where
  "parse_opt key arg args =
     (if key = CHR ''h'' then Some (args\<lparr>ar_host := arg\<rparr>)
      else if key = CHR ''p'' then Some (args\<lparr>ar_port := atoi arg\<rparr>)
      else if key = CHR ''m'' then Some (args\<lparr>ar_hello_message := Some arg\<rparr>)
      else if key = CHR ''t'' then Some (args\<lparr>ar_timeout_sec := sint (atoi arg)\<rparr>)
      else if key = CHR ''c'' then Some (args\<lparr>ar_max_connections := atoi arg\<rparr>)
      else None)"

definition default_arguments :: arguments where
  "default_arguments = \<lparr>ar_host = ''0.0.0.0'', ar_port = 7431, ar_hello_message = Some ''Have a great day!'',
     ar_timeout_sec = 3, ar_timeout_usec = 0, ar_max_connections = 100\<rparr>"

text \<open>The options in the order of the command line; after an unknown one argp ends the program.\<close>

fun parse_options :: "(byte \<times> bytes) list \<Rightarrow> arguments \<Rightarrow> arguments option" where
  "parse_options [] args = Some args"
| "parse_options ((key, arg) # opts) args =
     (case parse_opt key arg args of None \<Rightarrow> None | Some args \<Rightarrow> parse_options opts args)"

section \<open>\<open>main\<close>\<close>

text \<open>Whether the system can start the three managers and prepare the socket.\<close>

record machine =
  mc_lethread_manager :: bool
  mc_lemessage_manager :: bool
  mc_leauthor_manager :: bool
  mc_socket :: bool
  mc_bind :: bool
  mc_listen :: bool

datatype accepted = Accept_fails | Getpeername_fails | Setsockopt_fails | Pthread_create_fails | Client socket

text \<open>
  What is left when \<open>main\<close> has returned, or, without a status, while it waits for another client: what it
  has printed, the connections in the order they were accepted, and the server.
\<close>

record outcome =
  oc_status :: "status_t option"
  oc_stdout :: bytes
  oc_clients :: "socket list"
  oc_server :: server

text \<open>The loop over \<open>accept\<close>; \<open>n\<close> bounds the packets of a client.\<close>

fun accept_loop :: "nat \<Rightarrow> accepted list \<Rightarrow> server \<Rightarrow> (status_t option \<times> socket list \<times> server) res" where
  "accept_loop n [] s = Inr (None, [], s)"
| "accept_loop n (Client sk # es) s =
     andthen (handle_client n sk s) (\<lambda>(sk, s).
     andthen (accept_loop n es s) (\<lambda>(st, sks, s). Inr (st, sk # sks, s)))"
| "accept_loop n (_ # es) s = Inr (Some (err LESTATUS_CLIB), [], s)"

text \<open>Leaving \<open>main\<close> once \<open>startup\<close> has registered \<open>cleanup\<close> with \<open>atexit\<close>.\<close>

definition leave :: "bytes \<Rightarrow> server \<Rightarrow> outcome res" where
  "leave out s =
     andthen (cleanup s) (\<lambda>s.
     Inr \<lparr>oc_status = Some (err LESTATUS_CLIB), oc_stdout = out, oc_clients = [], oc_server = s\<rparr>)"

definition server_main :: "nat \<Rightarrow> arguments \<Rightarrow> machine \<Rightarrow> accepted list \<Rightarrow> server \<Rightarrow> outcome res" where
  "server_main n args mc es s =
     (if ar_port args <s 0 \<or> 0xffff <s ar_port args then
        Inr \<lparr>oc_status = Some (err LESTATUS_IDAT), oc_stdout = ''invalid port provided'' @ [newline], oc_clients = [], oc_server = s\<rparr>
      else if ar_max_connections args \<le>s 0 then
        Inr \<lparr>oc_status = Some (err LESTATUS_IDAT), oc_stdout = ''invalid connection limit'' @ [newline], oc_clients = [], oc_server = s\<rparr>
      else
        andthen (startup s) (\<lambda>(dir_cnt, s).
        let out = (case ar_hello_message args of None \<Rightarrow> [] | Some str \<Rightarrow> if 0 < length str then str @ [newline] else []) in
        if \<not> mc_lethread_manager mc \<or> \<not> mc_lemessage_manager mc \<or> \<not> mc_leauthor_manager mc then leave out s
        else if \<not> mc_socket mc \<or> \<not> mc_bind mc \<or> \<not> mc_listen mc then leave out s
        else
          let out = out @ ''Server is listening on '' @ ar_host args @ '':'' @ decimal (nat (sint (ar_port args))) @ [newline] in
          andthen (accept_loop n es s) (\<lambda>(st, sks, s).
          case st of
            None \<Rightarrow> Inr \<lparr>oc_status = None, oc_stdout = out, oc_clients = sks, oc_server = s\<rparr>
          | Some st \<Rightarrow>
              andthen (cleanup s) (\<lambda>s.
              Inr \<lparr>oc_status = Some st, oc_stdout = out, oc_clients = sks, oc_server = s\<rparr>))))"

text \<open>\<open>exit(signum)\<close> ends the program with that status, and calls \<open>cleanup\<close> again.\<close>

definition signal_handler :: "i32 \<Rightarrow> server \<Rightarrow> (i32 \<times> server) res" where
  "signal_handler signum s = andthen (cleanup s) (\<lambda>s. andthen (cleanup s) (\<lambda>s. Inr (signum, s)))"

section \<open>Clients\<close>

text \<open>
  Clients one after the other: the requests \<open>rs\<close> of each, their packets \<open>ps\<close>, and what the abstract server
  makes of them.  Each client closes at the end, and takes all of its answers.
\<close>

fun visits :: "nat \<Rightarrow> (nat \<Rightarrow> byte) \<Rightarrow> (request list \<times> bytes list \<times> socket) list \<Rightarrow> aserver \<Rightarrow> bytes list list \<Rightarrow> aserver \<Rightarrow> bool" where
  "visits n junk [] a given a' \<longleftrightarrow> given = [] \<and> a' = a"
| "visits n junk ((rs, ps, sk) # cs) a given a' \<longleftrightarrow>
     (\<exists>anss given' b. given = anss # given' \<and> list_all2 sends rs ps \<and> respond_all junk rs a = Inr (anss, b) \<and>
        (\<forall>ans\<in>set anss. length ans < 2 ^ 64) \<and> unat (as_next a) + length rs < 2 ^ 64 \<and> delivers (sk_rx sk) ps \<and>
        willing (sum_list (map (\<lambda>ans. length ans + 2) anss)) sk \<and> length rs < n \<and> visits n junk cs b given' a')"

lemma accept_loop_law:
  assumes "service_ok s a" and "\<not> g_program_on_finish s" and "visits n (mem_junk s) cs a given a'"
  shows "\<exists>sks u. accept_loop n (map (\<lambda>(rs, ps, sk). Client sk) cs) s = Inr (None, sks, u) \<and> service_ok u a' \<and>
    map sk_out sks = map2 (\<lambda>(rs, ps, sk) anss. sk_out sk @ concat (map framed anss)) cs given"
  using assms
proof (induction cs arbitrary: s a given)
  case Nil
  then show ?case by simp
next
  case (Cons c cs)
  obtain rs ps sk where c: "c = (rs, ps, sk)" by (cases c)
  with Cons.prems(3) obtain anss given' b where v: "given = anss # given'" "list_all2 sends rs ps"
    "respond_all (mem_junk s) rs a = Inr (anss, b)" "\<forall>ans\<in>set anss. length ans < 2 ^ 64" "unat (as_next a) + length rs < 2 ^ 64"
    "delivers (sk_rx sk) ps" "willing (sum_list (map (\<lambda>ans. length ans + 2) anss)) sk" "length rs < n"
    "visits n (mem_junk s) cs b given' a'"
    by auto
  have len: "length (map (mem_junk s) [0..<MAX_PACKET_SIZE + 1]) = MAX_PACKET_SIZE + 1" by simp
  obtain sk' u where u: "handle_client n sk s = Inr (sk', u)" "sk_out sk' = sk_out sk @ concat (map framed anss)"
    "service_ok u b" "mem_junk u = mem_junk s" "g_program_on_finish u = g_program_on_finish s"
    using session_law[OF Cons.prems(1,2) v(2-7) len v(8)] unfolding handle_client_def by blast
  have "\<not> g_program_on_finish u" "visits n (mem_junk u) cs b given' a'" using u(4,5) Cons.prems(2) v(9) by simp_all
  from Cons.IH[OF u(3) this] u(1,2) show ?case by (auto simp: c v(1))
qed

section \<open>Properties\<close>

lemma options_understood: "list_all (\<lambda>(name, key, a). parse_opt key arg args \<noteq> None) options"
  by (simp add: options_def parse_opt_def)

text \<open>
  C2.  \<open>main\<close> from its start, on the files that an earlier run has left or for the first time: where the
  arguments are valid and the system has no objections, it starts up with the threads of that run, complete
  with their authors and messages, and its next id.  Then it accepts any number of clients, one after the
  other, each with any sequence of well-formed requests (\<open>visits\<close>), and gives every one the answers of the
  abstract server, which sees the requests of all of them in that order; after that it waits for the next.
\<close>

theorem server_main_serves:
  assumes "0 \<le>s ar_port args" and "ar_port args \<le>s 0xffff" and "0 <s ar_max_connections args"
    and "forum_ok b" and "no_threads b" and "\<not> g_program_on_finish b" and "left_by (fsys b) a"
    and "8 * length (as_threads a) \<le> length (urandom b)" and "\<forall>w\<in>set (as_threads a). length (at_messages w) < 2 ^ 64"
  shows "\<exists>a0. mset (as_threads a0) = mset (as_threads a) \<and> as_next a0 = as_next a \<and>
    as_dev a0 = drop (8 * length (as_threads a)) (urandom b) \<and>
    (\<forall>n cs given a'. visits n (mem_junk b) cs a0 given a' \<longrightarrow>
      (\<exists>out sks u. server_main n args \<lparr>mc_lethread_manager = True, mc_lemessage_manager = True, mc_leauthor_manager = True,
          mc_socket = True, mc_bind = True, mc_listen = True\<rparr> (map (\<lambda>(rs, ps, sk). Client sk) cs) b =
          Inr \<lparr>oc_status = None, oc_stdout = out, oc_clients = sks, oc_server = u\<rparr> \<and>
        service_ok u a' \<and> map sk_out sks = map2 (\<lambda>(rs, ps, sk) anss. sk_out sk @ concat (map framed anss)) cs given))"
proof -
  obtain cnt s a0 where s: "startup b = Inr (cnt, s)" "sound s a0" "mset (as_threads a0) = mset (as_threads a)"
    "as_next a0 = as_next a" "as_dev a0 = drop (8 * length (as_threads a)) (urandom b)" "mem_junk s = mem_junk b"
    "g_program_on_finish s = g_program_on_finish b"
    using starts_up[OF assms(4,5,7-9)] by blast
  have fin: "\<not> g_program_on_finish s" using s(7) assms(6) by simp
  have args: "\<not> ar_port args <s 0" "\<not> 0xffff <s ar_port args" "\<not> ar_max_connections args \<le>s 0"
    using assms(1-3) by (simp_all add: word_sle_eq word_sless_alt)
  have "\<exists>out sks u. server_main n args \<lparr>mc_lethread_manager = True, mc_lemessage_manager = True, mc_leauthor_manager = True,
          mc_socket = True, mc_bind = True, mc_listen = True\<rparr> (map (\<lambda>(rs, ps, sk). Client sk) cs) b =
          Inr \<lparr>oc_status = None, oc_stdout = out, oc_clients = sks, oc_server = u\<rparr> \<and>
        service_ok u a' \<and> map sk_out sks = map2 (\<lambda>(rs, ps, sk) anss. sk_out sk @ concat (map framed anss)) cs given"
    if v: "visits n (mem_junk b) cs a0 given a'" for n cs given a'
  proof -
    obtain sks u where "accept_loop n (map (\<lambda>(rs, ps, sk). Client sk) cs) s = Inr (None, sks, u)" "service_ok u a'"
      "map sk_out sks = map2 (\<lambda>(rs, ps, sk) anss. sk_out sk @ concat (map framed anss)) cs given"
      using accept_loop_law[OF soundD(5)[OF s(2)] fin v[folded s(6)]] by blast
    with args s(1) show ?thesis by (simp add: server_main_def Let_def)
  qed
  with s(3-5) show ?thesis by blast
qed

lemma server_main_serves_witness:
  "\<exists>b out sks u a. fs_root (fsys b) \<and> server_main 5 default_arguments \<lparr>mc_lethread_manager = True, mc_lemessage_manager = True,
      mc_leauthor_manager = True, mc_socket = True, mc_bind = True, mc_listen = True\<rparr>
      [Client \<lparr>sk_rx = [Rx (framed (packet (Post 0 ''again'' None))), Rx_closed], sk_tx = replicate 8 (Tx 99), sk_out = []\<rparr>] b =
      Inr \<lparr>oc_status = None, oc_stdout = out, oc_clients = sks, oc_server = u\<rparr> \<and> map sk_out sks = [framed ''OK''] \<and>
    refines u a \<and> as_threads a = [posted first_thread ''again'' 0]"
proof -
  obtain t a where t: "sound t a" "as_threads a = [first_thread]" "as_next a = 1" by (rule first_run)
  obtain s where s: "sound s (after_save a s)" "backlog s = nothing_due" using catches_up[OF t(1)] by blast
  define b where "b = blank_server\<lparr>fsys := fsys s\<rparr>"
  have root: "fs_root (fsys b)" using server_okD(2)[OF soundD(1)[OF s(1)]] by (simp add: b_def)
  have b: "forum_ok b" "no_threads b" "\<not> g_program_on_finish b" "length (urandom b) = 200" "left_by (fsys b) (after_save a s)"
    using blank_server_ok s root by (simp_all add: b_def no_threads_def left_by_def) (auto simp: blank_server_def)
  have args: "0 \<le>s ar_port default_arguments" "ar_port default_arguments \<le>s 0xffff" "0 <s ar_max_connections default_arguments"
    by (simp_all add: default_arguments_def word_sle_eq word_sless_alt)
  let ?p = "packet (Post 0 ''again'' None)"
  let ?sk = "\<lparr>sk_rx = [Rx (framed ?p), Rx_closed], sk_tx = replicate 8 (Tx 99), sk_out = []\<rparr>"
  obtain a0 where a0: "as_threads a0 = [first_thread]" "as_next a0 = 1"
    and serves: "\<And>n cs given a'. visits n (mem_junk b) cs a0 given a' \<Longrightarrow>
      \<exists>out sks u. server_main n default_arguments \<lparr>mc_lethread_manager = True, mc_lemessage_manager = True, mc_leauthor_manager = True,
          mc_socket = True, mc_bind = True, mc_listen = True\<rparr> (map (\<lambda>(rs, ps, sk). Client sk) cs) b =
          Inr \<lparr>oc_status = None, oc_stdout = out, oc_clients = sks, oc_server = u\<rparr> \<and>
        service_ok u a' \<and> map sk_out sks = map2 (\<lambda>(rs, ps, sk) anss. sk_out sk @ concat (map framed anss)) cs given"
    using server_main_serves[OF args b(1-3,5)] t(2,3) b(4) first_thread_texts(2) by auto
  have sends: "sends (Post 0 ''again'' None) ?p"
    by (simp add: sends_def generate_packet wire_text_def del: generate.simps packet.simps)
  have d: "delivers [Rx (framed ?p), Rx_closed] [?p]" by (simp add: delivers_def framed_def)
  obtain a' where r: "respond_all (mem_junk b) [Post 0 ''again'' None] a0 = Inr ([''OK''], a')"
    "as_threads a' = [posted first_thread ''again'' 0]"
    by (simp add: a0 thread_with_def earned_flag_def first_thread_def posted_def new_thread_def)
  have "visits 5 (mem_junk b) [([Post 0 ''again'' None], [?p], ?sk)] a0 [[''OK'']] a'"
    using sends d r(1) by (simp add: willing_def a0(2) del: packet.simps respond_all.simps)
  from serves[OF this] obtain out sks u where "server_main 5 default_arguments \<lparr>mc_lethread_manager = True, mc_lemessage_manager = True,
      mc_leauthor_manager = True, mc_socket = True, mc_bind = True, mc_listen = True\<rparr> [Client ?sk] b =
      Inr \<lparr>oc_status = None, oc_stdout = out, oc_clients = sks, oc_server = u\<rparr>" "service_ok u a'" "map sk_out sks = [framed ''OK'']"
    by auto
  then show ?thesis using root r(2) serviceE(3)[of u a']
    by - (rule exI[of _ b], rule exI[of _ out], rule exI[of _ sks], rule exI[of _ u], rule exI[of _ a'], simp del: packet.simps)
qed

text \<open>
  C30.  A port outside of 0 to 65535, or a limit of connections below one, is refused before anything is
  started: the status is \<open>LESTATUS_IDAT\<close>, nothing has been read, written or accepted, and nothing is cleaned up.
\<close>

theorem server_main_refuses:
  assumes "sint (ar_port args) \<notin> {0..65535} \<or> sint (ar_max_connections args) < 1"
  shows "\<exists>out. server_main n args mc es s = Inr \<lparr>oc_status = Some (err LESTATUS_IDAT), oc_stdout = out, oc_clients = [], oc_server = s\<rparr>"
  using assms by (auto simp: server_main_def word_sle_eq word_sless_alt)

lemma server_main_refuses_witness:
  "\<exists>out args mc. parse_options [(CHR ''p'', ''70000'')] default_arguments = Some args \<and>
    server_main 1 args mc [] new_machine = Inr \<lparr>oc_status = Some (err LESTATUS_IDAT), oc_stdout = out, oc_clients = [], oc_server = new_machine\<rparr>"
proof -
  have "atoi ''70000'' = 70000" by (simp add: atoi_def strtol_def is_space_def is_digit_def)
  then have p: "parse_options [(CHR ''p'', ''70000'')] default_arguments = Some (default_arguments\<lparr>ar_port := 70000\<rparr>)"
    by (simp add: parse_opt_def)
  let ?mc = "\<lparr>mc_lethread_manager = True, mc_lemessage_manager = True, mc_leauthor_manager = True, mc_socket = True,
    mc_bind = True, mc_listen = True\<rparr>"
  have "\<exists>out. server_main 1 (default_arguments\<lparr>ar_port := 70000\<rparr>) ?mc [] new_machine =
      Inr \<lparr>oc_status = Some (err LESTATUS_IDAT), oc_stdout = out, oc_clients = [], oc_server = new_machine\<rparr>"
    by (rule server_main_refuses) simp
  with p show ?thesis by blast
qed

end
