(* ===== verification/End_To_End.thy ===== *)
theory End_To_End
  imports Client_Edges Server_Main
begin

text \<open>
  Both programs at once: what the client sends is what the server receives, and the other way round.
\<close>

section \<open>One request\<close>

text \<open>
  The server serves the request \<open>r\<close>, cut into any pieces, and the client that receives its answer, cut
  into any pieces, talks to the abstract server.
\<close>

lemma exchange:
  assumes s: "service_ok s a" "\<not> g_program_on_finish s" and w: "wf_request r" and dev: "48 \<le> length (filter usable (as_dev a))"
    and room: "Suc (unat (as_next a)) < 2 ^ 64" and sent: "concat pieces = packet r" "[] \<notin> set pieces"
  obtains ans a' where "respond (mem_junk s) r a = Inr (ans, a')"
    and "\<And>sk. ans \<noteq> [] \<Longrightarrow> length ans < 2 ^ 64 \<Longrightarrow> sk_rx sk = session_rx [pieces] \<Longrightarrow> willing (length ans + 2) sk \<Longrightarrow>
      \<exists>sk' u. handle_client 2 sk s = Inr (sk', u) \<and> sk_out sk' = sk_out sk @ framed ans \<and> service_ok u a'"
proof -
  obtain ans a' where r: "respond (mem_junk s) r a = Inr (ans, a')" using respond_returns[OF dev] by blast
  have "\<exists>sk' u. handle_client 2 sk s = Inr (sk', u) \<and> sk_out sk' = sk_out sk @ framed ans \<and> service_ok u a'"
    if "length ans < 2 ^ 64" "sk_rx sk = session_rx [pieces]" "willing (length ans + 2) sk" for sk
  proof -
    have sends: "list_all2 sends [r] [concat pieces]" using w sent generate_packet[OF w] by (simp add: sends_def del: generate.simps)
    have arrival: "delivers (sk_rx sk) [concat pieces]" using session_delivers[of "[pieces]"] that(2) by simp
    have resp: "respond_all (mem_junk s) [r] a = Inr ([ans], a')" using r by (simp del: respond.simps)
    have len: "length (map (mem_junk s) [0..<MAX_PACKET_SIZE + 1]) = MAX_PACKET_SIZE + 1" by simp
    show ?thesis
      using session_law[OF s sends resp _ _ arrival _ len, of 2] room that unfolding handle_client_def by auto
  qed
  with r show ?thesis by (rule that)
qed

section \<open>A thread\<close>

text \<open>A client that may ask once; what it will receive is left open.\<close>

definition about_to_ask :: "request \<Rightarrow> client \<Rightarrow> bool" where
  "about_to_ask r c \<longleftrightarrow> ready c \<and> limits_known c \<and> c_events c = [] \<and> c_dir c \<and> 16 \<le> c_capacity c pointer_size \<and>
     store_ok (c_infos c) \<and> willing (length (packet r) + 2) (g_server_fd c)"

definition hearing :: "rx_event list \<Rightarrow> client \<Rightarrow> client" where
  "hearing rx c = c\<lparr>g_server_fd := (g_server_fd c)\<lparr>sk_rx := rx\<rparr>\<rparr>"

text \<open>
  C3.  The user of the client types a topic; client and server run, each on the bytes that the other one
  sends, in whatever pieces the network delivers the request.  The client then has as its active thread
  the one that the server has added to its forum, and in its file the token that the server will
  recognise.
\<close>

theorem thread_created_end_to_end:
  assumes "service_ok s a" and "\<not> g_program_on_finish s" and "48 \<le> length (filter usable (as_dev a))"
    and "Suc (unat (as_next a)) < 2 ^ 64"
    and "about_to_ask (Create topic) c" and "c_stdin c = topic @ newline # rest" and "wire_topic topic" and "newline \<notin> set topic"
    and "concat pieces = packet (Create topic)" and "[] \<notin> set pieces" and "sk_rx sk = session_rx [pieces]" and "willing 44 sk"
  shows "\<exists>ans sk' u a' d v token. handle_client 2 sk s = Inr (sk', u) \<and> sk_out sk' = sk_out sk @ framed ans \<and>
    cmd_thread_create (hearing (arrives [ans]) c) = Inr d \<and> sent d = sent c @ framed (concat pieces) \<and>
    service_ok u a' \<and> as_threads a' = as_threads a @ [v] \<and> map at_id (forum_of u) = map at_id (forum_of s) @ [g_active_thread_id d] \<and>
    at_id v = g_active_thread_id d \<and> at_topic v = topic \<and> map_option snd (at_author v) = Some token \<and>
    c_files d (decimal (unat (g_active_thread_id d))) = Some token"
proof -
  let ?r = "Create topic"
  have wf: "wf_request ?r" using assms(7) by simp
  obtain ans a' where r: "respond (mem_junk s) ?r a = Inr (ans, a')"
    and server: "ans \<noteq> [] \<Longrightarrow> length ans < 2 ^ 64 \<Longrightarrow> sk_rx sk = session_rx [pieces] \<Longrightarrow> willing (length ans + 2) sk \<Longrightarrow>
      \<exists>sk' u. handle_client 2 sk s = Inr (sk', u) \<and> sk_out sk' = sk_out sk @ framed ans \<and> service_ok u a'"
    using exchange[OF assms(1,2) wf assms(3,4,9,10)] by metis
  have len: "length ans = 42" using r by (auto simp: Let_def cthr_response_def dest!: rand_string_ok)
  then have ne: "ans \<noteq> []" "length ans < 2 ^ 64 - 1" by auto
  obtain sk' u where u: "handle_client 2 sk s = Inr (sk', u)" "sk_out sk' = sk_out sk @ framed ans" "service_ok u a'"
    using server assms(11,12) len ne by auto
  let ?c = "hearing (arrives [ans]) c"
  have c: "talks (mem_junk s) 0 ?r a a' ?c" "limits_known ?c" "c_dir ?c" "16 \<le> c_capacity ?c pointer_size"
    "c_stdin ?c = topic @ newline # rest" "store_ok (c_infos ?c)" "sent ?c = sent c"
    using assms(5,6) wf r sample_hears[OF ne, of "[]"]
    by (auto simp: hearing_def about_to_ask_def talks_def ready_def limits_known_def willing_def pings_def)
  obtain d v where d: "cmd_thread_create ?c = Inr d" "as_threads a' = as_threads a @ [v]" "at_topic v = topic"
    "g_active_thread_id d = at_id v" "\<exists>token. map_option snd (at_author v) = Some token \<and> c_files d = (c_files ?c)(show_u64 (at_id v) \<mapsto> token)"
    "sent d = sent ?c @ concat (replicate 0 (framed ''LIVE'')) @ framed (packet ?r)"
    by (rule create_law[OF c(1-5) assms(8) c(6)])
  then obtain token where "map_option snd (at_author v) = Some token" "c_files d (decimal (unat (at_id v))) = Some token"
    by (auto simp: show_u64_def simp del: decimal.simps)
  moreover have "map at_id (forum_of u) = map at_id (forum_of s) @ [at_id v]"
    using serviceE(4)[OF u(3)] serviceE(4)[OF assms(1)] d(2) by simp
  ultimately show ?thesis
    using u d c(7) assms(9) by (intro exI[of _ ans] exI[of _ sk'] exI[of _ u] exI[of _ a'] exI[of _ d] exI[of _ v] exI[of _ token])
      (simp add: d(4) del: decimal.simps)
qed

lemma thread_created_end_to_end_witness:
  "\<exists>ans sk' u c d. handle_client 2 \<lparr>sk_rx = session_rx [[packet (Create ''news'')]], sk_tx = replicate 44 (Tx 99), sk_out = []\<rparr> sample_server =
      Inr (sk', u) \<and> sk_out sk' = framed ans \<and> c_stdin c = ''news'' @ [newline] \<and>
    cmd_thread_create (hearing (arrives [ans]) c) = Inr d \<and> map at_id (forum_of u) = [7, g_active_thread_id d]"
proof -
  let ?a = "abs_server sample_server" and ?p = "packet (Create ''news'')" and ?c = "sample_client [] (''news'' @ newline # [])"
  let ?sk = "\<lparr>sk_rx = session_rx [[?p]], sk_tx = replicate 44 (Tx 99), sk_out = []\<rparr>"
  obtain n where n: "urandom sample_server = replicate n (CHR ''A'')" "128 \<le> n" using sample_server_ok(3) by blast
  have dev: "48 \<le> length (filter usable (as_dev ?a))"
    unfolding sample_abs using n by (simp add: filter_replicate MIN_SYMBOL_def)
  have room: "Suc (unat (as_next ?a)) < 2 ^ 64" by (simp add: sample_abs)
  have topic: "wire_topic ''news''" "newline \<notin> set ''news''" by (simp_all add: wire_topic_def)
  have c: "about_to_ask (Create ''news'') ?c" "c_stdin ?c = ''news'' @ newline # []"
    using sample_client_ok(1,2)[of "[]" "''news'' @ newline # []"] sample_client_types packet_size[of "Create ''news''"] topic(1)
      sample_client_ok(4)[of "length ?p + 2" "[]" "''news'' @ newline # []"]
    by (simp_all add: about_to_ask_def)
  have p: "concat [?p] = ?p" "[] \<notin> set [?p]" "sk_rx ?sk = session_rx [[?p]]" "willing 44 ?sk"
    by (simp_all add: willing_def packet.simps)
  obtain ans sk' u d where "handle_client 2 ?sk sample_server = Inr (sk', u)" "sk_out sk' = sk_out ?sk @ framed ans"
    "cmd_thread_create (hearing (arrives [ans]) ?c) = Inr d" "map at_id (forum_of u) = map at_id (forum_of sample_server) @ [g_active_thread_id d]"
    using thread_created_end_to_end[OF sample_service_ok sample_not_finished dev room c topic p] by blast
  then show ?thesis
    using c(2) by - (rule exI[of _ ans], rule exI[of _ sk'], rule exI[of _ u], rule exI[of _ ?c], rule exI[of _ d], simp add: sample_server_ok(2))
qed

end
