(* ===== verification/Shutdown.thy ===== *)
theory Shutdown
  imports Server_Main Found_Threads
begin

text \<open>
  Ending the server: \<open>cleanup\<close> of \<open>server/server.c\<close> deletes the queues with all they hold.  Between two
  connections, when nothing waits to be saved, this frees every thread, message and handle once.  A
  message that still waits is in two queues and is freed twice.
\<close>

section \<open>The last handle of a thread\<close>

definition put_handles :: "sharedptr store \<Rightarrow> int store \<Rightarrow> 'm mem_sptr_scheme \<Rightarrow> 'm mem_sptr_scheme" where
  "put_handles h k s = s\<lparr>sp_objs := h, sp_counts := k\<rparr>"

lemma put_handles_simps [simp]:
  "q_nodes (put_handles h k s) = q_nodes s" "q_queues (put_handles h k s) = q_queues s"
  "sp_objs (put_handles h k s) = h" "sp_counts (put_handles h k s) = k"
  "put_handles h k (put_handles h' k' s) = put_handles h k s"
  by (simp_all add: put_handles_def)

lemma put_handles_fields:
  fixes s :: "'m mem_forum_scheme"
  shows "f_threads (put_handles h k s) = f_threads s" and "f_authors (put_handles h k s) = f_authors s"
    and "f_messages (put_handles h k s) = f_messages s"
    and "(put_handles h k s)\<lparr>f_threads := T\<rparr> = put_handles h k (s\<lparr>f_threads := T\<rparr>)"
    and "(put_handles h k s)\<lparr>f_authors := A\<rparr> = put_handles h k (s\<lparr>f_authors := A\<rparr>)"
    and "(put_handles h k s)\<lparr>f_messages := M\<rparr> = put_handles h k (s\<lparr>f_messages := M\<rparr>)"
    and "(put_handles h k s)\<lparr>q_nodes := N\<rparr> = put_handles h k (s\<lparr>q_nodes := N\<rparr>)"
    and "(put_handles h k s)\<lparr>q_queues := Q\<rparr> = put_handles h k (s\<lparr>q_queues := Q\<rparr>)"
  by (simp_all add: put_handles_def)

lemma lemessage_delete_handles:
  "destruct (Suc n) Lemessage_delete p (put_handles h k s) =
    andthen (destruct (Suc n) Lemessage_delete p s) (\<lambda>t. Inr (put_handles h k t))"
  by (cases p) (simp_all add: lemessage_delete_def put_handles_fields split: option.split)

lemma loop_handles:
  fixes s :: "'m mem_forum_scheme"
  assumes "cells (q_queues s) m = Some qu" and "q_destruct qu = Lemessage_delete"
  shows "queue_delete_loop fuel (destruct (Suc n)) (Ptr m) node (put_handles h k s) =
    andthen (queue_delete_loop fuel (destruct (Suc n)) (Ptr m) node s) (\<lambda>t. Inr (put_handles h k t))"
  using assms
proof (induction fuel arbitrary: node s qu)
  case 0
  then show ?case by (cases node) simp_all
next
  case (Suc fuel)
  have go: "queue_delete_loop fuel (destruct (Suc n)) (Ptr m) nx (put_handles h k (t\<lparr>q_nodes := N,
        q_queues := qs\<lparr>cells := (cells qs)(m \<mapsto> qu\<lparr>q_size := z\<rparr>)\<rparr>\<rparr>)) =
      andthen (queue_delete_loop fuel (destruct (Suc n)) (Ptr m) nx (t\<lparr>q_nodes := N,
        q_queues := qs\<lparr>cells := (cells qs)(m \<mapsto> qu\<lparr>q_size := z\<rparr>)\<rparr>\<rparr>)) (\<lambda>t. Inr (put_handles h k t))"
    for nx N z qs and t :: "'m mem_forum_scheme"
    using Suc.IH[of "t\<lparr>q_nodes := N, q_queues := qs\<lparr>cells := (cells qs)(m \<mapsto> qu\<lparr>q_size := z\<rparr>)\<rparr>\<rparr>"
        "qu\<lparr>q_size := z\<rparr>" nx] Suc.prems(2) by simp
  show ?case
  proof (cases node)
    case (Ptr a)
    show ?thesis
    proof (cases "cells (q_nodes s) a")
      case None
      with Ptr show ?thesis by simp
    next
      case (Some nd)
      show ?thesis
      proof (cases "qn_data nd = Null")
        case True
        with Ptr Some Suc.prems show ?thesis
          by (simp add: Let_def put_handles_fields go del: fun_upd_apply)
      next
        case False
        show ?thesis
        proof (cases "destruct (Suc n) Lemessage_delete (qn_data nd) s")
          case (Inl f)
          with False Ptr Some Suc.prems show ?thesis
            by (simp add: Let_def lemessage_delete_handles del: destruct.simps)
        next
          case (Inr t)
          note same = lemessage_delete_same[OF Inr]
          with Inr False Ptr Some Suc.prems show ?thesis
            by (simp add: Let_def lemessage_delete_handles put_handles_fields go fun_upd_same del: destruct.simps fun_upd_apply)
        qed
      qed
    qed
  qed simp_all
qed

lemma queue_delete_handles:
  fixes s :: "'m mem_forum_scheme"
  assumes "cells (q_queues s) m = Some qu" and "q_destruct qu = Lemessage_delete"
  shows "queue_delete (destruct (Suc n)) (Ptr m) (put_handles h k s) =
    andthen (queue_delete (destruct (Suc n)) (Ptr m) s) (\<lambda>(st, t). Inr (st, put_handles h k t))"
  by (simp add: queue_delete_def assms(1) loop_handles[OF assms] andthen_assoc put_handles_fields
      del: queue_delete_loop.simps destruct.simps free_obj.simps)

lemma leauthor_delete_handles:
  "leauthor_delete a (put_handles h k s) = andthen (leauthor_delete a s) (\<lambda>(st, t). Inr (st, put_handles h k t))"
  by (cases a) (simp_all add: leauthor_delete_def put_handles_fields split: option.split)

lemma lethread_delete_handles:
  fixes s :: "'m mem_forum_scheme"
  assumes "cells (f_threads s) c = Some u" and "lt_messages u = Ptr m"
    and "cells (q_queues s) m = Some qu" and "q_destruct qu = Lemessage_delete"
  shows "lethread_delete (destruct (Suc n)) (Ptr c) (put_handles h k s) =
    andthen (lethread_delete (destruct (Suc n)) (Ptr c) s) (\<lambda>(st, t). Inr (st, put_handles h k t))"
  using assms(1,2)
  by (cases "lt_author u = Null")
    (simp_all add: lethread_delete_def queue_delete_handles[OF assms(3,4)] leauthor_delete_handles put_handles_fields
      andthen_assoc split_def del: free_obj.simps assign.simps)

text \<open>
  What deleting the last handle comes to: the thread is deleted, and so are the handle and its counter,
  whatever the entry of another queue is.
\<close>

lemma last_handle:
  fixes s :: "'m mem_forum_scheme"
  assumes ok: "sp_ok (sp_objs s) (sp_counts s)" and p: "handle_of s p = Some (r, Ptr c, Lethread_delete)"
    and last: "\<And>p' d' f'. handle_of s p' = Some (r, d', f') \<Longrightarrow> p' = p"
    and t: "cells (f_threads s) c = Some u" "lt_messages u = Ptr m" "m \<noteq> q"
    and m: "cells (q_queues s) m = Some qu" "q_destruct qu = Lemessage_delete"
    and run: "lethread_delete (destruct (Suc n)) (Ptr c) s = Inr (ok_status, v)"
  obtains objs counts where "\<forall>z. sharedptr_delete (destruct (Suc (Suc n))) p (put_queue q z s) =
      Inr (ok_status, put_queue q z (put_handles objs counts v))"
    and "sp_ok objs counts" and "owned objs = (handle_of s)(p := None)"
proof -
  obtain b where b: "p = Ptr b"
      "cells (sp_objs s) b = Some \<lparr>sp_ref = r, sp_data = Ptr c, sp_destruct = Some Lethread_delete\<rparr>"
    using p by (rule owned_liveE)
  obtain x where x: "r = Ptr x" "cells (sp_counts s) x = Some (int (card (handles (sp_objs s) x)))"
    using sp_ok_count[OF ok, of b r "Ptr c" Lethread_delete] p b by auto
  have "a = b" if "a \<in> handles (sp_objs s) x" for a
    using last[unfolded x(1), OF handles_owned[OF ok that p[unfolded x(1)]]] b(1) by simp
  moreover have "b \<in> handles (sp_objs s) x" using p b x by (auto intro: owned_mem_handles)
  ultimately have one: "handles (sp_objs s) x = {b}" by blast
  define objs where "objs = (sp_objs s)\<lparr>cells := (cells (sp_objs s))(b := None)\<rparr>"
  define counts where "counts = (sp_counts s)\<lparr>cells := (cells (sp_counts s))(x := None)\<rparr>"
  have "sharedptr_delete (destruct (Suc (Suc n))) p (put_queue q z s) =
      Inr (ok_status, put_queue q z (put_handles objs counts v))" for z
  proof -
    define k where "k = (sp_counts s)\<lparr>cells := (cells (sp_counts s))(x \<mapsto> 0)\<rparr>"
    have "(put_queue q z s)\<lparr>sp_counts := k\<rparr> = put_queue q z (put_handles (sp_objs s) k s)"
      by (simp add: put_queue_def put_handles_def)
    then have "lethread_delete (destruct (Suc n)) (Ptr c) ((put_queue q z s)\<lparr>sp_counts := k\<rparr>) =
        Inr (ok_status, put_queue q z (put_handles (sp_objs s) k v))"
      using lethread_delete_put[of "put_handles (sp_objs s) k s" c u m q qu] lethread_delete_handles[of s c u m qu] t m run
      by (simp add: put_handles_fields)
    then show ?thesis
      using b x one
      by (simp add: sharedptr_delete_def Let_def k_def objs_def counts_def put_queue_def put_handles_def fun_upd_def
          cong: if_cong)
  qed
  moreover have "sp_ok objs counts"
    unfolding objs_def counts_def using ok b(2) one x(1) by (intro sp_ok_remove_last) auto
  moreover have "owned objs = (handle_of s)(p := None)"
    unfolding objs_def b(1) by (rule owned_remove)
  ultimately show ?thesis by (intro that) blast+
qed

section \<open>Handles that wait\<close>

text \<open>
  \<open>hs\<close> are the registered handles; the queues \<open>gs\<close> hold further ones of the same threads, and there
  are no others.
\<close>

definition winding :: "server \<Rightarrow> ptr list \<Rightarrow> ptr list \<Rightarrow> bool" where
  "winding s hs gs \<longleftrightarrow> heap_ok s \<and> distinct gs \<and>
     (\<forall>g\<in>set gs. items s g \<noteq> None \<and> qkind (q_queues s) g = Some Sharedptr_delete) \<and>
     handles_ok (handle_of s) (thread_at s) hs (concat (map (cont (items s)) gs)) \<and>
     (\<forall>h. handle_of s h \<noteq> None \<longrightarrow> h \<in> set hs \<union> set (concat (map (cont (items s)) gs)))"

text \<open>Deleting such a queue takes its handles away and nothing else.\<close>

lemma wind_one:
  assumes w: "winding s hs (g # gs)"
  obtains u where "queue_delete call_destructor g s = Inr (ok_status, u)" and "winding u hs gs"
    and "items u = (items s)(g := None)" and "qkind (q_queues u) = (qkind (q_queues s))(g := None)"
    and "\<forall>h\<in>set hs. handle_of u h = handle_of s h"
    and "u = s\<lparr>sp_objs := sp_objs u, sp_counts := sp_counts u, q_nodes := q_nodes u, q_queues := q_queues u\<rparr>"
proof -
  have heap: "heap_ok s" and G: "distinct (g # gs)" "items s g \<noteq> None" "qkind (q_queues s) g = Some Sharedptr_delete"
    and H: "handles_ok (handle_of s) (thread_at s) hs (concat (map (cont (items s)) (g # gs)))"
    and all: "\<forall>h. handle_of s h \<noteq> None \<longrightarrow> h \<in> set hs \<union> set (concat (map (cont (items s)) (g # gs)))"
    using w by (simp_all add: winding_def)
  have ok: "forum_ok s" "queue_ok s" using heap by (simp_all add: heap_ok_def)
  define ws where "ws = cont (items s) g"
  have it: "items s g = Some ws" using G(2) by (auto simp: ws_def cont_def)
  have apart: "set ws \<inter> set hs = {}" "set ws \<inter> set (concat (map (cont (items s)) gs)) = {}" "distinct ws"
    using H by (auto simp: handles_ok_def ws_def)
  define P where "P ds u \<longleftrightarrow>
      u = s\<lparr>sp_objs := sp_objs u, sp_counts := sp_counts u, q_nodes := q_nodes u, q_queues := q_queues u\<rparr> \<and>
      sp_ok (sp_objs u) (sp_counts u) \<and>
      (\<exists>don. ws = don @ ds \<and> handle_of u = (\<lambda>h. if h \<in> set don then None else handle_of s h))" for ds u
  have step: "\<exists>t. call_destructor Sharedptr_delete d u = Inr t \<and> q_nodes t = q_nodes u \<and> q_queues t = q_queues u \<and> P ds t"
    if p: "P (d # ds) u" for d ds u
  proof -
    obtain don where don: "ws = don @ d # ds" "handle_of u = (\<lambda>h. if h \<in> set don then None else handle_of s h)"
      "sp_ok (sp_objs u) (sp_counts u)" using p by (auto simp: P_def)
    have d: "d \<in> set ws" "d \<notin> set don" "d \<notin> set hs" using don(1) apart(1,3) by auto
    have "\<exists>h\<in>set hs. handle_of s d = handle_of s h" using H d(1) unfolding handles_ok_def ws_def by simp
    then obtain h where h: "h \<in> set hs" "handle_of s d = handle_of s h" by blast
    then obtain ref a where a: "handle_of s h = Some (ref, a, Lethread_delete)" using H by (auto simp: handles_ok_def)
    have u: "handle_of u d = Some (ref, a, Lethread_delete)" "handle_of u h = Some (ref, a, Lethread_delete)" "h \<noteq> d"
      using don d h a apart(1) by auto
    obtain objs counts where del: "sharedptr_delete (destruct 2) d u = Inr (ok_status, u\<lparr>sp_objs := objs, sp_counts := counts\<rparr>)"
      "sp_ok objs counts" "owned objs = (handle_of u)(d := None)"
      by (rule sharedptr_delete_law[OF don(3) u])
    define t where "t = u\<lparr>sp_objs := objs, sp_counts := counts\<rparr>"
    have "u = s\<lparr>sp_objs := sp_objs u, sp_counts := sp_counts u, q_nodes := q_nodes u, q_queues := q_queues u\<rparr>"
      using p by (simp add: P_def)
    then obtain a1 a2 a3 a4 where "u = s\<lparr>sp_objs := a1, sp_counts := a2, q_nodes := a3, q_queues := a4\<rparr>" by blast
    then have "t = s\<lparr>sp_objs := sp_objs t, sp_counts := sp_counts t, q_nodes := q_nodes t, q_queues := q_queues t\<rparr>"
      by (simp add: t_def)
    moreover have "handle_of t = (\<lambda>h. if h \<in> set (don @ [d]) then None else handle_of s h)"
      by (auto simp: t_def del(3) don(2))
    ultimately have "P ds t" using del(2) don(1) by (auto simp: P_def t_def intro!: exI[of _ "don @ [d]"])
    moreover have "call_destructor Sharedptr_delete d u = Inr t"
      using del(1) by (simp add: call_destructor_def eval_nat_numeral t_def)
    ultimately show ?thesis by (auto simp: t_def)
  qed
  have frame: "P ds (u\<lparr>q_nodes := h, q_queues := qs\<rparr>)" if p: "P ds u" for ds u h qs
  proof -
    obtain a1 a2 a3 a4 where "u = s\<lparr>sp_objs := a1, sp_counts := a2, q_nodes := a3, q_queues := a4\<rparr>"
      using p unfolding P_def by blast
    with p show ?thesis by (simp add: P_def)
  qed
  have start: "P ws s" using ok(1) by (simp add: P_def)
  obtain u where u: "queue_delete call_destructor g s = Inr (ok_status, u)" "queue_ok u" "items u = (items s)(g := None)"
    "P [] u" "qkind (q_queues u) = (qkind (q_queues s))(g := None)"
    by (rule queue_delete_rule[where P = P and call = call_destructor and f = Sharedptr_delete, OF step frame ok(2) it G(3) start])
  have shape: "u = s\<lparr>sp_objs := sp_objs u, sp_counts := sp_counts u, q_nodes := q_nodes u, q_queues := q_queues u\<rparr>"
    and sp: "sp_ok (sp_objs u) (sp_counts u)" and Hu: "handle_of u = (\<lambda>h. if h \<in> set ws then None else handle_of s h)"
    using u(4) by (simp_all add: P_def)
  have "\<forall>a t. cells (f_threads s) a = Some t \<longrightarrow> lt_messages t \<noteq> g"
    using not_for_messages[OF heap] G(3) by simp
  note fr = gathered_frame[OF heap this u(2)[unfolded], of None, OF u(3)]
  have fr: "heap_ok (s\<lparr>q_nodes := q_nodes u, q_queues := q_queues u\<rparr>)"
    "thread_at (s\<lparr>q_nodes := q_nodes u, q_queues := q_queues u\<rparr>) = thread_at s"
    by (rule fr; simp add: u(5))+
  obtain a1 a2 a3 a4 where us: "u = s\<lparr>sp_objs := a1, sp_counts := a2, q_nodes := a3, q_queues := a4\<rparr>"
    using shape by blast
  have heap': "heap_ok u" "thread_at u = thread_at s" using fr sp by (simp_all add: us heap_ok_def)
  have cont': "map (cont (items u)) gs = map (cont (items s)) gs"
    using G(1) by (auto simp: u(3) cont_def)
  have own: "owner (handle_of u) h = owner (handle_of s) h" "handle_of u h = handle_of s h" if "h \<in> set hs" for h
    using that apart(1) by (auto simp: owner_def Hu)
  have "handles_ok (handle_of u) (thread_at s) hs (concat (map (cont (items s)) gs))"
  proof -
    have same: "map (owner (handle_of u)) hs = map (owner (handle_of s)) hs" using own by simp
    have "\<exists>h'\<in>set hs. handle_of u h = handle_of u h'" if "h \<in> set (concat (map (cont (items s)) gs))" for h
    proof -
      have "h \<notin> set ws" using that apart(2) by blast
      moreover have "\<exists>h'\<in>set hs. handle_of s h = handle_of s h'" using H that by (auto simp: handles_ok_def)
      ultimately show ?thesis using own(2) by (metis Hu)
    qed
    then show ?thesis using H own(2) unfolding handles_ok_def same by auto
  qed
  moreover have "h \<in> set hs \<union> set (concat (map (cont (items s)) gs))" if "handle_of u h \<noteq> None" for h
    using that all by (auto simp: Hu ws_def split: if_splits)
  moreover have "items u x \<noteq> None \<and> qkind (q_queues u) x = Some Sharedptr_delete" if "x \<in> set gs" for x
    using w G(1) that by (auto simp: winding_def u(3,5))
  ultimately have "winding u hs gs"
    using heap' G(1) unfolding winding_def cont' heap'(2) by auto
  with u(1,3,5) own(2) shape show ?thesis by (intro that[of u]) auto
qed

section \<open>The registered threads\<close>

text \<open>
  \<open>don\<close> have been deleted: their threads and messages are gone.  Those of \<open>ds\<close> are as they were in \<open>s\<close>.
\<close>

definition unloading :: "server \<Rightarrow> ptr list \<Rightarrow> ptr list \<Rightarrow> server \<Rightarrow> bool" where
  "unloading s don ds u \<longleftrightarrow>
     heap_ok u \<and> handle_of u = (\<lambda>h. if h \<in> set don then None else handle_of s h) \<and>
     thread_at u = (\<lambda>p. if p \<in> owner (handle_of s) ` set don then None else thread_at s p) \<and>
     (\<forall>h\<in>set don. \<forall>c w ms. owner (handle_of s) h = Ptr c \<longrightarrow> cells (f_threads s) c = Some w \<longrightarrow>
        items s (lt_messages w) = Some ms \<longrightarrow> (\<forall>m\<in>set ms. \<not> live (f_messages u) m)) \<and>
     (\<forall>h\<in>set ds. \<forall>c w. owner (handle_of s) h = Ptr c \<longrightarrow> cells (f_threads s) c = Some w \<longrightarrow>
        cells (f_threads u) c = Some w \<and> items u (lt_messages w) = items s (lt_messages w)) \<and>
     (\<forall>g. items s g = None \<longrightarrow> items u g = None) \<and>
     (\<exists>a b c d e f g. u = s\<lparr>sp_objs := a, sp_counts := b, q_nodes := c, q_queues := d, f_threads := e, f_messages := f,
        f_authors := g\<rparr>)"

lemma live_drop: "live (drop_messages X M) p \<longleftrightarrow> p \<notin> X \<and> live M p"
  by (auto simp: live_def drop_messages_def)

lemma unload_one:
  assumes H: "handles_ok (handle_of s) (thread_at s) hs []" and all: "\<forall>h. handle_of s h \<noteq> None \<longrightarrow> h \<in> set hs"
    and hs: "hs = don @ d # ds" and U: "unloading s don (d # ds) u"
    and q: "items u (Ptr q) = Some (d # ds)" "qkind (q_queues u) (Ptr q) = Some Sharedptr_delete" "items s (Ptr q) \<noteq> None"
    and x: "cells (q_queues u) q = Some x" "q_first x = Ptr a" and nd: "cells (q_nodes u) a = Some nd"
  obtains t v y where "\<forall>z. call_destructor Sharedptr_delete d (put_queue q z u) = Inr (put_queue q z t)"
    and "unloading s (don @ [d]) ds v" and "items v (Ptr q) = Some ds" and "qkind (q_queues v) (Ptr q) = Some Sharedptr_delete"
    and "q_nodes v = (q_nodes t)\<lparr>cells := (cells (q_nodes t))(a := None)\<rparr>" and "cells (q_nodes t) a = Some nd"
    and "v = t\<lparr>q_nodes := q_nodes v, q_queues := (q_queues t)\<lparr>cells := (cells (q_queues t))(q \<mapsto> y)\<rparr>\<rparr>"
    and "q_first y = qn_next nd" and "cells (q_queues v) q = Some y"
proof -
  note U = U[unfolded unloading_def]
  have heap: "heap_ok u" "forum_ok u" "kinds_ok (f_threads u) (q_queues u)" using U by (simp_all add: heap_ok_def)
  have sp: "sp_ok (sp_objs u) (sp_counts u)" using heap(2) by simp
  have dist: "distinct hs" "distinct (map (owner (handle_of s)) hs)" using H by (simp_all add: handles_ok_def)
  obtain r p0 v0 where d0: "handle_of s d = Some (r, p0, Lethread_delete)" "thread_at s p0 = Some v0" "owner (handle_of s) d = p0"
    by (rule handles_okD[OF H, of d]) (use hs in auto)
  obtain c w where c: "p0 = Ptr c" "cells (f_threads s) c = Some w" using d0(2) by (auto elim: viewE)
  have fresh: "d \<notin> set don" "p0 \<notin> owner (handle_of s) ` set don" "p0 \<notin> owner (handle_of s) ` set ds"
    using dist d0(3) by (auto simp: hs)
  have d: "handle_of u d = Some (r, Ptr c, Lethread_delete)" "thread_at u (Ptr c) = Some v0"
    using U d0 fresh c(1) by auto
  have last: "p' = d" if "handle_of u p' = Some (r, d', f')" for p' d' f'
  proof -
    have "(Ptr c, Lethread_delete) = (d', f')" using owned_same[OF sp d(1) that] by simp
    moreover have s': "handle_of s p' = Some (r, d', f')" "p' \<in> set hs" using that U all by (auto split: if_splits)
    ultimately have "owner (handle_of s) p' = owner (handle_of s) d" using c(1) d0(3) by (simp add: owner_def)
    moreover have "inj_on (owner (handle_of s)) (set hs)" using dist(2) by (simp add: distinct_map)
    moreover have "d \<in> set hs" using hs by simp
    ultimately show ?thesis using s'(2) by (metis inj_onD)
  qed
  obtain t c' w' ms where del: "lethread_delete (destruct (Suc 0)) (Ptr c) u = Inr (ok_status, t)"
    and t: "forum_ok t" "kinds_ok (f_threads t) (q_queues t)" "thread_at t = (thread_at u)(Ptr c := None)"
      "Ptr c = Ptr c'" "cells (f_threads u) c' = Some w'" "items u (lt_messages w') = Some ms"
      "items t = (items u)(lt_messages w' := None)" "f_messages t = drop_messages (set ms) (f_messages u)"
      "cells (f_threads t) = (cells (f_threads u))(c' := None)" "handle_of t = handle_of u"
      "qkind (q_queues t) = (qkind (q_queues u))(lt_messages w' := None)"
      "t = u\<lparr>q_nodes := q_nodes t, q_queues := q_queues t, f_threads := f_threads t, f_messages := f_messages t,
        f_authors := f_authors t\<rparr>"
    by (rule lethread_delete_law[OF heap(2,3) d(2)])
  have w: "cells (f_threads u) c = Some w" "items u (lt_messages w) = items s (lt_messages w)"
    using U d0(3) c by auto
  have cc: "c' = c" "w' = w" using t(4,5) w(1) by simp_all
  note t = t[unfolded cc]
  obtain m qu where m: "lt_messages w = Ptr m" "cells (q_queues u) m = Some qu" using t(6) by (rule qitems_live)
  have kind: "qkind (q_queues u) (lt_messages w) = Some Lemessage_delete" using heap(3) w(1) by (auto simp: kinds_ok_def)
  then have qu: "q_destruct qu = Lemessage_delete" "m \<noteq> q" using m q(2) by (auto simp: qkind_def)
  obtain objs counts where lh: "\<forall>z. sharedptr_delete (destruct (Suc (Suc 0))) d (put_queue q z u) =
      Inr (ok_status, put_queue q z (put_handles objs counts t))"
    and sp': "sp_ok objs counts" and own: "owned objs = (handle_of u)(d := None)"
    by (rule last_handle[OF sp d(1) last w(1) m(1) qu(2) m(2) qu(1) del])
  define t' where "t' = put_handles objs counts t"
  have three: "call_destructor = destruct (Suc (Suc (Suc 0)))" by (simp add: call_destructor_def eval_nat_numeral)
  have run: "\<forall>z. call_destructor Sharedptr_delete d (put_queue q z u) = Inr (put_queue q z t')"
    using lh by (simp add: three t'_def)
  have same: "q_nodes t' = q_nodes t" "q_queues t' = q_queues t" "f_threads t' = f_threads t" "f_messages t' = f_messages t"
    "f_authors t' = f_authors t" "sp_objs t' = objs" "sp_counts t' = counts"
    by (simp_all add: t'_def put_handles_fields)
  have heap': "heap_ok t'" using t(1,2) sp' by (simp add: heap_ok_def same)
  have "put_queue q x u = u" using x(1) by (simp add: put_queue_def fun_upd_idem)
  then have "put_queue q x t = t"
    using lethread_delete_put[OF w(1) m(1) qu(2) m(2) qu(1), of 0 x] del by simp
  then have xt: "cells (q_queues t') q = Some x" unfolding same by (metis fun_upd_same put_queue_simps(2))
  have itt: "items t' (Ptr q) = Some (d # ds)" using t(7) q(1) m(1) qu(2) by (simp add: same)
  have tq: "queue_ok t'" using t(1) by (simp add: same)
  have "cells (q_nodes t) \<subseteq>\<^sub>m cells (q_nodes u)"
    using lethread_delete_nodes[OF del w(1) m qu(1)] .
  then have sub: "cells (q_nodes t') \<subseteq>\<^sub>m cells (q_nodes u)" by (simp add: same)
  note ndt = first_live[OF tq itt xt x(2) sub nd]
  obtain h qs y where hq: "h = (q_nodes t')\<lparr>cells := (cells (q_nodes t'))(a := None)\<rparr>"
    "qs = (q_queues t')\<lparr>cells := (cells (q_queues t'))(q \<mapsto> y)\<rparr>"
    and pop: "qok h qs" "qitems h qs = (items t')(Ptr q \<mapsto> ds)" and y: "q_first y = qn_next nd"
    and kinds: "qkind qs = qkind (q_queues t')"
    by (rule first_gone[OF tq itt xt x(2) ndt])
  define v where "v = t'\<lparr>q_nodes := h, q_queues := qs\<rparr>"
  have kq: "qkind (q_queues t') (Ptr q) = Some Sharedptr_delete" using t(11) q(2) m(1) qu(2) by (simp add: same)
  have "\<forall>a t. cells (f_threads t') a = Some t \<longrightarrow> lt_messages t \<noteq> Ptr q"
    using not_for_messages[OF heap'] kq by simp
  note fr = gathered_frame[OF heap' this pop fun_cong[OF kinds], folded v_def]
  have iv: "items v = (items t)(Ptr q \<mapsto> ds)" using pop(2) by (simp add: v_def same)
  have "unloading s (don @ [d]) ds v"
    unfolding unloading_def
  proof (intro conjI allI ballI impI)
    show "heap_ok v" by (rule fr(1))
    show "handle_of v = (\<lambda>h. if h \<in> set (don @ [d]) then None else handle_of s h)"
      using U by (auto simp: v_def same own)
    have "thread_at v = thread_at t" using fr(2) by (simp add: same)
    then show "thread_at v = (\<lambda>p. if p \<in> owner (handle_of s) ` set (don @ [d]) then None else thread_at s p)"
      using U t(3) d0(3) c(1) by (auto simp: fun_eq_iff)
    show "\<exists>a b c d e f g. v = s\<lparr>sp_objs := a, sp_counts := b, q_nodes := c, q_queues := d, f_threads := e, f_messages := f,
        f_authors := g\<rparr>"
    proof -
      obtain a1 a2 a3 a4 a5 a6 a7 where 1: "u = s\<lparr>sp_objs := a1, sp_counts := a2, q_nodes := a3, q_queues := a4,
        f_threads := a5, f_messages := a6, f_authors := a7\<rparr>" using U by blast
      obtain b1 b2 b3 b4 b5 where 2: "t = u\<lparr>q_nodes := b1, q_queues := b2, f_threads := b3, f_messages := b4, f_authors := b5\<rparr>"
        using t(12) by blast
      have "v = s\<lparr>sp_objs := objs, sp_counts := counts, q_nodes := h, q_queues := qs, f_threads := b3, f_messages := b4,
          f_authors := b5\<rparr>" by (simp add: v_def t'_def put_handles_def 1 2)
      then show ?thesis by blast
    qed
    fix g
    assume g: "items s g = None"
    have "\<forall>g. items s g = None \<longrightarrow> items u g = None" using U by (elim conjE)
    with g have "items u g = None" by simp
    with g show "items v g = None" using q(3) by (auto simp: iv t(7))
  next
    fix k c1 w1 ms1 m1
    assume k: "k \<in> set (don @ [d])" "owner (handle_of s) k = Ptr c1" "cells (f_threads s) c1 = Some w1"
      "items s (lt_messages w1) = Some ms1" "m1 \<in> set ms1"
    have fm: "f_messages v = drop_messages (set ms) (f_messages u)" by (simp add: v_def same t(8))
    show "\<not> live (f_messages v) m1"
    proof (cases "k = d")
      case True
      then have "ms1 = ms" using k d0(3) c w t(6) by simp
      then show ?thesis using k(5) by (simp add: fm live_drop)
    next
      case False
      then show ?thesis using U k by (auto simp: fm live_drop)
    qed
  next
    fix k c1 w1
    assume k: "k \<in> set ds" "owner (handle_of s) k = Ptr c1" "cells (f_threads s) c1 = Some w1"
    have ne: "c1 \<noteq> c" using k(1,2) fresh(3) c(1) by force
    have u1: "cells (f_threads u) c1 = Some w1" "items u (lt_messages w1) = items s (lt_messages w1)" using U k by auto
    then show "cells (f_threads v) c1 = Some w1" using ne by (simp add: v_def same t(9))
    have "fok (items u) (f_threads u) (f_messages u) (f_authors u)" using heap(2) by simp
    from fokD(6)[OF this u1(1) w(1) ne] have "lt_messages w1 \<noteq> lt_messages w" .
    moreover have "lt_messages w1 \<noteq> Ptr q" using not_for_messages[OF heap(1) _ u1(1)] q(2) by simp
    ultimately show "items v (lt_messages w1) = items s (lt_messages w1)" by (simp add: iv t(7) u1(2))
  qed
  moreover have "items v (Ptr q) = Some ds" by (simp add: iv)
  moreover have "qkind (q_queues v) (Ptr q) = Some Sharedptr_delete" using kq by (simp add: v_def kinds)
  moreover have "q_nodes v = (q_nodes t')\<lparr>cells := (cells (q_nodes t'))(a := None)\<rparr>"
    and "cells (q_queues v) q = Some y" by (simp_all add: v_def hq)
  moreover have "v = t'\<lparr>q_nodes := q_nodes v, q_queues := (q_queues t')\<lparr>cells := (cells (q_queues t'))(q \<mapsto> y)\<rparr>\<rparr>"
    by (simp add: v_def hq)
  ultimately show ?thesis using ndt y by (intro that[OF run]) assumption+
qed

lemma unload_all:
  assumes w: "winding s hs []" and q: "items s g = Some hs" "qkind (q_queues s) g = Some Sharedptr_delete"
  obtains u where "queue_delete call_destructor g s = Inr (ok_status, u)" and "handle_of u = (\<lambda>h. None)"
    and "thread_at u = (\<lambda>p. if p \<in> owner (handle_of s) ` set hs then None else thread_at s p)"
    and "\<And>h c w ms m. h \<in> set hs \<Longrightarrow> owner (handle_of s) h = Ptr c \<Longrightarrow> cells (f_threads s) c = Some w \<Longrightarrow>
      items s (lt_messages w) = Some ms \<Longrightarrow> m \<in> set ms \<Longrightarrow> \<not> live (f_messages u) m"
    and "\<And>x. x = g \<or> items s x = None \<Longrightarrow> items u x = None" and "forum_ok u"
    and "\<exists>a b c d e f g. u = s\<lparr>sp_objs := a, sp_counts := b, q_nodes := c, q_queues := d, f_threads := e, f_messages := f,
      f_authors := g\<rparr>"
proof -
  have heap: "heap_ok s" and H: "handles_ok (handle_of s) (thread_at s) hs []"
    and all: "\<forall>h. handle_of s h \<noteq> None \<longrightarrow> h \<in> set hs"
    using w by (simp_all add: winding_def)
  obtain b where b: "g = Ptr b" using q(1) by (auto elim: qitems_live)
  define P where "P ds u \<longleftrightarrow> (\<exists>don. hs = don @ ds \<and> unloading s don ds u) \<and> items u (Ptr b) = Some ds \<and>
    qkind (q_queues u) (Ptr b) = Some Sharedptr_delete" for ds u
  have null: "Null \<notin> set hs" using H by (force simp: handles_ok_def)
  have queue: "held b P"
    using null by (auto simp: held_def P_def unloading_def heap_ok_def)
  have step: "destroys call_destructor Sharedptr_delete b P"
    unfolding destroys_def
  proof (intro allI impI, elim conjE)
    fix d ds u x a nd
    assume p: "P (d # ds) u" and x: "cells (q_queues u) b = Some x" "q_first x = Ptr a" "cells (q_nodes u) a = Some nd"
    then obtain don where don: "hs = don @ d # ds" "unloading s don (d # ds) u" "items u (Ptr b) = Some (d # ds)"
      "qkind (q_queues u) (Ptr b) = Some Sharedptr_delete" by (auto simp: P_def)
    have qb: "items s (Ptr b) \<noteq> None" using q(1) b by simp
    show "\<exists>t v y. (\<forall>z. call_destructor Sharedptr_delete d (put_queue b z u) = Inr (put_queue b z t)) \<and> P ds v \<and>
        q_nodes v = (q_nodes t)\<lparr>cells := (cells (q_nodes t))(a := None)\<rparr> \<and> cells (q_nodes t) a = Some nd \<and>
        v = t\<lparr>q_nodes := q_nodes v, q_queues := (q_queues t)\<lparr>cells := (cells (q_queues t))(b \<mapsto> y)\<rparr>\<rparr> \<and>
        q_first y = qn_next nd \<and> cells (q_queues v) b = Some y"
    proof (rule unload_one[OF H all don(1,2) don(3,4) qb x])
      fix t v y
      assume v: "\<forall>z. call_destructor Sharedptr_delete d (put_queue b z u) = Inr (put_queue b z t)"
        "unloading s (don @ [d]) ds v" "items v (Ptr b) = Some ds" "qkind (q_queues v) (Ptr b) = Some Sharedptr_delete"
        "q_nodes v = (q_nodes t)\<lparr>cells := (cells (q_nodes t))(a := None)\<rparr>" "cells (q_nodes t) a = Some nd"
        "v = t\<lparr>q_nodes := q_nodes v, q_queues := (q_queues t)\<lparr>cells := (cells (q_queues t))(b \<mapsto> y)\<rparr>\<rparr>"
        "q_first y = qn_next nd" "cells (q_queues v) b = Some y"
      have "P ds v" using v(2-4) don(1) by (auto simp: P_def intro!: exI[of _ "don @ [d]"])
      with v(1,5-) show ?thesis by (intro exI conjI)
    qed
  qed
  have "s = s\<lparr>sp_objs := sp_objs s, sp_counts := sp_counts s, q_nodes := q_nodes s, q_queues := q_queues s,
      f_threads := f_threads s, f_messages := f_messages s, f_authors := f_authors s\<rparr>" by simp
  then have "\<exists>a b c d e f g. s = s\<lparr>sp_objs := a, sp_counts := b, q_nodes := c, q_queues := d, f_threads := e,
      f_messages := f, f_authors := g\<rparr>" by blast
  then have "unloading s [] hs s" using heap unfolding unloading_def by simp
  then have start: "P hs s" using q b by (simp add: P_def)
  have kind: "qkind (q_queues s) (Ptr b) = Some Sharedptr_delete" using q(2) b by simp
  show ?thesis
  proof (rule destroying_delete[OF queue step start kind])
    fix t qs
    assume t: "queue_delete call_destructor (Ptr b) s = Inr (ok_status, t\<lparr>q_queues := qs\<rparr>)" "P [] t"
      "qok (q_nodes t) qs" "qitems (q_nodes t) qs = (items t)(Ptr b := None)"
      "\<And>p. p \<noteq> Ptr b \<Longrightarrow> qkind qs p = qkind (q_queues t) p"
    have U: "unloading s hs [] t" and kt: "qkind (q_queues t) (Ptr b) = Some Sharedptr_delete" using t(2) by (auto simp: P_def)
    note U = U[unfolded unloading_def]
    have heap': "heap_ok t" using U by blast
    have "\<forall>a u. cells (f_threads t) a = Some u \<longrightarrow> lt_messages u \<noteq> Ptr b"
      using not_for_messages[OF heap'] kt by simp
    note fr = gathered_frame[OF heap' this t(3-5)]
    show ?thesis
    proof (rule that[of "t\<lparr>q_queues := qs\<rparr>"])
      show "queue_delete call_destructor g s = Inr (ok_status, t\<lparr>q_queues := qs\<rparr>)" using t(1) b by simp
      show "handle_of (t\<lparr>q_queues := qs\<rparr>) = (\<lambda>h. None)"
      proof
        fix h
        have "handle_of t h = (if h \<in> set hs then None else handle_of s h)" using U by metis
        then show "handle_of (t\<lparr>q_queues := qs\<rparr>) h = None" using all by (cases "handle_of s h") auto
      qed
      show "thread_at (t\<lparr>q_queues := qs\<rparr>) = (\<lambda>p. if p \<in> owner (handle_of s) ` set hs then None else thread_at s p)"
        using U fr(2) by simp
      show "forum_ok (t\<lparr>q_queues := qs\<rparr>)" using fr(1) by (simp add: heap_ok_def)
      show "items (t\<lparr>q_queues := qs\<rparr>) x = None" if "x = g \<or> items s x = None" for x
        using that U b t(4) by auto
      show "\<not> live (f_messages (t\<lparr>q_queues := qs\<rparr>)) m" if "h \<in> set hs" "owner (handle_of s) h = Ptr c"
        "cells (f_threads s) c = Some w" "items s (lt_messages w) = Some ms" "m \<in> set ms" for h c w ms m
        using that U by auto
      obtain a1 a2 a3 a4 a5 a6 a7 where "t = s\<lparr>sp_objs := a1, sp_counts := a2, q_nodes := a3, q_queues := a4,
        f_threads := a5, f_messages := a6, f_authors := a7\<rparr>" using U by blast
      then have "t\<lparr>q_queues := qs\<rparr> = s\<lparr>sp_objs := a1, sp_counts := a2, q_nodes := a3, q_queues := qs,
        f_threads := a5, f_messages := a6, f_authors := a7\<rparr>" by simp
      then show "\<exists>a b c d e f g. t\<lparr>q_queues := qs\<rparr> = s\<lparr>sp_objs := a, sp_counts := b, q_nodes := c, q_queues := d, f_threads := e,
          f_messages := f, f_authors := g\<rparr>" by blast
    qed
  qed
qed

section \<open>Messages freed before\<close>

text \<open>
  The messages \<open>X\<close> have been freed.  What an operation then does is what it would have done with them,
  as long as it leaves them alone; when it frees one of them it has touched freed memory.
\<close>

definition freed :: "ptr set \<Rightarrow> 'm mem_forum_scheme \<Rightarrow> 'm mem_forum_scheme" where
  "freed X s = s\<lparr>f_messages := drop_messages X (f_messages s)\<rparr>"

definition lacks :: "ptr set \<Rightarrow> 'm mem_forum_scheme \<Rightarrow> 'm mem_forum_scheme \<Rightarrow> bool" where
  "lacks X s u \<longleftrightarrow> u = freed X s \<and> (\<forall>p\<in>X. live (f_messages s) p)"

definition lacks2 :: "ptr set \<Rightarrow> 'a \<times> 'm mem_forum_scheme \<Rightarrow> 'a \<times> 'm mem_forum_scheme \<Rightarrow> bool" where
  "lacks2 X r r' \<longleftrightarrow> fst r = fst r' \<and> lacks X (snd r) (snd r')"

definition worse :: "('a \<Rightarrow> 'b \<Rightarrow> bool) \<Rightarrow> 'a res \<Rightarrow> 'b res \<Rightarrow> bool" where
  "worse R m m' \<longleftrightarrow> (case m' of Inl e \<Rightarrow> e = UseAfterFree \<or> m = Inl e | Inr y \<Rightarrow> \<exists>x. m = Inr x \<and> R x y)"

lemma worse_same: "(\<And>x. m = Inr x \<Longrightarrow> worse R (k x) (k' x)) \<Longrightarrow> worse R (andthen m k) (andthen m k')"
  by (cases m) (auto simp: worse_def)

lemma worse_base:
  "R x y \<Longrightarrow> worse R (Inr x) (Inr y)" "worse R (Inl e) (Inl e)" "worse R m (Inl UseAfterFree)"
  "(b \<Longrightarrow> worse R m m') \<Longrightarrow> (\<not> b \<Longrightarrow> worse R n n') \<Longrightarrow> worse R (if b then m else n) (if b then m' else n')"
  by (auto simp: worse_def split: sum.splits)

lemma worse_guard:
  "R x y \<Longrightarrow> worse R m m' \<Longrightarrow> worse R (NULLPTR_PREVENT p x m) (NULLPTR_PREVENT p y m')"
  by (cases p) (simp_all add: worse_base)

lemmas worse_intros = worse_base worse_same worse_guard

lemma worse_andthen:
  assumes "worse Q m m'" and "\<And>x y. m = Inr x \<Longrightarrow> Q x y \<Longrightarrow> worse R (k x) (k' y)"
  shows "worse R (andthen m k) (andthen m' k')"
  using assms by (cases m; cases m') (auto simp: worse_def)

lemma lacksD:
  assumes "lacks X s u"
  shows "q_nodes u = q_nodes s" and "q_queues u = q_queues s" and "sp_objs u = sp_objs s" and "sp_counts u = sp_counts s"
    and "f_threads u = f_threads s" and "f_authors u = f_authors s" and "f_messages u = drop_messages X (f_messages s)"
  using assms by (simp_all add: lacks_def freed_def)

lemma lacks_upd:
  assumes "lacks X s u"
  shows "lacks X (s\<lparr>q_nodes := a\<rparr>) (u\<lparr>q_nodes := a\<rparr>)" and "lacks X (s\<lparr>q_queues := b\<rparr>) (u\<lparr>q_queues := b\<rparr>)"
    and "lacks X (s\<lparr>sp_objs := c\<rparr>) (u\<lparr>sp_objs := c\<rparr>)" and "lacks X (s\<lparr>sp_counts := d\<rparr>) (u\<lparr>sp_counts := d\<rparr>)"
    and "lacks X (s\<lparr>f_threads := e\<rparr>) (u\<lparr>f_threads := e\<rparr>)" and "lacks X (s\<lparr>f_authors := f\<rparr>) (u\<lparr>f_authors := f\<rparr>)"
  using assms by (simp_all add: lacks_def freed_def)

lemma lemessage_delete_worse:
  assumes l: "lacks X s u"
  shows "worse (lacks2 X) (lemessage_delete p s) (lemessage_delete p u)"
proof (cases p)
  case (Ptr a)
  have x: "\<forall>p\<in>X. live (f_messages s) p" and u: "u = freed X s" using l by (simp_all add: lacks_def)
  show ?thesis
  proof (cases "Ptr a \<in> X")
    case True
    then have "lemessage_delete p u = Inl UseAfterFree"
      by (simp add: Ptr lemessage_delete_def u freed_def drop_messages_def)
    then show ?thesis by (simp add: worse_intros)
  next
    case False
    show ?thesis
    proof (cases "cells (f_messages s) a")
      case None
      with False show ?thesis by (simp add: Ptr lemessage_delete_def u freed_def drop_messages_def worse_base)
    next
      case (Some m)
      define M where "M = (f_messages s)\<lparr>cells := (cells (f_messages s))(a := None)\<rparr>"
      have "drop_messages X M = (drop_messages X (f_messages s))\<lparr>cells := (cells (drop_messages X (f_messages s)))(a := None)\<rparr>"
        by (rule store.equality) (auto simp: drop_messages_def M_def)
      moreover have "cells (drop_messages X (f_messages s)) a = Some m" using False Some by (simp add: drop_messages_def)
      ultimately have "lemessage_delete p u = Inr (ok_status, u\<lparr>f_messages := drop_messages X M\<rparr>)"
        by (simp add: Ptr lemessage_delete_def u freed_def fun_upd_def)
      moreover have "lemessage_delete p s = Inr (ok_status, s\<lparr>f_messages := M\<rparr>)"
        using Some by (simp add: Ptr lemessage_delete_def M_def fun_upd_def)
      moreover have "\<forall>p\<in>X. live M p" using x False by (fastforce simp: live_def M_def)
      ultimately show ?thesis by (simp add: worse_def lacks2_def lacks_def u freed_def)
    qed
  qed
qed (use l in \<open>auto simp: lemessage_delete_def worse_def lacks2_def lacks_def\<close>)

lemma queue_delete_loop_worse:
  assumes call: "\<And>f d s u. lacks X s u \<Longrightarrow> worse (lacks X) (call f d s) (call f d u)"
    and "lacks X s u"
  shows "worse (lacks X) (queue_delete_loop fuel call q node s) (queue_delete_loop fuel call q node u)"
  using assms(2)
proof (induction fuel arbitrary: node s u)
  case 0
  then show ?case by (cases node) (simp_all add: worse_intros)
next
  case (Suc fuel)
  note D = lacksD[OF Suc.prems]
  have body: "worse (lacks X)
      (if qn_data n \<noteq> Null then andthen (deref (q_queues s) q) (\<lambda>qu.
         andthen (call (q_destruct qu) (qn_data n) s) (\<lambda>s.
         andthen (assign node (n\<lparr>qn_data := Null\<rparr>) (q_nodes s)) (\<lambda>nodes. Inr (s\<lparr>q_nodes := nodes\<rparr>)))) else Inr s)
      (if qn_data n \<noteq> Null then andthen (deref (q_queues s) q) (\<lambda>qu.
         andthen (call (q_destruct qu) (qn_data n) u) (\<lambda>s.
         andthen (assign node (n\<lparr>qn_data := Null\<rparr>) (q_nodes s)) (\<lambda>nodes. Inr (s\<lparr>q_nodes := nodes\<rparr>)))) else Inr u)"
    for n node
    by (intro worse_intros worse_andthen[OF call[OF Suc.prems]]) (auto simp: lacksD intro!: worse_intros lacks_upd Suc.prems)
  show ?case
  proof (cases node)
    case (Ptr a)
    show ?thesis
      unfolding Ptr queue_delete_loop.simps D(1,2) Let_def
      by (intro worse_intros worse_andthen[OF body]) (auto simp: lacksD intro!: worse_intros lacks_upd Suc.IH)
  qed (use Suc.prems D in \<open>auto simp: worse_intros\<close>)
qed

lemma queue_delete_worse:
  assumes call: "\<And>f d s u. lacks X s u \<Longrightarrow> worse (lacks X) (call f d s) (call f d u)" and l: "lacks X s u"
  shows "worse (lacks2 X) (queue_delete call q s) (queue_delete call q u)"
proof (cases q)
  case (Ptr a)
  show ?thesis
    unfolding queue_delete_def Ptr lacksD[OF l]
    by (simp del: queue_delete_loop.simps free_obj.simps deref.simps,
      intro worse_intros worse_andthen[OF queue_delete_loop_worse[OF call l]])
      (auto simp: lacksD lacks2_def simp del: free_obj.simps intro!: worse_intros lacks_upd)
qed (use l in \<open>auto simp: queue_delete_def lacks2_def intro!: worse_intros\<close>)

lemma leauthor_delete_worse:
  assumes l: "lacks X s u"
  shows "worse (lacks2 X) (leauthor_delete p s) (leauthor_delete p u)"
  unfolding leauthor_delete_def lacksD[OF l]
  by (intro worse_intros) (auto simp: lacks2_def l intro!: lacks_upd)

lemma lethread_delete_worse:
  assumes call: "\<And>f d s u. lacks X s u \<Longrightarrow> worse (lacks X) (call f d s) (call f d u)" and l: "lacks X s u"
  shows "worse (lacks2 X) (lethread_delete call p s) (lethread_delete call p u)"
proof -
  have messages: "worse (lacks X)
      (if lt_messages t \<noteq> Null then
         andthen (queue_delete call (lt_messages t) s) (\<lambda>(st, s).
         andthen (assign p w (f_threads s)) (\<lambda>threads. Inr (s\<lparr>f_threads := threads\<rparr>))) else Inr s)
      (if lt_messages t \<noteq> Null then
         andthen (queue_delete call (lt_messages t) u) (\<lambda>(st, s).
         andthen (assign p w (f_threads s)) (\<lambda>threads. Inr (s\<lparr>f_threads := threads\<rparr>))) else Inr u)" for t w
    by (intro worse_intros worse_andthen[OF queue_delete_worse[OF call l]])
      (auto simp: lacks2_def lacksD l intro!: worse_intros lacks_upd)
  have author: "worse (lacks X)
      (if lt_author t \<noteq> Null then
         andthen (leauthor_delete (lt_author t) s) (\<lambda>(st, s).
         andthen (assign p w (f_threads s)) (\<lambda>threads. Inr (s\<lparr>f_threads := threads\<rparr>))) else Inr s)
      (if lt_author t \<noteq> Null then
         andthen (leauthor_delete (lt_author t) u) (\<lambda>(st, s).
         andthen (assign p w (f_threads s)) (\<lambda>threads. Inr (s\<lparr>f_threads := threads\<rparr>))) else Inr u)"
    if l: "lacks X s u" for t w and s u :: "'a mem_forum_scheme"
    by (intro worse_intros worse_andthen[OF leauthor_delete_worse[OF l]])
      (auto simp: lacks2_def lacksD l intro!: worse_intros lacks_upd)
  show ?thesis
    unfolding lethread_delete_def lacksD(5)[OF l]
    by (intro worse_intros worse_andthen[OF messages] worse_andthen[OF author])
      (auto simp: lacks2_def lacksD l intro!: worse_intros lacks_upd)
qed

lemma sharedptr_delete_worse:
  assumes call: "\<And>f d s u. lacks X s u \<Longrightarrow> worse (lacks X) (call f d s) (call f d u)" and l: "lacks X s u"
  shows "worse (lacks2 X) (sharedptr_delete call p s) (sharedptr_delete call p u)"
proof -
  have l': "lacks X (s\<lparr>sp_counts := k\<rparr>) (u\<lparr>sp_counts := k\<rparr>)" for k using lacks_upd(4)[OF l] .
  have last: "worse (lacks X)
      (case sp_destruct o1 of None \<Rightarrow> Inr s | Some f \<Rightarrow>
         if c - 1 \<le> 0 then
           andthen (call f (sp_data o1) s) (\<lambda>s.
           andthen (assign p (o1\<lparr>sp_data := Null, sp_destruct := None\<rparr>) (sp_objs s)) (\<lambda>objs.
           andthen (free_obj (sp_ref o1) (sp_counts s)) (\<lambda>counts.
           andthen (assign p (o1\<lparr>sp_data := Null, sp_destruct := None, sp_ref := Null\<rparr>) objs) (\<lambda>objs.
           Inr (s\<lparr>sp_objs := objs, sp_counts := counts\<rparr>))))) else Inr s)
      (case sp_destruct o1 of None \<Rightarrow> Inr u | Some f \<Rightarrow>
         if c - 1 \<le> 0 then
           andthen (call f (sp_data o1) u) (\<lambda>s.
           andthen (assign p (o1\<lparr>sp_data := Null, sp_destruct := None\<rparr>) (sp_objs s)) (\<lambda>objs.
           andthen (free_obj (sp_ref o1) (sp_counts s)) (\<lambda>counts.
           andthen (assign p (o1\<lparr>sp_data := Null, sp_destruct := None, sp_ref := Null\<rparr>) objs) (\<lambda>objs.
           Inr (s\<lparr>sp_objs := objs, sp_counts := counts\<rparr>))))) else Inr u)"
    if l: "lacks X s u" for o1 and c :: int and s u :: "'a mem_forum_scheme"
  proof (cases "sp_destruct o1")
    case (Some f)
    show ?thesis
      unfolding Some option.case
      by (intro worse_intros worse_andthen[OF call[OF l]]) (auto simp: lacksD l intro!: worse_intros lacks_upd)
  qed (simp add: l worse_base)
  show ?thesis
    unfolding sharedptr_delete_def lacksD(3,4)[OF l] Let_def
    by (intro worse_intros worse_andthen[OF last[OF l']])
      (auto simp: lacks2_def lacksD l intro!: worse_intros lacks_upd)
qed

lemma destruct_worse: "lacks X s u \<Longrightarrow> worse (lacks X) (destruct n f p s) (destruct n f p u)"
proof (induction n arbitrary: f p s u)
  case 0
  then show ?case by (simp add: worse_base)
next
  case (Suc n)
  show ?case
    by (cases f)
      (auto intro!: worse_andthen[OF lemessage_delete_worse] worse_andthen[OF lethread_delete_worse]
         worse_andthen[OF sharedptr_delete_worse] Suc worse_base simp: lacks2_def)
qed

section \<open>\<open>cleanup\<close>\<close>

text \<open>
  Between two connections: the queues have the destructors \<open>startup\<close> gave them, every handle is registered
  or waits to be saved, and no message waits twice.
\<close>

definition closing :: "server \<Rightarrow> bool" where
  "closing s \<longleftrightarrow> server_ok s \<and> kinds_ok (f_threads s) (q_queues s) \<and>
     (\<forall>g\<in>set (gq s). qkind (q_queues s) g =
        Some (if g = g_lemessage_query_queue s then Lemessage_delete else Sharedptr_delete)) \<and>
     (\<forall>h. handle_of s h \<noteq> None \<longrightarrow> h \<in> set (registered s @ waiting s)) \<and> distinct (pending s) \<and> \<not> g_cleaned s"

text \<open>A message of a registered thread.\<close>

definition belongs :: "server \<Rightarrow> ptr \<Rightarrow> bool" where
  "belongs s m \<longleftrightarrow> (\<exists>h\<in>set (registered s). \<exists>c w ms. owner (handle_of s) h = Ptr c \<and> cells (f_threads s) c = Some w \<and>
     items s (lt_messages w) = Some ms \<and> m \<in> set ms)"

lemma winding_globals [simp]:
  "winding (s\<lparr>g_lethread_query_queue := p\<rparr>) hs gs = winding s hs gs"
  "winding (s\<lparr>g_lemessages_query_queue := p\<rparr>) hs gs = winding s hs gs"
  "winding (s\<lparr>g_lemessage_query_queue := p\<rparr>) hs gs = winding s hs gs"
  "winding (s\<lparr>g_leauthor_query_queue := p\<rparr>) hs gs = winding s hs gs"
  "winding (s\<lparr>g_cleaned := b\<rparr>) hs gs = winding s hs gs"
  "winding (s\<lparr>g_program_on_finish := b\<rparr>) hs gs = winding s hs gs"
  "winding (s\<lparr>fsys := f\<rparr>) hs gs = winding s hs gs"
  by (simp_all add: winding_def heap_ok_def)

lemma winding_other_queue:
  assumes w: "winding s hs gs" and g: "g \<notin> set gs" "\<forall>a t. cells (f_threads s) a = Some t \<longrightarrow> lt_messages t \<noteq> g"
    and q: "qok nodes qs" "qitems nodes qs = (items s)(g := None)" "qkind qs = (qkind (q_queues s))(g := None)"
  shows "winding (s\<lparr>q_nodes := nodes, q_queues := qs\<rparr>) hs gs"
proof -
  have heap: "heap_ok s" using w by (simp add: winding_def)
  have "qkind qs p = qkind (q_queues s) p" if "p \<noteq> g" for p using that by (simp add: q(3))
  note fr = gathered_frame[OF heap g(2) q(1,2) this]
  have c: "map (cont (qitems nodes qs)) gs = map (cont (items s)) gs"
    using g(1) by (auto simp: q(2) cont_def)
  have "qitems nodes qs x \<noteq> None \<and> qkind qs x = Some Sharedptr_delete" if "x \<in> set gs" for x
    using w g(1) that by (auto simp: winding_def q(2,3))
  moreover have "handles_ok (handle_of s) (thread_at s) hs (concat (map (cont (qitems nodes qs)) gs))"
    "\<forall>h. handle_of s h \<noteq> None \<longrightarrow> h \<in> set hs \<union> set (concat (map (cont (qitems nodes qs)) gs))"
    unfolding c using w by (simp_all add: winding_def)
  ultimately show ?thesis using w fr by (simp add: winding_def)
qed

lemma closing_winding:
  assumes c: "closing s"
  shows "winding s (registered s) [g_lethread_query_queue s, g_lemessages_query_queue s, g_leauthor_query_queue s]"
proof -
  have ok: "server_ok s" and kinds: "kinds_ok (f_threads s) (q_queues s)" using c by (simp_all add: closing_def)
  note D = server_okD[OF ok]
  have dist: "distinct (gq s)" using D(3) by (simp add: queues_ok_def)
  have heap: "heap_ok s" using D(1) kinds by (simp add: heap_ok_def)
  have it: "items s g \<noteq> None" if "g \<in> set (gq s)" for g using queues_ok_items[OF D(3) that] by simp
  let ?ws = "cont (items s) (g_lethread_query_queue s) @ cont (items s) (g_lemessages_query_queue s) @
    cont (items s) (g_leauthor_query_queue s)"
  have "distinct (registered s @ waiting s)" using D(4) by (simp add: handles_ok_def)
  then have "distinct ?ws" by auto
  then have "handles_ok (handle_of s) (thread_at s) (registered s) ?ws"
    by (intro handles_ok_unwait[OF D(4)]) auto
  moreover have "\<forall>h. handle_of s h \<noteq> None \<longrightarrow> h \<in> set (registered s) \<union> set ?ws"
  proof -
    have "\<forall>h. handle_of s h \<noteq> None \<longrightarrow> h \<in> set (registered s @ waiting s)" using c unfolding closing_def by (elim conjE)
    moreover have "set (registered s @ waiting s) = set (registered s) \<union> set ?ws" by auto
    ultimately show ?thesis by blast
  qed
  moreover have "qkind (q_queues s) g = Some Sharedptr_delete" if "g \<in> set (gq s)" "g \<noteq> g_lemessage_query_queue s" for g
    using c that by (simp add: closing_def)
  ultimately show ?thesis
    using heap dist it gq_mem[of s] unfolding winding_def gq_distinct by auto
qed

text \<open>What is left to do once the queue of the messages has been deleted.\<close>

definition cleanup_rest :: "ptr \<Rightarrow> server \<Rightarrow> server res" where
  "cleanup_rest q s =
     andthen (queue_delete call_destructor q s) (\<lambda>(st, s).
     let s = s\<lparr>g_leauthor_query_queue := Null\<rparr> in
     andthen (queue_delete call_destructor (g_lethread_queue s) s) (\<lambda>(st, s).
     Inr (s\<lparr>g_lethread_queue := Null\<rparr>)))"

lemma cleanup_begins:
  assumes c: "closing s"
  obtains w where "cleanup s = cleanup_rest (g_leauthor_query_queue s) (freed (set (pending s)) w)"
    and "winding w (registered s) [g_leauthor_query_queue s]"
    and "items w = (items s)(g_lethread_query_queue s := None, g_lemessages_query_queue s := None, g_lemessage_query_queue s := None)"
    and "qkind (q_queues w) (g_lethread_queue s) = Some Sharedptr_delete"
    and "\<forall>h\<in>set (registered s). handle_of w h = handle_of s h"
    and "\<exists>a b c d. w = s\<lparr>sp_objs := a, sp_counts := b, q_nodes := c, q_queues := d,
      fsys := (fsys s)\<lparr>fs_meta := Some (le64 (g_next_lethread_id_value s))\<rparr>, g_program_on_finish := True, g_cleaned := True,
      g_lethread_query_queue := Null, g_lemessages_query_queue := Null, g_lemessage_query_queue := Null\<rparr>"
    and "\<forall>p\<in>set (pending s). live (f_messages s) p"
proof -
  have ok: "server_ok s" using c by (simp add: closing_def)
  note D = server_okD[OF ok]
  have dist: "distinct (gq s)" using D(3) by (simp add: queues_ok_def)
  define s1 where "s1 = s\<lparr>g_program_on_finish := True, g_cleaned := True,
    fsys := (fsys s)\<lparr>fs_meta := Some (le64 (g_next_lethread_id_value s))\<rparr>\<rparr>"
  have "winding s1 (registered s) [g_lethread_query_queue s, g_lemessages_query_queue s, g_leauthor_query_queue s]"
    using closing_winding[OF c] by (simp add: s1_def)
  then show ?thesis
  proof (rule wind_one)
    fix u1
    assume u1: "queue_delete call_destructor (g_lethread_query_queue s) s1 = Inr (ok_status, u1)"
      "winding u1 (registered s) [g_lemessages_query_queue s, g_leauthor_query_queue s]"
      "items u1 = (items s1)(g_lethread_query_queue s := None)"
      "qkind (q_queues u1) = (qkind (q_queues s1))(g_lethread_query_queue s := None)"
      "\<forall>h\<in>set (registered s). handle_of u1 h = handle_of s1 h"
      "u1 = s1\<lparr>sp_objs := sp_objs u1, sp_counts := sp_counts u1, q_nodes := q_nodes u1, q_queues := q_queues u1\<rparr>"
    define s2 where "s2 = u1\<lparr>g_lethread_query_queue := Null\<rparr>"
    have "winding s2 (registered s) [g_lemessages_query_queue s, g_leauthor_query_queue s]"
      using u1(2) by (simp add: s2_def)
    then show ?thesis
    proof (rule wind_one)
      fix u2
      assume u2: "queue_delete call_destructor (g_lemessages_query_queue s) s2 = Inr (ok_status, u2)"
        "winding u2 (registered s) [g_leauthor_query_queue s]"
        "items u2 = (items s2)(g_lemessages_query_queue s := None)"
        "qkind (q_queues u2) = (qkind (q_queues s2))(g_lemessages_query_queue s := None)"
        "\<forall>h\<in>set (registered s). handle_of u2 h = handle_of s2 h"
        "u2 = s2\<lparr>sp_objs := sp_objs u2, sp_counts := sp_counts u2, q_nodes := q_nodes u2, q_queues := q_queues u2\<rparr>"
      define s3 where "s3 = u2\<lparr>g_lemessages_query_queue := Null\<rparr>"
      obtain a1 a2 a3 a4 where 1: "u1 = s1\<lparr>sp_objs := a1, sp_counts := a2, q_nodes := a3, q_queues := a4\<rparr>" using u1(6) by blast
      obtain b1 b2 b3 b4 where 2: "u2 = s2\<lparr>sp_objs := b1, sp_counts := b2, q_nodes := b3, q_queues := b4\<rparr>" using u2(6) by blast
      have s3: "s3 = s\<lparr>sp_objs := b1, sp_counts := b2, q_nodes := b3, q_queues := b4,
        fsys := (fsys s)\<lparr>fs_meta := Some (le64 (g_next_lethread_id_value s))\<rparr>, g_program_on_finish := True, g_cleaned := True,
        g_lethread_query_queue := Null, g_lemessages_query_queue := Null\<rparr>"
        by (simp add: s3_def 2 s2_def 1 s1_def)
      let ?q = "g_lemessage_query_queue s"
      have "\<forall>h\<in>set (registered s). handle_of s3 h = handle_of s h"
        using u1(5) u2(5) by (simp add: s3_def s2_def s1_def)
      have items3: "items s3 = (items s)(g_lethread_query_queue s := None, g_lemessages_query_queue s := None)"
        using u1(3) u2(3) by (simp add: s3_def s2_def s1_def)
      have kind3: "qkind (q_queues s3) =
          (qkind (q_queues s))(g_lethread_query_queue s := None, g_lemessages_query_queue s := None)"
        using u1(4) u2(4) by (simp add: s3_def s2_def s1_def)
      have w3: "winding s3 (registered s) [g_leauthor_query_queue s]" using u2(2) by (simp add: s3_def)
      then have q3: "queue_ok s3" by (simp add: winding_def heap_ok_def)
      have ne: "?q \<noteq> g_lethread_query_queue s" "?q \<noteq> g_lemessages_query_queue s" "?q \<noteq> g_leauthor_query_queue s"
        "g_lethread_queue s \<noteq> g_lethread_query_queue s" "g_lethread_queue s \<noteq> g_lemessages_query_queue s"
        "g_lethread_queue s \<noteq> ?q"
        using dist unfolding gq_distinct by auto
      have it: "items s3 ?q = Some (pending s)" using ne queues_ok_items[OF D(3), of ?q] by (simp add: items3)
      have kq: "qkind (q_queues s3) ?q = Some Lemessage_delete" "qkind (q_queues s) (g_lethread_queue s) = Some Sharedptr_delete"
        using ne c by (simp_all add: kind3 closing_def)
      have dm: "distinct (pending s)" using c by (simp add: closing_def)
      have live: "live (f_messages s) p" if p: "p \<in> set (pending s)" for p
      proof -
        obtain x where "deref (f_messages s) p = Inr x" using D(5) p by (auto simp: saves_ok_def)
        then show ?thesis by (cases p) (auto simp: live_def split: option.splits)
      qed
      have live3: "live (f_messages s3) p" if "p \<in> set (pending s)" for p using live[OF that] by (simp add: s3)
      obtain nodes qs where del: "queue_delete (destruct (Suc 2)) ?q s3 = Inr (ok_status,
          s3\<lparr>f_messages := drop_messages (set (pending s)) (f_messages s3), q_nodes := nodes, q_queues := qs\<rparr>)"
        "qok nodes qs" "qitems nodes qs = (items s3)(?q := None)" "qkind qs = (qkind (q_queues s3))(?q := None)"
        by (rule delete_thread_queue[OF q3 it kq(1) dm live3])
      define w where "w = s3\<lparr>q_nodes := nodes, q_queues := qs, g_lemessage_query_queue := Null\<rparr>"
      have run: "queue_delete call_destructor ?q s3 = Inr (ok_status,
          s3\<lparr>f_messages := drop_messages (set (pending s)) (f_messages s3), q_nodes := nodes, q_queues := qs\<rparr>)"
        using del(1) by (simp add: call_destructor_def eval_nat_numeral)
      have fr: "freed (set (pending s)) w = s3\<lparr>f_messages := drop_messages (set (pending s)) (f_messages s3), q_nodes := nodes,
          q_queues := qs, g_lemessage_query_queue := Null\<rparr>"
        by (simp add: w_def freed_def)
      have no: "\<forall>a t. cells (f_threads s3) a = Some t \<longrightarrow> lt_messages t \<noteq> ?q"
      proof (intro allI impI)
        fix a t
        assume "cells (f_threads s3) a = Some t"
        then have "lt_messages t \<notin> set (gq s)" using D(3) by (simp add: s3 queues_ok_def)
        then show "lt_messages t \<noteq> ?q" using gq_mem(5)[of s] by metis
      qed
      have clean: "cleanup s = cleanup_rest (g_leauthor_query_queue s) (freed (set (pending s)) w)"
      proof -
        have g: "\<not> g_cleaned s" "fs_root (fsys s)" using c D(2) by (simp_all add: closing_def)
        have "cleanup s = andthen (queue_delete call_destructor (g_lethread_query_queue s) s1) (\<lambda>(st, s).
            let s = s\<lparr>g_lethread_query_queue := Null\<rparr> in
            andthen (queue_delete call_destructor (g_lemessages_query_queue s) s) (\<lambda>(st, s).
            let s = s\<lparr>g_lemessages_query_queue := Null\<rparr> in
            andthen (queue_delete call_destructor (g_lemessage_query_queue s) s) (\<lambda>(st, s).
            let s = s\<lparr>g_lemessage_query_queue := Null\<rparr> in cleanup_rest (g_leauthor_query_queue s) s)))"
          using g by (simp add: cleanup_def lemeta_save_def cleanup_rest_def s1_def Let_def)
        also have "\<dots> = cleanup_rest (g_leauthor_query_queue s) (freed (set (pending s)) w)"
        proof -
          have f: "g_lemessages_query_queue u1 = g_lemessages_query_queue s" "g_lemessage_query_queue u2 = ?q"
            "g_leauthor_query_queue s3 = g_leauthor_query_queue s"
            by (simp_all add: 2 s2_def 1 s1_def s3)
          show ?thesis
            using u1(1) u2(1) run f by (simp add: Let_def s2_def[symmetric] s3_def[symmetric] fr[symmetric])
        qed
        finally show ?thesis .
      qed
      show ?thesis
      proof (rule that[OF clean])
        have "winding (s3\<lparr>q_nodes := nodes, q_queues := qs\<rparr>) (registered s) [g_leauthor_query_queue s]"
          by (rule winding_other_queue[OF w3 _ no del(2-4)]) (use ne in simp)
        then show "winding w (registered s) [g_leauthor_query_queue s]" by (simp add: w_def)
        show "items w = (items s)(g_lethread_query_queue s := None, g_lemessages_query_queue s := None, ?q := None)"
          using del(3) items3 by (simp add: w_def)
        show "qkind (q_queues w) (g_lethread_queue s) = Some Sharedptr_delete"
          using del(4) kind3 ne kq(2) by (simp add: w_def)
        show "\<forall>h\<in>set (registered s). handle_of w h = handle_of s h"
          using \<open>\<forall>h\<in>set (registered s). handle_of s3 h = handle_of s h\<close> by (simp add: w_def)
        show "\<forall>p\<in>set (pending s). live (f_messages s) p" using live by blast
        have "w = s\<lparr>sp_objs := b1, sp_counts := b2, q_nodes := nodes, q_queues := qs,
          fsys := (fsys s)\<lparr>fs_meta := Some (le64 (g_next_lethread_id_value s))\<rparr>, g_program_on_finish := True, g_cleaned := True,
          g_lethread_query_queue := Null, g_lemessages_query_queue := Null, g_lemessage_query_queue := Null\<rparr>"
          by (simp add: w_def s3)
        then show "\<exists>a b c d. w = s\<lparr>sp_objs := a, sp_counts := b, q_nodes := c, q_queues := d,
          fsys := (fsys s)\<lparr>fs_meta := Some (le64 (g_next_lethread_id_value s))\<rparr>, g_program_on_finish := True, g_cleaned := True,
          g_lethread_query_queue := Null, g_lemessages_query_queue := Null, g_lemessage_query_queue := Null\<rparr>" by blast
      qed
    qed
  qed
qed

lemma cleanup_ends:
  assumes w: "winding w hs [q]" and g: "items w (g_lethread_queue w) = Some hs" "g_lethread_queue w \<noteq> q"
    "qkind (q_queues w) (g_lethread_queue w) = Some Sharedptr_delete"
  obtains u where "cleanup_rest q w = Inr u" and "handle_of u = (\<lambda>h. None)"
    and "thread_at u = (\<lambda>p. if p \<in> owner (handle_of w) ` set hs then None else thread_at w p)"
    and "\<And>h c t ms m. h \<in> set hs \<Longrightarrow> owner (handle_of w) h = Ptr c \<Longrightarrow> cells (f_threads w) c = Some t \<Longrightarrow>
      items w (lt_messages t) = Some ms \<Longrightarrow> m \<in> set ms \<Longrightarrow> \<not> live (f_messages u) m"
    and "\<And>x. x = g_lethread_queue w \<or> x = q \<or> items w x = None \<Longrightarrow> items u x = None"
    and "\<exists>a b c d e f g. u = w\<lparr>sp_objs := a, sp_counts := b, q_nodes := c, q_queues := d, f_threads := e, f_messages := f,
      f_authors := g, g_leauthor_query_queue := Null, g_lethread_queue := Null\<rparr>"
proof (rule wind_one[OF w])
  fix v
  assume v: "queue_delete call_destructor q w = Inr (ok_status, v)" "winding v hs []" "items v = (items w)(q := None)"
    "qkind (q_queues v) = (qkind (q_queues w))(q := None)" "\<forall>h\<in>set hs. handle_of v h = handle_of w h"
    "v = w\<lparr>sp_objs := sp_objs v, sp_counts := sp_counts v, q_nodes := q_nodes v, q_queues := q_queues v\<rparr>"
  obtain a1 a2 a3 a4 where 1: "v = w\<lparr>sp_objs := a1, sp_counts := a2, q_nodes := a3, q_queues := a4\<rparr>" using v(6) by blast
  define v' where "v' = v\<lparr>g_leauthor_query_queue := Null\<rparr>"
  have w': "winding v' hs []" using v(2) by (simp add: v'_def)
  have q: "items v' (g_lethread_queue w) = Some hs" "qkind (q_queues v') (g_lethread_queue w) = Some Sharedptr_delete"
    using g v(3,4) by (simp_all add: v'_def)
  have own: "owner (handle_of v') h = owner (handle_of w) h" if "h \<in> set hs" for h
    using v(5) that by (simp add: owner_def v'_def)
  have ta: "thread_at v' = thread_at w"
  proof -
    have heap: "heap_ok w" using w by (simp add: winding_def)
    have "\<forall>a t. cells (f_threads w) a = Some t \<longrightarrow> lt_messages t \<noteq> q"
      using w not_for_messages[OF heap, of q] by (simp add: winding_def)
    moreover have "qok (q_nodes v) (q_queues v)" using v(2) by (simp add: winding_def heap_ok_def)
    moreover have "qkind (q_queues v) p = qkind (q_queues w) p" if "p \<noteq> q" for p using that by (simp add: v(4))
    ultimately have "thread_at (w\<lparr>q_nodes := q_nodes v, q_queues := q_queues v\<rparr>) = thread_at w"
      using gathered_frame(2)[OF heap _ _ v(3)] by blast
    then show ?thesis by (simp add: v'_def 1)
  qed
  show thesis
  proof (rule unload_all[OF w' q])
    fix u
    assume u: "queue_delete call_destructor (g_lethread_queue w) v' = Inr (ok_status, u)" "handle_of u = (\<lambda>h. None)"
      "thread_at u = (\<lambda>p. if p \<in> owner (handle_of v') ` set hs then None else thread_at v' p)"
      "\<And>h c w ms m. h \<in> set hs \<Longrightarrow> owner (handle_of v') h = Ptr c \<Longrightarrow> cells (f_threads v') c = Some w \<Longrightarrow>
        items v' (lt_messages w) = Some ms \<Longrightarrow> m \<in> set ms \<Longrightarrow> \<not> live (f_messages u) m"
      "\<And>x. x = g_lethread_queue w \<or> items v' x = None \<Longrightarrow> items u x = None"
      "\<exists>a b c d e f g. u = v'\<lparr>sp_objs := a, sp_counts := b, q_nodes := c, q_queues := d, f_threads := e, f_messages := f,
        f_authors := g\<rparr>"
    let ?u = "u\<lparr>g_lethread_queue := Null\<rparr>"
    have gl: "g_lethread_queue v = g_lethread_queue w" by (simp add: 1)
    have "owner (handle_of v') ` set hs = owner (handle_of w) ` set hs" using own by (rule image_cong[OF refl])
    with u(3) have "thread_at u = (\<lambda>p. if p \<in> owner (handle_of w) ` set hs then None else thread_at w p)"
      by (simp only: ta)
    then have tu: "thread_at ?u = (\<lambda>p. if p \<in> owner (handle_of w) ` set hs then None else thread_at w p)"
      by simp
    have kinds: "kinds_ok (f_threads w) (q_queues w)" and kq: "qkind (q_queues w) q = Some Sharedptr_delete"
      using w by (simp_all add: winding_def heap_ok_def)
    obtain b1 b2 b3 b4 b5 b6 b7 where 2: "u = v'\<lparr>sp_objs := b1, sp_counts := b2, q_nodes := b3, q_queues := b4, f_threads := b5,
      f_messages := b6, f_authors := b7\<rparr>" using u(6) by blast
    have shape: "?u = w\<lparr>sp_objs := b1, sp_counts := b2, q_nodes := b3, q_queues := b4, f_threads := b5, f_messages := b6,
      f_authors := b7, g_leauthor_query_queue := Null, g_lethread_queue := Null\<rparr>"
      by (simp add: 2 v'_def 1)
    show thesis
    proof (rule that[of ?u])
      show "cleanup_rest q w = Inr ?u"
        using v(1) u(1) gl by (simp add: cleanup_rest_def Let_def v'_def[symmetric])
      show "handle_of ?u = (\<lambda>h. None)" using u(2) by simp
      show "thread_at ?u = (\<lambda>p. if p \<in> owner (handle_of w) ` set hs then None else thread_at w p)" by (rule tu)
      show "items ?u x = None" if "x = g_lethread_queue w \<or> x = q \<or> items w x = None" for x
      proof -
        have "x = g_lethread_queue w \<or> items v' x = None" using that v(3) by (auto simp: v'_def)
        from u(5)[OF this] show ?thesis by simp
      qed
      show "\<not> live (f_messages ?u) m" if "h \<in> set hs" "owner (handle_of w) h = Ptr c" "cells (f_threads w) c = Some t"
        "items w (lt_messages t) = Some ms" "m \<in> set ms" for h c t ms m
      proof -
        have "lt_messages t \<noteq> q" using kinds kq that(3) by (auto simp: kinds_ok_def)
        then have "items v' (lt_messages t) = Some ms" using that(4) v(3) by (simp add: v'_def)
        moreover have "cells (f_threads v') c = Some t" using that(3) by (simp add: v'_def 1)
        ultimately show ?thesis using u(4)[OF that(1), of c t ms m] own[OF that(1)] that(2,5) by simp
      qed
      show "\<exists>a b c d e f g. ?u = w\<lparr>sp_objs := a, sp_counts := b, q_nodes := c, q_queues := d, f_threads := e, f_messages := f,
        f_authors := g, g_leauthor_query_queue := Null, g_lethread_queue := Null\<rparr>" using shape by blast
    qed
  qed
qed

lemma cleanup_rest_worse:
  assumes l: "lacks X s u" and g: "g_lethread_queue u = g_lethread_queue s"
    and keeps: "\<And>st v. queue_delete call_destructor q s = Inr (st, v) \<Longrightarrow> g_lethread_queue v = g_lethread_queue s"
  shows "worse (lacks X) (cleanup_rest q s) (cleanup_rest q u)"
proof -
  have call: "worse (lacks X) (call_destructor f d s) (call_destructor f d u)" if "lacks X s u" for f d and s u :: server
    using that by (simp add: call_destructor_def destruct_worse)
  have gl: "g_lethread_queue y = g_lethread_queue v" if "lacks X v y" for v y :: server
    using that by (simp add: lacks_def freed_def)
  have upd: "lacks X (v\<lparr>g_leauthor_query_queue := p\<rparr>) (y\<lparr>g_leauthor_query_queue := p\<rparr>)"
    "lacks X (v\<lparr>g_lethread_queue := p\<rparr>) (y\<lparr>g_lethread_queue := p\<rparr>)" if "lacks X v y" for v y :: server and p
    using that by (simp_all add: lacks_def freed_def)
  have tail: "worse (lacks X)
      (andthen (queue_delete call_destructor k v) (\<lambda>(st, s). Inr (s\<lparr>g_lethread_queue := Null\<rparr>)))
      (andthen (queue_delete call_destructor k y) (\<lambda>(st, s). Inr (s\<lparr>g_lethread_queue := Null\<rparr>)))" if "lacks X v y" for v y :: server and k
    by (rule worse_andthen[OF queue_delete_worse[OF call that]]) (auto simp: lacks2_def intro!: worse_base upd)
  show ?thesis
    unfolding cleanup_rest_def Let_def
    by (rule worse_andthen[OF queue_delete_worse[OF call l]])
      (auto simp: lacks2_def gl intro!: tail upd)
qed

text \<open>The first statement is about the messages that do not wait; the second about those that do.\<close>

lemma cleanup_law:
  assumes c: "closing s"
  obtains u where "pending s = [] \<Longrightarrow> cleanup s = Inr u" and "\<And>m. m \<in> set (pending s) \<Longrightarrow> belongs s m \<Longrightarrow> cleanup s = Inl UseAfterFree"
    and "handle_of u = (\<lambda>h. None)" and "\<And>h. h \<in> set (registered s) \<Longrightarrow> thread_at u (owner (handle_of s) h) = None"
    and "\<And>m. belongs s m \<Longrightarrow> \<not> live (f_messages u) m" and "\<And>g. g \<in> set (gq s) \<Longrightarrow> items u g = None" and "set (gq u) = {Null}"
    and "fsys u = (fsys s)\<lparr>fs_meta := Some (le64 (g_next_lethread_id_value s))\<rparr>" and "g_cleaned u" and "g_program_on_finish u"
  using c
proof (rule cleanup_begins)
  fix w
  assume w: "cleanup s = cleanup_rest (g_leauthor_query_queue s) (freed (set (pending s)) w)"
    "winding w (registered s) [g_leauthor_query_queue s]"
    "items w = (items s)(g_lethread_query_queue s := None, g_lemessages_query_queue s := None, g_lemessage_query_queue s := None)"
    "qkind (q_queues w) (g_lethread_queue s) = Some Sharedptr_delete"
    "\<forall>h\<in>set (registered s). handle_of w h = handle_of s h"
    "\<exists>a b c d. w = s\<lparr>sp_objs := a, sp_counts := b, q_nodes := c, q_queues := d,
      fsys := (fsys s)\<lparr>fs_meta := Some (le64 (g_next_lethread_id_value s))\<rparr>, g_program_on_finish := True, g_cleaned := True,
      g_lethread_query_queue := Null, g_lemessages_query_queue := Null, g_lemessage_query_queue := Null\<rparr>"
    "\<forall>p\<in>set (pending s). live (f_messages s) p"
  have ok: "server_ok s" using c by (simp add: closing_def)
  note D = server_okD[OF ok]
  have dist: "distinct (gq s)" using D(3) by (simp add: queues_ok_def)
  let ?q = "g_leauthor_query_queue s"
  obtain a1 a2 a3 a4 where 1: "w = s\<lparr>sp_objs := a1, sp_counts := a2, q_nodes := a3, q_queues := a4,
      fsys := (fsys s)\<lparr>fs_meta := Some (le64 (g_next_lethread_id_value s))\<rparr>, g_program_on_finish := True, g_cleaned := True,
      g_lethread_query_queue := Null, g_lemessages_query_queue := Null, g_lemessage_query_queue := Null\<rparr>" using w(6) by blast
  have sel: "g_lethread_queue w = g_lethread_queue s" "f_threads w = f_threads s" "f_messages w = f_messages s" by (simp_all add: 1)
  have gw: "items w (g_lethread_queue w) = Some (registered s)" "g_lethread_queue w \<noteq> ?q"
    "qkind (q_queues w) (g_lethread_queue w) = Some Sharedptr_delete"
    using dist w(4) queues_ok_items[OF D(3), of "g_lethread_queue s"] unfolding gq_distinct by (auto simp: sel w(3))
  have own: "owner (handle_of w) h = owner (handle_of s) h" if "h \<in> set (registered s)" for h
    using w(5) that by (simp add: owner_def)
  show thesis
  proof (rule cleanup_ends[OF w(2) gw])
    fix u
    assume u: "cleanup_rest ?q w = Inr u" "handle_of u = (\<lambda>h. None)"
      "thread_at u = (\<lambda>p. if p \<in> owner (handle_of w) ` set (registered s) then None else thread_at w p)"
      "\<And>h c t ms m. h \<in> set (registered s) \<Longrightarrow> owner (handle_of w) h = Ptr c \<Longrightarrow> cells (f_threads w) c = Some t \<Longrightarrow>
        items w (lt_messages t) = Some ms \<Longrightarrow> m \<in> set ms \<Longrightarrow> \<not> live (f_messages u) m"
      "\<And>x. x = g_lethread_queue w \<or> x = ?q \<or> items w x = None \<Longrightarrow> items u x = None"
      "\<exists>a b c d e f g. u = w\<lparr>sp_objs := a, sp_counts := b, q_nodes := c, q_queues := d, f_threads := e, f_messages := f,
        f_authors := g, g_leauthor_query_queue := Null, g_lethread_queue := Null\<rparr>"
    obtain b1 b2 b3 b4 b5 b6 b7 where 2: "u = w\<lparr>sp_objs := b1, sp_counts := b2, q_nodes := b3, q_queues := b4, f_threads := b5,
      f_messages := b6, f_authors := b7, g_leauthor_query_queue := Null, g_lethread_queue := Null\<rparr>" using u(6) by blast
    have dead: "\<not> live (f_messages u) m" if "belongs s m" for m
    proof -
      from that obtain h c t ms where m: "h \<in> set (registered s)" "owner (handle_of s) h = Ptr c" "cells (f_threads s) c = Some t"
        "items s (lt_messages t) = Some ms" "m \<in> set ms" by (auto simp: belongs_def)
      have "lt_messages t \<notin> set (gq s)" using D(3) m(3) by (simp add: queues_ok_def)
      then have "items w (lt_messages t) = Some ms" using m(4) by (auto simp: w(3) gq_def)
      then show ?thesis using u(4)[OF m(1) _ _ _ m(5)] m own[OF m(1)] by (auto simp: sel)
    qed
    show thesis
    proof (rule that[of u])
      show "cleanup s = Inr u" if "pending s = []"
        using u(1) w(1) that by (simp add: freed_def)
      show "cleanup s = Inl UseAfterFree" if m: "m \<in> set (pending s)" "belongs s m" for m
      proof -
        let ?X = "set (pending s)"
        have "lacks ?X w (freed ?X w)" using w(7) by (simp add: lacks_def sel)
        moreover have "g_lethread_queue v = g_lethread_queue w" if "queue_delete call_destructor ?q w = Inr (st, v)" for st v
        proof (rule wind_one[OF w(2)])
          fix v'
          assume v': "queue_delete call_destructor ?q w = Inr (ok_status, v')"
            "v' = w\<lparr>sp_objs := sp_objs v', sp_counts := sp_counts v', q_nodes := q_nodes v', q_queues := q_queues v'\<rparr>"
          obtain c1 c2 c3 c4 where "v' = w\<lparr>sp_objs := c1, sp_counts := c2, q_nodes := c3, q_queues := c4\<rparr>" using v'(2) by blast
          with v'(1) that show "g_lethread_queue v = g_lethread_queue w" by simp
        qed
        ultimately have W: "worse (lacks ?X) (Inr u) (cleanup s)"
          using cleanup_rest_worse[of ?X w "freed ?X w" ?q] u(1) w(1) by (simp add: freed_def)
        show ?thesis
        proof (cases "cleanup s")
          case (Inr y)
          then have "live (f_messages u) m" using W m(1) by (auto simp: worse_def lacks_def)
          with dead[OF m(2)] show ?thesis by simp
        qed (use W in \<open>simp add: worse_def\<close>)
      qed
      show "handle_of u = (\<lambda>h. None)" by (rule u(2))
      show "thread_at u (owner (handle_of s) h) = None" if "h \<in> set (registered s)" for h
      proof -
        have "owner (handle_of s) h \<in> owner (handle_of w) ` set (registered s)" using own[OF that] that by force
        then show ?thesis by (simp only: u(3) if_True)
      qed
      show "\<not> live (f_messages u) m" if "belongs s m" for m using that by (rule dead)
      show "items u g = None" if "g \<in> set (gq s)" for g
        by (rule u(5)) (use that in \<open>auto simp: gq_def w(3) sel\<close>)
      show "set (gq u) = {Null}" by (simp add: gq_def 2 1)
      show "fsys u = (fsys s)\<lparr>fs_meta := Some (le64 (g_next_lethread_id_value s))\<rparr>" "g_cleaned u" "g_program_on_finish u"
        by (simp_all add: 2 1)
    qed
  qed
qed

section \<open>A server to end\<close>

text \<open>A thread and a message, which waits to be saved if \<open>save\<close>; the handle has been given back.\<close>

definition small_run :: "bool \<Rightarrow> server res" where
  "small_run save =
     andthen (s_lethread_create (''topic'' @ [NUL]) 0 empty_server) (\<lambda>(q, s).
     andthen (deref (sp_objs s) q) (\<lambda>o1.
     andthen (lemessage_create (sp_data o1) (Some ''hello'') 1 s) (\<lambda>(st, m, s).
     andthen (if save then s_lemessage_save m s else Inr (ok_status, s)) (\<lambda>(st, s).
     andthen (sharedptr_delete call_destructor q s) (\<lambda>(st, s). Inr s)))))"

lemmas small_run_defs = small_run_def empty_server_def create_queues_def blank_server_def queue_create_def
  s_lethread_create_def next_lethread_id_def lemeta_save_def no_files_def lethread_create_def cstr_def
  rand_A[of 200, simplified] new_obj_def empty_store_def Let_def sharedptr_create_def queue_push_def queue_link_def
  sharedptr_add_def lemessage_create_def size_limits fun_upd_def s_lemessage_save_def sharedptr_delete_def

lemma small_run_ok:
  obtains s where "small_run b = Inr s" and "server_ok s"
proof -
  have c: "cstr (''topic'' @ [NUL]) = Inr ''topic''" by (rule cstr_append) simp
  have r: "rand_uint64_t (urandom empty_server) = Inr (un_le64 (replicate 8 (CHR ''A'')), replicate 192 (CHR ''A''))"
    unfolding empty_server_ok(4) by (rule rand_A[of 200, simplified])
  obtain q s1 where s1: "s_lethread_create (''topic'' @ [NUL]) 0 empty_server = Inr (q, s1)" "server_ok s1"
    "borrows s1 q (length (forum_of empty_server))"
    by (rule s_lethread_create_law[OF empty_server_ok(1) c r, of 0])
  obtain o1 where o1: "deref (sp_objs s1) q = Inr o1" by (rule borrowsE[OF s1(2,3)])
  obtain m s2 where s2: "lemessage_create (sp_data o1) (Some ''hello'') 1 s1 = Inr (ok_status, Ptr m, s2)" "server_ok s2"
    "borrows s2 q (length (forum_of empty_server))" "saves_ok (f_threads s2) (f_messages s2) [Ptr m]"
    by (rule post_law[OF s1(2,3) o1, of "''hello''" 1]) (simp_all add: size_limits)
  obtain s3 where s3: "s_lemessage_save (Ptr m) s2 = Inr (ok_status, s3)" "server_ok s3"
    "borrows s3 q (length (forum_of empty_server))"
    by (rule s_lemessage_save_law[OF s2(2,4)]) (use s2(3) in metis)
  define s4 where "s4 = (if b then s3 else s2)"
  have s4: "server_ok s4" "borrows s4 q (length (forum_of empty_server))" using s2(2,3) s3(2,3) by (simp_all add: s4_def)
  obtain objs counts where "sharedptr_delete call_destructor q s4 = Inr (ok_status, s4\<lparr>sp_objs := objs, sp_counts := counts\<rparr>)"
    "server_ok (s4\<lparr>sp_objs := objs, sp_counts := counts\<rparr>)"
    by (rule release_law[OF s4])
  then show ?thesis
    using s1(1) o1 s2(1) s3(1)
    by (cases b; intro that[of "s4\<lparr>sp_objs := objs, sp_counts := counts\<rparr>"]) (simp_all add: small_run_def s4_def)
qed

definition small_state :: "bool \<Rightarrow> server" where
  "small_state b = \<lparr>
     q_nodes = (if b
       then \<lparr>cells = [0 \<mapsto> \<lparr>qn_data = Ptr 0, qn_next = Null\<rparr>, 1 \<mapsto> \<lparr>qn_data = Ptr 0, qn_next = Null\<rparr>,
         2 \<mapsto> \<lparr>qn_data = Ptr 0, qn_next = Null\<rparr>], brk = 3\<rparr>
       else \<lparr>cells = [0 \<mapsto> \<lparr>qn_data = Ptr 0, qn_next = Null\<rparr>, 1 \<mapsto> \<lparr>qn_data = Ptr 0, qn_next = Null\<rparr>], brk = 2\<rparr>),
     q_queues = \<lparr>cells = [
         0 \<mapsto> \<lparr>q_size = 0, q_first = Null, q_last = Null, q_destruct = Sharedptr_delete\<rparr>,
         1 \<mapsto> \<lparr>q_size = 0, q_first = Null, q_last = Null, q_destruct = Sharedptr_delete\<rparr>,
         2 \<mapsto> (if b then \<lparr>q_size = 1, q_first = Ptr 2, q_last = Ptr 2, q_destruct = Lemessage_delete\<rparr>
               else \<lparr>q_size = 0, q_first = Null, q_last = Null, q_destruct = Lemessage_delete\<rparr>),
         3 \<mapsto> \<lparr>q_size = 0, q_first = Null, q_last = Null, q_destruct = Sharedptr_delete\<rparr>,
         4 \<mapsto> \<lparr>q_size = 1, q_first = Ptr 0, q_last = Ptr 0, q_destruct = Sharedptr_delete\<rparr>,
         5 \<mapsto> \<lparr>q_size = 1, q_first = Ptr 1, q_last = Ptr 1, q_destruct = Lemessage_delete\<rparr>], brk = 6\<rparr>,
     sp_objs = \<lparr>cells = [0 \<mapsto> \<lparr>sp_ref = Ptr 0, sp_data = Ptr 0, sp_destruct = Some Lethread_delete\<rparr>], brk = 2\<rparr>,
     sp_counts = \<lparr>cells = [0 \<mapsto> 1], brk = 1\<rparr>, urandom = replicate 192 (CHR ''A''),
     f_threads = \<lparr>cells = [0 \<mapsto> \<lparr>lt_id = 7, lt_first_message_id = AAAA, lt_next_message_id = AAAA + 1,
         lt_topic = Some ''topic'', lt_messages = Ptr 5, lt_author = Null\<rparr>], brk = 1\<rparr>,
     f_messages = \<lparr>cells = [0 \<mapsto> \<lparr>lm_id = AAAA, lm_text = Some ''hello'', lm_by_lethread_author = 1,
         lm_lethread = Ptr 0\<rparr>], brk = 1\<rparr>,
     f_authors = empty_store, fsys = \<lparr>fs_root = True, fs_dirs = [], fs_meta = Some (le64 8)\<rparr>, mem_junk = (\<lambda>i. NUL),
     g_next_lethread_id_value = 8, g_lethread_query_queue = Ptr 0, g_lemessages_query_queue = Ptr 1,
     g_lemessage_query_queue = Ptr 2, g_leauthor_query_queue = Ptr 3, g_lethread_queue = Ptr 4,
     g_program_on_finish = False, g_cleaned = False\<rparr>"

lemma small_run_state: "small_run b = Inr (small_state b)"
  by (cases b; simp add: small_run_defs AAAA_def small_state_def cong: if_cong; auto simp: fun_eq_iff eval_nat_numeral)

lemma small_state_closing:
  shows "closing (small_state b)" and "pending (small_state b) = (if b then [Ptr 0] else [])"
    and "belongs (small_state b) (Ptr 0)" and "registered (small_state b) = [Ptr 0]"
proof -
  let ?s = "small_state b"
  have ok: "server_ok ?s" by (rule small_run_ok[of b]) (simp add: small_run_state)
  show reg: "registered ?s = [Ptr 0]" and pend: "pending ?s = (if b then [Ptr 0] else [])"
    by (simp_all add: small_state_def cont_def qitems_def queue_items_def eval_nat_numeral)
  have "kinds_ok (f_threads ?s) (q_queues ?s)"
    by (simp add: small_state_def kinds_ok_def qkind_def)
  moreover have "\<forall>g\<in>set (gq ?s). qkind (q_queues ?s) g =
        Some (if g = g_lemessage_query_queue ?s then Lemessage_delete else Sharedptr_delete)"
    by (simp add: small_state_def gq_def qkind_def)
  moreover have "h = Ptr 0" if "handle_of ?s h \<noteq> None" for h
    using that by (auto simp: small_state_def owned_def split: ptr.splits if_splits)
  then have "\<forall>h. handle_of ?s h \<noteq> None \<longrightarrow> h \<in> set (registered ?s @ waiting ?s)" by (simp add: reg)
  moreover have "\<not> g_cleaned ?s" by (simp add: small_state_def)
  ultimately show "closing ?s" using ok by (simp add: closing_def pend)
  have "items ?s (Ptr 5) = Some [Ptr 0]" by (simp add: small_state_def qitems_def queue_items_def eval_nat_numeral)
  moreover have "cells (f_threads ?s) 0 = Some \<lparr>lt_id = 7, lt_first_message_id = AAAA, lt_next_message_id = AAAA + 1,
      lt_topic = Some ''topic'', lt_messages = Ptr 5, lt_author = Null\<rparr>" by (simp add: small_state_def)
  moreover have "owner (handle_of ?s) (Ptr 0) = Ptr 0" by (simp add: small_state_def owner_def owned_def)
  ultimately show "belongs ?s (Ptr 0)" unfolding belongs_def reg by simp
qed

section \<open>Properties\<close>

text \<open>
  C8.  Ending the server between two connections, when no message waits to be saved: the interrupt handler runs
  \<open>cleanup\<close> twice without a fault, after which every handle, every registered thread and all messages of
  these threads are freed, the five queues are gone, and the next thread id is on the disk.
\<close>

theorem shutdown_frees_everything:
  assumes "closing s" and "pending s = []"
  shows "\<exists>u. signal_handler signum s = Inr (signum, u) \<and> (\<forall>h. handle_of u h = None) \<and>
    (\<forall>h\<in>set (registered s). thread_at u (owner (handle_of s) h) = None) \<and> (\<forall>m. belongs s m \<longrightarrow> \<not> live (f_messages u) m) \<and>
    (\<forall>g\<in>set (gq s). items u g = None) \<and> set (gq u) = {Null} \<and>
    fsys u = (fsys s)\<lparr>fs_meta := Some (le64 (g_next_lethread_id_value s))\<rparr>"
proof (rule cleanup_law[OF assms(1)])
  fix u
  assume u: "pending s = [] \<Longrightarrow> cleanup s = Inr u" "handle_of u = (\<lambda>h. None)"
    "\<And>h. h \<in> set (registered s) \<Longrightarrow> thread_at u (owner (handle_of s) h) = None" "\<And>m. belongs s m \<Longrightarrow> \<not> live (f_messages u) m"
    "\<And>g. g \<in> set (gq s) \<Longrightarrow> items u g = None" "set (gq u) = {Null}"
    "fsys u = (fsys s)\<lparr>fs_meta := Some (le64 (g_next_lethread_id_value s))\<rparr>" "g_cleaned u" "g_program_on_finish u"
  have "u\<lparr>g_program_on_finish := True\<rparr> = u" using u(9) by simp
  then have "cleanup u = Inr u" using u(8) by (simp add: cleanup_def)
  then have "signal_handler signum s = Inr (signum, u)" using u(1) assms(2) by (simp add: signal_handler_def)
  then show ?thesis
  proof (intro exI[of _ u] conjI allI ballI impI)
    show "handle_of u h = None" for h by (simp add: u(2))
    show "thread_at u (owner (handle_of s) h) = None" if "h \<in> set (registered s)" for h by (rule u(3)[OF that])
    show "\<not> live (f_messages u) m" if "belongs s m" for m by (rule u(4)[OF that])
    show "items u g = None" if "g \<in> set (gq s)" for g by (rule u(5)[OF that])
  qed (use u(6,7) in simp_all)
qed

text \<open>
  C9.  A message that still waits to be saved when the server ends is freed twice: \<open>cleanup\<close> frees it with the
  queue of messages to be saved, and reads it again when it deletes its thread.
\<close>

theorem pending_message_freed_twice:
  assumes "closing s" and "m \<in> set (pending s)" and "belongs s m"
  shows "signal_handler signum s = Inl UseAfterFree"
proof (rule cleanup_law[OF assms(1)])
  assume "\<And>m. m \<in> set (pending s) \<Longrightarrow> belongs s m \<Longrightarrow> cleanup s = Inl UseAfterFree"
  from this[OF assms(2,3)] show ?thesis by (simp add: signal_handler_def)
qed

lemma shutdown_frees_everything_witness:
  "\<exists>s u. small_run False = Inr s \<and> registered s = [Ptr 0] \<and> signal_handler 2 s = Inr (2, u) \<and>
    thread_at u (owner (handle_of s) (Ptr 0)) = None \<and> \<not> live (f_messages u) (Ptr 0)"
proof -
  note C = small_state_closing[of False]
  have "pending (small_state False) = []" using C(2) by simp
  from shutdown_frees_everything[OF C(1) this, of 2] obtain u where "signal_handler 2 (small_state False) = Inr (2, u)"
    "\<forall>h\<in>set (registered (small_state False)). thread_at u (owner (handle_of (small_state False)) h) = None"
    "\<forall>m. belongs (small_state False) m \<longrightarrow> \<not> live (f_messages u) m" by auto
  moreover from this C(3) have "\<not> live (f_messages u) (Ptr 0)" by blast
  ultimately show ?thesis using C(4)
    by (rule_tac exI[of _ "small_state False"], rule_tac exI[of _ u]) (simp add: small_run_state)
qed

lemma pending_message_freed_twice_witness:
  "\<exists>s. small_run True = Inr s \<and> signal_handler 2 s = Inl UseAfterFree"
  using pending_message_freed_twice[OF small_state_closing(1) _ small_state_closing(3), of True 2] small_state_closing(2)[of True]
  by (simp add: small_run_state)

end
