(* ===== verification/Spec2Isabelle.thy ===== *)
theory Spec2Isabelle
  imports End_To_End Shutdown
begin

text \<open>
  LeForum: a forum server and its client, in C (\<open>src/src\<close>).  The server keeps threads of messages in
  memory and in files and answers six commands over TCP.  The client is a program of menus: a thread of
  its own sends the commands that the menus ask for, and pings the server while there are none.

  \<^bold>\<open>How the code is modelled.\<close>  A call is a function from the memory and its arguments to a fault or
  a result and the new memory.  A fault (\<open>Prelude.fault\<close>) is what C leaves undefined or what never
  returns: null, wild and freed pointers, reads of uninitialised or out-of-range bytes, divergence.
  Objects live in stores, one per type; pointers are null, wild or the address of an object; fresh
  addresses never repeat, so a dangling pointer stays dangling.  Words have the width of the code.
  The random device, the sockets, the files and what \<open>malloc\<close> leaves in a block are explicit data, and
  the theorems hold for any.  An operation runs from its call to its return: threads are interleavings
  of whole operations, and the code's missing locks are not modelled.  The query thread of the client
  makes its passes while the main thread waits, for a line or for an answer; which passes and signals
  come before each line is a list, and so are the bytes typed and what each connection attempt meets.

  \<^bold>\<open>Theories, bottom up.\<close>
  \<^item> \<open>Prelude\<close>, \<open>Bytes\<close>: results, stores, pointers; little-endian numbers, C strings, keywords.
  \<^item> \<open>Status\<close>, \<open>Util\<close>, \<open>Security\<close>: \<open>lib/status\<close>, \<open>lib/util\<close>, \<open>lib/security\<close>.
  \<^item> \<open>Queue\<close>: \<open>lib/queue.c\<close> on linked nodes; the locale \<open>fifo\<close> is the interface that the rest uses.
  \<^item> \<open>Shared_Ptr\<close>: \<open>lib/shared_ptr.c\<close>; handles, counters and destructors, the locale of a counted owner.
  \<^item> \<open>Communication\<close>: \<open>lib/communication.c\<close>, \<open>s_send\<close> and \<open>s_recv\<close> over partial transfers.
  \<^item> \<open>Forum\<close>: \<open>lib/forum.c\<close>; \<open>thread_at\<close> reads a thread off the heap as an \<open>athread\<close>, \<open>fok\<close> is the
    heap's invariant (no sharing between threads), and each operation is an update of \<open>thread_at\<close>.
  \<^item> \<open>Forum_IO\<close>: \<open>server/forum_io.c\<close>; files, formats, and the round trips between saving and loading.
  \<^item> \<open>Buffer\<close>: response blocks filled from left to right and doubled when full.
  \<^item> \<open>Server\<close>, \<open>Server_Laws\<close>: \<open>server/server.c\<close>; the globals, the invariant \<open>server_ok\<close>, the list
    \<open>forum_of\<close> that the registered handles stand for, and what each operation does to it.
  \<^item> \<open>Server_Startup\<close>: \<open>startup\<close>.  \<open>Lookup\<close>: a thread whose messages are not in memory is read from its
    file when it is asked for.  \<open>Server_Managers\<close>: the manager threads (locale \<open>manager\<close>, interpreted for
    each of the three that work on handles).
  \<^item> \<open>Server_Query\<close>, \<open>Server_Query_Laws\<close>, \<open>Server_Find\<close>: \<open>server/query.c\<close>, command by command.
  \<^item> \<open>Connection\<close>: \<open>handle_client\<close>.
  \<^item> \<open>Client_Query\<close>, \<open>Protocol\<close>: \<open>client/query.c\<close>, and client and server together.
  \<^item> \<open>Requests\<close>, \<open>Session\<close>: the abstract server \<open>respond\<close>, the simulation \<open>refines\<close> of it by
    \<open>query_process\<close> (a thread in memory with its messages, or only on the disk, stands for the same abstract
    thread), and whole sessions through the socket, whose packets the network may split and join but for the
    eight bytes of a size: the code takes them with one \<open>recv\<close> and misreads a size that arrives in parts.
  \<^item> \<open>Durable\<close>: runs of well-formed requests (\<open>wf_request\<close>) and manager steps in any order; disk and backlog
    together always hold the whole forum.  For other packets that is false of the code: an overlong topic is
    cut when it is loaded, and a text that starts with a NUL queues an uninitialised message.  \<open>Restart\<close>:
    started again on the files of such a run, the server has the same forum.
  \<^item> \<open>Server_Main\<close>: \<open>main\<close> from its start on such files, its arguments and the loop over the clients.
  \<^item> \<open>Client_State\<close>, \<open>Client_Files\<close>, \<open>Client_Net\<close>, \<open>Client_Commands\<close>, \<open>Client_Main\<close>: \<open>client/client.c\<close>, its
    globals and menus, its files, \<open>query_loop\<close> and the spinning on a query, the commands, the menu loops
    and \<open>main\<close>, whose termination is that every pass takes a line of the input.
  \<^item> \<open>Found_Threads\<close>, \<open>Client_Heap\<close>: the threads that answers are parsed into, for arbitrary answers;
    \<open>Client_Safety\<close>: the invariant \<open>client_ok\<close> of all commands, its refinement \<open>keeps\<close> by what is allocated
    for queries, that no run misuses memory, and that a run that ends has freed its queries.
  \<^item> \<open>Client_Storage\<close>: what is saved is loaded.  \<open>Client_Laws\<close>, \<open>Client_Session\<close>, \<open>Client_Find\<close>: each command
    against the abstract server, with pings and answers in pieces.  \<open>Client_Claims\<close>, \<open>Client_Edges\<close>: what a
    user sees, also of lost connections and lines that are too long.
  \<^item> \<open>End_To_End\<close>: client and server, each on the bytes that the other one sends.
  \<^item> \<open>Shutdown\<close>: \<open>cleanup\<close> at the end of the server.  With nothing left to save it frees all threads, messages
    and handles once; a message that still waits is freed twice.  \<open>worse\<close> compares an operation with its run in a
    state where some messages have been freed before.
  \<^item> \<open>Sample_Server\<close>: a concrete server that the witnesses run on.

  \<^bold>\<open>Bounds and fuel.\<close>  Walks along linked nodes carry the number of live nodes as fuel, which suffices
  for every chain of a well-formed heap.  \<open>drain\<close> and \<open>handle_client_loop\<close> take the number of passes;
  the theorems ask for more than there are waiting requests or packets.

  A spinning client needs as many passes as there are queries: after them no pass completes one.

  \<^bold>\<open>Not modelled.\<close>  The argp library that reads the command lines, and \<open>load_args\<close> and the empty
  table of the client; the text \<open>vsnprintf\<close> formats for \<open>sendf\<close>, which is an argument; the error stream;
  the system calls around the server's socket beyond whether they succeed; data races between the
  threads inside one operation.
\<close>

end
